(* ===== verification/Prelude.thy ===== *)
theory Prelude
  imports Main "HOL-Library.Word" "HOL-Library.Monad_Syntax"
begin

text \<open>
  Shared vocabulary of the development.

  The code is C23 with one translation unit.  Every operation that can fail an \<open>assert\<close>,
  read or write outside an array, read a cell that was never written, or fail to return is a
  function into \<open>option\<close>: \<open>None\<close> is that abort, \<open>Some\<close> the normal return.  An
  \<open>int64\<close> of the source is an \<open>int\<close>, \<open>uint64\<close> and \<open>symbol_frequency\<close> are
  \<open>64 word\<close> (they wrap), a \<open>byte\<close> is an \<open>8 word\<close>.  An array that lives in the
  arena is a list of cells, each \<open>None\<close> until it is written.
\<close>

unbundle bit_operations_syntax

named_theorems repr_simps \<open>abstraction equations of the components\<close>
named_theorems total_intros \<open>an operation returns when its preconditions hold\<close>

type_synonym byte = "8 word"
type_synonym u16 = "16 word"
type_synonym u64 = "64 word"
type_synonym 'a cells = "'a option list"

section \<open>Assertions, arrays\<close>

definition check :: "bool \<Rightarrow> unit option" where
  "check b = (if b then Some () else None)"

lemma bind_check [simp]: "Option.bind (check b) f = (if b then f () else None)"
  by (simp add: check_def)

lemma check_True [simp]: "check True = Some ()" and check_False [simp]: "check False = None"
  by (simp_all add: check_def)

definition in_range :: "'a list \<Rightarrow> int \<Rightarrow> bool" where
  "in_range xs i \<longleftrightarrow> 0 \<le> i \<and> i < int (length xs)"

definition at :: "'a list \<Rightarrow> int \<Rightarrow> 'a option" where
  "at xs i = (if in_range xs i then Some (xs ! nat i) else None)"

definition put :: "'a list \<Rightarrow> int \<Rightarrow> 'a \<Rightarrow> 'a list option" where
  "put xs i v = (if in_range xs i then Some (xs[nat i := v]) else None)"

definition cell_at :: "'a cells \<Rightarrow> int \<Rightarrow> 'a option" where
  "cell_at xs i = Option.bind (at xs i) (\<lambda>c. c)"

definition cell_put :: "'a cells \<Rightarrow> int \<Rightarrow> 'a \<Rightarrow> 'a cells option" where
  "cell_put xs i v = put xs i (Some v)"

definition uninitialised :: "int \<Rightarrow> 'a cells" where
  "uninitialised n = replicate (nat n) None"

definition zeroed :: "int \<Rightarrow> 'a \<Rightarrow> 'a cells" where
  "zeroed n z = replicate (nat n) (Some z)"

lemma in_range_nat [simp]: "in_range xs (int k) \<longleftrightarrow> k < length xs"
  by (simp add: in_range_def)

lemma in_range_map [simp]: "in_range (map f xs) i = in_range xs i"
  by (simp add: in_range_def)

lemma in_range_update [simp]: "in_range (xs[k := v]) i = in_range xs i"
  by (simp add: in_range_def)

lemma at_nat [simp]: "at xs (int k) = (if k < length xs then Some (xs ! k) else None)"
  by (simp add: at_def)

lemma put_nat [simp]: "put xs (int k) v = (if k < length xs then Some (xs[k := v]) else None)"
  by (simp add: put_def)

lemma cell_at_full [simp]: "cell_at (map Some xs) i = at xs i"
  by (auto simp: cell_at_def at_def in_range_def)

lemma cell_put_full [simp]:
  "cell_put (map Some xs) i v = map_option (map Some) (put xs i v)"
  by (auto simp: cell_put_def put_def in_range_def map_update)

lemma cell_at_nat: "cell_at xs (int k) = (if k < length xs then xs ! k else None)"
  by (simp add: cell_at_def)

lemma cell_put_nat: "cell_put xs (int k) v = (if k < length xs then Some (xs[k := Some v]) else None)"
  by (simp add: cell_put_def)

lemma zeroed_full: "zeroed n z = map Some (replicate (nat n) z)"
  by (simp add: zeroed_def)

lemma length_zeroed [simp]: "length (zeroed n z) = nat n"
  by (simp add: zeroed_def)

lemma length_uninitialised [simp]: "length (uninitialised n) = nat n"
  by (simp add: uninitialised_def)

lemma length_put: "put xs i v = Some ys \<Longrightarrow> length ys = length xs"
  by (auto simp: put_def split: if_splits)

section \<open>Narrowing conversions\<close>

text \<open>Conversion of a wider signed integer to \<open>int16\<close>, the type of a \<open>symbol\<close>.\<close>

definition to_int16 :: "int \<Rightarrow> int" where
  "to_int16 x = signed_take_bit 15 x"

lemma to_int16_id [simp]: "-32768 \<le> x \<Longrightarrow> x < 32768 \<Longrightarrow> to_int16 x = x"
  unfolding to_int16_def by (rule signed_take_bit_int_eq_self) simp_all

section \<open>Words read as natural numbers\<close>

lemma unat_of_nat_small: "x < 2 ^ 64 \<Longrightarrow> unat (of_nat x :: u64) = x"
  by (simp add: unat_of_nat)

lemma u64_bound: "unat (x :: u64) < 2 ^ 64"
  using unsigned_less [of x, where 'a = nat] by simp

section \<open>Masks and shifts on non-negative integers\<close>

lemma and_mask_mod: "(x::int) AND (2 ^ k - 1) = x mod 2 ^ k"
  by (simp add: and_exp_eq_0_iff_not_bit mask_eq_exp_minus_1 [symmetric] take_bit_eq_mask [symmetric]
      take_bit_eq_mod)

lemma shiftr_div: "drop_bit k (x::int) = x div 2 ^ k"
  by (simp add: drop_bit_eq_div)

end
