(* ===== verification/Context.thy ===== *)
theory Context
  imports Prelude
begin

text \<open>
  \<open>src/data_structures/arena.c\<close> and \<open>src/context.c\<close>: the arena every fixed-size
  structure is carved from, the first-error-wins error slot, and the allocator the client
  supplies.  The allocator is a parameter: \<open>ctx_malloc c k n\<close> is what the \<open>k\<close>-th request
  answers, \<open>None\<close> for \<open>NULL\<close> and otherwise the (uninitialised) bytes of the block.
  The contents of the arena live in the structures that own its pieces.
\<close>

section \<open>Arena\<close>

record arena =
  arena_present :: bool
  arena_offset :: u64
  arena_length :: u64

definition arena_zero :: arena where
  "arena_zero = \<lparr>arena_present = False, arena_offset = 0, arena_length = 0\<rparr>"

definition arena_deinit :: "arena \<Rightarrow> arena" where
  "arena_deinit a = arena_zero"

definition arena_reset :: "arena \<Rightarrow> arena" where
  "arena_reset a = a\<lparr>arena_offset := 0\<rparr>"

definition arena_init :: "(u64 \<Rightarrow> byte list option) \<Rightarrow> u64 \<Rightarrow> bool \<times> arena" where
  "arena_init malloc len =
     (case malloc len of
        None \<Rightarrow> (False, arena_zero)
      | Some _ \<Rightarrow> (True, arena_reset \<lparr>arena_present = True, arena_offset = 0, arena_length = len\<rparr>))"

definition arena_allocate :: "arena \<Rightarrow> int \<Rightarrow> u64 \<Rightarrow> (u64 \<times> arena) option" where
  "arena_allocate a element_count byte_size = do {
     let allocation_size = word_of_int element_count * byte_size;
     check (arena_offset a + allocation_size < arena_length a);
     Some (arena_offset a, a\<lparr>arena_offset := arena_offset a + allocation_size\<rparr>)
   }"

section \<open>Errors\<close>

record error =
  message :: string
  message_length :: int
  is_present :: bool

definition no_error :: error where
  "no_error = \<lparr>message = [], message_length = 0, is_present = False\<rparr>"

record ctx =
  ctx_malloc :: "nat \<Rightarrow> u64 \<Rightarrow> byte list option"
  ctx_calloc :: "nat \<Rightarrow> u64 \<Rightarrow> u64 \<Rightarrow> bool"
  ctx_realloc :: "nat \<Rightarrow> u64 \<Rightarrow> bool"
  ctx_calls :: nat
  ctx_error :: error
  ctx_arena :: arena

definition context_is_errored :: "ctx \<Rightarrow> bool" where
  "context_is_errored c = is_present (ctx_error c)"

text \<open>
  \<open>ctx_ok M c\<close>: the context runs on the allocator \<open>M\<close>, whose blocks have the size asked
  for (as the C standard says of \<open>malloc\<close>), and an error is set only if \<open>M\<close> may refuse.
\<close>

definition never_refuses :: "(nat \<Rightarrow> u64 \<Rightarrow> byte list option) \<Rightarrow> bool" where
  "never_refuses M \<longleftrightarrow> (\<forall>k n. M k n \<noteq> None)"

definition ctx_ok :: "(nat \<Rightarrow> u64 \<Rightarrow> byte list option) \<Rightarrow> ctx \<Rightarrow> bool" where
  "ctx_ok M c \<longleftrightarrow> ctx_malloc c = M \<and> (\<forall>k n bs. M k n = Some bs \<longrightarrow> length bs = unat n) \<and>
     (never_refuses M \<longrightarrow> \<not> context_is_errored c)"

definition context_get_error :: "ctx \<Rightarrow> error" where
  "context_get_error c = ctx_error c"

definition context_clear_error :: "ctx \<Rightarrow> ctx" where
  "context_clear_error c = c\<lparr>ctx_error := no_error\<rparr>"

text \<open>
  \<open>msg\<close> is the formatted text.  \<open>vsnprintf\<close> stores at most 511 of its characters in the
  512 byte buffer and returns the length of the whole text.
\<close>

definition context_set_error :: "ctx \<Rightarrow> string \<Rightarrow> ctx" where
  "context_set_error c msg =
     (if context_is_errored c then c
      else c\<lparr>ctx_error := \<lparr>message = take 511 msg, message_length = int (length msg),
                           is_present = True\<rparr>\<rparr>)"

fun decimal :: "nat \<Rightarrow> string" where
  "decimal n = (if n < 10 then [char_of (48 + n)]
                else decimal (n div 10) @ [char_of (48 + n mod 10)])"

declare decimal.simps [simp del]

section \<open>Allocation\<close>

definition context_set_allocators ::
  "ctx \<Rightarrow> (nat \<Rightarrow> u64 \<Rightarrow> byte list option) \<Rightarrow> (nat \<Rightarrow> u64 \<Rightarrow> u64 \<Rightarrow> bool) \<Rightarrow>
   (nat \<Rightarrow> u64 \<Rightarrow> bool) \<Rightarrow> ctx" where
  "context_set_allocators c mlc clc rlc =
     c\<lparr>ctx_malloc := mlc, ctx_calloc := clc, ctx_realloc := rlc\<rparr>"

definition context_arena_allocate :: "ctx \<Rightarrow> int \<Rightarrow> u64 \<Rightarrow> (u64 \<times> ctx) option" where
  "context_arena_allocate c element_count single_element_size = do {
     (p, a) \<leftarrow> arena_allocate (ctx_arena c) element_count single_element_size;
     Some (p, c\<lparr>ctx_arena := a\<rparr>)
   }"

text \<open>
  The loop that zeroes the piece writes bytes the arena does not hold here: the structure that owns
  the piece starts with zeroed cells instead.
\<close>

definition context_arena_allocate_zero_init :: "ctx \<Rightarrow> int \<Rightarrow> u64 \<Rightarrow> (u64 \<times> ctx) option" where
  "context_arena_allocate_zero_init c element_count single_element_size =
     context_arena_allocate c element_count single_element_size"

definition context_set_error_on_malloc :: "ctx \<Rightarrow> u64 \<Rightarrow> ctx" where
  "context_set_error_on_malloc c byte_size =
     context_set_error c (''Failed to allocate memory: malloc('' @ decimal (unat byte_size) @ '')'')"

definition context_allocate :: "ctx \<Rightarrow> u64 \<Rightarrow> u64 \<Rightarrow> byte list option \<times> ctx" where
  "context_allocate c element_count single_element_size =
     (let byte_size = element_count * single_element_size;
          result = ctx_malloc c (ctx_calls c) byte_size;
          c = c\<lparr>ctx_calls := Suc (ctx_calls c)\<rparr>
      in case result of
           None \<Rightarrow> (None, context_set_error_on_malloc c byte_size)
         | Some block \<Rightarrow> (Some block, c))"

text \<open>The pointer \<open>base\<close> is printed into the message as a number, here \<open>base\<close>.\<close>

definition context_reallocate :: "ctx \<Rightarrow> u64 \<Rightarrow> u64 \<Rightarrow> u64 \<Rightarrow> bool \<times> ctx" where
  "context_reallocate c base new_element_count single_element_size =
     (let byte_size = new_element_count * single_element_size;
          result = ctx_realloc c (ctx_calls c) byte_size;
          c = c\<lparr>ctx_calls := Suc (ctx_calls c)\<rparr>
      in if result then (True, c)
         else (False, context_set_error c
                 (''Failed to allocate memory: realloc('' @ decimal (unat base) @ '', '' @
                  decimal (unat byte_size) @ '')'')))"

definition context_allocate_zero_init :: "ctx \<Rightarrow> u64 \<Rightarrow> u64 \<Rightarrow> byte list option \<times> ctx" where
  "context_allocate_zero_init c element_count single_element_size =
     (let result = ctx_calloc c (ctx_calls c) element_count single_element_size;
          c = c\<lparr>ctx_calls := Suc (ctx_calls c)\<rparr>
      in if result then (Some (replicate (unat element_count * unat single_element_size) 0), c)
         else (None, context_set_error c
                 (''Failed to allocate memory: calloc('' @ decimal (unat element_count) @ '', '' @
                  decimal (unat single_element_size) @ '')'')))"

section \<open>Life cycle\<close>

definition CONTEXT_ARENA_SIZE :: u64 where
  "CONTEXT_ARENA_SIZE = 32 * 1024 * 1024"

definition context_zero :: ctx where
  "context_zero = \<lparr>ctx_malloc = (\<lambda>_ _. None), ctx_calloc = (\<lambda>_ _ _. False),
     ctx_realloc = (\<lambda>_ _. False), ctx_calls = 0, ctx_error = no_error, ctx_arena = arena_zero\<rparr>"

definition context_deinit :: "ctx \<Rightarrow> ctx" where
  "context_deinit c = context_zero"

definition context_reset :: "ctx \<Rightarrow> ctx" where
  "context_reset c = context_clear_error (c\<lparr>ctx_arena := arena_reset (ctx_arena c)\<rparr>)"

definition context_init ::
  "(nat \<Rightarrow> u64 \<Rightarrow> byte list option) \<Rightarrow> (nat \<Rightarrow> u64 \<Rightarrow> u64 \<Rightarrow> bool) \<Rightarrow>
   (nat \<Rightarrow> u64 \<Rightarrow> bool) \<Rightarrow> bool \<times> ctx" where
  "context_init mlc clc rlc =
     (let c = context_set_allocators context_zero mlc clc rlc;
          (ok, a) = arena_init (ctx_malloc c (ctx_calls c)) CONTEXT_ARENA_SIZE;
          c = c\<lparr>ctx_arena := a, ctx_calls := Suc (ctx_calls c)\<rparr>
      in if \<not> ok then (False, context_deinit c) else (True, context_reset c))"

section \<open>Properties\<close>

lemma set_error_errored [simp]: "context_is_errored (context_set_error c m)"
  by (simp add: context_set_error_def context_is_errored_def)

lemma set_error_first_wins: "context_is_errored c \<Longrightarrow> context_set_error c m = c"
  by (simp add: context_set_error_def)

lemma set_error_on_malloc_errored [simp]: "context_is_errored (context_set_error_on_malloc c n)"
  by (simp add: context_set_error_on_malloc_def)

lemma set_error_fields [simp]:
  "ctx_malloc (context_set_error c m) = ctx_malloc c"
  "ctx_calls (context_set_error c m) = ctx_calls c"
  "ctx_arena (context_set_error c m) = ctx_arena c"
  by (simp_all add: context_set_error_def)

lemma ctx_ok_no_error: "ctx_ok M c \<Longrightarrow> never_refuses M \<Longrightarrow> \<not> context_is_errored c"
  by (simp add: ctx_ok_def)

lemma ctx_ok_same_error:
  "ctx_ok M c \<Longrightarrow> ctx_malloc c' = ctx_malloc c \<Longrightarrow> ctx_error c' = ctx_error c \<Longrightarrow> ctx_ok M c'"
  by (simp add: ctx_ok_def context_is_errored_def)

lemma ctx_ok_refused:
  "ctx_ok M c \<Longrightarrow> ctx_malloc c k n = None \<Longrightarrow> ctx_malloc c' = ctx_malloc c \<Longrightarrow> ctx_ok M c'"
  unfolding ctx_ok_def never_refuses_def by metis

lemma context_allocate_ok:
  assumes "context_allocate c n s = (r, c')" and "ctx_ok M c"
  shows "ctx_ok M c'"
proof (cases "ctx_malloc c (ctx_calls c) (n * s)")
  case None
  then have "ctx_malloc c' = ctx_malloc c"
    using assms(1) by (auto simp: context_allocate_def Let_def context_set_error_on_malloc_def)
  with assms(2) None show ?thesis by (rule ctx_ok_refused)
next
  case (Some bs)
  then have "ctx_malloc c' = ctx_malloc c" "ctx_error c' = ctx_error c"
    using assms(1) by (auto simp: context_allocate_def Let_def)
  with assms(2) show ?thesis by (rule ctx_ok_same_error)
qed

lemma context_allocate_cases:
  assumes "context_allocate c n s = (r, c')" and "ctx_ok M c"
  shows "ctx_ok M c' \<and>
         (case r of None \<Rightarrow> context_is_errored c'
          | Some bs \<Rightarrow> length bs = unat (n * s) \<and> ctx_error c' = ctx_error c)"
  using assms context_allocate_ok [OF assms]
  by (auto simp: context_allocate_def Let_def ctx_ok_def context_set_error_on_malloc_def
      split: option.splits)

lemma context_allocate_sticky:
  "context_allocate c n s = (r, c') \<Longrightarrow> context_is_errored c \<Longrightarrow> ctx_error c' = ctx_error c"
  by (auto simp: context_allocate_def Let_def context_set_error_on_malloc_def
      context_set_error_def context_is_errored_def split: option.splits)

section \<open>Room in the arena\<close>

text \<open>The bytes still to be handed out; an allocation must leave at least one.\<close>

definition arena_free :: "ctx \<Rightarrow> nat" where
  "arena_free c = unat (arena_length (ctx_arena c)) - unat (arena_offset (ctx_arena c))"

lemma arena_allocate_room:
  assumes "n * m < arena_free c"
  shows "\<exists>c'. context_arena_allocate c (int n) (of_nat m) = Some (arena_offset (ctx_arena c), c') \<and>
     arena_free c' = arena_free c - n * m \<and> ctx_error c' = ctx_error c \<and>
     unat (arena_offset (ctx_arena c')) = unat (arena_offset (ctx_arena c)) + n * m \<and>
     arena_length (ctx_arena c') = arena_length (ctx_arena c)"
proof -
  define off where "off = arena_offset (ctx_arena c)"
  define len where "len = arena_length (ctx_arena c)"
  define sz :: u64 where "sz = word_of_int (int n) * of_nat m"
  have room: "unat off + n * m < unat len"
    using assms by (simp add: arena_free_def off_def len_def)
  have "sz = of_nat (n * m)" by (simp add: sz_def)
  moreover have "n * m < 2 ^ 64" using room u64_bound [of len] by simp
  ultimately have "unat sz = n * m" by (simp only: unat_of_nat_small)
  moreover have "unat off + n * m < 2 ^ 64" using room u64_bound [of len] by simp
  ultimately have sum: "unat (off + sz) = unat off + n * m" by (simp add: unat_word_ariths)
  then have "off + sz < len" using room by (simp add: word_less_nat_alt)
  then show ?thesis
    using sum room
    by (simp add: context_arena_allocate_def arena_allocate_def Let_def arena_free_def
        off_def len_def sz_def)
qed

lemma arena_allocate_roomE:
  assumes "n * m < arena_free c"
  obtains c' where "context_arena_allocate c (int n) (of_nat m) = Some (arena_offset (ctx_arena c), c')"
    and "arena_free c' = arena_free c - n * m" and "ctx_error c' = ctx_error c"
  using arena_allocate_room [OF assms] by blast

lemma first_error_wins:
  assumes "context_allocate c n s = (r, c')"
  shows "(r = None \<longrightarrow> context_is_errored c') \<and> (context_is_errored c \<longrightarrow> ctx_error c' = ctx_error c) \<and>
     (r \<noteq> None \<longrightarrow> ctx_error c' = ctx_error c) \<and> ctx_error (context_set_error c' m) =
       (if context_is_errored c' then ctx_error c' else
          \<lparr>message = take 511 m, message_length = int (length m), is_present = True\<rparr>)"
  using assms by (auto simp: context_allocate_def Let_def context_set_error_on_malloc_def
      context_set_error_def context_is_errored_def split: option.splits)

end
