(* ===== verification/Fenwick_Tree.thy ===== *)
theory Fenwick_Tree
  imports Prelude Context
begin

text \<open>
  \<open>src/data_structures/fenwick_tree.c\<close>.  The tree is an array \<open>data\<close> of \<open>size\<close>
  cells, used from index 1; node \<open>i\<close> holds the sum of the frequencies of the symbols
  \<open>i - lb i ..< i\<close>, where \<open>lb i\<close> is the lowest set bit of \<open>i\<close>.  The two loops that walk
  the index by its low bit are partial: outside the asserted range they need not return.
\<close>

record ftree =
  ftree_size :: int
  ftree_data :: "u64 cells"

section \<open>Operations\<close>

definition ftree_deinit :: "ftree \<Rightarrow> ftree" where
  "ftree_deinit t = \<lparr>ftree_size = 0, ftree_data = []\<rparr>"

definition ftree_init :: "ctx \<Rightarrow> int \<Rightarrow> (ftree \<times> ctx) option" where
  "ftree_init c sz = do {
     (_, c) \<leftarrow> context_arena_allocate_zero_init c (sz + 1) 8;
     Some (\<lparr>ftree_size = sz + 1, ftree_data = zeroed (sz + 1) 0\<rparr>, c)
   }"

partial_function (option) ftree_add_loop ::
  "int \<Rightarrow> u64 \<Rightarrow> int \<Rightarrow> u64 cells \<Rightarrow> u64 cells option" where
  "ftree_add_loop sz delta i d =
     (if i < sz then do {
        v \<leftarrow> cell_at d i;
        d \<leftarrow> cell_put d i (v + delta);
        ftree_add_loop sz delta (i + (i AND - i)) d
      } else Some d)"

definition ftree_add :: "ftree \<Rightarrow> int \<Rightarrow> u64 \<Rightarrow> ftree option" where
  "ftree_add t symbol delta = do {
     check (symbol + 1 < ftree_size t);
     d \<leftarrow> ftree_add_loop (ftree_size t) delta (symbol + 1) (ftree_data t);
     Some (t\<lparr>ftree_data := d\<rparr>)
   }"

partial_function (option) ftree_sum_loop ::
  "u64 cells \<Rightarrow> int \<Rightarrow> u64 \<Rightarrow> u64 option" where
  "ftree_sum_loop d i result =
     (if i > 0 then do {
        v \<leftarrow> cell_at d i;
        ftree_sum_loop d (i - (i AND - i)) (result + v)
      } else Some result)"

definition ftree_sum :: "ftree \<Rightarrow> int \<Rightarrow> u64 option" where
  "ftree_sum t symbol = do {
     check (symbol + 1 < ftree_size t);
     ftree_sum_loop (ftree_data t) (symbol + 1) 0
   }"

text \<open>The two loops of \<open>ftree_fill_from_source_frequencies\<close>; the first argument counts the
  iterations left.\<close>

fun ftree_clear_loop :: "nat \<Rightarrow> int \<Rightarrow> u64 cells \<Rightarrow> u64 cells option" where
  "ftree_clear_loop 0 i d = Some d"
| "ftree_clear_loop (Suc k) i d = do { d \<leftarrow> cell_put d i 0; ftree_clear_loop k (i + 1) d }"

fun ftree_fill_loop :: "nat \<Rightarrow> int \<Rightarrow> u64 cells \<Rightarrow> ftree \<Rightarrow> ftree option" where
  "ftree_fill_loop 0 i values t = Some t"
| "ftree_fill_loop (Suc k) i values t = do {
     v \<leftarrow> cell_at values i;
     t \<leftarrow> ftree_add t i v;
     ftree_fill_loop k (i + 1) values t
   }"

definition ftree_fill_from_source_frequencies ::
  "ftree \<Rightarrow> u64 cells \<Rightarrow> int \<Rightarrow> ftree option" where
  "ftree_fill_from_source_frequencies t values end_offset = do {
     d \<leftarrow> ftree_clear_loop (nat (ftree_size t)) 0 (ftree_data t);
     ftree_fill_loop (nat (ftree_size t - 1 - end_offset)) 0 values (t\<lparr>ftree_data := d\<rparr>)
   }"

fun ftree_to_source_loop :: "nat \<Rightarrow> int \<Rightarrow> ftree \<Rightarrow> u64 cells \<Rightarrow> u64 cells option" where
  "ftree_to_source_loop 0 i t buffer = Some buffer"
| "ftree_to_source_loop (Suc k) i t buffer = do {
     a \<leftarrow> ftree_sum t i;
     b \<leftarrow> ftree_sum t (i - 1);
     buffer \<leftarrow> cell_put buffer i (a - b);
     ftree_to_source_loop k (i + 1) t buffer
   }"

definition ftree_to_source_array :: "ftree \<Rightarrow> u64 cells \<Rightarrow> u64 cells option" where
  "ftree_to_source_array t buffer = ftree_to_source_loop (nat (ftree_size t - 1)) 0 t buffer"

definition ftree_range_sum :: "ftree \<Rightarrow> int \<Rightarrow> int \<Rightarrow> u64 option" where
  "ftree_range_sum t from_index to_index = do {
     check (from_index + 1 < ftree_size t \<and> to_index + 1 < ftree_size t);
     if to_index < from_index then Some 0
     else do {
       a \<leftarrow> ftree_sum t to_index;
       b \<leftarrow> ftree_sum t (from_index - 1);
       Some (a - b)
     }
   }"

definition ftree_get :: "ftree \<Rightarrow> int \<Rightarrow> u64 option" where
  "ftree_get t symbol = do {
     check (symbol + 1 < ftree_size t);
     ftree_range_sum t symbol symbol
   }"

definition ftree_length :: "ftree \<Rightarrow> int" where
  "ftree_length t = ftree_size t - 1"

section \<open>The low bit\<close>

definition lb :: "nat \<Rightarrow> nat" where
  "lb k = nat (int k AND - int k)"

lemma odd_and_neg: "(2 * a + 1 :: int) AND - (2 * a + 1) = 1"
proof -
  have "- (2 * a + 1) = 2 * NOT a + 1" by (simp add: not_int_def)
  then show ?thesis
    by (simp add: and_int_rec [of "2 * a + 1"])
qed

lemma lb_odd_part:
  assumes "0 < k"
  obtains a m where "k = (2 * a + 1) * 2 ^ m" and "lb k = 2 ^ m"
proof -
  have "\<exists>a m. k = (2 * a + 1) * 2 ^ m"
    using assms
  proof (induction k rule: less_induct)
    case (less k)
    show ?case
    proof (cases "even k")
      case True
      then obtain k' where k': "k = 2 * k'" by blast
      with less.prems less.IH [of k'] obtain a m where "k' = (2 * a + 1) * 2 ^ m" by auto
      then have "k = (2 * a + 1) * 2 ^ Suc m" using k' by simp
      then show ?thesis by blast
    next
      case False
      then obtain a where "k = 2 * a + 1" by (rule oddE)
      then have "k = (2 * a + 1) * 2 ^ 0" by simp
      then show ?thesis by blast
    qed
  qed
  then obtain a m where k: "k = (2 * a + 1) * 2 ^ m" by blast
  have "int k = push_bit m (2 * int a + 1)"
    by (simp add: k push_bit_eq_mult algebra_simps)
  moreover have "- int k = push_bit m (- (2 * int a + 1))"
    by (simp add: k push_bit_eq_mult algebra_simps)
  ultimately have "int k AND - int k = push_bit m 1"
    by (simp only: push_bit_and [symmetric] odd_and_neg)
  then have "lb k = 2 ^ m" by (simp add: lb_def push_bit_eq_mult nat_power_eq)
  with k show ?thesis by (rule that)
qed

lemma lb_pos: "0 < k \<Longrightarrow> 0 < lb k"
  by (metis lb_odd_part zero_less_numeral zero_less_power)

lemma lb_le: "lb k \<le> k"
proof (cases "k = 0")
  case True
  then show ?thesis by (simp add: lb_def)
next
  case False
  then obtain a m where "k = (2 * a + 1) * 2 ^ m" and "lb k = 2 ^ m"
    by (metis lb_odd_part bot_nat_0.not_eq_extremum)
  then show ?thesis by simp
qed

lemma low_bit_int: "int k AND - int k = int (lb k)"
  by (simp add: lb_def)

text \<open>
  The interval of symbols a tree node \<open>j\<close> sums is \<open>j - lb j ..< j\<close>.  The nodes whose
  interval holds the symbol below \<open>i\<close> are \<open>i\<close> and those reached from \<open>i + lb i\<close>.
\<close>

lemma covers_step:
  assumes "0 < i"
  shows "(j - lb j < i \<and> i \<le> j) \<longleftrightarrow> j = i \<or> (j - lb j < i + lb i \<and> i + lb i \<le> j)"
proof (cases "j = 0")
  case True
  then show ?thesis using assms by auto
next
  case False
  obtain a m where i: "i = (2 * a + 1) * 2 ^ m" "lb i = 2 ^ m"
    using assms by (rule lb_odd_part)
  obtain b l where j: "j = (2 * b + 1) * 2 ^ l" "lb j = 2 ^ l"
    using False by (metis lb_odd_part bot_nat_0.not_eq_extremum)
  have "j - lb j = (2 * b + 1) * 2 ^ l - 2 ^ l" using j by simp
  then have jl: "j - lb j = 2 * b * 2 ^ l" by (simp add: algebra_simps)
  show ?thesis
  proof (cases "l \<le> m")
    case True
    then obtain d where d: "m = l + d" using le_Suc_ex by blast
    define c where "c = (2 * a + 1) * 2 ^ d"
    define e where "e = (a + 1) * 2 ^ d"
    have ic: "i = c * 2 ^ l" by (simp add: i c_def d power_add algebra_simps)
    have next_i: "i + lb i = (2 * e) * 2 ^ l" unfolding i(2) by (simp add: i(1) e_def d power_add algebra_simps)
    define B where "B = 2 * b + 1"
    have jB: "j = B * 2 ^ l" by (simp add: j B_def)
    have "(j - lb j < i \<and> i \<le> j) \<longleftrightarrow> 2 * b < c \<and> c \<le> B"
      unfolding jl unfolding jB ic by simp
    also have "\<dots> \<longleftrightarrow> c = B" by (auto simp: B_def)
    also have "\<dots> \<longleftrightarrow> j = i" by (auto simp: jB ic)
    finally have 1: "(j - lb j < i \<and> i \<le> j) \<longleftrightarrow> j = i" .
    have "\<not> (j - lb j < i + lb i \<and> i + lb i \<le> j)"
      unfolding jl next_i unfolding jB by simp (auto simp: B_def)
    with 1 show ?thesis by blast
  next
    case False
    then obtain d where d: "l = m + Suc d" by (metis less_iff_Suc_add not_le add_Suc_right)
    define f where "f = b * 2 ^ d"
    define g where "g = (2 * b + 1) * 2 ^ d"
    have jf: "j - lb j = (4 * f) * 2 ^ m" unfolding jl by (simp add: f_def d power_add algebra_simps)
    have jg: "j = (2 * g) * 2 ^ m" by (simp add: j g_def d power_add algebra_simps)
    have next_i: "i + lb i = (2 * a + 2) * 2 ^ m" unfolding i(2) by (simp add: i(1) algebra_simps)
    have "(j - lb j < i \<and> i \<le> j) \<longleftrightarrow> 4 * f < 2 * a + 1 \<and> 2 * a + 1 \<le> 2 * g"
      unfolding jf unfolding jg i(1) by (simp only: mult_less_cancel2 mult_le_cancel2) simp
    also have "\<dots> \<longleftrightarrow> 4 * f < 2 * a + 2 \<and> 2 * a + 2 \<le> 2 * g" by presburger
    also have "\<dots> \<longleftrightarrow> (j - lb j < i + lb i \<and> i + lb i \<le> j)"
      unfolding jf next_i unfolding jg by (simp only: mult_less_cancel2 mult_le_cancel2) simp
    finally have "(j - lb j < i \<and> i \<le> j) \<longleftrightarrow> (j - lb j < i + lb i \<and> i + lb i \<le> j)" .
    moreover have "j \<noteq> i"
    proof
      assume "j = i"
      then have "2 * g = 2 * a + 1" unfolding jg i(1) by (simp only: mult_cancel2) simp
      then show False by presburger
    qed
    ultimately show ?thesis by blast
  qed
qed

section \<open>Representation\<close>

text \<open>\<open>ftree_repr t fs\<close>: the tree stands for the frequencies \<open>fs\<close>, one per symbol.\<close>

definition node_sum :: "u64 list \<Rightarrow> nat \<Rightarrow> u64" where
  "node_sum fs j = (\<Sum>k\<in>{j - lb j..<j}. fs ! k)"

definition ftree_repr :: "ftree \<Rightarrow> u64 list \<Rightarrow> bool" where
  "ftree_repr t fs \<longleftrightarrow> ftree_size t = int (length fs) + 1 \<and>
     (\<exists>ws. ftree_data t = map Some ws \<and> length ws = Suc (length fs) \<and>
           (\<forall>j. 0 < j \<longrightarrow> j \<le> length fs \<longrightarrow> ws ! j = node_sum fs j))"

definition prefix_sum :: "u64 list \<Rightarrow> nat \<Rightarrow> u64" where
  "prefix_sum fs i = (\<Sum>k\<in>{0..<i}. fs ! k)"

lemma prefix_sum_0 [simp]: "prefix_sum fs 0 = 0"
  by (simp add: prefix_sum_def)

lemma prefix_sum_Suc [simp]: "prefix_sum fs (Suc i) = prefix_sum fs i + fs ! i"
  by (simp add: prefix_sum_def)

lemma prefix_sum_node: "prefix_sum fs j = prefix_sum fs (j - lb j) + node_sum fs j"
  unfolding prefix_sum_def node_sum_def using lb_le [of j]
  by (subst sum.atLeastLessThan_concat) simp_all

lemma ftree_repr_size [repr_simps]: "ftree_repr t fs \<Longrightarrow> ftree_size t = int (length fs) + 1"
  by (simp add: ftree_repr_def)

lemma ftree_repr_length [repr_simps]: "ftree_repr t fs \<Longrightarrow> ftree_length t = int (length fs)"
  by (simp add: ftree_repr_def ftree_length_def)

section \<open>Sums\<close>

lemma ftree_sum_loop_correct:
  assumes "length ws = Suc (length fs)" and "i \<le> length fs"
    and "\<forall>j. 0 < j \<longrightarrow> j \<le> length fs \<longrightarrow> ws ! j = node_sum fs j"
  shows "ftree_sum_loop (map Some ws) (int i) acc = Some (acc + prefix_sum fs i)"
  using assms(2)
proof (induction i arbitrary: acc rule: less_induct)
  case (less i)
  show ?case
  proof (cases "i = 0")
    case True
    then show ?thesis by (simp add: ftree_sum_loop.simps)
  next
    case False
    have step: "int i - (int i AND - int i) = int (i - lb i)"
      using lb_le [of i] by (simp add: low_bit_int)
    have "i - lb i < i" using False lb_pos [of i] by simp
    with less.IH [of "i - lb i" "acc + ws ! i"] less.prems
    have IH: "ftree_sum_loop (map Some ws) (int (i - lb i)) (acc + ws ! i) =
        Some (acc + ws ! i + prefix_sum fs (i - lb i))" by simp
    have "ftree_sum_loop (map Some ws) (int i) acc =
        ftree_sum_loop (map Some ws) (int (i - lb i)) (acc + ws ! i)"
      using False less.prems assms(1) by (subst ftree_sum_loop.simps) (simp add: step)
    with IH show ?thesis
      using False less.prems assms(3) by (simp add: prefix_sum_node [of fs i])
  qed
qed

lemma ftree_sum_correct [repr_simps]:
  assumes "ftree_repr t fs" and "-1 \<le> s" and "s < int (length fs)"
  shows "ftree_sum t s = Some (prefix_sum fs (nat (s + 1)))"
proof -
  from assms(1) obtain ws where ws: "ftree_data t = map Some ws" "length ws = Suc (length fs)"
      "\<forall>j. 0 < j \<longrightarrow> j \<le> length fs \<longrightarrow> ws ! j = node_sum fs j"
    by (auto simp: ftree_repr_def)
  have "s + 1 = int (nat (s + 1))" using assms(2) by simp
  moreover have "nat (s + 1) \<le> length fs" using assms(3) by simp
  ultimately show ?thesis
    using ftree_sum_loop_correct [OF ws(2) _ ws(3), of "nat (s + 1)" 0] assms
    by (simp add: ftree_sum_def ws(1) ftree_repr_size)
qed

lemma ftree_range_sum_correct [repr_simps]:
  assumes "ftree_repr t fs" and "0 \<le> a" and "a < int (length fs)" and "b < int (length fs)"
  shows "ftree_range_sum t a b = Some (if b < a then 0
           else prefix_sum fs (nat (b + 1)) - prefix_sum fs (nat a))"
  using assms by (simp add: ftree_range_sum_def ftree_repr_size ftree_sum_correct)

lemma ftree_get_correct [repr_simps]:
  assumes "ftree_repr t fs" and "0 \<le> s" and "s < int (length fs)"
  shows "ftree_get t s = Some (fs ! nat s)"
proof -
  have "nat (s + 1) = Suc (nat s)" using assms(2) by simp
  with assms show ?thesis
    by (simp add: ftree_get_def ftree_repr_size ftree_range_sum_correct)
qed

section \<open>Updates\<close>

lemma ftree_add_loop_correct:
  assumes "0 < i"
  shows "\<exists>ws'. ftree_add_loop (int (length ws)) delta (int i) (map Some ws) = Some (map Some ws') \<and>
     length ws' = length ws \<and>
     (\<forall>j<length ws. ws' ! j = ws ! j + (if j - lb j < i \<and> i \<le> j then delta else 0))"
  using assms
proof (induction "length ws - i" arbitrary: i ws rule: less_induct)
  case less
  show ?case
  proof (cases "i < length ws")
    case False
    then have "ftree_add_loop (int (length ws)) delta (int i) (map Some ws) = Some (map Some ws)"
      by (simp add: ftree_add_loop.simps)
    with False show ?thesis by force
  next
    case True
    define ws1 where "ws1 = ws[i := ws ! i + delta]"
    have pos: "0 < lb i" using less.prems by (rule lb_pos)
    have "length ws1 - (i + lb i) < length ws - i" using True pos by (simp add: ws1_def)
    from less.hyps [OF this] pos obtain ws' where
      run: "ftree_add_loop (int (length ws1)) delta (int (i + lb i)) (map Some ws1) =
              Some (map Some ws')"
      and len: "length ws' = length ws1"
      and val: "\<forall>j<length ws1. ws' ! j =
              ws1 ! j + (if j - lb j < i + lb i \<and> i + lb i \<le> j then delta else 0)"
      by auto
    have "ftree_add_loop (int (length ws)) delta (int i) (map Some ws) = Some (map Some ws')"
      using True run by (subst ftree_add_loop.simps) (simp add: low_bit_int ws1_def)
    moreover have "\<forall>j<length ws. ws' ! j = ws ! j + (if j - lb j < i \<and> i \<le> j then delta else 0)"
      using val pos covers_step [OF less.prems]
      by (auto simp: ws1_def nth_list_update)
    ultimately show ?thesis using len by (auto simp: ws1_def)
  qed
qed

lemma node_sum_update:
  assumes "s < length fs" and "j \<le> length fs"
  shows "node_sum (fs[s := fs ! s + d]) j =
         node_sum fs j + (if j - lb j < Suc s \<and> Suc s \<le> j then d else 0)"
proof -
  have "node_sum (fs[s := fs ! s + d]) j = (\<Sum>k\<in>{j - lb j..<j}. fs ! k + (if k = s then d else 0))"
    unfolding node_sum_def using assms by (intro sum.cong) (auto simp: nth_list_update)
  also have "\<dots> = node_sum fs j + (if s \<in> {j - lb j..<j} then d else 0)"
    by (simp add: node_sum_def sum.distrib)
  finally show ?thesis by (simp add: less_Suc_eq_le Suc_le_eq)
qed

lemma ftree_add_correct:
  assumes "ftree_repr t fs" and "0 \<le> s" and "s < int (length fs)"
  shows "\<exists>t'. ftree_add t s d = Some t' \<and> ftree_repr t' (fs[nat s := fs ! nat s + d])"
proof -
  from assms(1) obtain ws where ws: "ftree_data t = map Some ws" "length ws = Suc (length fs)"
      "\<forall>j. 0 < j \<longrightarrow> j \<le> length fs \<longrightarrow> ws ! j = node_sum fs j"
    by (auto simp: ftree_repr_def)
  have i: "s + 1 = int (Suc (nat s))" using assms(2) by simp
  from ftree_add_loop_correct [of "Suc (nat s)" ws d] obtain ws' where
    run: "ftree_add_loop (int (length ws)) d (s + 1) (map Some ws) = Some (map Some ws')"
    and len: "length ws' = length ws"
    and val: "\<forall>j<length ws. ws' ! j = ws ! j +
                (if j - lb j < Suc (nat s) \<and> Suc (nat s) \<le> j then d else 0)"
    unfolding i by auto
  have "ftree_add t s d = Some (t\<lparr>ftree_data := map Some ws'\<rparr>)"
    using run assms ws(1,2) by (simp add: ftree_add_def ftree_repr_size add.commute)
  moreover have "ftree_repr (t\<lparr>ftree_data := map Some ws'\<rparr>) (fs[nat s := fs ! nat s + d])"
    using assms ws len val by (auto simp: ftree_repr_def node_sum_update)
  ultimately show ?thesis by blast
qed

lemma ftree_addE:
  assumes "ftree_repr t fs" and "0 \<le> s" and "s < int (length fs)"
  obtains t' where "ftree_add t s d = Some t'" and "ftree_repr t' (fs[nat s := fs ! nat s + d])"
  using ftree_add_correct [OF assms] by blast

section \<open>Initialisation, fill and extraction\<close>

lemma node_sum_zero: "j \<le> n \<Longrightarrow> node_sum (replicate n 0) j = 0"
  unfolding node_sum_def by (intro sum.neutral) auto

lemma ftree_repr_zero:
  "ftree_repr \<lparr>ftree_size = int n + 1, ftree_data = map Some (replicate (Suc n) 0)\<rparr> (replicate n 0)"
  by (auto simp: ftree_repr_def node_sum_zero intro!: exI [of _ "replicate (Suc n) 0"]
      simp del: replicate_Suc)

lemma ftree_init_repr:
  assumes "ftree_init c (int n) = Some (t, c')"
  shows "ftree_repr t (replicate n 0)"
proof -
  have "nat (int n + 1) = Suc n" by simp
  then show ?thesis
    using assms ftree_repr_zero [of n]
    by (auto simp: ftree_init_def zeroed_full bind_eq_Some_conv simp del: replicate_Suc)
qed

lemma ftree_clear_loop_correct:
  "k + i = length ws \<Longrightarrow>
   ftree_clear_loop k (int i) (map Some ws) = Some (map Some (take i ws @ replicate k 0))"
proof (induction k arbitrary: i ws)
  case 0
  then show ?case by simp
next
  case (Suc k)
  have "ftree_clear_loop k (int (Suc i)) (map Some (ws[i := 0])) =
        Some (map Some (take (Suc i) (ws[i := 0]) @ replicate k 0))"
    using Suc.prems by (intro Suc.IH) simp
  moreover have "take (Suc i) (ws[i := 0]) = take i ws @ [0]"
    using Suc.prems by (simp add: take_Suc_conv_app_nth)
  ultimately show ?case using Suc.prems by (simp add: add.commute)
qed

lemma ftree_fill_loop_correct:
  assumes "ftree_repr t fs" and "k + i \<le> length fs" and "k + i \<le> length vs"
  shows "\<exists>t'. ftree_fill_loop k (int i) (map Some vs) t = Some t' \<and>
     ftree_repr t' (map (\<lambda>j. fs ! j + (if i \<le> j \<and> j < i + k then vs ! j else 0)) [0..<length fs])"
  using assms
proof (induction k arbitrary: i t fs)
  case 0
  have "map (\<lambda>j. fs ! j + (if i \<le> j \<and> j < i + 0 then vs ! j else 0)) [0..<length fs] = fs"
    by (intro nth_equalityI) auto
  with "0.prems" show ?case by simp
next
  case (Suc k)
  define fs1 where "fs1 = fs[i := fs ! i + vs ! i]"
  obtain t1 where t1: "ftree_add t (int i) (vs ! i) = Some t1" "ftree_repr t1 fs1"
    using ftree_addE [OF Suc.prems(1), of "int i" "vs ! i"] Suc.prems by (auto simp: fs1_def)
  have "k + Suc i \<le> length fs1" "k + Suc i \<le> length vs"
    using Suc.prems by (auto simp: fs1_def)
  from Suc.IH [OF t1(2) this] obtain t' where
    t': "ftree_fill_loop k (int (Suc i)) (map Some vs) t1 = Some t'"
      "ftree_repr t' (map (\<lambda>j. fs1 ! j + (if Suc i \<le> j \<and> j < Suc i + k then vs ! j else 0))
                       [0..<length fs1])" by blast
  have "map (\<lambda>j. fs1 ! j + (if Suc i \<le> j \<and> j < Suc i + k then vs ! j else 0)) [0..<length fs1] =
        map (\<lambda>j. fs ! j + (if i \<le> j \<and> j < i + Suc k then vs ! j else 0)) [0..<length fs]"
    using Suc.prems by (intro nth_equalityI) (auto simp: fs1_def nth_list_update)
  with t' t1(1) Suc.prems show ?case by (auto simp: add.commute)
qed

lemma ftree_fill_correct:
  assumes "ftree_repr t fs" and "e \<le> length fs" and "length fs - e \<le> length vs"
  shows "\<exists>t'. ftree_fill_from_source_frequencies t (map Some vs) (int e) = Some t' \<and>
     ftree_repr t' (take (length fs - e) vs @ replicate e 0)"
proof -
  from assms(1) obtain ws where ws: "ftree_data t = map Some ws" "length ws = Suc (length fs)"
    by (auto simp: ftree_repr_def)
  define t0 where "t0 = t\<lparr>ftree_data := map Some (replicate (Suc (length fs)) 0)\<rparr>"
  have sz: "nat (ftree_size t) = length ws"
    using assms(1) ws by (simp add: ftree_repr_size)
  have clear: "ftree_clear_loop (nat (ftree_size t)) 0 (ftree_data t) =
      Some (map Some (replicate (Suc (length fs)) 0))"
    using ftree_clear_loop_correct [of "length ws" 0 ws] ws by (simp add: sz)
  have "t0 = \<lparr>ftree_size = int (length fs) + 1, ftree_data = map Some (replicate (Suc (length fs)) 0)\<rparr>"
    using assms(1) by (simp add: t0_def ftree_repr_def)
  then have r0: "ftree_repr t0 (replicate (length fs) 0)" using ftree_repr_zero by simp
  have n: "nat (ftree_size t - 1 - int e) = length fs - e"
    using assms by (simp add: ftree_repr_size nat_diff_distrib)
  have "length fs - e + 0 \<le> length (replicate (length fs) (0::u64))" by simp
  from ftree_fill_loop_correct [OF r0 this, of vs] assms(3) obtain t' where
    t': "ftree_fill_loop (length fs - e) 0 (map Some vs) t0 = Some t'"
      "ftree_repr t' (map (\<lambda>j. replicate (length fs) 0 ! j + (if 0 \<le> j \<and> j < 0 + (length fs - e)
          then vs ! j else 0)) [0..<length fs])" by auto
  have "map (\<lambda>j. replicate (length fs) 0 ! j + (if 0 \<le> j \<and> j < 0 + (length fs - e)
          then vs ! j else 0)) [0..<length fs] = take (length fs - e) vs @ replicate e 0"
    using assms(2,3) by (intro nth_equalityI) (auto simp: nth_append)
  with t' clear n show ?thesis
    by (auto simp: ftree_fill_from_source_frequencies_def t0_def)
qed

lemma ftree_to_source_loop_correct:
  assumes "ftree_repr t fs" and "k + i = length fs" and "length fs \<le> length buf"
  shows "ftree_to_source_loop k (int i) t buf =
         Some (take i buf @ map Some (drop i fs) @ drop (length fs) buf)"
  using assms(2,3)
proof (induction k arbitrary: i buf)
  case 0
  then show ?case by simp
next
  case (Suc k)
  have a: "ftree_sum t (int i) = Some (prefix_sum fs (Suc i))"
    using ftree_sum_correct [OF assms(1), of "int i"] Suc.prems by (simp add: nat_add_distrib)
  have b: "ftree_sum t (int i - 1) = Some (prefix_sum fs i)"
    using ftree_sum_correct [OF assms(1), of "int i - 1"] Suc.prems by simp
  have "ftree_to_source_loop k (int (Suc i)) t (buf[i := Some (fs ! i)]) =
        Some (take (Suc i) (buf[i := Some (fs ! i)]) @ map Some (drop (Suc i) fs) @
              drop (length fs) (buf[i := Some (fs ! i)]))"
    using Suc.prems by (intro Suc.IH) auto
  moreover have "take (Suc i) (buf[i := Some (fs ! i)]) = take i buf @ [Some (fs ! i)]"
    using Suc.prems by (simp add: take_Suc_conv_app_nth)
  moreover have "drop i fs = fs ! i # drop (Suc i) fs"
    using Suc.prems by (intro Cons_nth_drop_Suc [symmetric]) simp
  ultimately show ?case
    using Suc.prems a b by (simp add: cell_put_nat add.commute)
qed

lemma ftree_to_source_array_correct:
  assumes "ftree_repr t fs" and "length buf = length fs"
  shows "ftree_to_source_array t buf = Some (map Some fs)"
  using ftree_to_source_loop_correct [OF assms(1), of "length fs" 0 buf] assms
  by (simp add: ftree_to_source_array_def ftree_repr_size)

end
