(* ===== verification/Acod_Constants.thy ===== *)
theory Acod_Constants
  imports Prelude
begin

text \<open>\<open>src/arithmetic_coding/constants.c\<close>: sizes of the arithmetic coder's state.\<close>

definition ACOD_STATE_SIZE_BITS :: nat where
  "ACOD_STATE_SIZE_BITS = 32"

definition ACOD_FULL_RANGE :: u64 where
  "ACOD_FULL_RANGE = push_bit ACOD_STATE_SIZE_BITS 1"

definition ACOD_HALF_RANGE :: u64 where
  "ACOD_HALF_RANGE = drop_bit 1 ACOD_FULL_RANGE"

definition ACOD_QUARTER_RANGE :: u64 where
  "ACOD_QUARTER_RANGE = drop_bit 1 ACOD_HALF_RANGE"

definition ACOD_MIN_RANGE :: u64 where
  "ACOD_MIN_RANGE = ACOD_QUARTER_RANGE + 2"

definition ACOD_MAX_TOTAL_UNCAPPED :: u64 where
  "ACOD_MAX_TOTAL_UNCAPPED = (-1) div ACOD_FULL_RANGE"

definition ACOD_MAX_TOTAL :: u64 where
  "ACOD_MAX_TOTAL =
     (if ACOD_MAX_TOTAL_UNCAPPED > ACOD_MIN_RANGE then ACOD_MIN_RANGE else ACOD_MAX_TOTAL_UNCAPPED)"

definition ACOD_STATE_MASK :: u64 where
  "ACOD_STATE_MASK = ACOD_FULL_RANGE - 1"

lemma acod_constants:
  "ACOD_FULL_RANGE = 2 ^ 32" "ACOD_HALF_RANGE = 2 ^ 31" "ACOD_QUARTER_RANGE = 2 ^ 30"
  "ACOD_STATE_MASK = mask 32" "ACOD_MAX_TOTAL = 2 ^ 30 + 2"
proof -
  show full: "ACOD_FULL_RANGE = 2 ^ 32"
    by (simp add: ACOD_FULL_RANGE_def ACOD_STATE_SIZE_BITS_def push_bit_eq_mult)
  show half: "ACOD_HALF_RANGE = 2 ^ 31"
    by (simp add: ACOD_HALF_RANGE_def full)
  show quarter: "ACOD_QUARTER_RANGE = 2 ^ 30"
    by (simp add: ACOD_QUARTER_RANGE_def half)
  show "ACOD_STATE_MASK = mask 32"
    by (simp add: ACOD_STATE_MASK_def full mask_eq_exp_minus_1)
  show "ACOD_MAX_TOTAL = 2 ^ 30 + 2"
    by (simp add: ACOD_MAX_TOTAL_def ACOD_MAX_TOTAL_UNCAPPED_def ACOD_MIN_RANGE_def full quarter)
qed

lemma unat_ACOD_MAX_TOTAL: "unat ACOD_MAX_TOTAL = 2 ^ 30 + 2"
  by (simp add: acod_constants(5))

end
