(* ===== verification/Frequency_Table.thy ===== *)
theory Frequency_Table
  imports Fenwick_Tree Acod_Constants
begin

text \<open>
  \<open>src/arithmetic_coding/frequency_table.c\<close>: adaptive symbol frequencies over a Fenwick
  tree, with the halving that keeps the total below the coder's limit.  \<open>ftable_repr t fs\<close>
  says the table stands for the list \<open>fs\<close> of natural frequencies.
\<close>

section \<open>Operations\<close>

definition FTABLE_INCLUDE_EOF :: int where "FTABLE_INCLUDE_EOF = push_bit 0 1"
definition FTABLE_EXCLUDE_EOF :: int where "FTABLE_EXCLUDE_EOF = push_bit 1 1"
definition FTABLE_INIT_ZERO :: int where "FTABLE_INIT_ZERO = push_bit 2 1"
definition FTABLE_INIT_ONE :: int where "FTABLE_INIT_ONE = push_bit 3 1"

record ftable =
  frequencies :: ftree
  total :: u64
  compaction_buffer :: "u64 cells"
  is_eof_included :: bool

definition ftable_get_init_value :: "int \<Rightarrow> u64" where
  "ftable_get_init_value init_flags = (if init_flags AND FTABLE_INIT_ONE \<noteq> 0 then 1 else 0)"

definition ftable_get_eof_length_padding :: "int \<Rightarrow> int" where
  "ftable_get_eof_length_padding init_flags =
     (if init_flags AND FTABLE_INCLUDE_EOF \<noteq> 0 then 1 else 0)"

fun ftable_halve_loop :: "nat \<Rightarrow> int \<Rightarrow> u64 cells \<Rightarrow> u64 \<Rightarrow> (u64 cells \<times> u64) option" where
  "ftable_halve_loop 0 i buf new_total = Some (buf, new_total)"
| "ftable_halve_loop (Suc k) i buf new_total = do {
     freq \<leftarrow> cell_at buf i;
     let freq = (if freq AND 1 \<noteq> 0 then freq + 1 else freq) div 2;
     buf \<leftarrow> cell_put buf i freq;
     ftable_halve_loop k (i + 1) buf (new_total + freq)
   }"

definition ftable_divide_by_half :: "ftable \<Rightarrow> ftable option" where
  "ftable_divide_by_half t = do {
     let len = to_int16 (ftree_length (frequencies t));
     buf \<leftarrow> ftree_to_source_array (frequencies t) (compaction_buffer t);
     (buf, new_total) \<leftarrow> ftable_halve_loop (nat len) 0 buf 0;
     tree \<leftarrow> ftree_fill_from_source_frequencies (frequencies t) buf 0;
     Some (t\<lparr>frequencies := tree, compaction_buffer := buf, total := new_total\<rparr>)
   }"

partial_function (option) ftable_halve_until_total_below_limit :: "ftable \<Rightarrow> u64 \<Rightarrow> ftable option" where
  "ftable_halve_until_total_below_limit t limit =
     (if total t \<ge> limit then do {
        t \<leftarrow> ftable_divide_by_half t;
        ftable_halve_until_total_below_limit t limit
      } else Some t)"

definition ftable_increment :: "ftable \<Rightarrow> int \<Rightarrow> ftable option" where
  "ftable_increment t symbol = do {
     t \<leftarrow> ftable_halve_until_total_below_limit t ACOD_MAX_TOTAL;
     tree \<leftarrow> ftree_add (frequencies t) symbol 1;
     Some (t\<lparr>total := total t + 1, frequencies := tree\<rparr>)
   }"

definition ftable_deinit :: "ftable \<Rightarrow> ftable" where
  "ftable_deinit t = \<lparr>frequencies = ftree_deinit (frequencies t), total = 0,
                      compaction_buffer = [], is_eof_included = False\<rparr>"

fun ftable_increment_loop :: "nat \<Rightarrow> int \<Rightarrow> ftable \<Rightarrow> ftable option" where
  "ftable_increment_loop 0 i t = Some t"
| "ftable_increment_loop (Suc k) i t = do {
     t \<leftarrow> ftable_increment t i;
     ftable_increment_loop k (i + 1) t
   }"

definition ftable_init :: "ctx \<Rightarrow> int \<Rightarrow> int \<Rightarrow> (ftable \<times> ctx) option" where
  "ftable_init c len init_flags = do {
     let eof_padding = ftable_get_eof_length_padding init_flags;
     (tree, c) \<leftarrow> ftree_init c (len + eof_padding);
     (_, c) \<leftarrow> context_arena_allocate c (ftree_length tree) 8;
     let t = \<lparr>frequencies = tree, total = 0, compaction_buffer = uninitialised (ftree_length tree),
              is_eof_included = (eof_padding > 0)\<rparr>;
     t \<leftarrow> (if is_eof_included t then ftable_increment t len else Some t);
     t \<leftarrow> (if ftable_get_init_value init_flags = 1 then ftable_increment_loop (nat len) 0 t else Some t);
     Some (t, c)
   }"

definition ftable_get_symbol_limit :: "ftable \<Rightarrow> int" where
  "ftable_get_symbol_limit t = to_int16 (ftree_length (frequencies t))"

definition ftable_get_symbol_count :: "ftable \<Rightarrow> int" where
  "ftable_get_symbol_count t =
     (if \<not> is_eof_included t then ftable_get_symbol_limit t else ftable_get_symbol_limit t - 1)"

fun ftable_total_loop :: "nat \<Rightarrow> int \<Rightarrow> u64 cells \<Rightarrow> u64 \<Rightarrow> u64 option" where
  "ftable_total_loop 0 i values acc = Some acc"
| "ftable_total_loop (Suc k) i values acc = do {
     v \<leftarrow> cell_at values i;
     ftable_total_loop k (i + 1) values (acc + v)
   }"

definition ftable_fill_from_frequencies :: "ftable \<Rightarrow> u64 cells \<Rightarrow> ftable option" where
  "ftable_fill_from_frequencies t values = do {
     let len = ftable_get_symbol_count t;
     tree \<leftarrow> ftree_fill_from_source_frequencies (frequencies t) values
               (if is_eof_included t then 1 else 0);
     tot \<leftarrow> ftable_total_loop (nat len) 0 values 0;
     let t = t\<lparr>frequencies := tree, total := tot\<rparr>;
     if is_eof_included t then ftable_increment t len else Some t
   }"

definition ftable_get_eof_symbol :: "ftable \<Rightarrow> int" where
  "ftable_get_eof_symbol t = ftable_get_symbol_limit t - 1"

definition ftable_get_frequency :: "ftable \<Rightarrow> int \<Rightarrow> u64 option" where
  "ftable_get_frequency t symbol = ftree_get (frequencies t) symbol"

definition ftable_get_low :: "ftable \<Rightarrow> int \<Rightarrow> u64 option" where
  "ftable_get_low t symbol = (if symbol = 0 then Some 0 else ftree_sum (frequencies t) (symbol - 1))"

definition ftable_get_high :: "ftable \<Rightarrow> int \<Rightarrow> u64 option" where
  "ftable_get_high t symbol = ftree_sum (frequencies t) symbol"

definition ftable_get_total :: "ftable \<Rightarrow> u64" where
  "ftable_get_total t = total t"

section \<open>Frequencies as natural numbers\<close>

definition cum :: "nat list \<Rightarrow> nat \<Rightarrow> nat" where
  "cum fs s = sum_list (take s fs)"

definition halve :: "nat list \<Rightarrow> nat list" where
  "halve fs = map (\<lambda>f. (f + 1) div 2) fs"

function halve_until :: "nat \<Rightarrow> nat list \<Rightarrow> nat list" where
  "halve_until limit fs =
     (if sum_list fs < limit \<or> sum_list fs \<le> sum_list (halve fs) then fs
      else halve_until limit (halve fs))"
  by pat_completeness auto
termination
  by (relation "measure (\<lambda>(limit, fs). sum_list fs)") auto

declare halve_until.simps [simp del]

definition bump :: "nat list \<Rightarrow> nat \<Rightarrow> nat list" where
  "bump fs s = (let gs = halve_until (2 ^ 30 + 2) fs in gs[s := gs ! s + 1])"

definition ftable_repr :: "ftable \<Rightarrow> nat list \<Rightarrow> bool" where
  "ftable_repr t fs \<longleftrightarrow> ftree_repr (frequencies t) (map of_nat fs) \<and>
     total t = of_nat (sum_list fs) \<and> sum_list fs < 2 ^ 63 \<and>
     length (compaction_buffer t) = length fs \<and> length fs < 32768"

lemma cum_0 [simp]: "cum fs 0 = 0"
  by (simp add: cum_def)

lemma cum_Suc: "s < length fs \<Longrightarrow> cum fs (Suc s) = cum fs s + fs ! s"
  by (simp add: cum_def take_Suc_conv_app_nth)

lemma cum_length [simp]: "cum fs (length fs) = sum_list fs"
  by (simp add: cum_def)

lemma cum_mono: "i \<le> j \<Longrightarrow> cum fs i \<le> cum fs j"
proof -
  assume "i \<le> j"
  then have "take j fs = take i fs @ take (j - i) (drop i fs)"
    by (metis take_add le_add_diff_inverse)
  then show ?thesis by (simp add: cum_def)
qed

lemma cum_le_sum: "cum fs s \<le> sum_list fs"
  using cum_mono [of s "max s (length fs)" fs] by (simp add: cum_def)

lemma prefix_sum_of_nat:
  "i \<le> length fs \<Longrightarrow> prefix_sum (map of_nat fs) i = of_nat (cum fs i)"
  by (induction i) (simp_all add: cum_Suc)

lemma length_halve [simp]: "length (halve fs) = length fs"
  by (simp add: halve_def)

lemma sum_halve_bounds: "2 * sum_list (halve fs) \<le> sum_list fs + length fs"
  "sum_list fs \<le> 2 * sum_list (halve fs)"
  by (induction fs) (auto simp: halve_def)

lemma halve_positive: "\<forall>f\<in>set fs. 0 < f \<Longrightarrow> \<forall>f\<in>set (halve fs). 0 < f"
  by (auto simp: halve_def)

lemma length_halve_until [simp]: "length (halve_until limit fs) = length fs"
  by (induction limit fs rule: halve_until.induct) (simp add: halve_until.simps)

lemma halve_until_positive:
  "\<forall>f\<in>set fs. 0 < f \<Longrightarrow> \<forall>f\<in>set (halve_until limit fs). 0 < f"
proof (induction limit fs rule: halve_until.induct)
  case (1 limit fs)
  then show ?case using halve_positive [of fs] by (simp add: halve_until.simps)
qed

lemma halve_until_below:
  "length fs < limit \<Longrightarrow> sum_list (halve_until limit fs) < limit"
proof (induction limit fs rule: halve_until.induct)
  case (1 limit fs)
  then show ?case
    using sum_halve_bounds(1) [of fs] by (subst halve_until.simps) auto
qed

lemma halve_until_below_id: "sum_list fs < limit \<Longrightarrow> halve_until limit fs = fs"
  by (simp add: halve_until.simps)

lemma halve_until_le: "sum_list (halve_until limit fs) \<le> sum_list fs"
  by (induction limit fs rule: halve_until.induct) (subst halve_until.simps, auto)

lemma length_bump [simp]: "length (bump fs s) = length fs"
  by (simp add: bump_def Let_def)

lemma sum_list_bump:
  "s < length fs \<Longrightarrow> sum_list (bump fs s) = Suc (sum_list (halve_until (2 ^ 30 + 2) fs))"
  by (simp add: bump_def Let_def sum_list_update)

lemma bump_positive:
  "\<forall>f\<in>set fs. 0 < f \<Longrightarrow> \<forall>f\<in>set (bump fs s). 0 < f"
  using halve_until_positive [of fs "2 ^ 30 + 2"] set_update_subset_insert
  by (fastforce simp: bump_def Let_def)

section \<open>Queries\<close>

lemma ftable_limit [repr_simps]: "ftable_repr t fs \<Longrightarrow> ftable_get_symbol_limit t = int (length fs)"
  using ftree_repr_length [of "frequencies t" "map of_nat fs"]
  by (simp add: ftable_repr_def ftable_get_symbol_limit_def)

lemma ftable_low [repr_simps]:
  assumes "ftable_repr t fs" and "0 \<le> s" and "s \<le> int (length fs)"
  shows "ftable_get_low t s = Some (of_nat (cum fs (nat s)))"
  using assms ftree_sum_correct [of "frequencies t" "map of_nat fs" "s - 1"]
  by (auto simp: ftable_get_low_def ftable_repr_def prefix_sum_of_nat)

lemma ftable_high [repr_simps]:
  assumes "ftable_repr t fs" and "0 \<le> s" and "s < int (length fs)"
  shows "ftable_get_high t s = Some (of_nat (cum fs (Suc (nat s))))"
proof -
  have "nat (s + 1) = Suc (nat s)" using assms(2) by simp
  then show ?thesis
    using assms ftree_sum_correct [of "frequencies t" "map of_nat fs" s]
    by (auto simp: ftable_get_high_def ftable_repr_def prefix_sum_of_nat cum_Suc)
qed

lemma ftable_freq [repr_simps]:
  assumes "ftable_repr t fs" and "0 \<le> s" and "s < int (length fs)"
  shows "ftable_get_frequency t s = Some (of_nat (fs ! nat s))"
  using assms ftree_get_correct [of "frequencies t" "map of_nat fs" s]
  by (simp add: ftable_get_frequency_def ftable_repr_def)

lemma unat_cum:
  assumes "ftable_repr t fs"
  shows "unat (of_nat (cum fs s) :: u64) = cum fs s"
  using assms cum_le_sum [of fs s]
  by (intro unat_of_nat_small) (simp add: ftable_repr_def)

lemma ftable_unat_total [repr_simps]: "ftable_repr t fs \<Longrightarrow> unat (total t) = sum_list fs"
  by (auto simp: ftable_repr_def intro!: unat_of_nat_small)

section \<open>Halving and increments\<close>

lemma half_up_word:
  assumes "f < 2 ^ 63"
  shows "(if (of_nat f :: u64) AND 1 \<noteq> 0 then of_nat f + 1 else of_nat f) div 2 =
         (of_nat ((f + 1) div 2) :: u64)"
proof -
  have odd: "(of_nat f :: u64) AND 1 \<noteq> 0 \<longleftrightarrow> odd f"
    by (simp add: and_one_eq odd_iff_mod_2_eq_one [symmetric] flip: of_nat_mod)
  have half: "(of_nat g :: u64) div 2 = of_nat (g div 2)" if "g < 2 ^ 64" for g
    using that by (simp add: unat_eq_nat_uint [symmetric] word_arith_nat_div unat_of_nat_small)
  show ?thesis
  proof (cases "odd f")
    case True
    then show ?thesis using half [of "f + 1"] assms odd by (simp add: add.commute)
  next
    case False
    then have "(f + 1) div 2 = f div 2" by presburger
    then show ?thesis using half [of f] False assms odd by simp
  qed
qed

lemma nth_le_sum: "k < length fs \<Longrightarrow> fs ! k \<le> sum_list (fs :: nat list)"
  by (rule elem_le_sum_list)

lemma ftable_halve_loop_correct:
  assumes "\<forall>g\<in>set gs. g < 2 ^ 63"
  shows "ftable_halve_loop (length gs) (int (length pre)) (map Some (pre @ map of_nat gs)) acc =
         Some (map Some (pre @ map of_nat (halve gs)), acc + of_nat (sum_list (halve gs)))"
  using assms
proof (induction gs arbitrary: pre acc)
  case Nil
  then show ?case by (simp add: halve_def)
next
  case (Cons g gs)
  define h :: u64 where "h = of_nat ((g + 1) div 2)"
  have h: "(if (of_nat g :: u64) AND 1 \<noteq> 0 then of_nat g + 1 else of_nat g) div 2 = h"
    unfolding h_def using Cons.prems by (intro half_up_word) simp
  have IH: "ftable_halve_loop (length gs) (int (length (pre @ [h])))
      (map Some ((pre @ [h]) @ map of_nat gs)) (acc + h) =
      Some (map Some ((pre @ [h]) @ map of_nat (halve gs)), acc + h + of_nat (sum_list (halve gs)))"
    using Cons.prems by (intro Cons.IH) simp
  have hd: "cell_at (map Some (pre @ of_nat g # map of_nat gs)) (int (length pre)) = Some (of_nat g)"
    and upd: "cell_put (map Some (pre @ of_nat g # map of_nat gs)) (int (length pre)) h =
         Some (map Some (pre @ h # map of_nat gs))"
    unfolding cell_at_full cell_put_full by simp_all
  have "ftable_halve_loop (length (g # gs)) (int (length pre)) (map Some (pre @ map of_nat (g # gs))) acc =
        ftable_halve_loop (length gs) (int (length pre) + 1) (map Some (pre @ h # map of_nat gs)) (acc + h)"
    by (simp only: length_Cons list.map(2) ftable_halve_loop.simps hd Option.bind.simps Let_def h upd)
  moreover have "acc + h + of_nat (sum_list (halve gs)) = acc + of_nat (sum_list (halve (g # gs)))"
    by (simp add: h_def halve_def add.assoc)
  moreover have "pre @ map of_nat (halve (g # gs)) = (pre @ [h]) @ map of_nat (halve gs)"
    by (simp add: h_def halve_def)
  moreover have "int (length (pre @ [h])) = int (length pre) + 1" by simp
  ultimately show ?case using IH by (simp only: append_assoc append_Cons append_Nil)
qed

lemma ftable_divide_by_half_correct:
  assumes "ftable_repr t fs"
  shows "\<exists>t'. ftable_divide_by_half t = Some t' \<and> ftable_repr t' (halve fs)"
proof -
  have r: "ftree_repr (frequencies t) (map of_nat fs)" and bound: "sum_list fs < 2 ^ 63"
    and buf: "length (compaction_buffer t) = length fs" and len: "length fs < 32768"
    using assms by (simp_all add: ftable_repr_def)
  have arr: "ftree_to_source_array (frequencies t) (compaction_buffer t) =
      Some (map Some (map of_nat fs))"
    by (rule ftree_to_source_array_correct [OF r]) (simp add: buf)
  have n: "nat (to_int16 (ftree_length (frequencies t))) = length fs"
    using len ftree_repr_length [OF r] by simp
  have "\<forall>g\<in>set fs. g < 2 ^ 63"
    using nth_le_sum [of _ fs] bound by (metis in_set_conv_nth order_le_less_trans)
  from ftable_halve_loop_correct [OF this, of "[]" 0]
  have loop: "ftable_halve_loop (length fs) 0 (map Some (map of_nat fs)) 0 =
      Some (map Some (map of_nat (halve fs)), of_nat (sum_list (halve fs)))" by simp
  from ftree_fill_correct [OF r, of 0 "map of_nat (halve fs)"] obtain tree where
    tree: "ftree_fill_from_source_frequencies (frequencies t) (map Some (map of_nat (halve fs))) 0 = Some tree"
      "ftree_repr tree (map of_nat (halve fs))" by auto
  have "sum_list (halve fs) < 2 ^ 63" "length fs < 2 ^ 63"
    using sum_halve_bounds(1) [of fs] bound len by auto
  then show ?thesis
    using tree loop arr n len by (simp add: ftable_divide_by_half_def ftable_repr_def Let_def)
qed

lemma ftable_halve_until_correct:
  assumes "ftable_repr t fs" and "length fs < unat limit"
  shows "\<exists>t'. ftable_halve_until_total_below_limit t limit = Some t' \<and>
              ftable_repr t' (halve_until (unat limit) fs)"
  using assms
proof (induction "sum_list fs" arbitrary: t fs rule: less_induct)
  case less
  have tot: "total t \<ge> limit \<longleftrightarrow> unat limit \<le> sum_list fs"
    using ftable_unat_total [OF less.prems(1)] by (simp add: word_le_nat_alt)
  show ?case
  proof (cases "unat limit \<le> sum_list fs")
    case False
    then show ?thesis using less.prems(1) tot
      by (subst ftable_halve_until_total_below_limit.simps) (simp add: halve_until.simps)
  next
    case True
    obtain t1 where t1: "ftable_divide_by_half t = Some t1" "ftable_repr t1 (halve fs)"
      using ftable_divide_by_half_correct [OF less.prems(1)] by blast
    have dec: "sum_list (halve fs) < sum_list fs"
      using sum_halve_bounds(1) [of fs] True less.prems(2) by simp
    from less.hyps [OF dec t1(2)] less.prems(2) obtain t' where
      "ftable_halve_until_total_below_limit t1 limit = Some t'"
      "ftable_repr t' (halve_until (unat limit) (halve fs))" by auto
    then show ?thesis using t1(1) True tot dec
      by (subst ftable_halve_until_total_below_limit.simps, subst halve_until.simps) auto
  qed
qed

lemma ftable_increment_correct:
  assumes "ftable_repr t fs" and "0 \<le> s" and "s < int (length fs)"
  shows "\<exists>t'. ftable_increment t s = Some t' \<and> ftable_repr t' (bump fs (nat s))"
proof -
  define gs where "gs = halve_until (2 ^ 30 + 2) fs"
  have len: "length fs < 32768" using assms(1) by (simp add: ftable_repr_def)
  then have small: "length fs < unat ACOD_MAX_TOTAL" by (simp add: unat_ACOD_MAX_TOTAL)
  from ftable_halve_until_correct [OF assms(1) small] obtain t1 where
    t1: "ftable_halve_until_total_below_limit t ACOD_MAX_TOTAL = Some t1" "ftable_repr t1 gs"
    by (auto simp: gs_def unat_ACOD_MAX_TOTAL)
  have gl: "length gs = length fs" by (simp add: gs_def)
  have below: "sum_list gs < 2 ^ 30 + 2"
    unfolding gs_def using len by (intro halve_until_below) simp
  have r1: "ftree_repr (frequencies t1) (map of_nat gs)"
    using t1(2) by (simp add: ftable_repr_def)
  from ftree_addE [OF r1 assms(2), of 1] assms(3) gl obtain tree where
    tree: "ftree_add (frequencies t1) s 1 = Some tree"
      "ftree_repr tree ((map of_nat gs)[nat s := map of_nat gs ! nat s + 1])" by auto
  have "(map of_nat gs)[nat s := map of_nat gs ! nat s + 1] =
        (map of_nat (gs[nat s := gs ! nat s + 1]) :: u64 list)"
    using assms gl by (simp add: map_update nat_less_iff add.commute)
  moreover have "sum_list (gs[nat s := gs ! nat s + 1]) = Suc (sum_list gs)"
    using assms gl by (simp add: sum_list_update nat_less_iff)
  ultimately show ?thesis
    using t1 tree below gl by (simp add: ftable_increment_def ftable_repr_def bump_def gs_def Let_def
        add.commute)
qed

lemma ftable_incrementE:
  assumes "ftable_repr t fs" and "0 \<le> s" and "s < int (length fs)"
  obtains t' where "ftable_increment t s = Some t'" and "ftable_repr t' (bump fs (nat s))"
  using ftable_increment_correct [OF assms] by blast

section \<open>Initialisation\<close>

lemma bump_small: "sum_list fs < 2 ^ 30 + 2 \<Longrightarrow> bump fs s = fs[s := fs ! s + 1]"
  by (simp add: bump_def Let_def halve_until_below_id)

lemma ftable_increment_loop_correct:
  assumes "ftable_repr t (replicate i 1 @ replicate k 0 @ es)" and "i + k + sum_list es < 2 ^ 30"
  shows "\<exists>t'. ftable_increment_loop k (int i) t = Some t' \<and>
     ftable_repr t' (replicate (i + k) 1 @ es)"
  using assms
proof (induction k arbitrary: i t)
  case 0
  then show ?case by simp
next
  case (Suc k)
  define fs where "fs = replicate i 1 @ replicate (Suc k) 0 @ es"
  have "sum_list fs < 2 ^ 30 + 2" using Suc.prems(2) by (simp add: fs_def sum_list_replicate)
  then have "bump fs i = fs[i := fs ! i + 1]" by (rule bump_small)
  also have "\<dots> = replicate (Suc i) 1 @ replicate k 0 @ es"
    by (simp add: fs_def nth_append list_update_append replicate_append_same)
  finally have b: "bump fs i = replicate (Suc i) 1 @ replicate k 0 @ es" .
  obtain t1 where t1: "ftable_increment t (int i) = Some t1" "ftable_repr t1 (bump fs i)"
    using ftable_incrementE [of t fs "int i"] Suc.prems(1) by (auto simp: fs_def)
  from Suc.IH [of t1 "Suc i"] t1(2) Suc.prems(2) b obtain t' where
    "ftable_increment_loop k (int (Suc i)) t1 = Some t'"
    "ftable_repr t' (replicate (Suc i + k) 1 @ es)" by auto
  with t1(1) show ?case by (auto simp: add.commute)
qed

definition init_frequencies :: "nat \<Rightarrow> int \<Rightarrow> nat list" where
  "init_frequencies n flags =
     replicate n (unat (ftable_get_init_value flags)) @
     replicate (nat (ftable_get_eof_length_padding flags)) 1"

lemma length_init_frequencies:
  "length (init_frequencies n flags) = n + nat (ftable_get_eof_length_padding flags)"
  by (simp add: init_frequencies_def)

lemma ftable_init_correct:
  assumes "n + 1 < 32768" and "8 * (2 * n + 3) < arena_free c"
  shows "\<exists>t c'. ftable_init c (int n) flags = Some (t, c') \<and>
     ftable_repr t (init_frequencies n flags) \<and>
     arena_free c \<le> arena_free c' + 8 * (2 * n + 3) \<and> ctx_error c' = ctx_error c"
proof -
  define p where "p = nat (ftable_get_eof_length_padding flags)"
  have pad: "ftable_get_eof_length_padding flags = int p" and p: "p \<le> 1"
    by (auto simp: p_def ftable_get_eof_length_padding_def)
  have "Suc (n + p) * 8 < arena_free c" using assms(2) p by simp
  then obtain c1 where c1: "context_arena_allocate c (int (Suc (n + p))) (of_nat 8) =
        Some (arena_offset (ctx_arena c), c1)"
      "arena_free c1 = arena_free c - Suc (n + p) * 8" "ctx_error c1 = ctx_error c"
    by (rule arena_allocate_roomE)
  have "(n + p) * 8 < arena_free c1" using assms(2) p c1(2) by simp
  then obtain c2 where c2: "context_arena_allocate c1 (int (n + p)) (of_nat 8) =
        Some (arena_offset (ctx_arena c1), c2)"
      "arena_free c2 = arena_free c1 - (n + p) * 8" "ctx_error c2 = ctx_error c1"
    by (rule arena_allocate_roomE)
  define tree where "tree = \<lparr>ftree_size = int (n + p) + 1, ftree_data = zeroed (int (n + p) + 1) 0\<rparr>"
  have tree: "ftree_init c (int n + int p) = Some (tree, c1)"
    using c1(1) by (simp add: ftree_init_def context_arena_allocate_zero_init_def tree_def add.commute)
  then have repr: "ftree_repr tree (replicate (n + p) 0)"
    using ftree_init_repr [of c "n + p" tree c1] by simp
  define t where "t = \<lparr>frequencies = tree, total = 0, compaction_buffer = uninitialised (int (n + p)),
      is_eof_included = (int p > 0)\<rparr>"
  have t: "ftable_repr t (replicate n 0 @ replicate p 0)"
    using repr assms(1) p by (simp add: ftable_repr_def t_def replicate_add sum_list_replicate)
  have "\<exists>t1. (if is_eof_included t then ftable_increment t (int n) else Some t) = Some t1 \<and>
        ftable_repr t1 (replicate n 0 @ replicate p 1)"
  proof (cases "p = 0")
    case True
    then show ?thesis using t by (simp add: t_def)
  next
    case False
    then have p1: "p = 1" using p by simp
    have "sum_list (replicate n 0 @ replicate p 0) < 2 ^ 30 + (2 :: nat)"
      by (simp add: sum_list_replicate)
    then have "bump (replicate n 0 @ replicate p 0) n = replicate n 0 @ replicate p 1"
      using list_update_length [of "replicate n 0" 0 "[]" "1::nat"]
      by (simp add: bump_small p1 nth_append)
    then show ?thesis using ftable_incrementE [OF t, of "int n"] p1 by (force simp: t_def)
  qed
  then obtain t1 where t1:
    "(if is_eof_included t then ftable_increment t (int n) else Some t) = Some t1"
    "ftable_repr t1 (replicate n 0 @ replicate p 1)" by blast
  have "\<exists>t2. (if ftable_get_init_value flags = 1 then ftable_increment_loop n 0 t1
        else Some t1) = Some t2 \<and> ftable_repr t2 (init_frequencies n flags)"
    using ftable_increment_loop_correct [of t1 0 n "replicate p 1"] t1(2) assms(1) p
    by (auto simp: init_frequencies_def pad ftable_get_init_value_def sum_list_replicate)
  then obtain t2 where t2: "(if ftable_get_init_value flags = 1 then ftable_increment_loop n 0 t1
        else Some t1) = Some t2" "ftable_repr t2 (init_frequencies n flags)" by blast
  have "ftree_length tree = int (n + p)" by (simp add: tree_def ftree_length_def)
  with tree c2(1) t1(1) [unfolded t_def] t2(1)
  have "ftable_init c (int n) flags = Some (t2, c2)"
    by (cases "p = 0"; cases "ftable_get_init_value flags = 1")
      (simp_all add: ftable_init_def Let_def pad)
  then show ?thesis using t2(2) c1(2,3) c2(2,3) assms(2) p by auto
qed

lemma ftable_total_loop_correct:
  assumes "k + i \<le> length fs"
  shows "ftable_total_loop k (int i) (map Some (map of_nat fs)) acc =
         Some (acc + of_nat (sum_list (take k (drop i fs))))"
  using assms
proof (induction k arbitrary: i acc)
  case 0
  then show ?case by simp
next
  case (Suc k)
  have "drop i fs = fs ! i # drop (Suc i) fs" using Suc.prems by (simp add: Cons_nth_drop_Suc)
  with Suc.IH [of "Suc i"] Suc.prems show ?case by (simp add: ac_simps del: map_map)
qed

section \<open>Loading a table from frequencies\<close>

lemma ftable_fill_correct:
  assumes "ftable_repr t gs" and "is_eof_included t = (e = 1)" and "e \<le> 1"
    and "length gs = length fs + e" and "sum_list fs < 2 ^ 63"
  shows "\<exists>t'. ftable_fill_from_frequencies t (map Some (map of_nat fs)) = Some t' \<and>
     ftable_repr t' (if e = 1 then bump (fs @ [0]) (length fs) else fs)"
proof -
  have r: "ftree_repr (frequencies t) (map of_nat gs)" and len: "length gs < 32768"
    and buf: "length (compaction_buffer t) = length gs"
    using assms(1) by (simp_all add: ftable_repr_def)
  have cnt: "ftable_get_symbol_count t = int (length fs)"
    using assms(2-4) ftable_limit [OF assms(1)] by (auto simp: ftable_get_symbol_count_def)
  have "length (map (of_nat :: nat \<Rightarrow> u64) gs) - e \<le> length (map of_nat fs :: u64 list)"
    using assms(4) by simp
  from ftree_fill_correct [OF r _ this] assms(3,4) obtain tree where
    tree: "ftree_fill_from_source_frequencies (frequencies t) (map Some (map of_nat fs)) (int e) = Some tree"
      "ftree_repr tree (map of_nat fs @ replicate e 0)" by (auto simp del: map_map)
  define t1 where "t1 = t\<lparr>frequencies := tree, total := of_nat (sum_list fs)\<rparr>"
  have "ftable_repr t1 (fs @ replicate e 0)"
    using tree(2) len buf assms(4,5) by (simp add: ftable_repr_def t1_def sum_list_replicate)
  then have "\<exists>t'. (if is_eof_included t1 then ftable_increment t1 (int (length fs)) else Some t1) = Some t' \<and>
     ftable_repr t' (if e = 1 then bump (fs @ [0]) (length fs) else fs)"
    using ftable_increment_correct [of t1 "fs @ [0]" "int (length fs)"] assms(2,3)
    by (cases "e = 0") (auto simp: le_Suc_eq t1_def)
  then obtain t' where t': "(if is_eof_included t1 then ftable_increment t1 (int (length fs)) else Some t1) = Some t'"
    "ftable_repr t' (if e = 1 then bump (fs @ [0]) (length fs) else fs)" by blast
  have "(if is_eof_included t then 1 else 0) = int e" using assms(2,3) by auto
  with t'(1) [unfolded t1_def] have "ftable_fill_from_frequencies t (map Some (map of_nat fs)) = Some t'"
    using tree(1) ftable_total_loop_correct [of "length fs" 0 fs 0] assms(4)
    by (cases "is_eof_included t")
      (simp_all add: ftable_fill_from_frequencies_def Let_def cnt del: map_map)
  with t'(2) show ?thesis by blast
qed

end
