(* ===== verification/Symbol_Search.thy ===== *)
theory Symbol_Search
  imports Frequency_Table
begin

text \<open>
  The binary search over cumulative frequencies that both entropy decoders run
  (\<open>_acod_decoder_produce_symbol\<close> and \<open>_ans_find_symbol_by_offset\<close>), and the interface it
  needs of a frequency table.
\<close>

partial_function (option) symbol_search_loop ::
  "(int \<Rightarrow> u64 option) \<Rightarrow> u64 \<Rightarrow> int \<Rightarrow> int \<Rightarrow> int option" where
  "symbol_search_loop get_low value start stop =
     (if stop - start > 1 then do {
        let middle = drop_bit 1 (start + stop);
        l \<leftarrow> get_low middle;
        if l > value then symbol_search_loop get_low value start middle
        else symbol_search_loop get_low value middle stop
      } else Some start)"

section \<open>What a decoder needs of a frequency table\<close>

locale symbol_table =
  fixes get_low :: "'t \<Rightarrow> int \<Rightarrow> u64 option"
    and get_high :: "'t \<Rightarrow> int \<Rightarrow> u64 option"
    and get_total :: "'t \<Rightarrow> u64"
    and symbol_limit :: "'t \<Rightarrow> int"
    and stands_for :: "'t \<Rightarrow> nat list \<Rightarrow> bool"
  assumes low_is_cum: "stands_for t fs \<Longrightarrow> 0 \<le> s \<Longrightarrow> s \<le> int (length fs) \<Longrightarrow>
      get_low t s = Some (of_nat (cum fs (nat s)))"
    and high_is_cum: "stands_for t fs \<Longrightarrow> 0 \<le> s \<Longrightarrow> s < int (length fs) \<Longrightarrow>
      get_high t s = Some (of_nat (cum fs (Suc (nat s))))"
    and total_is_sum: "stands_for t fs \<Longrightarrow> unat (get_total t) = sum_list fs"
    and limit_is_length: "stands_for t fs \<Longrightarrow> symbol_limit t = int (length fs)"
    and cum_fits: "stands_for t fs \<Longrightarrow> unat (of_nat (cum fs i) :: u64) = cum fs i"
begin

lemma search_loop_finds:
  assumes "stands_for t fs" and "a < b" and "b \<le> length fs"
    and "cum fs a \<le> unat v" and "unat v < cum fs b"
  shows "\<exists>s<b. symbol_search_loop (get_low t) v (int a) (int b) = Some (int s) \<and>
           cum fs s \<le> unat v \<and> unat v < cum fs (Suc s)"
  using assms(2-5)
proof (induction "b - a" arbitrary: a b rule: less_induct)
  case less
  show ?case
  proof (cases "int b - int a > 1")
    case False
    then have "b = Suc a" using less.prems(1) by simp
    with less.prems False show ?thesis by (subst symbol_search_loop.simps) auto
  next
    case True
    define m where "m = (a + b) div 2"
    have m: "a < m" "m < b" using True by (auto simp: m_def)
    have mid: "drop_bit (Suc 0) (int a + int b) = int m"
      by (simp add: m_def shiftr_div zdiv_int)
    have low: "get_low t (int m) = Some (of_nat (cum fs m))"
      using low_is_cum [OF assms(1), of "int m"] m less.prems by simp
    have cmp: "(of_nat (cum fs m) :: u64) > v \<longleftrightarrow> unat v < cum fs m"
      by (simp add: word_less_nat_alt cum_fits [OF assms(1)])
    have unfold: "symbol_search_loop (get_low t) v (int a) (int b) =
        (if unat v < cum fs m then symbol_search_loop (get_low t) v (int a) (int m)
         else symbol_search_loop (get_low t) v (int m) (int b))"
      using True by (subst symbol_search_loop.simps) (simp add: mid low cmp Let_def)
    show ?thesis
    proof (cases "unat v < cum fs m")
      case True
      have "m - a < b - a" using m by simp
      from less.hyps [OF this] m True less.prems show ?thesis
        unfolding unfold by (auto intro: less_trans)
    next
      case False
      have "b - m < b - a" using m by simp
      from less.hyps [OF this] m False less.prems show ?thesis
        unfolding unfold by auto
    qed
  qed
qed

lemma search_finds:
  assumes "stands_for t fs" and "unat v < sum_list fs"
  obtains s where "s < length fs"
    and "symbol_search_loop (get_low t) v 0 (symbol_limit t) = Some (int s)"
    and "cum fs s \<le> unat v" and "unat v < cum fs (Suc s)"
proof -
  have "0 < length fs" using assms(2) by (cases fs) auto
  from search_loop_finds [OF assms(1) this, of v] assms(2) limit_is_length [OF assms(1)] that
  show ?thesis by auto
qed

end

lemma cum_interval_unique:
  assumes "cum fs s \<le> v" and "v < cum fs (Suc s)" and "cum fs s' \<le> v" and "v < cum fs (Suc s')"
  shows "s = s'"
proof (rule ccontr)
  assume "s \<noteq> s'"
  then have "Suc s \<le> s' \<or> Suc s' \<le> s" by auto
  with assms cum_mono [of "Suc s" s' fs] cum_mono [of "Suc s'" s fs] show False by linarith
qed

interpretation freq: symbol_table ftable_get_low ftable_get_high ftable_get_total
  ftable_get_symbol_limit ftable_repr
  by unfold_locales
    (simp_all add: ftable_low ftable_high ftable_limit ftable_get_total_def ftable_unat_total unat_cum)

end
