(* ===== verification/Acod_State.thy ===== *)
theory Acod_State
  imports Symbol_Search
begin

text \<open>
  \<open>src/arithmetic_coding/arithmetic_coding_base.c\<close>: the interval \<open>low..high\<close> of the
  arithmetic coder, its narrowing to a symbol, and the two renormalisation steps.  The second
  half reads the word operations as arithmetic on natural numbers below \<open>2 ^ 32\<close>.
\<close>

record acod_state =
  high :: u64
  low :: u64

definition acod_state_init :: acod_state where
  "acod_state_init = \<lparr>high = ACOD_STATE_MASK, low = 0\<rparr>"

definition acod_is_shiftable :: "acod_state \<Rightarrow> bool" where
  "acod_is_shiftable st \<longleftrightarrow> (low st XOR high st) AND ACOD_HALF_RANGE = 0"

definition acod_is_underflowable :: "acod_state \<Rightarrow> bool" where
  "acod_is_underflowable st \<longleftrightarrow> (low st AND NOT (high st)) AND ACOD_QUARTER_RANGE \<noteq> 0"

text \<open>A zero total is a division by zero.\<close>

definition acod_shrink_the_range :: "acod_state \<Rightarrow> ftable \<Rightarrow> int \<Rightarrow> acod_state option" where
  "acod_shrink_the_range st t symbol = do {
     let value_range = high st - low st + 1;
     let tot = total t;
     symbol_low \<leftarrow> ftable_get_low t symbol;
     symbol_high \<leftarrow> ftable_get_high t symbol;
     check (tot \<noteq> 0);
     let new_low = low st + (symbol_low * value_range) div tot;
     let new_high = low st + (symbol_high * value_range) div tot - 1;
     check (new_low < new_high);
     Some \<lparr>high = new_high, low = new_low\<rparr>
   }"

definition acod_perform_shift :: "acod_state \<Rightarrow> acod_state option" where
  "acod_perform_shift st = do {
     check (acod_is_shiftable st);
     let new_low = push_bit 1 (low st) AND ACOD_STATE_MASK;
     let new_high = (push_bit 1 (high st) AND ACOD_STATE_MASK) OR 1;
     check (new_low < new_high);
     Some \<lparr>high = new_high, low = new_low\<rparr>
   }"

definition acod_perform_underflow :: "acod_state \<Rightarrow> acod_state option" where
  "acod_perform_underflow st = do {
     check (acod_is_underflowable st);
     let new_low = push_bit 1 (low st) XOR ACOD_HALF_RANGE;
     let new_high = push_bit 1 (high st XOR ACOD_HALF_RANGE) OR ACOD_HALF_RANGE OR 1;
     check (new_low < new_high);
     Some \<lparr>high = new_high, low = new_low\<rparr>
   }"

section \<open>The interval as natural numbers\<close>

definition lo :: "acod_state \<Rightarrow> nat" where "lo st = unat (low st)"
definition hi :: "acod_state \<Rightarrow> nat" where "hi st = unat (high st)"

definition interval :: "nat \<Rightarrow> nat \<Rightarrow> acod_state" where
  "interval l h = \<lparr>high = of_nat h, low = of_nat l\<rparr>"

lemma lo_interval [simp]: "l < 2 ^ 64 \<Longrightarrow> lo (interval l h) = l"
  and hi_interval [simp]: "h < 2 ^ 64 \<Longrightarrow> hi (interval l h) = h"
  by (simp_all add: lo_def hi_def interval_def unat_of_nat_small)

lemma interval_lo_hi [simp]: "interval (lo st) (hi st) = st"
  by (simp add: interval_def lo_def hi_def)

lemma bit_31: "unat (x :: u64) < 2 ^ 32 \<Longrightarrow> bit x 31 \<longleftrightarrow> 2 ^ 31 \<le> unat x"
proof -
  assume "unat x < 2 ^ 32"
  then have "unat x div 2 ^ 31 < 2" by simp
  moreover have "bit x 31 \<longleftrightarrow> bit (unat x) 31"
    by (simp add: bit_simps)
  then have bx: "bit x 31 \<longleftrightarrow> odd (unat x div 2 ^ 31)"
    by (simp only: bit_iff_odd)
  moreover have "2 ^ 31 \<le> unat x \<longleftrightarrow> unat x div 2 ^ 31 \<noteq> 0"
    by (simp add: div_eq_0_iff not_less)
  ultimately show ?thesis unfolding bx by (auto simp: less_2_cases_iff)
qed

lemma and_power: "(x :: u64) AND 2 ^ k = (if bit x k then 2 ^ k else 0)"
  by (rule bit_eqI) (auto simp: bit_simps)

lemma and_half_zero: "(x :: u64) AND 2 ^ 31 = 0 \<longleftrightarrow> \<not> bit x 31"
  by (simp only: and_power) simp

lemma and_quarter_zero: "(x :: u64) AND 2 ^ 30 = 0 \<longleftrightarrow> \<not> bit x 30"
  by (simp only: and_power) simp

lemma shiftable_iff:
  assumes "hi st < 2 ^ 32" and "lo st < 2 ^ 32"
  shows "acod_is_shiftable st \<longleftrightarrow> (2 ^ 31 \<le> lo st \<longleftrightarrow> 2 ^ 31 \<le> hi st)"
proof -
  have "acod_is_shiftable st \<longleftrightarrow> (bit (low st) 31 \<longleftrightarrow> bit (high st) 31)"
    unfolding acod_is_shiftable_def acod_constants and_half_zero by (simp add: bit_xor_iff)
  then show ?thesis using assms bit_31 by (simp only: lo_def hi_def)
qed

text \<open>The bit below, for words whose top bit is known.\<close>

lemma odd_div_iff:
  assumes "0 < (m :: nat)"
  shows "odd (x div m) \<longleftrightarrow> m \<le> x mod (m * 2)"
proof -
  have "x mod (m * 2) = m * (x div m mod 2) + x mod m" by (rule mod_mult2_eq)
  moreover have "x mod m < m" using assms by simp
  ultimately show ?thesis by (cases "even (x div m)") (auto simp: odd_iff_mod_2_eq_one)
qed

lemma bit_30:
  assumes "unat (x :: u64) < 2 ^ 32"
  shows "bit x 30 \<longleftrightarrow> 2 ^ 30 \<le> unat x mod 2 ^ 31"
proof -
  have "bit x 30 \<longleftrightarrow> bit (unat x) 30"
    by (simp add: bit_simps)
  also have "\<dots> \<longleftrightarrow> odd (unat x div 2 ^ 30)"
    by (simp only: bit_iff_odd)
  also have "\<dots> \<longleftrightarrow> 2 ^ 30 \<le> unat x mod 2 ^ 31"
    using odd_div_iff [of "2 ^ 30" "unat x"] by simp
  finally show ?thesis .
qed

lemma underflowable_iff:
  assumes "lo st < 2 ^ 31" and "2 ^ 31 \<le> hi st" and "hi st < 2 ^ 32"
  shows "acod_is_underflowable st \<longleftrightarrow> 2 ^ 30 \<le> lo st \<and> hi st < 3 * 2 ^ 30"
proof -
  have "acod_is_underflowable st \<longleftrightarrow> bit (low st) 30 \<and> \<not> bit (high st) 30"
    unfolding acod_is_underflowable_def acod_constants and_quarter_zero
    by (simp add: bit_and_iff bit_not_iff)
  also have "bit (low st) 30 \<longleftrightarrow> 2 ^ 30 \<le> lo st"
    using bit_30 [of "low st"] assms(1) by (simp add: lo_def)
  also have "bit (high st) 30 \<longleftrightarrow> 3 * 2 ^ 30 \<le> hi st"
    using bit_30 [of "high st"] assms(2,3) le_mod_geq [of "2 ^ 31" "hi st"] by (auto simp: hi_def)
  finally show ?thesis by auto
qed

section \<open>Renormalisation as arithmetic\<close>

lemma xor_power_set:
  assumes "bit (x :: u64) k"
  shows "x XOR 2 ^ k = x - 2 ^ k"
proof -
  have "NOT x AND 2 ^ k = 0" using assms by (intro bit_eqI) (auto simp: bit_simps)
  then show ?thesis by (simp add: disjunctive_and_not_eq_xor disjunctive_diff_eq_and_not)
qed

lemma or_power_clear:
  assumes "\<not> bit (x :: u64) k"
  shows "x OR 2 ^ k = x + 2 ^ k"
proof -
  have "x AND 2 ^ k = 0" using assms by (intro bit_eqI) (auto simp: bit_simps)
  then show ?thesis by (rule disjunctive_add_eq_or [symmetric])
qed

lemma unat_double: "unat (x :: u64) < 2 ^ 63 \<Longrightarrow> unat (push_bit 1 x) = 2 * unat x"
  by (simp add: push_bit_eq_mult unat_word_ariths)

lemma unat_xor_half:
  assumes "2 ^ 31 \<le> unat (x :: u64)" and "unat x < 2 ^ 32"
  shows "unat (x XOR 2 ^ 31) = unat x - 2 ^ 31"
proof -
  have "x XOR 2 ^ 31 = x - 2 ^ 31" using assms by (intro xor_power_set) (simp only: bit_31)
  moreover have "2 ^ 31 \<le> x" using assms(1) by (simp add: word_le_nat_alt)
  ultimately show ?thesis by (simp add: unat_sub)
qed

lemma unat_or_half:
  assumes "unat (x :: u64) < 2 ^ 31"
  shows "unat (x OR 2 ^ 31) = unat x + 2 ^ 31"
proof -
  have "\<not> bit x 31" using assms by (subst bit_31) simp_all
  then have "x OR 2 ^ 31 = x + 2 ^ 31" by (rule or_power_clear)
  then show ?thesis using assms by (simp add: unat_word_ariths)
qed

lemma unat_or_one_even:
  assumes "even (unat (x :: u64))" and "unat x < 2 ^ 63"
  shows "unat (x OR 1) = unat x + 1"
proof -
  have "even x" using assms(1) by (metis bit_0 bit_unsigned_iff possible_bit_0 UNIV_I)
  then have "x OR 1 = x + 1" by (simp add: or_one_eq)
  then show ?thesis using assms(2) by (simp add: unat_word_ariths)
qed

lemma unat_and_state_mask: "unat (x AND mask 32 :: u64) = unat x mod 2 ^ 32"
  unfolding take_bit_eq_mask [symmetric] unsigned_take_bit_eq by (rule take_bit_eq_mod)

text \<open>
  Both steps double the distance to a base: the shift drops the common top bit, the underflow
  step the second one.
\<close>

definition top :: "nat \<Rightarrow> nat" where
  "top l = (if 2 ^ 31 \<le> l then 2 ^ 31 else 0)"

lemma top_mod: "l < 2 ^ 32 \<Longrightarrow> 2 * l mod 2 ^ 32 = 2 * (l - top l)"
  by (auto simp: top_def le_mod_geq)

lemma unat_shifted:
  assumes "unat (x :: u64) < 2 ^ 32"
  shows "unat (push_bit 1 x AND mask 32) = 2 * (unat x - top (unat x))"
  using assms unat_double [of x] top_mod [of "unat x"] by (simp only: unat_and_state_mask) simp

lemma unat_shifted_or:
  assumes "unat (x :: u64) < 2 ^ 32"
  shows "unat ((push_bit 1 x AND mask 32) OR 1) = 2 * (unat x - top (unat x)) + 1"
proof -
  have "unat (push_bit 1 x AND mask 32) < 2 ^ 63"
    unfolding unat_shifted [OF assms] using assms by simp
  then show ?thesis
    using unat_or_one_even [of "push_bit 1 x AND mask 32"] unat_shifted [OF assms] by simp
qed

lemma shift_correct:
  assumes "lo st \<le> hi st" and "hi st < 2 ^ 32" and "acod_is_shiftable st"
  shows "acod_perform_shift st =
         Some (interval (2 * (lo st - top (lo st))) (2 * (hi st - top (hi st)) + 1))"
proof -
  define l where "l = push_bit 1 (low st) AND mask 32"
  define h where "h = (push_bit 1 (high st) AND mask 32) OR 1"
  have l: "unat l = 2 * (lo st - top (lo st))"
    unfolding l_def lo_def using assms(1,2) by (intro unat_shifted) (simp add: lo_def hi_def)
  have h: "unat h = 2 * (hi st - top (hi st)) + 1"
    unfolding h_def hi_def using assms(2) by (intro unat_shifted_or) (simp add: hi_def)
  have "lo st < 2 ^ 32" using assms(1,2) by simp
  then have same: "top (lo st) = top (hi st)"
    using assms shiftable_iff [of st] by (simp add: top_def)
  have "unat l < unat h" using assms(1) same by (simp add: l h)
  then have "l < h" by (simp add: word_less_nat_alt)
  then have "acod_perform_shift st = Some \<lparr>high = h, low = l\<rparr>"
    using assms(3) by (simp add: acod_perform_shift_def acod_constants(4) Let_def l_def h_def)
  moreover have "\<lparr>high = h, low = l\<rparr> = interval (unat l) (unat h)"
    by (simp add: interval_def)
  ultimately show ?thesis by (simp only: l h)
qed

lemma underflow_correct:
  assumes "lo st < 2 ^ 31" and "2 ^ 31 \<le> hi st" and "hi st < 2 ^ 32"
    and "acod_is_underflowable st"
  shows "acod_perform_underflow st =
         Some (interval (2 * (lo st - 2 ^ 30)) (2 * (hi st - 2 ^ 30) + 1))"
proof -
  have q: "2 ^ 30 \<le> lo st" "hi st < 3 * 2 ^ 30" using assms underflowable_iff by blast+
  define l where "l = push_bit 1 (low st) XOR 2 ^ 31"
  define h where "h = push_bit 1 (high st XOR 2 ^ 31) OR 2 ^ 31 OR 1"
  have pl: "unat (push_bit 1 (low st)) = 2 * lo st"
    unfolding lo_def using assms(1) by (intro unat_double) (simp add: lo_def)
  have "unat l = 2 * lo st - 2 ^ 31"
    unfolding l_def pl [symmetric] using q assms(1) pl by (intro unat_xor_half) simp_all
  then have l: "unat l = 2 * (lo st - 2 ^ 30)" by simp
  have "unat (high st XOR 2 ^ 31) = hi st - 2 ^ 31"
    unfolding hi_def using assms(2,3) by (intro unat_xor_half) (simp_all add: hi_def)
  then have ph: "unat (push_bit 1 (high st XOR 2 ^ 31)) = 2 * (hi st - 2 ^ 31)"
    using assms(3) by (subst unat_double) simp_all
  then have po: "unat (push_bit 1 (high st XOR 2 ^ 31) OR 2 ^ 31) = 2 * (hi st - 2 ^ 31) + 2 ^ 31"
    using q(2) assms(2) by (subst unat_or_half) simp_all
  have "h = (push_bit 1 (high st XOR 2 ^ 31) OR 2 ^ 31) OR 1" by (simp only: h_def or.assoc)
  then have "unat h = 2 * (hi st - 2 ^ 31) + 2 ^ 31 + 1"
    using unat_or_one_even [of "push_bit 1 (high st XOR 2 ^ 31) OR 2 ^ 31"] q(2)
    unfolding po by simp
  then have h: "unat h = 2 * (hi st - 2 ^ 30) + 1" using assms(2) by simp
  have "unat l < unat h" unfolding l h using assms(1,2) by simp
  then have "l < h" by (simp add: word_less_nat_alt)
  then have "acod_perform_underflow st = Some \<lparr>high = h, low = l\<rparr>"
    using assms(4) by (simp add: acod_perform_underflow_def acod_constants(2) Let_def l_def h_def)
  moreover have "\<lparr>high = h, low = l\<rparr> = interval (unat l) (unat h)"
    by (simp add: interval_def)
  ultimately show ?thesis by (simp only: l h)
qed

end
