(* ===== verification/Acod_Spec.thy ===== *)
theory Acod_Spec
  imports Acod_State
begin

text \<open>
  Arithmetic coding on natural numbers, the specification of the encoder and the decoder: what
  bits a script of (frequencies, symbol) pairs becomes, and why the code value read back from
  those bits stays inside the interval.  \<open>future l h script\<close> are the bits still to be written
  from the interval \<open>l..h\<close> when no underflow is pending; pending underflows are inserted after
  the first of them (\<open>ins\<close>).
\<close>

type_synonym script = "(nat list \<times> nat) list"

section \<open>Renormalisation\<close>

function shifts :: "nat \<Rightarrow> nat \<Rightarrow> bool list \<times> nat \<times> nat" where
  "shifts l h =
     (if l \<le> h \<and> h < 2 ^ 32 \<and> (2 ^ 31 \<le> l \<longleftrightarrow> 2 ^ 31 \<le> h)
      then (let (bs, l', h') = shifts (2 * (l - top l)) (2 * (h - top h) + 1)
            in ((2 ^ 31 \<le> l) # bs, l', h'))
      else ([], l, h))"
  by pat_completeness auto

termination
proof (relation "measure (\<lambda>(l, h). 2 ^ 32 - (h - l))")
  fix l h :: nat
  assume a: "l \<le> h \<and> h < 2 ^ 32 \<and> (2 ^ 31 \<le> l \<longleftrightarrow> 2 ^ 31 \<le> h)"
  then have "2 * (h - top h) + 1 - 2 * (l - top l) = 2 * (h - l) + 1" by (auto simp: top_def)
  moreover have "h - l < 2 ^ 32" using a by (simp, arith)
  ultimately show "((2 * (l - top l), 2 * (h - top h) + 1), (l, h)) \<in> measure (\<lambda>(l, h). 2 ^ 32 - (h - l))"
    by simp
qed simp

function unders :: "nat \<Rightarrow> nat \<Rightarrow> nat \<times> nat \<times> nat" where
  "unders l h =
     (if 2 ^ 30 \<le> l \<and> l < 2 ^ 31 \<and> 2 ^ 31 \<le> h \<and> h < 3 * 2 ^ 30
      then (let (n, l', h') = unders (2 * (l - 2 ^ 30)) (2 * (h - 2 ^ 30) + 1) in (Suc n, l', h'))
      else (0, l, h))"
  by pat_completeness auto

termination
proof (relation "measure (\<lambda>(l, h). 2 ^ 32 - (h - l))")
  fix l h :: nat
  assume a: "2 ^ 30 \<le> l \<and> l < 2 ^ 31 \<and> 2 ^ 31 \<le> h \<and> h < 3 * 2 ^ 30"
  then have "2 * (h - 2 ^ 30) + 1 - 2 * (l - 2 ^ 30) = 2 * (h - l) + 1" by auto
  moreover have "h - l < 2 ^ 32" using a by (simp, arith)
  ultimately show "((2 * (l - 2 ^ 30), 2 * (h - 2 ^ 30) + 1), (l, h)) \<in> measure (\<lambda>(l, h). 2 ^ 32 - (h - l))"
    by simp
qed simp

declare shifts.simps [simp del] unders.simps [simp del]

section \<open>Bits\<close>

definition ins :: "nat \<Rightarrow> bool list \<Rightarrow> bool list" where
  "ins u xs = (case xs of [] \<Rightarrow> [] | b # r \<Rightarrow> b # replicate u (\<not> b) @ r)"

definition narrow :: "nat \<Rightarrow> nat \<Rightarrow> nat list \<Rightarrow> nat \<Rightarrow> nat \<times> nat" where
  "narrow l h fs s =
     (l + cum fs s * (h - l + 1) div sum_list fs,
      l + cum fs (Suc s) * (h - l + 1) div sum_list fs - 1)"

fun future :: "nat \<Rightarrow> nat \<Rightarrow> script \<Rightarrow> bool list" where
  "future l h [] = [2 ^ 30 \<le> l, \<not> 2 ^ 30 \<le> l]"
| "future l h ((fs, s) # script) =
     (let (l1, h1) = narrow l h fs s; (bs, l2, h2) = shifts l1 h1; (n, l3, h3) = unders l2 h2
      in bs @ ins n (future l3 h3 script))"

fun window :: "nat \<Rightarrow> bool list \<Rightarrow> nat" where
  "window 0 xs = 0"
| "window (Suc k) [] = 0"
| "window (Suc k) (b # xs) = of_bool b * 2 ^ k + window k xs"

lemma ins_zero [simp]: "ins 0 xs = xs"
  by (cases xs) (simp_all add: ins_def)

lemma ins_Suc: "ins (Suc u) xs = ins 1 (ins u xs)"
  by (cases xs) (simp_all add: ins_def)

lemma ins_add: "ins u (ins n xs) = ins (u + n) xs"
  by (cases xs) (simp_all add: ins_def replicate_add)

lemma length_ins: "xs \<noteq> [] \<Longrightarrow> length (ins u xs) = u + length xs"
  by (cases xs) (simp_all add: ins_def)

lemma ins_nil_iff [simp]: "ins u xs = [] \<longleftrightarrow> xs = []"
  by (cases xs) (simp_all add: ins_def)

lemma ins_append: "xs \<noteq> [] \<Longrightarrow> ins u xs @ ys = ins u (xs @ ys)"
  by (cases xs) (simp_all add: ins_def)

lemma window_nil [simp]: "window k [] = 0"
  by (cases k) simp_all

lemma window_less: "window k xs < 2 ^ k"
proof (induction k xs rule: window.induct)
  case (3 k b xs)
  then show ?case by (cases b) simp_all
qed simp_all

lemma window_Suc: "window (Suc k) xs = 2 * window k xs + of_bool (k < length xs \<and> xs ! k)"
proof (induction k xs rule: window.induct)
  case (1 xs)
  then show ?case by (cases xs) simp_all
next
  case (3 k b xs)
  have "window (Suc (Suc k)) (b # xs) = of_bool b * 2 ^ Suc k + window (Suc k) xs" by (rule window.simps)
  then show ?case by (simp only: 3) simp
qed simp

lemma window_append_False: "window k (xs @ replicate n False) = window k xs"
proof (induction k xs rule: window.induct)
  case (2 k)
  show ?case by (induction n arbitrary: k) (simp_all, metis window.simps(3) mult_zero_left of_bool_eq(1) plus_nat.add_0 window_nil window.elims)
qed simp_all

lemma window_32: "window 32 (b # xs) = of_bool b * 2 ^ 31 + window 31 xs"
  using window.simps(3) [of 31 b xs] by simp

lemma window_31: "window 31 (b # xs) = of_bool b * 2 ^ 30 + window 30 xs"
  using window.simps(3) [of 30 b xs] by simp

section \<open>The code value stays in the interval\<close>

definition straddles :: "nat \<Rightarrow> nat \<Rightarrow> bool" where
  "straddles l h \<longleftrightarrow> l < 2 ^ 31 \<and> 2 ^ 31 \<le> h \<and> h < 2 ^ 32"

definition normal :: "nat \<Rightarrow> nat \<Rightarrow> bool" where
  "normal l h \<longleftrightarrow> straddles l h \<and> (l < 2 ^ 30 \<or> 3 * 2 ^ 30 \<le> h)"

definition codable :: "nat list \<times> nat \<Rightarrow> bool" where
  "codable p \<longleftrightarrow> snd p < length (fst p) \<and> 0 < fst p ! snd p \<and> sum_list (fst p) \<le> 2 ^ 29"

lemma normal_initial: "normal 0 (2 ^ 32 - 1)"
  by (simp add: normal_def straddles_def)

lemma shifts_straddles:
  "shifts l h = (bs, l', h') \<Longrightarrow> l \<le> h \<Longrightarrow> h < 2 ^ 32 \<Longrightarrow> straddles l' h'"
proof (induction l h arbitrary: bs rule: shifts.induct)
  case (1 l h)
  show ?case
  proof (cases "2 ^ 31 \<le> l \<longleftrightarrow> 2 ^ 31 \<le> h")
    case True
    obtain bs1 l1 h1 where rec: "shifts (2 * (l - top l)) (2 * (h - top h) + 1) = (bs1, l1, h1)"
      by (metis prod_cases3)
    have "shifts l h = ((2 ^ 31 \<le> l) # bs1, l1, h1)"
      using rec True "1.prems"(2,3) by (subst shifts.simps) simp
    then have "l1 = l'" "h1 = h'" using "1.prems"(1) by simp_all
    moreover have "2 * (l - top l) \<le> 2 * (h - top h) + 1" "2 * (h - top h) + 1 < 2 ^ 32"
      using True "1.prems"(2,3) by (auto simp: top_def)
    ultimately show ?thesis using "1.IH" rec True "1.prems"(2,3) by blast
  next
    case False
    then have "shifts l h = ([], l, h)" by (subst shifts.simps) auto
    then show ?thesis using False "1.prems" by (auto simp: straddles_def)
  qed
qed

lemma unders_normal:
  "unders l h = (n, l', h') \<Longrightarrow> straddles l h \<Longrightarrow> normal l' h'"
proof (induction l h arbitrary: n rule: unders.induct)
  case (1 l h)
  show ?case
  proof (cases "2 ^ 30 \<le> l \<and> l < 2 ^ 31 \<and> 2 ^ 31 \<le> h \<and> h < 3 * 2 ^ 30")
    case True
    obtain n1 l1 h1 where rec: "unders (2 * (l - 2 ^ 30)) (2 * (h - 2 ^ 30) + 1) = (n1, l1, h1)"
      by (metis prod_cases3)
    have "unders l h = (Suc n1, l1, h1)"
      using rec True by (subst unders.simps) simp
    then have "l1 = l'" "h1 = h'" using "1.prems"(1) by simp_all
    moreover have "straddles (2 * (l - 2 ^ 30)) (2 * (h - 2 ^ 30) + 1)"
      using True by (auto simp: straddles_def)
    ultimately show ?thesis using "1.IH" [OF True] rec by blast
  next
    case False
    then have "unders l h = (0, l, h)" by (subst unders.simps) auto
    then show ?thesis using False "1.prems" by (auto simp: normal_def straddles_def)
  qed
qed

lemma window_shift:
  assumes "l \<le> h" and "h < 2 ^ 32" and "2 ^ 31 \<le> l \<longleftrightarrow> 2 ^ 31 \<le> h"
    and "2 * (l - top l) \<le> window 32 F" and "window 32 F \<le> 2 * (h - top h) + 1"
  shows "l \<le> window 32 ((2 ^ 31 \<le> l) # F) \<and> window 32 ((2 ^ 31 \<le> l) # F) \<le> h"
proof -
  define w where "w = window 31 F"
  have w32: "window 32 F = 2 * w + of_bool (31 < length F \<and> F ! 31)"
    using window_Suc [of 31 F] by (simp add: w_def)
  have b: "window 32 (b # F) = of_bool b * 2 ^ 31 + w" for b
    by (simp only: window_32 w_def)
  show ?thesis
    using assms(1-5) unfolding b w32 by (cases "2 ^ 31 \<le> l") (auto simp: top_def of_bool_def split: if_splits)
qed

lemma window_under:
  assumes "2 ^ 30 \<le> l" and "2 ^ 31 \<le> h" and "F \<noteq> []"
    and "2 * (l - 2 ^ 30) \<le> window 32 F" and "window 32 F \<le> 2 * (h - 2 ^ 30) + 1"
  shows "l \<le> window 32 (ins 1 F) \<and> window 32 (ins 1 F) \<le> h"
proof -
  obtain b r where F: "F = b # r" using assms(3) by (cases F) auto
  define w where "w = window 30 r"
  have w31: "window 31 r = 2 * w + of_bool (30 < length r \<and> r ! 30)"
    using window_Suc [of 30 r] by (simp add: w_def)
  have "window 32 (ins 1 F) = of_bool b * 2 ^ 31 + (of_bool (\<not> b) * 2 ^ 30 + w)"
    by (simp only: F ins_def list.case replicate_Suc One_nat_def replicate_0 append.simps window_32 window_31 w_def)
  moreover have "window 32 F = of_bool b * 2 ^ 31 + (2 * w + of_bool (30 < length r \<and> r ! 30))"
    by (simp only: F window_32 w31)
  ultimately show ?thesis using assms(1,2,4,5) by (cases b) (auto simp: of_bool_def split: if_splits)
qed

lemma window_shifts:
  "shifts l h = (bs, l', h') \<Longrightarrow> l \<le> h \<Longrightarrow> h < 2 ^ 32 \<Longrightarrow>
     l' \<le> window 32 F \<Longrightarrow> window 32 F \<le> h' \<Longrightarrow>
     l \<le> window 32 (bs @ F) \<and> window 32 (bs @ F) \<le> h"
proof (induction l h arbitrary: bs rule: shifts.induct)
  case (1 l h)
  show ?case
  proof (cases "2 ^ 31 \<le> l \<longleftrightarrow> 2 ^ 31 \<le> h")
    case True
    obtain bs1 l1 h1 where rec: "shifts (2 * (l - top l)) (2 * (h - top h) + 1) = (bs1, l1, h1)"
      by (metis prod_cases3)
    have "shifts l h = ((2 ^ 31 \<le> l) # bs1, l1, h1)"
      using rec True "1.prems"(2,3) by (subst shifts.simps) simp
    then have e: "bs = (2 ^ 31 \<le> l) # bs1" "l1 = l'" "h1 = h'" using "1.prems"(1) by simp_all
    have "2 * (l - top l) \<le> 2 * (h - top h) + 1" "2 * (h - top h) + 1 < 2 ^ 32"
      using True "1.prems"(2,3) by (auto simp: top_def)
    with "1.IH" rec True "1.prems"(2-5) e(2,3) have
      "2 * (l - top l) \<le> window 32 (bs1 @ F)" "window 32 (bs1 @ F) \<le> 2 * (h - top h) + 1" by blast+
    from window_shift [OF "1.prems"(2,3) True this] show ?thesis by (simp add: e(1))
  next
    case False
    then have "shifts l h = ([], l, h)" by (subst shifts.simps) auto
    then show ?thesis using "1.prems" by auto
  qed
qed

lemma window_unders:
  "unders l h = (n, l', h') \<Longrightarrow> F \<noteq> [] \<Longrightarrow> l' \<le> window 32 F \<Longrightarrow> window 32 F \<le> h' \<Longrightarrow>
     l \<le> window 32 (ins n F) \<and> window 32 (ins n F) \<le> h"
proof (induction l h arbitrary: n rule: unders.induct)
  case (1 l h)
  show ?case
  proof (cases "2 ^ 30 \<le> l \<and> l < 2 ^ 31 \<and> 2 ^ 31 \<le> h \<and> h < 3 * 2 ^ 30")
    case True
    obtain n1 l1 h1 where rec: "unders (2 * (l - 2 ^ 30)) (2 * (h - 2 ^ 30) + 1) = (n1, l1, h1)"
      by (metis prod_cases3)
    have "unders l h = (Suc n1, l1, h1)"
      using rec True by (subst unders.simps) simp
    then have e: "n = Suc n1" "l1 = l'" "h1 = h'" using "1.prems"(1) by simp_all
    with "1.IH" [OF True] rec "1.prems"(2-4) have
      "2 * (l - 2 ^ 30) \<le> window 32 (ins n1 F)" "window 32 (ins n1 F) \<le> 2 * (h - 2 ^ 30) + 1" by blast+
    moreover have "ins n1 F \<noteq> []" using "1.prems"(2) by simp
    ultimately show ?thesis unfolding e(1) ins_Suc [of n1] using True by (intro window_under) simp_all
  next
    case False
    then have "unders l h = (0, l, h)" by (subst unders.simps) auto
    then show ?thesis using "1.prems" by auto
  qed
qed

section \<open>Narrowing to a symbol\<close>

lemma cum_strict:
  assumes "s < length fs" and "0 < fs ! s"
  shows "cum fs (Suc s) = cum fs s + fs ! s" and "cum fs (Suc s) \<le> sum_list fs"
  using assms cum_mono [of "Suc s" "length fs" fs] by (simp_all add: cum_def take_Suc_conv_app_nth)

lemma normal_range: "normal l h \<Longrightarrow> 2 ^ 30 < h - l + 1"
  by (auto simp: normal_def straddles_def)

lemma narrow_correct:
  assumes "normal l h" and "codable (fs, s)" and "narrow l h fs s = (l', h')"
  shows "l \<le> l'" and "l' < h'" and "h' \<le> h"
proof -
  define R where "R = h - l + 1"
  define T where "T = sum_list fs"
  have s: "s < length fs" "0 < fs ! s" "T \<le> 2 ^ 29"
    using assms(2) by (simp_all add: codable_def T_def)
  have R: "2 ^ 30 < R" using normal_range [OF assms(1)] by (simp add: R_def)
  have T: "0 < T" using cum_strict [OF s(1,2)] s(2) by (simp add: T_def)
  have e: "l' = l + cum fs s * R div T" "h' = l + cum fs (Suc s) * R div T - 1"
    using assms(3) by (simp_all add: narrow_def R_def T_def)
  have "cum fs s * R div T + 2 \<le> cum fs (Suc s) * R div T"
  proof -
    have "2 * T \<le> R" using R s(3) by simp
    then have "cum fs s * R + 2 * T \<le> cum fs (Suc s) * R"
      using cum_strict(1) [OF s(1,2)] s(2) by (cases "fs ! s") (simp_all add: algebra_simps)
    then have "(cum fs s * R + 2 * T) div T \<le> cum fs (Suc s) * R div T" by (rule div_le_mono)
    then show ?thesis using T by simp
  qed
  then show "l \<le> l'" "l' < h'" by (simp_all add: e)
  have "cum fs (Suc s) * R div T \<le> T * R div T"
    using cum_strict(2) [OF s(1,2)] by (intro div_le_mono mult_right_mono) (simp_all add: T_def)
  then have "cum fs (Suc s) * R div T \<le> R" using T by simp
  moreover have "l \<le> h" using assms(1) by (simp add: normal_def straddles_def)
  ultimately show "h' \<le> h" unfolding e(2) R_def by linarith
qed

text \<open>The offset a decoder computes from a code value inside the narrowed interval.\<close>

lemma offset_finds_symbol:
  assumes "0 < T" and "0 < R" and "a * R div T \<le> d" and "d + 1 \<le> b * R div (T :: nat)"
  shows "a \<le> ((d + 1) * T - 1) div R" and "((d + 1) * T - 1) div R < b"
proof -
  have "a * R < (a * R div T + 1) * T" using assms(1) by (simp add: dividend_less_div_times)
  also have "\<dots> \<le> (d + 1) * T" using assms(3) by (intro mult_right_mono) simp_all
  finally have "a * R \<le> (d + 1) * T - 1" by simp
  then have "a * R div R \<le> ((d + 1) * T - 1) div R" by (rule div_le_mono)
  then show "a \<le> ((d + 1) * T - 1) div R" using assms(2) by simp
  have "(d + 1) * T \<le> b * R div T * T" using assms(4) by (intro mult_right_mono) simp_all
  also have "\<dots> \<le> b * R" by simp
  finally have "(d + 1) * T - 1 < b * R" using assms(1) by simp
  then show "((d + 1) * T - 1) div R < b" by (simp add: less_mult_imp_div_less)
qed

lemma futureE:
  assumes "normal l h" and "codable (fs, s)"
  obtains l1 h1 bs l2 h2 n l3 h3 where "narrow l h fs s = (l1, h1)" and "shifts l1 h1 = (bs, l2, h2)"
    and "unders l2 h2 = (n, l3, h3)" and "l1 < h1" and "l \<le> l1" and "h1 \<le> h" and "h1 < 2 ^ 32"
    and "straddles l2 h2" and "normal l3 h3"
    and "\<And>script. future l h ((fs, s) # script) = bs @ ins n (future l3 h3 script)"
proof -
  obtain l1 h1 where a: "narrow l h fs s = (l1, h1)" by fastforce
  obtain bs l2 h2 where b: "shifts l1 h1 = (bs, l2, h2)" by (metis prod_cases3)
  obtain n l3 h3 where c: "unders l2 h2 = (n, l3, h3)" by (metis prod_cases3)
  note n = narrow_correct [OF assms a]
  have h1: "h1 < 2 ^ 32" using n(3) assms(1) by (simp add: normal_def straddles_def)
  have "l1 \<le> h1" using n(2) by simp
  from shifts_straddles [OF b this h1] have st: "straddles l2 h2" .
  show ?thesis
    using n by (intro that [OF a b c _ _ _ h1 st unders_normal [OF c st]]) (simp_all add: a b c)
qed

lemma future_long:
  assumes "normal l h" and "\<forall>p\<in>set script. codable p"
  shows "2 \<le> length (future l h script)"
  using assms
proof (induction script arbitrary: l h)
  case (Cons p script)
  obtain fs s where p: "p = (fs, s)" by fastforce
  with Cons.prems have "codable (fs, s)" by simp
  from futureE [OF Cons.prems(1) this] obtain bs n l3 h3 where
    "normal l3 h3" "future l h (p # script) = bs @ ins n (future l3 h3 script)" unfolding p by metis
  moreover from Cons.IH [OF this(1)] Cons.prems(2) have "2 \<le> length (future l3 h3 script)" by simp
  ultimately show ?case using length_ins [of "future l3 h3 script" n] by fastforce
qed simp

lemma future_nonempty: "normal l h \<Longrightarrow> \<forall>p\<in>set script. codable p \<Longrightarrow> future l h script \<noteq> []"
  using future_long [of l h script] by auto

lemma future_in_interval:
  assumes "normal l h" and "\<forall>p\<in>set script. codable p"
  shows "l \<le> window 32 (future l h script) \<and> window 32 (future l h script) \<le> h"
  using assms
proof (induction script arbitrary: l h)
  case Nil
  have "window 32 [b, \<not> b] = (if b then 2 ^ 31 else 2 ^ 30)" for b
    unfolding window_32 window_31 by simp
  with Nil show ?case by (auto simp: normal_def straddles_def)
next
  case (Cons p script)
  obtain fs s where p: "p = (fs, s)" by fastforce
  with Cons.prems have "codable (fs, s)" by simp
  from futureE [OF Cons.prems(1) this] obtain l1 h1 bs l2 h2 n l3 h3 where
    e: "narrow l h fs s = (l1, h1)" "shifts l1 h1 = (bs, l2, h2)" "unders l2 h2 = (n, l3, h3)"
      "l1 < h1" "l \<le> l1" "h1 \<le> h" "h1 < 2 ^ 32" "straddles l2 h2" "normal l3 h3"
      "future l h (p # script) = bs @ ins n (future l3 h3 script)" unfolding p by metis
  have rest: "\<forall>p\<in>set script. codable p" using Cons.prems(2) by simp
  from Cons.IH [OF e(9) rest] have
    "l2 \<le> window 32 (ins n (future l3 h3 script)) \<and> window 32 (ins n (future l3 h3 script)) \<le> h2"
    using window_unders [OF e(3) future_nonempty [OF e(9) rest]] by blast
  then have "l1 \<le> window 32 (bs @ ins n (future l3 h3 script)) \<and>
      window 32 (bs @ ins n (future l3 h3 script)) \<le> h1"
    using window_shifts [OF e(2) _ e(7)] e(4) by simp
  with e(5,6,10) show ?case by simp
qed

end
