(* ===== verification/Fifo.thy ===== *)
theory Fifo
  imports Prelude
begin

text \<open>
  Ring indices modulo a power of two, and the contract of a first-in first-out queue.  Both
  queues of the code (the growing one and the fixed one) keep their items in a ring
  \<open>head, head + 1, \<dots>\<close> and wrap the index with a mask.
\<close>

section \<open>Ring contents\<close>

definition ring_items :: "'a cells \<Rightarrow> nat \<Rightarrow> nat \<Rightarrow> 'a list \<Rightarrow> bool" where
  "ring_items vs n h xs \<longleftrightarrow> length vs = n \<and> length xs < n \<and> h < n \<and>
     (\<forall>i<length xs. vs ! ((h + i) mod n) = Some (xs ! i))"

lemma ring_mod_inj:
  assumes "(h + i) mod n = (h + j) mod n" and "i < n" and "j < n"
  shows "i = (j :: nat)"
proof -
  have aux: "i = j" if "(h + i) mod n = (h + j) mod n" "i < n" "j < n" "i \<le> j" for i j :: nat
  proof -
    have "n dvd (h + j) - (h + i)"
      using that mod_eq_dvd_iff_nat [of "h + i" "h + j" n] by simp
    then have "n dvd j - i" by simp
    then show ?thesis using that by (metis dvd_imp_le diff_is_0_eq le_antisym less_imp_diff_less
          not_le zero_less_diff)
  qed
  show ?thesis using aux [of i j] aux [of j i] assms by (cases "i \<le> j") auto
qed

lemma ring_items_pop:
  assumes "ring_items vs n h (x # xs)"
  shows "vs ! h = Some x" and "ring_items vs n ((h + 1) mod n) xs"
proof -
  from assms have h: "h < n" and a: "\<forall>i<length (x # xs). vs ! ((h + i) mod n) = Some ((x # xs) ! i)"
    by (auto simp: ring_items_def)
  from a [rule_format, of 0] h show "vs ! h = Some x" by simp
  have "vs ! (((h + 1) mod n + i) mod n) = Some (xs ! i)" if "i < length xs" for i
    using a [rule_format, of "Suc i"] that by (simp add: mod_add_left_eq)
  then show "ring_items vs n ((h + 1) mod n) xs"
    using assms by (auto simp: ring_items_def)
qed

lemma ring_items_push:
  assumes "ring_items vs n h xs" and "Suc (length xs) < n"
  shows "ring_items (vs[(h + length xs) mod n := Some x]) n h (xs @ [x])"
proof -
  have n: "0 < n" using assms(2) by simp
  have "(vs[(h + length xs) mod n := Some x]) ! ((h + i) mod n) = Some ((xs @ [x]) ! i)"
    if i: "i < length (xs @ [x])" for i
  proof (cases "i = length xs")
    case True
    then show ?thesis using assms n by (simp add: ring_items_def)
  next
    case False
    then have "i < length xs" using i by simp
    moreover have "(h + i) mod n \<noteq> (h + length xs) mod n"
      using ring_mod_inj [of h i n "length xs"] False calculation assms(2) by auto
    ultimately show ?thesis using assms(1) by (simp add: ring_items_def nth_append)
  qed
  then show ?thesis using assms by (auto simp: ring_items_def)
qed

lemma ring_items_nth:
  "ring_items vs n h xs \<Longrightarrow> i < length xs \<Longrightarrow> vs ! ((h + i) mod n) = Some (xs ! i)"
  by (simp add: ring_items_def)

lemma ring_items_update:
  assumes "ring_items vs n h xs" and "k < length xs"
  shows "ring_items (vs[(h + k) mod n := Some y]) n h (xs[k := y])"
proof -
  have "(vs[(h + k) mod n := Some y]) ! ((h + i) mod n) = Some (xs[k := y] ! i)"
    if i: "i < length xs" for i
  proof (cases "i = k")
    case True
    then show ?thesis using assms by (auto simp: ring_items_def)
  next
    case False
    then have "(h + i) mod n \<noteq> (h + k) mod n"
      using ring_mod_inj [of h i n k] i assms by (auto simp: ring_items_def)
    then show ?thesis using assms(1) i False by (simp add: ring_items_def)
  qed
  then show ?thesis using assms by (auto simp: ring_items_def)
qed

text \<open>The difference of two ring indices, as the code computes it.\<close>

lemma ring_count:
  assumes "h < n" and "k < n"
  shows "(if int h \<le> int ((h + k) mod n) then int ((h + k) mod n) - int h
          else int ((h + k) mod n) + int n - int h) = int k"
proof (cases "h + k < n")
  case True
  then show ?thesis by simp
next
  case False
  then have "(h + k) mod n = h + k - n" using assms by (simp add: le_mod_geq)
  with False assms show ?thesis by auto
qed

section \<open>The contract\<close>

datatype 'a queue_op = Push 'a | Pop

fun run_queue :: "('a \<Rightarrow> 'q \<Rightarrow> 'q option) \<Rightarrow> ('q \<Rightarrow> ('a \<times> 'q) option) \<Rightarrow>
  'a queue_op list \<Rightarrow> 'q \<Rightarrow> ('a list \<times> 'q) option" where
  "run_queue push pop [] q = Some ([], q)"
| "run_queue push pop (Push x # ops) q = do { q \<leftarrow> push x q; run_queue push pop ops q }"
| "run_queue push pop (Pop # ops) q = do {
     (x, q) \<leftarrow> pop q;
     (out, q) \<leftarrow> run_queue push pop ops q;
     Some (x # out, q)
   }"

text \<open>The specification: pushes append, pops take from the front.\<close>

fun run_list :: "'a queue_op list \<Rightarrow> 'a list \<Rightarrow> ('a list \<times> 'a list) option" where
  "run_list [] xs = Some ([], xs)"
| "run_list (Push x # ops) xs = run_list ops (xs @ [x])"
| "run_list (Pop # ops) [] = None"
| "run_list (Pop # ops) (x # xs) = map_option (\<lambda>(out, ys). (x # out, ys)) (run_list ops xs)"

locale fifo_queue =
  fixes contents :: "'q \<Rightarrow> 'a list \<Rightarrow> bool"
    and count :: "'q \<Rightarrow> int"
    and pop :: "'q \<Rightarrow> ('a \<times> 'q) option"
    and peek :: "'q \<Rightarrow> 'a option"
    and peek_tail :: "'q \<Rightarrow> 'a option"
    and push :: "'a \<Rightarrow> 'q \<Rightarrow> 'q option"
  assumes count_is_length: "contents q xs \<Longrightarrow> count q = int (length xs)"
    and pop_front: "contents q (x # xs) \<Longrightarrow> \<exists>q'. pop q = Some (x, q') \<and> contents q' xs"
    and pop_empty: "contents q [] \<Longrightarrow> pop q = None"
    and peek_front: "contents q (x # xs) \<Longrightarrow> peek q = Some x"
    and peek_back: "contents q (xs @ [x]) \<Longrightarrow> peek_tail q = Some x"
    and push_back: "contents q xs \<Longrightarrow> push x q = Some q' \<Longrightarrow> contents q' (xs @ [x])"
begin

lemma pop_frontE:
  assumes "contents q (x # xs)"
  obtains q' where "pop q = Some (x, q')" and "contents q' xs"
  using pop_front [OF assms] by blast

lemma run_refines:
  assumes "contents q xs" and "run_queue push pop ops q = Some (out, q')"
  shows "\<exists>ys. run_list ops xs = Some (out, ys) \<and> contents q' ys"
  using assms
proof (induction ops arbitrary: q xs out)
  case Nil
  then show ?case by auto
next
  case (Cons op ops)
  show ?case
  proof (cases op)
    case (Push x)
    with Cons.prems obtain q1 where q1: "push x q = Some q1"
      and run: "run_queue push pop ops q1 = Some (out, q')" by (auto simp: bind_eq_Some_conv)
    have "contents q1 (xs @ [x])" using Cons.prems(1) q1 by (rule push_back)
    from Cons.IH [OF this run] Push show ?thesis by simp
  next
    case Pop
    show ?thesis
    proof (cases xs)
      case Nil
      then show ?thesis using Cons.prems pop_empty [of q] Pop by simp
    next
      case (Cons x ys)
      obtain q1 where q1: "pop q = Some (x, q1)" "contents q1 ys"
        using \<open>contents q xs\<close> unfolding Cons by (rule pop_frontE)
      with Cons.prems Pop obtain out' where run: "run_queue push pop ops q1 = Some (out', q')"
        and out: "out = x # out'" by (auto simp: bind_eq_Some_conv)
      from Cons.IH [OF q1(2) run] Pop Cons out show ?thesis by auto
    qed
  qed
qed

end

text \<open>A queue of fixed capacity does what a list that refuses items beyond \<open>n\<close> does.\<close>

fun run_bounded_list :: "nat \<Rightarrow> 'a queue_op list \<Rightarrow> 'a list \<Rightarrow> ('a list \<times> 'a list) option" where
  "run_bounded_list n [] xs = Some ([], xs)"
| "run_bounded_list n (Push x # ops) xs = (if length xs < n then run_bounded_list n ops (xs @ [x]) else None)"
| "run_bounded_list n (Pop # ops) [] = None"
| "run_bounded_list n (Pop # ops) (x # xs) =
     map_option (\<lambda>(out, ys). (x # out, ys)) (run_bounded_list n ops xs)"

locale bounded_fifo = fifo_queue contents count pop peek peek_tail push
  for contents :: "'q \<Rightarrow> 'a list \<Rightarrow> bool" and count pop peek peek_tail push +
  fixes capacity :: nat
  assumes push_room: "contents q xs \<Longrightarrow> length xs < capacity \<Longrightarrow> push x q \<noteq> None"
    and push_full: "contents q xs \<Longrightarrow> \<not> length xs < capacity \<Longrightarrow> push x q = None"
begin

lemma run_bounded:
  assumes "contents q xs"
  shows "case run_bounded_list capacity ops xs of
      None \<Rightarrow> run_queue push pop ops q = None
    | Some (out, ys) \<Rightarrow> \<exists>q'. run_queue push pop ops q = Some (out, q') \<and> contents q' ys"
  using assms
proof (induction ops arbitrary: q xs)
  case (Cons op ops)
  show ?case
  proof (cases op)
    case (Push x)
    show ?thesis
    proof (cases "length xs < capacity")
      case True
      then obtain q1 where q1: "push x q = Some q1" using push_room [OF Cons.prems, of x] by auto
      from Cons.IH [OF push_back [OF Cons.prems q1]] show ?thesis
        using Push True q1 by (auto split: option.splits)
    next
      case False
      then show ?thesis using Push push_full [OF Cons.prems, of x] by simp
    qed
  next
    case Pop
    show ?thesis
    proof (cases xs)
      case Nil
      then show ?thesis using Cons.prems pop_empty [of q] Pop by simp
    next
      case (Cons x ys)
      obtain q1 where q1: "pop q = Some (x, q1)" "contents q1 ys"
        using \<open>contents q xs\<close> unfolding Cons by (rule pop_frontE)
      from Cons.IH [OF q1(2)] show ?thesis using Pop Cons q1(1) by (auto split: option.splits)
    qed
  qed
qed simp

end

text \<open>A queue that never refuses a push does what a list does.\<close>

locale unbounded_fifo = fifo_queue contents count pop peek peek_tail push
  for contents :: "'q \<Rightarrow> 'a list \<Rightarrow> bool" and count pop peek peek_tail push +
  assumes push_total: "contents q xs \<Longrightarrow> push x q \<noteq> None"
begin

lemma run_agrees:
  assumes "contents q xs"
  shows "case run_list ops xs of
      None \<Rightarrow> run_queue push pop ops q = None
    | Some (out, ys) \<Rightarrow> \<exists>q'. run_queue push pop ops q = Some (out, q') \<and> contents q' ys"
  using assms
proof (induction ops arbitrary: q xs)
  case (Cons op ops)
  show ?case
  proof (cases op)
    case (Push x)
    then obtain q1 where q1: "push x q = Some q1" using push_total [OF Cons.prems, of x] by auto
    from Cons.IH [OF push_back [OF Cons.prems q1]] show ?thesis using Push q1 by (auto split: option.splits)
  next
    case Pop
    show ?thesis
    proof (cases xs)
      case Nil
      then show ?thesis using Cons.prems pop_empty [of q] Pop by simp
    next
      case (Cons x ys)
      obtain q1 where q1: "pop q = Some (x, q1)" "contents q1 ys"
        using \<open>contents q xs\<close> unfolding Cons by (rule pop_frontE)
      from Cons.IH [OF q1(2)] show ?thesis using Pop Cons q1(1) by (auto split: option.splits)
    qed
  qed
qed simp

end

end
