(* ===== verification/Growing_Queue.thy ===== *)
theory Growing_Queue
  imports Fifo Context
begin

text \<open>
  \<open>src/data_structures/queue.c\<close>: a ring of \<open>length = 2 ^ k\<close> cells that doubles when
  it is full.  A slot pointer the code returns is modelled by the slot's value (or, for a push,
  by the value the caller stores through the pointer).  \<open>queue_repr q xs\<close> says the queue
  holds \<open>xs\<close>, oldest first.
\<close>

record 'a queue =
  q_value_size :: u64
  q_values :: "'a cells"
  queue_length :: int
  q_length_mask :: int
  q_head :: int
  q_tail :: int

section \<open>Operations\<close>

definition queue_zero :: "'a queue" where
  "queue_zero = \<lparr>q_value_size = 0, q_values = [], queue_length = 0, q_length_mask = 0, q_head = 0, q_tail = 0\<rparr>"

definition queue_deinit :: "'a queue \<Rightarrow> 'a queue" where
  "queue_deinit q = queue_zero"

definition queue_init :: "ctx \<Rightarrow> u64 \<Rightarrow> nat \<Rightarrow> bool \<times> 'a queue \<times> ctx" where
  "queue_init c vsize starting_length_shift =
     (let len = push_bit starting_length_shift 1;
          q = \<lparr>q_value_size = vsize, q_values = [], queue_length = len, q_length_mask = len - 1,
               q_head = 0, q_tail = 0\<rparr>;
          (block, c) = context_allocate c (word_of_int len) vsize
      in case block of
           None \<Rightarrow> (False, queue_deinit q, c)
         | Some _ \<Rightarrow> (True, q\<lparr>q_values := uninitialised len\<rparr>, c))"

definition queue_reset :: "'a queue \<Rightarrow> 'a queue" where
  "queue_reset q = q\<lparr>q_head := 0, q_tail := 0\<rparr>"

definition queue_get_count :: "'a queue \<Rightarrow> int" where
  "queue_get_count q =
     (if q_head q \<le> q_tail q then q_tail q - q_head q else q_tail q + queue_length q - q_head q)"

definition queue_increment :: "'a queue \<Rightarrow> int \<Rightarrow> int" where
  "queue_increment q i = (i + 1) AND q_length_mask q"

partial_function (option) queue_copy_loop ::
  "'a queue \<Rightarrow> int \<Rightarrow> int \<Rightarrow> 'a cells \<Rightarrow> ('a cells \<times> int) option" where
  "queue_copy_loop q pointer i new_values =
     (if pointer \<noteq> q_tail q then do {
        item \<leftarrow> at (q_values q) pointer;
        new_values \<leftarrow> put new_values i item;
        queue_copy_loop q (queue_increment q pointer) (i + 1) new_values
      } else Some (new_values, i))"

definition queue_maybe_grow :: "'a queue \<Rightarrow> ctx \<Rightarrow> (bool \<times> 'a queue \<times> ctx) option" where
  "queue_maybe_grow q c =
     (if queue_get_count q < queue_length q - 1 then Some (True, q, c)
      else
        let new_length = queue_length q * 2;
            (block, c) = context_allocate c (word_of_int new_length) (q_value_size q)
        in case block of
             None \<Rightarrow> Some (False, q, c)
           | Some _ \<Rightarrow> do {
               (new_values, i) \<leftarrow> queue_copy_loop q (q_head q) 0 (uninitialised new_length);
               Some (True, q\<lparr>queue_length := new_length, q_length_mask := new_length - 1,
                             q_values := new_values, q_head := 0, q_tail := i\<rparr>, c)
             })"

definition queue_push :: "'a \<Rightarrow> 'a queue \<Rightarrow> ctx \<Rightarrow> (bool \<times> 'a queue \<times> ctx) option" where
  "queue_push x q c = do {
     (ok, q, c) \<leftarrow> queue_maybe_grow q c;
     if \<not> ok then Some (False, q, c)
     else do {
       vs \<leftarrow> cell_put (q_values q) (q_tail q) x;
       Some (True, q\<lparr>q_values := vs, q_tail := queue_increment q (q_tail q)\<rparr>, c)
     }
   }"

definition queue_pop :: "'a queue \<Rightarrow> ('a \<times> 'a queue) option" where
  "queue_pop q = do {
     check (queue_get_count q > 0);
     x \<leftarrow> cell_at (q_values q) (q_head q);
     Some (x, q\<lparr>q_head := queue_increment q (q_head q)\<rparr>)
   }"

definition queue_peek_at_index :: "'a queue \<Rightarrow> int \<Rightarrow> int option" where
  "queue_peek_at_index q offset = do {
     check (queue_get_count q > offset);
     Some ((q_head q + offset) AND q_length_mask q)
   }"

definition queue_peek_at :: "'a queue \<Rightarrow> int \<Rightarrow> 'a option" where
  "queue_peek_at q offset = do {
     index \<leftarrow> queue_peek_at_index q offset;
     cell_at (q_values q) index
   }"

definition queue_peek :: "'a queue \<Rightarrow> 'a option" where
  "queue_peek q = queue_peek_at q 0"

definition queue_peek_tail_at_index :: "'a queue \<Rightarrow> int \<Rightarrow> int option" where
  "queue_peek_tail_at_index q offset = do {
     check (queue_get_count q > offset);
     Some (((q_tail q + queue_length q - 1) - offset) AND q_length_mask q)
   }"

definition queue_peek_tail_at :: "'a queue \<Rightarrow> int \<Rightarrow> 'a option" where
  "queue_peek_tail_at q offset = do {
     index \<leftarrow> queue_peek_tail_at_index q offset;
     cell_at (q_values q) index
   }"

definition queue_peek_tail :: "'a queue \<Rightarrow> 'a option" where
  "queue_peek_tail q = queue_peek_tail_at q 0"

text \<open>A store through the pointer that \<open>queue_peek_tail\<close> returned.\<close>

definition queue_update_tail :: "'a queue \<Rightarrow> 'a \<Rightarrow> 'a queue option" where
  "queue_update_tail q x = do {
     index \<leftarrow> queue_peek_tail_at_index q 0;
     vs \<leftarrow> cell_put (q_values q) index x;
     Some (q\<lparr>q_values := vs\<rparr>)
   }"

section \<open>Representation\<close>

definition queue_repr :: "'a queue \<Rightarrow> 'a list \<Rightarrow> bool" where
  "queue_repr q xs \<longleftrightarrow> (\<exists>k h. queue_length q = 2 ^ k \<and> q_length_mask q = 2 ^ k - 1 \<and>
     q_head q = int h \<and> q_tail q = int ((h + length xs) mod 2 ^ k) \<and>
     ring_items (q_values q) (2 ^ k) h xs)"

lemma mask_nat: "int m AND (2 ^ k - 1) = int (m mod 2 ^ k)"
  by (simp add: and_mask_mod zmod_int)

lemma queue_reprE:
  assumes "queue_repr q xs"
  obtains k h where "queue_length q = 2 ^ k" and "q_length_mask q = 2 ^ k - 1"
    and "q_head q = int h" and "q_tail q = int ((h + length xs) mod 2 ^ k)"
    and "ring_items (q_values q) (2 ^ k) h xs" and "h < 2 ^ k" and "length xs < 2 ^ k"
    and "length (q_values q) = 2 ^ k"
  using assms by (auto simp: queue_repr_def ring_items_def)

lemma queue_count [repr_simps]:
  assumes "queue_repr q xs"
  shows "queue_get_count q = int (length xs)"
proof -
  obtain k h where q: "queue_length q = 2 ^ k" "q_head q = int h"
    "q_tail q = int ((h + length xs) mod 2 ^ k)" "h < 2 ^ k" "length xs < 2 ^ k"
    using assms by (rule queue_reprE)
  from ring_count [OF q(4,5)] show ?thesis
    by (simp only: queue_get_count_def q(1-3) of_nat_power of_nat_numeral)
qed

lemma queue_init_repr:
  assumes "queue_init c vsize k = (True, q, c')"
  shows "queue_repr q []"
proof -
  have "q = \<lparr>q_value_size = vsize, q_values = uninitialised (2 ^ k), queue_length = 2 ^ k,
      q_length_mask = 2 ^ k - 1, q_head = 0, q_tail = 0\<rparr>"
    using assms by (auto simp: queue_init_def Let_def push_bit_eq_mult split: option.splits prod.splits)
  then show ?thesis
    by (auto simp: queue_repr_def ring_items_def intro!: exI [of _ k] exI [of _ 0])
qed

lemma queue_pop_repr:
  assumes "queue_repr q (x # xs)"
  shows "\<exists>q'. queue_pop q = Some (x, q') \<and> queue_repr q' xs"
proof -
  obtain k h where q: "queue_length q = 2 ^ k" "q_length_mask q = 2 ^ k - 1" "q_head q = int h"
    "q_tail q = int ((h + length (x # xs)) mod 2 ^ k)" "ring_items (q_values q) (2 ^ k) h (x # xs)"
    "h < 2 ^ k" "length (q_values q) = 2 ^ k" using assms by (rule queue_reprE)
  have inc: "queue_increment q (int h) = int ((h + 1) mod 2 ^ k)"
    using mask_nat [of "h + 1" k] by (simp add: queue_increment_def q(2) add.commute)
  have "queue_pop q = Some (x, q\<lparr>q_head := int ((h + 1) mod 2 ^ k)\<rparr>)"
    using ring_items_pop(1) [OF q(5)] queue_count [OF assms] q(3,6,7)
    by (simp add: queue_pop_def cell_at_nat inc)
  moreover have "queue_repr (q\<lparr>q_head := int ((h + 1) mod 2 ^ k)\<rparr>) xs"
    unfolding queue_repr_def
    using ring_items_pop(2) [OF q(5)] q
    by (intro exI [of _ k] exI [of _ "(h + 1) mod 2 ^ k"]) (simp add: mod_add_left_eq)
  ultimately show ?thesis by blast
qed

lemma queue_peek_at_repr [repr_simps]:
  assumes "queue_repr q xs" and "i < length xs"
  shows "queue_peek_at q (int i) = Some (xs ! i)"
proof -
  obtain k h where q: "q_length_mask q = 2 ^ k - 1" "q_head q = int h"
    "ring_items (q_values q) (2 ^ k) h xs" "length (q_values q) = 2 ^ k"
    using assms(1) by (rule queue_reprE)
  show ?thesis
    using ring_items_nth [OF q(3) assms(2)] queue_count [OF assms(1)] assms(2) q(4)
      mask_nat [of "h + i" k]
    by (simp add: queue_peek_at_def queue_peek_at_index_def q(1,2) cell_at_nat)
qed

lemma queue_peek_repr [repr_simps]: "queue_repr q (x # xs) \<Longrightarrow> queue_peek q = Some x"
  using queue_peek_at_repr [of q "x # xs" 0] by (simp add: queue_peek_def)

lemma tail_index:
  assumes "length xs < n" and "i < length xs" and "n = 2 ^ k"
  shows "(int ((h + length xs) mod n) + int n - 1 - int i) AND (2 ^ k - 1) =
         int ((h + (length xs - 1 - i)) mod n)"
proof -
  define A where "A = (h + length xs) mod n + (n - 1 - i)"
  have "int ((h + length xs) mod n) + int n - 1 - int i = int A"
    using assms(1,2) by (simp add: A_def)
  moreover have "A mod n = (h + length xs + (n - 1 - i)) mod n"
    unfolding A_def by (rule mod_add_left_eq)
  moreover have "h + length xs + (n - 1 - i) = h + (length xs - 1 - i) + n"
    using assms(1,2) by simp
  moreover have "int A AND (2 ^ k - 1) = int (A mod n)" by (simp only: mask_nat assms(3))
  ultimately show ?thesis by (simp only: mod_add_self2)
qed

lemma queue_peek_tail_at_repr [repr_simps]:
  assumes "queue_repr q xs" and "i < length xs"
  shows "queue_peek_tail_at q (int i) = Some (xs ! (length xs - 1 - i))"
proof -
  obtain k h where q: "queue_length q = 2 ^ k" "q_length_mask q = 2 ^ k - 1" "q_head q = int h"
    "q_tail q = int ((h + length xs) mod 2 ^ k)" "ring_items (q_values q) (2 ^ k) h xs"
    "h < 2 ^ k" "length xs < 2 ^ k" "length (q_values q) = 2 ^ k"
    using assms(1) by (rule queue_reprE)
  have "length xs - 1 - i < length xs" using assms(2) by simp
  from ring_items_nth [OF q(5) this] tail_index [OF q(7) assms(2) refl, of h]
    queue_count [OF assms(1)] assms(2) q(8)
  show ?thesis
    by (simp add: queue_peek_tail_at_def queue_peek_tail_at_index_def q(1-4) cell_at_nat)
qed

lemma queue_peek_tail_repr [repr_simps]:
  assumes "queue_repr q (xs @ [x])"
  shows "queue_peek_tail q = Some x"
  using queue_peek_tail_at_repr [OF assms, of 0] by (simp add: queue_peek_tail_def)

lemma queue_update_tail_repr:
  assumes "queue_repr q (xs @ [x])"
  shows "\<exists>q'. queue_update_tail q y = Some q' \<and> queue_repr q' (xs @ [y])"
proof -
  let ?ys = "xs @ [x]"
  obtain k h where q: "queue_length q = 2 ^ k" "q_length_mask q = 2 ^ k - 1" "q_head q = int h"
    "q_tail q = int ((h + length ?ys) mod 2 ^ k)" "ring_items (q_values q) (2 ^ k) h ?ys"
    "h < 2 ^ k" "length ?ys < 2 ^ k" "length (q_values q) = 2 ^ k"
    using assms by (rule queue_reprE)
  have idx: "queue_peek_tail_at_index q 0 = Some (int ((h + length xs) mod 2 ^ k))"
    using tail_index [OF q(7), of 0 k h] queue_count [OF assms]
    by (simp add: queue_peek_tail_at_index_def q(1-4))
  have "queue_update_tail q y =
      Some (q\<lparr>q_values := (q_values q)[(h + length xs) mod 2 ^ k := Some y]\<rparr>)"
    using q(8) by (simp add: queue_update_tail_def idx cell_put_nat)
  moreover have "ring_items ((q_values q)[(h + length xs) mod 2 ^ k := Some y]) (2 ^ k) h (xs @ [y])"
    using ring_items_update [OF q(5), of "length xs" y] by simp
  ultimately show ?thesis using q by (auto simp: queue_repr_def)
qed

section \<open>Growth and push\<close>

lemma queue_copy_loop_correct:
  assumes "q_length_mask q = 2 ^ k - 1" and "q_tail q = int ((h + length xs) mod 2 ^ k)"
    and "ring_items (q_values q) (2 ^ k) h xs" and "length ys = m" and "length xs \<le> m"
    and "i \<le> length xs" and "\<forall>j<i. ys ! j = Some (xs ! j)"
  shows "\<exists>zs. queue_copy_loop q (int ((h + i) mod 2 ^ k)) (int i) ys = Some (zs, int (length xs)) \<and>
     length zs = m \<and> (\<forall>j<length xs. zs ! j = Some (xs ! j))"
  using assms(4-7)
proof (induction "length xs - i" arbitrary: i ys)
  case 0
  then have "i = length xs" by simp
  then show ?case using 0 assms(2) by (simp add: queue_copy_loop.simps)
next
  case (Suc d)
  then have i: "i < length xs" by simp
  have n: "length xs < 2 ^ k" "length (q_values q) = 2 ^ k"
    using assms(3) by (simp_all add: ring_items_def)
  have ne: "(h + i) mod 2 ^ k \<noteq> (h + length xs) mod 2 ^ k"
    using ring_mod_inj [of h i "2 ^ k" "length xs"] i n(1) by auto
  have inc: "queue_increment q (int ((h + i) mod 2 ^ k)) = int ((h + Suc i) mod 2 ^ k)"
    using mask_nat [of "(h + i) mod 2 ^ k + 1" k]
    by (simp add: queue_increment_def assms(1) mod_Suc_eq add.commute)
  have item: "at (q_values q) (int ((h + i) mod 2 ^ k)) = Some (Some (xs ! i))"
    using ring_items_nth [OF assms(3) i] n(2) by simp
  have "\<forall>j<Suc i. ys[i := Some (xs ! i)] ! j = Some (xs ! j)"
    using Suc.prems i by (auto simp: less_Suc_eq)
  with Suc.hyps(1) [of "Suc i" "ys[i := Some (xs ! i)]"] Suc.hyps(2) Suc.prems i
  have "\<exists>zs. queue_copy_loop q (int ((h + Suc i) mod 2 ^ k)) (int (Suc i)) (ys[i := Some (xs ! i)]) =
       Some (zs, int (length xs)) \<and> length zs = m \<and> (\<forall>j<length xs. zs ! j = Some (xs ! j))" by simp
  then show ?case
    using ne item inc i Suc.prems
    by (subst queue_copy_loop.simps) (simp add: assms(2) add.commute del: of_nat_mod)
qed

lemma queue_maybe_grow_correct:
  assumes "queue_repr q xs"
  shows "\<exists>ok q' c'. queue_maybe_grow q c = Some (ok, q', c') \<and> queue_repr q' xs \<and>
     (ok \<longrightarrow> int (length xs) < queue_length q' - 1) \<and>
     (\<not> ok \<longrightarrow> q' = q \<and> context_is_errored c') \<and>
     (ok \<longrightarrow> ctx_error c' = ctx_error c) \<and>
     (context_is_errored c \<longrightarrow> ctx_error c' = ctx_error c) \<and> (ctx_ok M c \<longrightarrow> ctx_ok M c')"
proof (cases "queue_get_count q < queue_length q - 1")
  case True
  then show ?thesis using assms queue_count [OF assms]
    by (intro exI [of _ True] exI [of _ q] exI [of _ c]) (simp add: queue_maybe_grow_def)
next
  case False
  obtain k h where q: "queue_length q = 2 ^ k" "q_length_mask q = 2 ^ k - 1" "q_head q = int h"
    "q_tail q = int ((h + length xs) mod 2 ^ k)" "ring_items (q_values q) (2 ^ k) h xs"
    "h < 2 ^ k" "length xs < 2 ^ k" "length (q_values q) = 2 ^ k"
    using assms by (rule queue_reprE)
  obtain block c1 where alloc:
    "context_allocate c (word_of_int (2 ^ k * 2)) (q_value_size q) = (block, c1)" by fastforce
  show ?thesis
  proof (cases block)
    case None
    then have "context_is_errored c1" "ctx_ok M c \<longrightarrow> ctx_ok M c1"
      using alloc context_allocate_ok [OF alloc]
      by (auto simp: context_allocate_def Let_def context_set_error_on_malloc_def split: option.splits)
    then show ?thesis
      using alloc False assms context_allocate_sticky [OF alloc] None
      by (intro exI [of _ False] exI [of _ q] exI [of _ c1])
        (auto simp: queue_maybe_grow_def q(1))
  next
    case (Some bs)
    have "h mod 2 ^ k = h" using q(6) by simp
    from queue_copy_loop_correct [OF q(2,4,5), of "uninitialised (2 ^ k * 2)" "2 ^ k * 2" 0] this
    obtain zs where zs: "queue_copy_loop q (int h) 0 (uninitialised (2 ^ k * 2)) =
        Some (zs, int (length xs))" "length zs = 2 ^ k * 2" "\<forall>j<length xs. zs ! j = Some (xs ! j)"
      using q(7) by (auto simp: nat_mult_distrib nat_power_eq)
    define q1 where "q1 = q\<lparr>queue_length := 2 ^ k * 2, q_length_mask := 2 ^ k * 2 - 1, q_values := zs,
        q_head := 0, q_tail := int (length xs)\<rparr>"
    have "queue_maybe_grow q c = Some (True, q1, c1)"
      using alloc Some False zs(1) by (simp add: queue_maybe_grow_def q(1,3) q1_def Let_def)
    moreover have "queue_repr q1 xs"
      unfolding queue_repr_def using zs(2,3) q(7)
      by (intro exI [of _ "Suc k"] exI [of _ 0]) (auto simp: q1_def ring_items_def)
    moreover have "ctx_error c1 = ctx_error c" "ctx_ok M c \<longrightarrow> ctx_ok M c1"
      using alloc Some context_allocate_ok [OF alloc]
      by (auto simp: context_allocate_def Let_def split: option.splits)
    moreover have "int (length xs) < queue_length q1 - 1"
    proof -
      have "int (length xs) < 2 ^ k" using q(7) by (metis of_nat_less_iff of_nat_numeral of_nat_power)
      moreover have "(1 :: int) \<le> 2 ^ k" by simp
      moreover have "queue_length q1 = 2 ^ k * 2" by (simp add: q1_def)
      ultimately show ?thesis by linarith
    qed
    ultimately show ?thesis by blast
  qed
qed

lemma queue_push_correct:
  assumes "queue_repr q xs"
  shows "\<exists>ok q' c'. queue_push x q c = Some (ok, q', c') \<and>
     queue_repr q' (if ok then xs @ [x] else xs) \<and>
     (\<not> ok \<longrightarrow> q' = q \<and> context_is_errored c') \<and>
     (ok \<longrightarrow> ctx_error c' = ctx_error c) \<and>
     (context_is_errored c \<longrightarrow> ctx_error c' = ctx_error c) \<and> (ctx_ok M c \<longrightarrow> ctx_ok M c')"
proof -
  obtain ok q1 c1 where g: "queue_maybe_grow q c = Some (ok, q1, c1)" "queue_repr q1 xs"
    "ok \<longrightarrow> int (length xs) < queue_length q1 - 1" "\<not> ok \<longrightarrow> q1 = q \<and> context_is_errored c1"
    "ok \<longrightarrow> ctx_error c1 = ctx_error c" "context_is_errored c \<longrightarrow> ctx_error c1 = ctx_error c"
    "ctx_ok M c \<longrightarrow> ctx_ok M c1"
    using queue_maybe_grow_correct [OF assms, of c] by blast
  show ?thesis
  proof (cases ok)
    case False
    then show ?thesis using g
      by (intro exI [of _ False] exI [of _ q] exI [of _ c1]) (auto simp: queue_push_def)
  next
    case True
    obtain k h where q: "queue_length q1 = 2 ^ k" "q_length_mask q1 = 2 ^ k - 1" "q_head q1 = int h"
      "q_tail q1 = int ((h + length xs) mod 2 ^ k)" "ring_items (q_values q1) (2 ^ k) h xs"
      "h < 2 ^ k" "length xs < 2 ^ k" "length (q_values q1) = 2 ^ k"
      using g(2) by (rule queue_reprE)
    have room: "Suc (length xs) < 2 ^ k"
    proof -
      have "int (Suc (length xs)) < int (2 ^ k)" using g(3) True q(1) by simp
      then show ?thesis by (simp only: of_nat_less_iff)
    qed
    have inc: "queue_increment q1 (q_tail q1) = int ((h + length (xs @ [x])) mod 2 ^ k)"
      using mask_nat [of "(h + length xs) mod 2 ^ k + 1" k]
      by (simp add: queue_increment_def q(2,4) mod_Suc_eq add.commute del: of_nat_mod)
    define q2 where "q2 = q1\<lparr>q_values := (q_values q1)[(h + length xs) mod 2 ^ k := Some x],
        q_tail := int ((h + length (xs @ [x])) mod 2 ^ k)\<rparr>"
    have "queue_push x q c = Some (True, q2, c1)"
      using g(1) True q(8) inc
      by (simp add: queue_push_def q(4) q2_def cell_put_nat del: of_nat_mod)
    moreover have "queue_repr q2 (xs @ [x])"
      unfolding queue_repr_def using ring_items_push [OF q(5) room, of x] q
      by (intro exI [of _ k] exI [of _ h]) (simp add: q2_def)
    ultimately show ?thesis using g True by auto
  qed
qed

section \<open>The queue is a queue\<close>

definition queue_push_step :: "'a \<Rightarrow> 'a queue \<times> ctx \<Rightarrow> ('a queue \<times> ctx) option" where
  "queue_push_step x qc = do {
     (ok, q, c) \<leftarrow> queue_push x (fst qc) (snd qc);
     check ok;
     Some (q, c)
   }"

definition queue_pop_step :: "'a queue \<times> ctx \<Rightarrow> ('a \<times> 'a queue \<times> ctx) option" where
  "queue_pop_step qc = do {
     (x, q) \<leftarrow> queue_pop (fst qc);
     Some (x, q, snd qc)
   }"

lemma queue_pop_empty: "queue_repr q [] \<Longrightarrow> queue_pop q = None"
  using queue_count [of q "[]"] by (simp add: queue_pop_def)

text \<open>A push is refused only when the ring is full and the allocator refuses a larger one.\<close>

lemma queue_push_outcome:
  assumes "queue_repr q xs"
  shows "\<exists>ok q' c'. queue_push x q c = Some (ok, q', c') \<and>
     (if ok then queue_repr q' (xs @ [x]) \<and> ctx_error c' = ctx_error c
      else q' = q \<and> context_is_errored c' \<and> int (length xs) = queue_length q - 1 \<and>
        fst (context_allocate c (word_of_int (queue_length q * 2)) (q_value_size q)) = None)"
proof -
  obtain ok q' c' where p: "queue_push x q c = Some (ok, q', c')"
    "queue_repr q' (if ok then xs @ [x] else xs)" "\<not> ok \<longrightarrow> q' = q \<and> context_is_errored c'"
    "ok \<longrightarrow> ctx_error c' = ctx_error c"
    using queue_push_correct [OF assms, of x c undefined] by blast
  have full: "int (length xs) = queue_length q - 1"
    "fst (context_allocate c (word_of_int (queue_length q * 2)) (q_value_size q)) = None" if "\<not> ok"
  proof -
    have "\<exists>q1 c1. queue_maybe_grow q c = Some (False, q1, c1)"
      using p(1) that by (auto simp: queue_push_def bind_eq_Some_conv split: if_splits)
    then have g: "\<not> queue_get_count q < queue_length q - 1"
      "fst (context_allocate c (word_of_int (queue_length q * 2)) (q_value_size q)) = None"
      by (auto simp: queue_maybe_grow_def Let_def bind_eq_Some_conv split: if_splits option.splits prod.splits)
    obtain k where "queue_length q = 2 ^ k" "length xs < 2 ^ k" using assms by (rule queue_reprE)
    then have "int (length xs) < queue_length q" by (metis of_nat_less_iff of_nat_numeral of_nat_power)
    with g queue_count [OF assms] show "int (length xs) = queue_length q - 1"
      "fst (context_allocate c (word_of_int (queue_length q * 2)) (q_value_size q)) = None" by simp_all
  qed
  with p show ?thesis by (cases ok) auto
qed

text \<open>Whatever the allocator does, runs that are not cut short by a refusal are runs of a list.\<close>

interpretation gq_any: fifo_queue "\<lambda>qc. queue_repr (fst qc)" "\<lambda>qc. queue_get_count (fst qc)"
  queue_pop_step "\<lambda>qc. queue_peek (fst qc)" "\<lambda>qc. queue_peek_tail (fst qc)" queue_push_step
proof unfold_locales
  fix qc :: "'a queue \<times> ctx" and x xs
  assume "queue_repr (fst qc) (x # xs)"
  from queue_pop_repr [OF this]
  show "\<exists>q'. queue_pop_step qc = Some (x, q') \<and> queue_repr (fst q') xs"
    by (force simp: queue_pop_step_def)
next
  fix qc qc' :: "'a queue \<times> ctx" and x xs
  assume "queue_repr (fst qc) xs" and "queue_push_step x qc = Some qc'"
  with queue_push_correct [of "fst qc" xs x "snd qc" undefined]
  show "queue_repr (fst qc') (xs @ [x])" by (auto simp: queue_push_step_def split: if_splits)
qed (simp_all add: queue_count queue_pop_step_def queue_pop_empty queue_peek_repr queue_peek_tail_repr)

text \<open>With an allocator that never refuses, the queue and the context together are a queue without bound.\<close>

definition queue_holds :: "(nat \<Rightarrow> u64 \<Rightarrow> byte list option) \<Rightarrow> 'a queue \<times> ctx \<Rightarrow> 'a list \<Rightarrow> bool" where
  "queue_holds M qc xs \<longleftrightarrow> queue_repr (fst qc) xs \<and> ctx_ok M (snd qc) \<and> never_refuses M"

lemma queue_push_step_holds:
  assumes "queue_holds M qc xs"
  shows "\<exists>qc'. queue_push_step x qc = Some qc' \<and> queue_holds M qc' (xs @ [x])"
proof -
  have h: "queue_repr (fst qc) xs" "ctx_ok M (snd qc)" "never_refuses M"
    using assms by (simp_all add: queue_holds_def)
  from queue_push_correct [OF h(1), of x "snd qc" M] h(2) obtain ok q' c' where
    p: "queue_push x (fst qc) (snd qc) = Some (ok, q', c')" "queue_repr q' (if ok then xs @ [x] else xs)"
      "\<not> ok \<longrightarrow> context_is_errored c'" "ctx_ok M c'" by blast
  have ok using p(3) ctx_ok_no_error [OF p(4) h(3)] by auto
  with p h(3) show ?thesis by (simp add: queue_push_step_def queue_holds_def)
qed

interpretation gq: unbounded_fifo "queue_holds M" "\<lambda>qc. queue_get_count (fst qc)"
  queue_pop_step "\<lambda>qc. queue_peek (fst qc)" "\<lambda>qc. queue_peek_tail (fst qc)" queue_push_step for M
proof unfold_locales
  fix qc :: "'a queue \<times> ctx" and x xs
  assume h: "queue_holds M qc (x # xs)"
  then have "queue_repr (fst qc) (x # xs)" by (simp add: queue_holds_def)
  from queue_pop_repr [OF this] h
  show "\<exists>q'. queue_pop_step qc = Some (x, q') \<and> queue_holds M q' xs"
    by (force simp: queue_pop_step_def queue_holds_def)
next
  fix qc qc' :: "'a queue \<times> ctx" and x xs
  assume "queue_holds M qc xs" and "queue_push_step x qc = Some qc'"
  with queue_push_step_holds [of M qc xs x] show "queue_holds M qc' (xs @ [x])" by auto
next
  fix qc :: "'a queue \<times> ctx" and x xs
  assume "queue_holds M qc xs"
  from queue_push_step_holds [OF this, of x] show "queue_push_step x qc \<noteq> None" by auto
qed (auto simp: queue_holds_def queue_count queue_pop_step_def queue_pop_empty queue_peek_repr queue_peek_tail_repr)

end
