(* ===== verification/Buffers.thy ===== *)
theory Buffers
  imports Growing_Queue
begin

text \<open>
  \<open>src/data_structures/buffer.c\<close>, and the bits of a byte sequence, lowest bit of each byte
  first (the order in which the writer stores and the reader returns them).  The bytes behind
  \<open>data\<close> are part of the buffer value: the code never has two live buffers on one block.
\<close>

record buffer =
  buf_data :: "byte list"
  buf_length :: int
  allocated_length :: int

definition EMPTY_BUFFER :: buffer where
  "EMPTY_BUFFER = \<lparr>buf_data = [], buf_length = 0, allocated_length = 0\<rparr>"

definition buffer_make :: "byte list \<Rightarrow> int \<Rightarrow> int \<Rightarrow> buffer" where
  "buffer_make d len allocated = \<lparr>buf_data = d, buf_length = len, allocated_length = allocated\<rparr>"

record buffer_or_error =
  is_error :: bool
  result_buffer :: buffer

definition ERROR_ERROR_BUFFER :: buffer_or_error where
  "ERROR_ERROR_BUFFER = \<lparr>is_error = True, result_buffer = EMPTY_BUFFER\<rparr>"

definition EMPTY_ERROR_BUFFER :: buffer_or_error where
  "EMPTY_ERROR_BUFFER = \<lparr>is_error = False, result_buffer = EMPTY_BUFFER\<rparr>"

section \<open>Bits of bytes\<close>

definition byte_bits :: "byte \<Rightarrow> bool list" where
  "byte_bits b = map (bit b) [0..<8]"

definition bytes_bits :: "byte list \<Rightarrow> bool list" where
  "bytes_bits bs = concat (map byte_bits bs)"

lemma length_byte_bits [simp]: "length (byte_bits b) = 8"
  by (simp add: byte_bits_def)

lemma nth_byte_bits [simp]: "i < 8 \<Longrightarrow> byte_bits b ! i = bit b i"
  by (simp add: byte_bits_def)

lemma bytes_bits_simps [simp]:
  "bytes_bits [] = []" "bytes_bits (b # bs) = byte_bits b @ bytes_bits bs"
  "bytes_bits (bs @ cs) = bytes_bits bs @ bytes_bits cs"
  by (simp_all add: bytes_bits_def)

lemma length_bytes_bits [simp]: "length (bytes_bits bs) = 8 * length bs"
  by (induction bs) simp_all

lemma byte_bits_inj: "byte_bits a = byte_bits b \<Longrightarrow> a = b"
proof -
  assume eq: "byte_bits a = byte_bits b"
  show "a = b"
  proof (rule bit_word_eqI)
    fix n assume "n < LENGTH(8)"
    then have "n < 8" by simp
    then show "bit a n = bit b n" using eq nth_byte_bits [of n a] nth_byte_bits [of n b] by simp
  qed
qed

lemma bytes_bits_inj: "bytes_bits as = bytes_bits bs \<Longrightarrow> as = bs"
proof (induction as arbitrary: bs)
  case Nil
  then have "length (bytes_bits bs) = 0" by simp
  then show ?case by simp
next
  case (Cons a as)
  then have "length (bytes_bits bs) = 8 * length (a # as)" by (metis length_bytes_bits)
  then obtain b cs where "bs = b # cs" by (cases bs) auto
  with Cons show ?case by (auto dest: byte_bits_inj)
qed

section \<open>Emptying and opening a queue\<close>

text \<open>
  The loops of \<open>writer_deinit\<close> and \<open>reader_deinit\<close>: every buffer is popped and freed.
\<close>

partial_function (option) queue_drain :: "'a queue \<Rightarrow> 'a queue option" where
  "queue_drain q =
     (if queue_get_count q > 0 then do { (_, q) \<leftarrow> queue_pop q; queue_drain q } else Some q)"

lemma queue_drain_returns: "queue_repr q xs \<Longrightarrow> \<exists>q'. queue_drain q = Some q'"
proof (induction xs arbitrary: q)
  case Nil
  then show ?case using queue_count [OF Nil] by (subst queue_drain.simps) simp
next
  case (Cons x xs)
  from queue_pop_repr [OF Cons.prems] Cons.IH queue_count [OF Cons.prems] show ?case
    by (subst queue_drain.simps) auto
qed

lemma queue_drain_zero [simp]: "queue_drain queue_zero = Some queue_zero"
  by (subst queue_drain.simps) (simp add: queue_get_count_def queue_zero_def)

lemma queue_init_cases:
  assumes "queue_init c v k = (ok, q, c')" and "ctx_ok M c"
  shows "ctx_ok M c' \<and> (if ok then queue_repr q [] \<and> ctx_error c' = ctx_error c
     else q = queue_zero \<and> context_is_errored c')"
proof -
  obtain block c1 where a: "context_allocate c (word_of_int (push_bit k 1)) v = (block, c1)"
    by fastforce
  from context_allocate_cases [OF a assms(2)] assms(1) a queue_init_repr [of c v k q c']
  show ?thesis by (auto simp: queue_init_def Let_def queue_deinit_def split: option.splits)
qed

end
