(* ===== verification/Writer.thy ===== *)
theory Writer
  imports Buffers
begin

text \<open>
  \<open>src/data_structures/writer.c\<close>: bits and bytes are appended to the last buffer of a queue;
  a full buffer is followed by a fresh or recycled one.  When an allocation fails the error is
  set on the context and the writer goes on in the last buffer, so its contents mean
  something only while the context has no error.
\<close>

record writer =
  w_buffers :: "buffer queue"
  bytes_stored :: int
  current_bit_index :: int
  single_buffer_byte_size :: int
  w_free_buffers :: "buffer queue"

section \<open>Operations\<close>

definition writer_produce_next_buffer :: "writer \<Rightarrow> ctx \<Rightarrow> (bool \<times> writer \<times> ctx) option" where
  "writer_produce_next_buffer w c = do {
     let w = w\<lparr>current_bit_index := 0\<rparr>;
     (result, w, c) \<leftarrow>
       (if queue_get_count (w_free_buffers w) > 0 then do {
          (existing, fq) \<leftarrow> queue_pop (w_free_buffers w);
          Some (Some existing, w\<lparr>w_free_buffers := fq\<rparr>, c)
        } else
          (case context_allocate c (word_of_int (single_buffer_byte_size w)) 1 of
             (None, c) \<Rightarrow> Some (None, w, c)
           | (Some bytes, c) \<Rightarrow>
               Some (Some (buffer_make bytes 0 (single_buffer_byte_size w)), w, c)));
     (case result of
        None \<Rightarrow> Some (False, w, c)
      | Some b \<Rightarrow> do {
          (ok, bq, c) \<leftarrow> queue_push b (w_buffers w) c;
          Some (ok, w\<lparr>w_buffers := bq\<rparr>, c)
        })
   }"

definition writer_ensure_buffer :: "writer \<Rightarrow> ctx \<Rightarrow> (buffer \<times> writer \<times> ctx) option" where
  "writer_ensure_buffer w c = do {
     slot \<leftarrow> queue_peek_tail (w_buffers w);
     if drop_bit 3 (current_bit_index w) \<ge> allocated_length slot then do {
       let w = w\<lparr>bytes_stored := bytes_stored w + allocated_length slot\<rparr>;
       (_, w, c) \<leftarrow> writer_produce_next_buffer w c;
       slot \<leftarrow> queue_peek_tail (w_buffers w);
       Some (slot, w, c)
     } else Some (slot, w, c)
   }"

definition writer_get_bytes_stored :: "writer \<Rightarrow> int" where
  "writer_get_bytes_stored w = bytes_stored w + drop_bit 3 (current_bit_index w + 8 - 1)"

definition writer_zero :: writer where
  "writer_zero = \<lparr>w_buffers = queue_zero, bytes_stored = 0, current_bit_index = 0,
     single_buffer_byte_size = 0, w_free_buffers = queue_zero\<rparr>"

text \<open>\<open>writer_deinit\<close> frees every buffer of both queues, then both queues.\<close>

definition writer_deinit :: "writer \<Rightarrow> writer option" where
  "writer_deinit w = do {
     _ \<leftarrow> queue_drain (w_buffers w);
     _ \<leftarrow> queue_drain (w_free_buffers w);
     Some writer_zero
   }"

definition writer_init :: "ctx \<Rightarrow> int \<Rightarrow> nat \<Rightarrow> (bool \<times> writer \<times> ctx) option" where
  "writer_init c buffer_byte_size queues_size_shift =
     (let w = writer_zero\<lparr>single_buffer_byte_size := buffer_byte_size\<rparr>;
          (ok, bq, c) = queue_init c 24 queues_size_shift;
          w = w\<lparr>w_buffers := bq\<rparr>
      in if \<not> ok then do { w \<leftarrow> writer_deinit w; Some (False, w, c) }
      else let (ok, fq, c) = queue_init c 24 queues_size_shift;
               w = w\<lparr>w_free_buffers := fq\<rparr>
      in if \<not> ok then do { w \<leftarrow> writer_deinit w; Some (False, w, c) }
      else do {
        (_, w, c) \<leftarrow> writer_produce_next_buffer w c;
        if context_is_errored c then do { w \<leftarrow> writer_deinit w; Some (False, w, c) }
        else Some (True, w, c)
      })"

definition writer_reset_current_buffer :: "writer \<Rightarrow> writer" where
  "writer_reset_current_buffer w = w\<lparr>current_bit_index := 0\<rparr>"

definition writer_peek_current_buffer :: "writer \<Rightarrow> (buffer \<times> writer) option" where
  "writer_peek_current_buffer w = do {
     slot \<leftarrow> queue_peek_tail (w_buffers w);
     let slot = slot\<lparr>buf_length := drop_bit 3 (current_bit_index w + 8 - 1)\<rparr>;
     bq \<leftarrow> queue_update_tail (w_buffers w) slot;
     Some (slot, w\<lparr>w_buffers := bq\<rparr>)
   }"

definition writer_consume_full_buffer :: "writer \<Rightarrow> (buffer \<times> writer) option" where
  "writer_consume_full_buffer w =
     (if queue_get_count (w_buffers w) < 2 then Some (EMPTY_BUFFER, w)
      else do {
        (slot, bq) \<leftarrow> queue_pop (w_buffers w);
        let slot = slot\<lparr>buf_length := allocated_length slot\<rparr>;
        Some (slot, w\<lparr>w_buffers := bq, bytes_stored := bytes_stored w - buf_length slot\<rparr>)
      })"

definition writer_consume_nonempty_buffer ::
  "writer \<Rightarrow> ctx \<Rightarrow> (buffer_or_error \<times> writer \<times> ctx) option" where
  "writer_consume_nonempty_buffer w c =
     (if context_is_errored c then Some (ERROR_ERROR_BUFFER, w, c)
      else do {
        (full_buffer, w) \<leftarrow> writer_consume_full_buffer w;
        if buf_length full_buffer > 0
        then Some (\<lparr>is_error = False, result_buffer = full_buffer\<rparr>, w, c)
        else if current_bit_index w = 0 then Some (EMPTY_ERROR_BUFFER, w, c)
        else do {
          let bit_index = current_bit_index w;
          (ok, w, c) \<leftarrow> writer_produce_next_buffer w c;
          if \<not> ok then Some (ERROR_ERROR_BUFFER, w, c)
          else do {
            (slot, bq) \<leftarrow> queue_pop (w_buffers w);
            let slot = slot\<lparr>buf_length := drop_bit 3 (bit_index + 8 - 1)\<rparr>;
            Some (\<lparr>is_error = False, result_buffer = slot\<rparr>, w\<lparr>w_buffers := bq\<rparr>, c)
          }
        }
      })"

text \<open>\<open>memcpy(bytes + index, data, n)\<close>.\<close>

definition memcpy :: "byte list \<Rightarrow> int \<Rightarrow> byte list \<Rightarrow> int \<Rightarrow> byte list option" where
  "memcpy bytes index d n = do {
     check (0 \<le> index \<and> 0 \<le> n \<and> index + n \<le> int (length bytes) \<and> n \<le> int (length d));
     Some (take (nat index) bytes @ take (nat n) d @ drop (nat (index + n)) bytes)
   }"

partial_function (option) writer_consume_loop ::
  "writer \<Rightarrow> byte list \<Rightarrow> int \<Rightarrow> (writer \<times> byte list \<times> int) option" where
  "writer_consume_loop w bytes index = do {
     (full_buffer, w) \<leftarrow> writer_consume_full_buffer w;
     if buf_length full_buffer = 0 then Some (w, bytes, index)
     else do {
       bytes \<leftarrow> memcpy bytes index (buf_data full_buffer) (buf_length full_buffer);
       writer_consume_loop w bytes (index + buf_length full_buffer)
     }
   }"

definition writer_consume_all_buffers ::
  "writer \<Rightarrow> ctx \<Rightarrow> (buffer_or_error \<times> writer \<times> ctx) option" where
  "writer_consume_all_buffers w c = do {
     let len = writer_get_bytes_stored w;
     (case context_allocate c (word_of_int len) 1 of
        (None, c) \<Rightarrow> Some (ERROR_ERROR_BUFFER, w, c)
      | (Some bytes, c) \<Rightarrow> do {
          (w, bytes, index) \<leftarrow> writer_consume_loop w bytes 0;
          (last_buffer, w, c) \<leftarrow> writer_consume_nonempty_buffer w c;
          if is_error last_buffer then Some (last_buffer, w, c)
          else do {
            bytes \<leftarrow>
              (if buf_length (result_buffer last_buffer) > 0
               then memcpy bytes index (buf_data (result_buffer last_buffer))
                      (buf_length (result_buffer last_buffer))
               else Some bytes);
            Some (\<lparr>is_error = False, result_buffer = buffer_make bytes len len\<rparr>, w, c)
          }
        })
   }"

definition writer_write_bit :: "writer \<Rightarrow> ctx \<Rightarrow> byte \<Rightarrow> (writer \<times> ctx) option" where
  "writer_write_bit w c b = do {
     check (b = 1 \<or> b = 0);
     (buf, w, c) \<leftarrow> writer_ensure_buffer w c;
     v \<leftarrow> at (buf_data buf) (drop_bit 3 (current_bit_index w));
     let v = (if current_bit_index w AND 7 = 0 then 0 else v);
     let v = v OR push_bit (nat (current_bit_index w AND 7)) b;
     d \<leftarrow> put (buf_data buf) (drop_bit 3 (current_bit_index w)) v;
     bq \<leftarrow> queue_update_tail (w_buffers w) (buf\<lparr>buf_data := d\<rparr>);
     let w = w\<lparr>w_buffers := bq, current_bit_index := current_bit_index w + 1\<rparr>;
     (_, w, c) \<leftarrow> writer_ensure_buffer w c;
     Some (w, c)
   }"

definition writer_write_byte :: "writer \<Rightarrow> ctx \<Rightarrow> byte \<Rightarrow> (writer \<times> ctx) option" where
  "writer_write_byte w c v = do {
     check (current_bit_index w AND 7 = 0);
     (buf, w, c) \<leftarrow> writer_ensure_buffer w c;
     d \<leftarrow> put (buf_data buf) (drop_bit 3 (current_bit_index w)) v;
     bq \<leftarrow> queue_update_tail (w_buffers w) (buf\<lparr>buf_data := d\<rparr>);
     let w = w\<lparr>w_buffers := bq, current_bit_index := current_bit_index w + 8\<rparr>;
     (_, w, c) \<leftarrow> writer_ensure_buffer w c;
     Some (w, c)
   }"

definition writer_supply_buffer :: "writer \<Rightarrow> ctx \<Rightarrow> buffer \<Rightarrow> (bool \<times> writer \<times> ctx) option" where
  "writer_supply_buffer w c b = do {
     check (allocated_length b > 0);
     (ok, fq, c) \<leftarrow> queue_push b (w_free_buffers w) c;
     Some (ok, w\<lparr>w_free_buffers := fq\<rparr>, c)
   }"

section \<open>Invariants\<close>

definition writable :: "buffer \<Rightarrow> bool" where
  "writable b \<longleftrightarrow> 0 < allocated_length b \<and> int (length (buf_data b)) = allocated_length b"

text \<open>
  \<open>writer_shape w bs cur i\<close>: the buffers are \<open>bs @ [cur]\<close>, all with the room they
  claim, and the next bit goes to position \<open>i\<close> of \<open>cur\<close>.
\<close>

definition writer_shape :: "writer \<Rightarrow> buffer list \<Rightarrow> buffer \<Rightarrow> nat \<Rightarrow> bool" where
  "writer_shape w bs cur i \<longleftrightarrow> queue_repr (w_buffers w) (bs @ [cur]) \<and>
     (\<forall>b\<in>set (bs @ [cur]). writable b) \<and>
     current_bit_index w = int i \<and>
     (\<exists>fs. queue_repr (w_free_buffers w) fs \<and> (\<forall>b\<in>set fs. writable b)) \<and>
     0 < single_buffer_byte_size w \<and> single_buffer_byte_size w < 2 ^ 63"

definition writer_safe :: "writer \<Rightarrow> bool" where
  "writer_safe w \<longleftrightarrow> (\<exists>bs cur i. writer_shape w bs cur i \<and> i < 8 * length (buf_data cur))"

text \<open>
  \<open>writer_repr w bytes part\<close>: the writer holds the whole bytes \<open>bytes\<close> followed by
  the bits \<open>part\<close> of an unfinished byte whose other bits are clear.
\<close>

definition writer_repr :: "writer \<Rightarrow> byte list \<Rightarrow> bool list \<Rightarrow> bool" where
  "writer_repr w bytes part \<longleftrightarrow> length part < 8 \<and>
     (\<exists>bs cur k. writer_shape w bs cur (8 * k + length part) \<and> k < length (buf_data cur) \<and>
        bytes = concat (map buf_data bs) @ take k (buf_data cur) \<and>
        bytes_stored w = int (length (concat (map buf_data bs))) \<and>
        (part \<noteq> [] \<longrightarrow> byte_bits (buf_data cur ! k) = part @ replicate (8 - length part) False))"

lemma writer_repr_safe: "writer_repr w bytes part \<Longrightarrow> writer_safe w"
  by (force simp: writer_repr_def writer_safe_def)

lemma writer_shape_pos: "writer_shape w bs cur i \<Longrightarrow> 0 < length (buf_data cur)"
  by (auto simp: writer_shape_def writable_def)

lemma writer_shape_start: "writer_shape w bs cur 0 \<Longrightarrow> writer_safe w"
  using writer_shape_pos by (force simp: writer_safe_def)

lemma shift3_add: "m < 8 \<Longrightarrow> drop_bit 3 (int (8 * k + m)) = int k"
  by (simp add: shiftr_div zdiv_int [symmetric])

lemma and7: "int n AND 7 = int (n mod 8)"
  using and_mask_mod [of "int n" 3] by (simp add: zmod_int)

section \<open>The next buffer\<close>

lemma writer_produce_next_buffer_correct:
  assumes "writer_shape w bs cur i" and "ctx_ok M c"
  shows "\<exists>ok w' c'. writer_produce_next_buffer w c = Some (ok, w', c') \<and> ctx_ok M c' \<and>
     bytes_stored w' = bytes_stored w \<and>
     (context_is_errored c \<longrightarrow> ctx_error c' = ctx_error c) \<and>
     (if ok then (\<exists>b. writer_shape w' (bs @ [cur]) b 0) \<and> ctx_error c' = ctx_error c
      else writer_shape w' bs cur 0 \<and> context_is_errored c')"
proof -
  define w0 where "w0 = w\<lparr>current_bit_index := 0\<rparr>"
  obtain fs where fs: "queue_repr (w_free_buffers w) fs" "\<forall>b\<in>set fs. writable b"
    using assms(1) by (auto simp: writer_shape_def)
  have sz: "0 < single_buffer_byte_size w" "single_buffer_byte_size w < 2 ^ 63"
    and bq: "queue_repr (w_buffers w) (bs @ [cur])" "\<forall>b\<in>set (bs @ [cur]). writable b"
    using assms(1) by (auto simp: writer_shape_def)
  define push where "push = (\<lambda>b (w :: writer) c. do { (ok, bq, c) \<leftarrow> queue_push b (w_buffers w) c;
     Some (ok, w\<lparr>w_buffers := bq\<rparr>, c) })"
  have pushed: "\<exists>ok w' c'. push b w1 c1 = Some (ok, w', c') \<and> ctx_ok M c' \<and>
     bytes_stored w' = bytes_stored w \<and>
     (context_is_errored c \<longrightarrow> ctx_error c' = ctx_error c) \<and>
     (if ok then (\<exists>b. writer_shape w' (bs @ [cur]) b 0) \<and> ctx_error c' = ctx_error c
      else writer_shape w' bs cur 0 \<and> context_is_errored c')"
    if "writer_shape w1 bs cur 0" "writable b" "ctx_ok M c1" "ctx_error c1 = ctx_error c"
      "bytes_stored w1 = bytes_stored w" for b w1 c1
  proof -
    have rq: "queue_repr (w_buffers w1) (bs @ [cur])" using that(1) by (simp add: writer_shape_def)
    obtain ok q' c' where p: "queue_push b (w_buffers w1) c1 = Some (ok, q', c')"
      "queue_repr q' (if ok then (bs @ [cur]) @ [b] else bs @ [cur])"
      "\<not> ok \<longrightarrow> q' = w_buffers w1 \<and> context_is_errored c'" "ok \<longrightarrow> ctx_error c' = ctx_error c1"
      "context_is_errored c1 \<longrightarrow> ctx_error c' = ctx_error c1" "ctx_ok M c1 \<longrightarrow> ctx_ok M c'"
      using queue_push_correct [OF rq, of b c1] by blast
    show ?thesis
      using p that by (intro exI [of _ ok] exI [of _ "w1\<lparr>w_buffers := q'\<rparr>"] exI [of _ c'])
        (auto simp: push_def writer_shape_def context_is_errored_def intro!: exI [of _ b])
  qed
  show ?thesis
  proof (cases fs)
    case (Cons f fs')
    from queue_pop_repr [OF fs(1) [unfolded Cons]] obtain fq where
      fq: "queue_pop (w_free_buffers w) = Some (f, fq)" "queue_repr fq fs'" by blast
    have "writer_produce_next_buffer w c = push f (w0\<lparr>w_free_buffers := fq\<rparr>) c"
      using fq(1) queue_count [OF fs(1)] Cons
      by (simp add: writer_produce_next_buffer_def push_def w0_def Let_def)
    moreover have "writer_shape (w0\<lparr>w_free_buffers := fq\<rparr>) bs cur 0"
      using assms(1) fq(2) fs(2) Cons by (auto simp: writer_shape_def w0_def)
    ultimately show ?thesis
      using pushed [of "w0\<lparr>w_free_buffers := fq\<rparr>" f c] fs(2) Cons assms(2) by (simp add: w0_def)
  next
    case Nil
    have w0: "writer_shape w0 bs cur 0"
      using assms(1) by (auto simp: writer_shape_def w0_def)
    obtain block c1 where alloc:
      "context_allocate c (word_of_int (single_buffer_byte_size w)) 1 = (block, c1)" by fastforce
    note ac = context_allocate_cases [OF alloc assms(2)] context_allocate_sticky [OF alloc]
    show ?thesis
    proof (cases block)
      case None
      then have "writer_produce_next_buffer w c = Some (False, w0, c1)"
        using queue_count [OF fs(1)] Nil alloc
        by (simp add: writer_produce_next_buffer_def w0_def Let_def)
      then show ?thesis using w0 ac None
        by (intro exI [of _ False] exI [of _ w0] exI [of _ c1]) (auto simp: w0_def)
    next
      case (Some bytes)
      define b where "b = buffer_make bytes 0 (single_buffer_byte_size w)"
      have "writer_produce_next_buffer w c = push b w0 c1"
        using queue_count [OF fs(1)] Nil alloc Some
        by (simp add: writer_produce_next_buffer_def push_def w0_def Let_def b_def)
      moreover have "writable b"
      proof -
        have "unat (word_of_int (single_buffer_byte_size w) :: u64) = nat (single_buffer_byte_size w)"
          using sz by (simp add: unsigned_of_int take_bit_int_eq_self nat_take_bit_eq)
        then show ?thesis using ac(1) Some sz by (simp add: writable_def b_def buffer_make_def)
      qed
      ultimately show ?thesis using pushed [OF w0, of b c1] ac(1) Some by (simp add: w0_def)
    qed
  qed
qed

lemma writer_ensure_buffer_room:
  assumes "writer_shape w bs cur i" and "i < 8 * length (buf_data cur)"
  shows "writer_ensure_buffer w c = Some (cur, w, c)"
proof -
  have "queue_peek_tail (w_buffers w) = Some cur"
    using assms(1) by (auto simp: writer_shape_def intro: queue_peek_tail_repr)
  moreover have "allocated_length cur = int (length (buf_data cur))"
    using assms(1) by (auto simp: writer_shape_def writable_def)
  moreover have "drop_bit 3 (int i) < int (length (buf_data cur))"
    using assms(2) by (simp add: shiftr_div zdiv_int [symmetric] less_mult_imp_div_less mult.commute)
  moreover have "current_bit_index w = int i" using assms(1) by (simp add: writer_shape_def)
  ultimately show ?thesis by (simp add: writer_ensure_buffer_def)
qed

lemma writer_ensure_buffer_full:
  assumes "writer_shape w bs cur (8 * length (buf_data cur))" and "ctx_ok M c"
  shows "\<exists>slot w' c'. writer_ensure_buffer w c = Some (slot, w', c') \<and> ctx_ok M c' \<and>
     (context_is_errored c \<longrightarrow> ctx_error c' = ctx_error c) \<and>
     (writer_shape w' (bs @ [cur]) slot 0 \<and>
        bytes_stored w' = bytes_stored w + int (length (buf_data cur)) \<and> ctx_error c' = ctx_error c
      \<or> writer_shape w' bs cur 0 \<and> context_is_errored c')"
proof -
  define w1 where "w1 = w\<lparr>bytes_stored := bytes_stored w + allocated_length cur\<rparr>"
  have al: "allocated_length cur = int (length (buf_data cur))"
    using assms(1) by (auto simp: writer_shape_def writable_def)
  have pk: "queue_peek_tail (w_buffers w) = Some cur"
    using assms(1) by (auto simp: writer_shape_def intro: queue_peek_tail_repr)
  have "writer_shape w1 bs cur (8 * length (buf_data cur))"
    using assms(1) by (simp add: writer_shape_def w1_def)
  from writer_produce_next_buffer_correct [OF this assms(2)] obtain ok w' c' where
    p: "writer_produce_next_buffer w1 c = Some (ok, w', c')" "ctx_ok M c'"
      "bytes_stored w' = bytes_stored w1" "context_is_errored c \<longrightarrow> ctx_error c' = ctx_error c"
      "if ok then (\<exists>b. writer_shape w' (bs @ [cur]) b 0) \<and> ctx_error c' = ctx_error c
       else writer_shape w' bs cur 0 \<and> context_is_errored c'" by blast
  have full: "drop_bit 3 (current_bit_index w) \<ge> allocated_length cur"
    using assms(1) shift3_add [of 0 "length (buf_data cur)"] al by (simp add: writer_shape_def)
  have tail: "queue_peek_tail (w_buffers w') = Some b" if "writer_shape w' bs' b j" for bs' b j
    using that by (auto simp: writer_shape_def intro: queue_peek_tail_repr)
  show ?thesis
  proof (cases ok)
    case True
    then obtain b where b: "writer_shape w' (bs @ [cur]) b 0" "ctx_error c' = ctx_error c"
      using p(5) by auto
    then have "writer_ensure_buffer w c = Some (b, w', c')"
      using p(1) pk full tail by (simp add: writer_ensure_buffer_def w1_def Let_def)
    with b p show ?thesis by (auto simp: w1_def al)
  next
    case False
    then have b: "writer_shape w' bs cur 0" "context_is_errored c'" using p(5) by auto
    then have "writer_ensure_buffer w c = Some (cur, w', c')"
      using p(1) pk full tail by (simp add: writer_ensure_buffer_def w1_def Let_def)
    with b p show ?thesis by blast
  qed
qed

text \<open>
  After a store the position moves on by \<open>n\<close> bits; the second call of
  \<open>writer_ensure_buffer\<close> opens the next buffer when the position reached the end.
\<close>

lemma writer_after_store:
  assumes "writer_shape w bs cur i" and "i \<le> 8 * length (buf_data cur)" and "ctx_ok M c"
  shows "\<exists>slot w' c'. writer_ensure_buffer w c = Some (slot, w', c') \<and> ctx_ok M c' \<and>
     (context_is_errored c \<longrightarrow> ctx_error c' = ctx_error c) \<and> writer_safe w' \<and>
     (\<not> context_is_errored c' \<longrightarrow>
        (\<exists>bs' cur' i'. writer_shape w' bs' cur' i' \<and> i' < 8 * length (buf_data cur') \<and>
           (bytes_stored w = int (length (concat (map buf_data bs))) \<longrightarrow>
            bytes_stored w' = int (length (concat (map buf_data bs')))) \<and>
           (i < 8 * length (buf_data cur) \<and> bs' = bs \<and> cur' = cur \<and> i' = i \<or>
            i = 8 * length (buf_data cur) \<and> bs' = bs @ [cur] \<and> i' = 0)))"
proof (cases "i < 8 * length (buf_data cur)")
  case True
  then show ?thesis
    using assms writer_ensure_buffer_room [OF assms(1) True, of c]
    by (intro exI [of _ cur] exI [of _ w] exI [of _ c]) (auto simp: writer_safe_def)
next
  case False
  then have i: "i = 8 * length (buf_data cur)" using assms(2) by simp
  from writer_ensure_buffer_full [OF assms(1) [unfolded i] assms(3)] obtain slot w' c' where
    e: "writer_ensure_buffer w c = Some (slot, w', c')" "ctx_ok M c'"
      "context_is_errored c \<longrightarrow> ctx_error c' = ctx_error c"
      "writer_shape w' (bs @ [cur]) slot 0 \<and>
        bytes_stored w' = bytes_stored w + int (length (buf_data cur)) \<and> ctx_error c' = ctx_error c
      \<or> writer_shape w' bs cur 0 \<and> context_is_errored c'" by blast
  have "writer_safe w'" using e(4) writer_shape_start by blast
  with e i writer_shape_pos [of w'] show ?thesis
    by (intro exI [of _ slot] exI [of _ w'] exI [of _ c']) auto
qed

section \<open>Writing\<close>

definition store_bit :: "byte list \<Rightarrow> nat \<Rightarrow> byte \<Rightarrow> byte list" where
  "store_bit d i b = d[i div 8 := (if i mod 8 = 0 then 0 else d ! (i div 8)) OR push_bit (i mod 8) b]"

lemma writer_shape_store:
  assumes "writer_shape w bs cur i" and "length d = length (buf_data cur)"
  shows "\<exists>bq. queue_update_tail (w_buffers w) (cur\<lparr>buf_data := d\<rparr>) = Some bq \<and>
     writer_shape (w\<lparr>w_buffers := bq, current_bit_index := int j\<rparr>) bs (cur\<lparr>buf_data := d\<rparr>) j"
  using assms queue_update_tail_repr [of "w_buffers w" bs cur "cur\<lparr>buf_data := d\<rparr>"]
  by (auto simp: writer_shape_def writable_def)

lemma writer_write_bit_step:
  assumes "writer_shape w bs cur i" and "i < 8 * length (buf_data cur)" and "b = 0 \<or> b = 1"
  defines "cur' \<equiv> cur\<lparr>buf_data := store_bit (buf_data cur) i b\<rparr>"
  shows "\<exists>w1. writer_write_bit w c b =
       (do { (_, w, c) \<leftarrow> writer_ensure_buffer w1 c; Some (w, c) }) \<and>
     writer_shape w1 bs cur' (Suc i) \<and> bytes_stored w1 = bytes_stored w"
proof -
  have cbi: "current_bit_index w = int i" using assms(1) by (simp add: writer_shape_def)
  have idx: "drop_bit 3 (int i) = int (i div 8)" by (simp add: shiftr_div zdiv_int)
  have lt: "i div 8 < length (buf_data cur)"
    using assms(2) by (simp add: less_mult_imp_div_less mult.commute)
  have len: "length (store_bit (buf_data cur) i b) = length (buf_data cur)"
    by (simp add: store_bit_def)
  from writer_shape_store [OF assms(1) len, of "Suc i"] obtain bq where
    bq: "queue_update_tail (w_buffers w) cur' = Some bq"
      "writer_shape (w\<lparr>w_buffers := bq, current_bit_index := int (Suc i)\<rparr>) bs cur' (Suc i)"
    by (auto simp: cur'_def)
  then have "writer_write_bit w c b =
      (do { (_, w, c) \<leftarrow> writer_ensure_buffer (w\<lparr>w_buffers := bq, current_bit_index := int (Suc i)\<rparr>) c;
            Some (w, c) })"
    using writer_ensure_buffer_room [OF assms(1,2), of c] assms(3) lt
    by (auto simp: writer_write_bit_def cbi idx and7 Let_def cur'_def store_bit_def add.commute)
  with bq show ?thesis by (intro exI [of _ "w\<lparr>w_buffers := bq, current_bit_index := int (Suc i)\<rparr>"]) simp
qed

text \<open>The bits a writer holds, as one sequence.\<close>

definition writer_bits :: "writer \<Rightarrow> bool list \<Rightarrow> bool" where
  "writer_bits w bits \<longleftrightarrow> (\<exists>bytes part. writer_repr w bytes part \<and> bits = bytes_bits bytes @ part)"

lemma byte_bits_set:
  assumes "n < 8" and "n \<noteq> 0 \<longrightarrow> byte_bits v = part @ replicate (8 - n) False" and "length part = n"
    and "b = 0 \<or> b = 1"
  shows "byte_bits ((if n = 0 then 0 else v) OR push_bit n b) =
         (part @ [b = 1]) @ replicate (7 - n) False"
proof (rule nth_equalityI)
  show "length (byte_bits ((if n = 0 then 0 else v) OR push_bit n b)) =
      length ((part @ [b = 1]) @ replicate (7 - n) False)" using assms(1,3) by simp
  fix i assume "i < length (byte_bits ((if n = 0 then 0 else v) OR push_bit n b))"
  then have i: "i < 8" by simp
  have v: "bit v i = (if i < n then part ! i else False)" if "n \<noteq> 0"
    using nth_byte_bits [OF i, of v] assms(2,3) that i by (auto simp: nth_append split: if_splits)
  have "bit (push_bit n b) i = (i = n \<and> b = 1)"
    using assms(4) i by (auto simp: bit_simps)
  moreover have "((part @ [b = 1]) @ replicate (7 - n) False) ! i =
      (if i < n then part ! i else i = n \<and> b = 1)"
  proof (cases "i \<le> n")
    case True
    then show ?thesis using assms(3) by (auto simp: nth_append)
  next
    case False
    then have "i - length (part @ [b = 1]) < 7 - n" using i assms(3) by auto
    then show ?thesis using False assms(3) by (simp only: nth_append nth_replicate) auto
  qed
  ultimately show "byte_bits ((if n = 0 then 0 else v) OR push_bit n b) ! i =
      ((part @ [b = 1]) @ replicate (7 - n) False) ! i"
    using v i assms(1,3) by (auto simp: bit_simps)
qed

lemma store_bit_prefix:
  assumes "n < 8" and "k < length d"
  shows "take k (store_bit d (8 * k + n) b) = take k d"
    and "store_bit d (8 * k + n) b ! k = (if n = 0 then 0 else d ! k) OR push_bit n b"
    and "length (store_bit d (8 * k + n) b) = length d"
  using assms by (simp_all add: store_bit_def)

lemma writer_write_bit_safe:
  assumes "writer_safe w" and "ctx_ok M c" and "b = 0 \<or> b = 1"
  shows "\<exists>w' c'. writer_write_bit w c b = Some (w', c') \<and> writer_safe w' \<and> ctx_ok M c' \<and>
     (context_is_errored c \<longrightarrow> ctx_error c' = ctx_error c)"
proof -
  obtain bs cur i where sh: "writer_shape w bs cur i" "i < 8 * length (buf_data cur)"
    using assms(1) by (auto simp: writer_safe_def)
  from writer_write_bit_step [OF this assms(3), of c] obtain w1 where
    w1: "writer_write_bit w c b = (do { (_, w, c) \<leftarrow> writer_ensure_buffer w1 c; Some (w, c) })"
      "writer_shape w1 bs (cur\<lparr>buf_data := store_bit (buf_data cur) i b\<rparr>) (Suc i)" by blast
  have "Suc i \<le> 8 * length (buf_data (cur\<lparr>buf_data := store_bit (buf_data cur) i b\<rparr>))"
    using sh(2) by (simp add: store_bit_def)
  from writer_after_store [OF w1(2) this assms(2)] w1(1) show ?thesis by auto
qed

lemma writer_write_bit_bits:
  assumes "writer_bits w bits" and "ctx_ok M c" and "b = 0 \<or> b = 1"
    and "writer_write_bit w c b = Some (w', c')" and "\<not> context_is_errored c'"
  shows "writer_bits w' (bits @ [b = 1])"
proof -
  from assms(1) obtain bytes part where r: "writer_repr w bytes part"
    and bits: "bits = bytes_bits bytes @ part" by (auto simp: writer_bits_def)
  define n where "n = length part"
  obtain bs cur k where n: "n < 8" and sh: "writer_shape w bs cur (8 * k + n)"
    and k: "k < length (buf_data cur)"
    and bytes: "bytes = concat (map buf_data bs) @ take k (buf_data cur)"
    and stored: "bytes_stored w = int (length (concat (map buf_data bs)))"
    and partial: "n \<noteq> 0 \<longrightarrow> byte_bits (buf_data cur ! k) = part @ replicate (8 - n) False"
    using r by (auto simp: writer_repr_def n_def)
  define d where "d = store_bit (buf_data cur) (8 * k + n) b"
  define cur1 where "cur1 = cur\<lparr>buf_data := d\<rparr>"
  have d: "take k d = take k (buf_data cur)" "length d = length (buf_data cur)"
    "byte_bits (d ! k) = (part @ [b = 1]) @ replicate (7 - n) False"
    using store_bit_prefix [OF n k, of b]
      byte_bits_set [OF n partial n_def [symmetric] assms(3)] by (simp_all add: d_def)
  have lt: "8 * k + n < 8 * length (buf_data cur)" using n k by simp
  from writer_write_bit_step [OF sh lt assms(3), of c] obtain w1 where
    w1: "writer_write_bit w c b = (do { (_, w, c) \<leftarrow> writer_ensure_buffer w1 c; Some (w, c) })"
      "writer_shape w1 bs cur1 (Suc (8 * k + n))" "bytes_stored w1 = bytes_stored w"
    by (auto simp: cur1_def d_def)
  have "Suc (8 * k + n) \<le> 8 * length (buf_data cur1)" using lt d(2) by (simp add: cur1_def)
  from writer_after_store [OF w1(2) this assms(2)] w1(1,3) assms(4,5) stored
  obtain bs' cur' i' where after: "writer_shape w' bs' cur' i'" "i' < 8 * length (buf_data cur')"
    "bytes_stored w' = int (length (concat (map buf_data bs')))"
    "Suc (8 * k + n) < 8 * length d \<and> bs' = bs \<and> cur' = cur1 \<and> i' = Suc (8 * k + n) \<or>
     Suc (8 * k + n) = 8 * length d \<and> bs' = bs @ [cur1] \<and> i' = 0"
    by (auto simp: cur1_def)
  show ?thesis
  proof (cases "n = 7")
    case False
    then have "Suc n < 8" "Suc (8 * k + n) < 8 * length d" using n k d(2) by auto
    with after d bytes k have "writer_repr w' bytes (part @ [b = 1])"
      by (auto simp: writer_repr_def n_def [symmetric] cur1_def intro!: exI [of _ bs] exI [of _ cur1] exI [of _ k])
    then show ?thesis by (auto simp: writer_bits_def bits)
  next
    case True
    have tk: "take (Suc k) d = take k (buf_data cur) @ [d ! k]"
      using d(1,2) k by (simp add: take_Suc_conv_app_nth)
    have "writer_repr w' (bytes @ [d ! k]) []"
    proof (cases "Suc k < length d")
      case True
      with after(4) \<open>n = 7\<close> have "bs' = bs" "cur' = cur1" "i' = 8 * Suc k" by auto
      with after(1-3) True tk bytes show ?thesis
        by (auto simp: writer_repr_def cur1_def intro!: exI [of _ bs] exI [of _ cur1] exI [of _ "Suc k"])
    next
      case False
      then have "Suc k = length d" using k d(2) by simp
      with after(4) \<open>n = 7\<close> have "bs' = bs @ [cur1]" "i' = 0" by auto
      moreover have "d = take k (buf_data cur) @ [d ! k]"
        using tk \<open>Suc k = length d\<close> by simp
      ultimately show ?thesis using after(1-3) bytes
        by (auto simp: writer_repr_def cur1_def intro!: exI [of _ "bs @ [cur1]"] exI [of _ cur'] exI [of _ 0])
    qed
    moreover have "byte_bits (d ! k) = part @ [b = 1]" using d(3) True by simp
    ultimately show ?thesis by (force simp: writer_bits_def bits)
  qed
qed

lemma writer_bits_safe: "writer_bits w bits \<Longrightarrow> writer_safe w"
  by (auto simp: writer_bits_def writer_repr_safe)

section \<open>Writing bytes\<close>

lemma writer_write_byte_step:
  assumes "writer_shape w bs cur (8 * k)" and "k < length (buf_data cur)"
  shows "\<exists>w1. writer_write_byte w c v =
       (do { (_, w, c) \<leftarrow> writer_ensure_buffer w1 c; Some (w, c) }) \<and>
     writer_shape w1 bs (cur\<lparr>buf_data := (buf_data cur)[k := v]\<rparr>) (8 * Suc k) \<and>
     bytes_stored w1 = bytes_stored w"
proof -
  have cbi: "current_bit_index w = int (8 * k)" using assms(1) by (simp add: writer_shape_def)
  have idx: "drop_bit 3 (int (8 * k)) = int k" using shift3_add [of 0 k] by simp
  have lt: "8 * k < 8 * length (buf_data cur)" using assms(2) by simp
  from writer_shape_store [OF assms(1), of "(buf_data cur)[k := v]" "8 * Suc k"] obtain bq where
    bq: "queue_update_tail (w_buffers w) (cur\<lparr>buf_data := (buf_data cur)[k := v]\<rparr>) = Some bq"
      "writer_shape (w\<lparr>w_buffers := bq, current_bit_index := int (8 * Suc k)\<rparr>) bs
         (cur\<lparr>buf_data := (buf_data cur)[k := v]\<rparr>) (8 * Suc k)" by auto
  have e8: "int (8 * Suc k) = 8 + int (8 * k)" "int (8 * k) + 8 = 8 + int (8 * k)" by simp_all
  have "writer_write_byte w c v = (do { (_, w, c) \<leftarrow> writer_ensure_buffer
        (w\<lparr>w_buffers := bq, current_bit_index := int (8 * Suc k)\<rparr>) c; Some (w, c) })"
    using writer_ensure_buffer_room [OF assms(1) lt, of c] assms(2) bq(1) and7 [of "8 * k"] idx
    by (simp add: writer_write_byte_def cbi Let_def e8 del: of_nat_mult)
  with bq(2) show ?thesis
    by (intro exI [of _ "w\<lparr>w_buffers := bq, current_bit_index := int (8 * Suc k)\<rparr>"]) simp
qed

lemma writer_write_byte_safe:
  assumes "writer_safe w" and "current_bit_index w mod 8 = 0" and "ctx_ok M c"
  shows "\<exists>w' c'. writer_write_byte w c v = Some (w', c') \<and> writer_safe w' \<and>
     current_bit_index w' mod 8 = 0 \<and> ctx_ok M c' \<and>
     (context_is_errored c \<longrightarrow> ctx_error c' = ctx_error c)"
proof -
  obtain bs cur i where sh: "writer_shape w bs cur i" "i < 8 * length (buf_data cur)"
    using assms(1) by (auto simp: writer_safe_def)
  have "i mod 8 = 0"
  proof -
    have "int (i mod 8) = 0" using sh(1) assms(2) by (simp add: writer_shape_def zmod_int)
    then show ?thesis by simp
  qed
  then obtain k where k: "i = 8 * k" by (auto elim: dvdE simp: mod_eq_0_iff_dvd)
  from sh k have kl: "k < length (buf_data cur)" by simp
  from writer_write_byte_step [OF sh(1) [unfolded k] kl, of c v] obtain w1 where
    w1: "writer_write_byte w c v = (do { (_, w, c) \<leftarrow> writer_ensure_buffer w1 c; Some (w, c) })"
      "writer_shape w1 bs (cur\<lparr>buf_data := (buf_data cur)[k := v]\<rparr>) (8 * Suc k)" by blast
  let ?cur = "cur\<lparr>buf_data := (buf_data cur)[k := v]\<rparr>"
  have le: "8 * Suc k \<le> 8 * length (buf_data ?cur)" using kl by simp
  show ?thesis
  proof (cases "8 * Suc k < 8 * length (buf_data ?cur)")
    case True
    with w1(2) have "writer_safe w1" unfolding writer_safe_def by blast
    moreover have "current_bit_index w1 = int (8 * Suc k)"
      using w1(2) by (simp add: writer_shape_def)
    ultimately show ?thesis using w1(1) writer_ensure_buffer_room [OF w1(2) True, of c] assms(3)
      by simp
  next
    case False
    then have e: "8 * Suc k = 8 * length (buf_data ?cur)" using le by simp
    from writer_ensure_buffer_full [OF w1(2) [unfolded e] assms(3)] w1(1) show ?thesis
      by (fastforce simp: writer_shape_def dest: writer_shape_start intro: writer_shape_start)
  qed
qed

lemma writer_write_byte_repr:
  assumes "writer_repr w bytes []" and "ctx_ok M c"
    and "writer_write_byte w c v = Some (w', c')" and "\<not> context_is_errored c'"
  shows "writer_repr w' (bytes @ [v]) []"
proof -
  obtain bs cur k where sh: "writer_shape w bs cur (8 * k)" and k: "k < length (buf_data cur)"
    and bytes: "bytes = concat (map buf_data bs) @ take k (buf_data cur)"
    and stored: "bytes_stored w = int (length (concat (map buf_data bs)))"
    using assms(1) by (auto simp: writer_repr_def)
  define cur1 where "cur1 = cur\<lparr>buf_data := (buf_data cur)[k := v]\<rparr>"
  from writer_write_byte_step [OF sh k, of c v] obtain w1 where
    w1: "writer_write_byte w c v = (do { (_, w, c) \<leftarrow> writer_ensure_buffer w1 c; Some (w, c) })"
      "writer_shape w1 bs cur1 (8 * Suc k)" "bytes_stored w1 = bytes_stored w"
    by (auto simp: cur1_def)
  have len: "length (buf_data cur1) = length (buf_data cur)" by (simp add: cur1_def)
  have "8 * Suc k \<le> 8 * length (buf_data cur1)" using k len by simp
  from writer_after_store [OF w1(2) this assms(2)] w1(1,3) assms(3,4) stored
  obtain bs' cur' i' where after: "writer_shape w' bs' cur' i'" "i' < 8 * length (buf_data cur')"
    "bytes_stored w' = int (length (concat (map buf_data bs')))"
    "8 * Suc k < 8 * length (buf_data cur1) \<and> bs' = bs \<and> cur' = cur1 \<and> i' = 8 * Suc k \<or>
     8 * Suc k = 8 * length (buf_data cur1) \<and> bs' = bs @ [cur1] \<and> i' = 0" by auto
  have tk: "take (Suc k) (buf_data cur1) = take k (buf_data cur) @ [v]"
    using k by (simp add: cur1_def take_Suc_conv_app_nth)
  show ?thesis
  proof (cases "Suc k < length (buf_data cur1)")
    case True
    with after tk bytes show ?thesis
      by (auto simp: writer_repr_def intro!: exI [of _ bs] exI [of _ cur1] exI [of _ "Suc k"])
  next
    case False
    then have e: "Suc k = length (buf_data cur1)" using k len by simp
    with after(4) have "bs' = bs @ [cur1]" "i' = 0" by auto
    moreover have "buf_data cur1 = take k (buf_data cur) @ [v]" using tk e by simp
    ultimately show ?thesis using after(1-3) bytes
      by (auto simp: writer_repr_def intro!: exI [of _ "bs @ [cur1]"] exI [of _ cur'] exI [of _ 0])
  qed
qed

section \<open>Consuming everything\<close>

lemma writer_consume_full_correct:
  assumes "writer_shape w (b # bs) cur i"
  shows "\<exists>w' slot. writer_consume_full_buffer w = Some (slot, w') \<and> buf_data slot = buf_data b \<and>
     buf_length slot = int (length (buf_data b)) \<and> 0 < buf_length slot \<and>
     writer_shape w' bs cur i \<and> bytes_stored w' = bytes_stored w - int (length (buf_data b))"
proof -
  have q: "queue_repr (w_buffers w) (b # (bs @ [cur]))" using assms by (simp add: writer_shape_def)
  from queue_pop_repr [OF q] obtain bq where
    "queue_pop (w_buffers w) = Some (b, bq)" "queue_repr bq (bs @ [cur])" by blast
  then show ?thesis using assms queue_count [OF q]
    by (auto simp: writer_consume_full_buffer_def writer_shape_def writable_def Let_def)
qed

lemma writer_consume_full_none:
  "writer_shape w [] cur i \<Longrightarrow> writer_consume_full_buffer w = Some (EMPTY_BUFFER, w)"
  using queue_count [of "w_buffers w" "[cur]"]
  by (simp add: writer_consume_full_buffer_def writer_shape_def)

lemma memcpy_fits:
  assumes "k + n \<le> length bytes" and "n \<le> length d"
  shows "memcpy bytes (int k) d (int n) = Some (take k bytes @ take n d @ drop (k + n) bytes)"
  using assms by (simp add: memcpy_def nat_add_distrib)

lemma writer_consume_loop_correct:
  assumes "writer_shape w bs cur i"
    and "k + length (concat (map buf_data bs)) \<le> length bytes"
  shows "\<exists>w'. writer_consume_loop w bytes (int k) =
       Some (w', take k bytes @ concat (map buf_data bs) @
                   drop (k + length (concat (map buf_data bs))) bytes,
             int (k + length (concat (map buf_data bs)))) \<and>
     writer_shape w' [] cur i \<and>
     bytes_stored w' = bytes_stored w - int (length (concat (map buf_data bs)))"
  using assms
proof (induction bs arbitrary: w k bytes)
  case Nil
  then show ?case using writer_consume_full_none [OF Nil.prems(1)]
    by (subst writer_consume_loop.simps) (simp add: EMPTY_BUFFER_def)
next
  case (Cons b bs)
  from writer_consume_full_correct [OF Cons.prems(1)] obtain w1 slot where
    w1: "writer_consume_full_buffer w = Some (slot, w1)" "buf_data slot = buf_data b"
      "buf_length slot = int (length (buf_data b))" "0 < buf_length slot"
      "writer_shape w1 bs cur i" "bytes_stored w1 = bytes_stored w - int (length (buf_data b))" by blast
  define n where "n = length (buf_data b)"
  define bytes1 where "bytes1 = take k bytes @ buf_data b @ drop (k + n) bytes"
  have cp: "memcpy bytes (int k) (buf_data slot) (buf_length slot) = Some bytes1"
    using memcpy_fits [of k n bytes "buf_data b"] Cons.prems(2) w1(2,3)
    by (simp add: bytes1_def n_def)
  have l1: "k + n + length (concat (map buf_data bs)) \<le> length bytes1"
    using Cons.prems(2) by (simp add: bytes1_def n_def)
  from Cons.IH [OF w1(5) l1] obtain w' where
    w': "writer_consume_loop w1 bytes1 (int (k + n)) =
       Some (w', take (k + n) bytes1 @ concat (map buf_data bs) @
                   drop (k + n + length (concat (map buf_data bs))) bytes1,
             int (k + n + length (concat (map buf_data bs))))"
      "writer_shape w' [] cur i"
      "bytes_stored w' = bytes_stored w1 - int (length (concat (map buf_data bs)))" by blast
  have "writer_consume_loop w bytes (int k) = writer_consume_loop w1 bytes1 (int (k + n))"
    using w1(1,3,4) cp by (subst writer_consume_loop.simps) (simp add: n_def)
  moreover have "take (k + n) bytes1 = take k bytes @ buf_data b"
    using Cons.prems(2) by (simp add: bytes1_def n_def)
  moreover have "drop (k + n + length (concat (map buf_data bs))) bytes1 =
      drop (k + n + length (concat (map buf_data bs))) bytes"
    using Cons.prems(2) by (simp add: bytes1_def n_def ac_simps)
  ultimately show ?case using w'(1,2,3) w1(6)
    by (auto simp: n_def ac_simps)
qed

text \<open>
  Consuming everything yields the stored bits, the last byte padded with clear bits.
\<close>

lemma writer_consume_last_correct:
  assumes "writer_shape w [] cur (8 * k + n)" and "n < 8" and "k < length (buf_data cur)"
    and "ctx_ok M c" and "\<not> context_is_errored c" and "m = (if n = 0 then k else Suc k)"
  shows "\<exists>r w' c'. writer_consume_nonempty_buffer w c = Some (r, w', c') \<and> ctx_ok M c' \<and>
     (if is_error r then context_is_errored c'
      else ctx_error c' = ctx_error c \<and>
        take (nat (buf_length (result_buffer r))) (buf_data (result_buffer r)) =
          take m (buf_data cur) \<and>
        buf_length (result_buffer r) = int m \<and>
        (buf_length (result_buffer r) > 0 \<longrightarrow>
           buf_length (result_buffer r) \<le> int (length (buf_data (result_buffer r)))))"
proof -
  have cbi: "current_bit_index w = int (8 * k + n)" using assms(1) by (simp add: writer_shape_def)
  show ?thesis
  proof (cases "8 * k + n = 0")
    case True
    then show ?thesis using writer_consume_full_none [OF assms(1)] assms(4-6) cbi
      by (intro exI [of _ EMPTY_ERROR_BUFFER] exI [of _ w] exI [of _ c])
        (simp add: writer_consume_nonempty_buffer_def EMPTY_ERROR_BUFFER_def EMPTY_BUFFER_def)
  next
    case False
    have ne: "int (8 * k + n) \<noteq> 0" using False by (simp only: of_nat_eq_0_iff) simp
    have cf: "writer_consume_full_buffer w = Some (EMPTY_BUFFER, w)" "\<not> buf_length EMPTY_BUFFER > 0"
      using writer_consume_full_none [OF assms(1)] by (simp_all add: EMPTY_BUFFER_def)
    from writer_produce_next_buffer_correct [OF assms(1,4)] obtain ok w1 c1 where
      p: "writer_produce_next_buffer w c = Some (ok, w1, c1)" "ctx_ok M c1"
        "if ok then (\<exists>b. writer_shape w1 ([] @ [cur]) b 0) \<and> ctx_error c1 = ctx_error c
         else writer_shape w1 [] cur 0 \<and> context_is_errored c1" by blast
    show ?thesis
    proof (cases ok)
      case False
      have "writer_consume_nonempty_buffer w c = Some (ERROR_ERROR_BUFFER, w1, c1)"
        unfolding writer_consume_nonempty_buffer_def cbi Let_def cf(1) bind.bind_lunit prod.case
          p(1) if_not_P [OF assms(5)] if_not_P [OF cf(2)] if_not_P [OF ne] using False by simp
      then show ?thesis using p(2,3) False by (simp add: ERROR_ERROR_BUFFER_def)
    next
      case True
      with p(3) obtain b where "writer_shape w1 [cur] b 0" by auto
      then have "queue_repr (w_buffers w1) (cur # [b])" by (simp add: writer_shape_def)
      from queue_pop_repr [OF this] obtain bq where bq: "queue_pop (w_buffers w1) = Some (cur, bq)"
        by blast
      have "drop_bit 3 (int (8 * k + n) + 8 - 1) = int ((8 * k + n + 7) div 8)"
        by (simp add: shiftr_div zdiv_int ac_simps)
      also have "(8 * k + n + 7) div 8 = m" using assms(2,6) by auto
      finally have len: "drop_bit 3 (int (8 * k + n) + 8 - 1) = int m" .
      define r where "r = \<lparr>is_error = False,
        result_buffer = cur\<lparr>buf_length := int m\<rparr>\<rparr>"
      have "writer_consume_nonempty_buffer w c = Some (r, w1\<lparr>w_buffers := bq\<rparr>, c1)"
        unfolding writer_consume_nonempty_buffer_def cbi Let_def cf(1) bind.bind_lunit prod.case
          p(1) if_not_P [OF assms(5)] if_not_P [OF cf(2)] if_not_P [OF ne] len
        using True bq by (simp add: r_def)
      then show ?thesis using p(2,3) True assms(3,6) by (auto simp: r_def)
    qed
  qed
qed

lemma writer_consume_all_correct:
  assumes "writer_bits w bits" and "ctx_ok M c" and "length bits < 2 ^ 63"
    and "\<not> context_is_errored c"
  shows "\<exists>r w' c'. writer_consume_all_buffers w c = Some (r, w', c') \<and> ctx_ok M c' \<and>
     (if is_error r then context_is_errored c'
      else ctx_error c' = ctx_error c \<and>
        (\<exists>pad < 8. bytes_bits (buf_data (result_buffer r)) = bits @ replicate pad False) \<and>
        buf_length (result_buffer r) = int (length (buf_data (result_buffer r))))"
proof -
  from assms(1) obtain bytes part where rp: "writer_repr w bytes part"
    and bits: "bits = bytes_bits bytes @ part" by (auto simp: writer_bits_def)
  define n where "n = length part"
  obtain bs cur k where n: "n < 8" and sh: "writer_shape w bs cur (8 * k + n)"
    and k: "k < length (buf_data cur)"
    and bytes: "bytes = concat (map buf_data bs) @ take k (buf_data cur)"
    and stored: "bytes_stored w = int (length (concat (map buf_data bs)))"
    and partial: "n \<noteq> 0 \<longrightarrow> byte_bits (buf_data cur ! k) = part @ replicate (8 - n) False"
    using rp by (auto simp: writer_repr_def n_def)
  define m where "m = (if n = 0 then k else Suc k)"
  define full where "full = concat (map buf_data bs)"
  define len where "len = length full + m"
  have "drop_bit 3 (int (8 * k + n) + 8 - 1) = int ((8 * k + n + 7) div 8)"
    by (simp add: shiftr_div zdiv_int ac_simps)
  also have "(8 * k + n + 7) div 8 = m" using n by (auto simp: m_def)
  finally have stored_len: "writer_get_bytes_stored w = int len"
    using sh stored by (simp add: writer_get_bytes_stored_def writer_shape_def len_def full_def)
  have "8 * length bytes \<le> length bits" by (simp add: bits)
  then have "len < 2 ^ 64" using assms(3) k
    by (simp add: len_def m_def full_def bytes)
  then have ul: "unat (word_of_int (int len) * 1 :: u64) = len"
    using unat_of_nat_small [of len] by simp
  obtain block c1 where al: "context_allocate c (word_of_int (int len)) 1 = (block, c1)" by fastforce
  note ac = context_allocate_cases [OF al assms(2)]
  show ?thesis
  proof (cases block)
    case None
    then show ?thesis using al ac stored_len
      by (simp add: writer_consume_all_buffers_def ERROR_ERROR_BUFFER_def Let_def)
  next
    case (Some blk)
    have blk: "length blk = len" "ctx_ok M c1" "ctx_error c1 = ctx_error c" using ac Some ul by auto
    have "0 + length (concat (map buf_data bs)) \<le> length blk" using blk by (simp add: len_def full_def)
    from writer_consume_loop_correct [OF sh this] obtain w1 where
      w1: "writer_consume_loop w blk 0 = Some (w1, full @ drop (length full) blk, int (length full))"
        "writer_shape w1 [] cur (8 * k + n)" by (auto simp: full_def)
    have "\<not> context_is_errored c1" using blk(3) assms(4) by (simp add: context_is_errored_def)
    from writer_consume_last_correct [OF w1(2) n k blk(2) this m_def] obtain r w2 c2 where
      r0: "ctx_ok M c2" and r: "writer_consume_nonempty_buffer w1 c1 = Some (r, w2, c2)"
        "is_error r \<Longrightarrow> context_is_errored c2"
        "\<not> is_error r \<Longrightarrow> ctx_error c2 = ctx_error c1 \<and>
          take (nat (buf_length (result_buffer r))) (buf_data (result_buffer r)) = take m (buf_data cur) \<and>
          buf_length (result_buffer r) = int m \<and>
          (buf_length (result_buffer r) > 0 \<longrightarrow>
             buf_length (result_buffer r) \<le> int (length (buf_data (result_buffer r))))"
      by (auto split: if_splits)
    show ?thesis
    proof (cases "is_error r")
      case True
      then show ?thesis using al Some stored_len w1(1) r0 r(1,2)
        by (simp add: writer_consume_all_buffers_def Let_def)
    next
      case False
      note r3 = r(3) [OF False]
      define rb where "rb = result_buffer r"
      have rm: "buf_length rb = int m" using r3 by (simp only: rb_def)
      have tk: "take (nat (buf_length rb)) (buf_data rb) = take m (buf_data cur)"
        using r3 unfolding rb_def by (elim conjE)
      then have tk: "take m (buf_data rb) = take m (buf_data cur)" by (simp add: rm)
      have mle: "m \<le> length (buf_data cur)" using k by (simp add: m_def)
      define out where "out = full @ take m (buf_data cur)"
      have cp: "(if buf_length rb > 0
          then memcpy (full @ drop (length full) blk) (int (length full)) (buf_data rb) (buf_length rb)
          else Some (full @ drop (length full) blk)) = Some out"
      proof (cases "m = 0")
        case True
        then show ?thesis using blk(1) by (simp add: rm out_def len_def)
      next
        case False
        have "int m > 0 \<longrightarrow> int m \<le> int (length (buf_data rb))" using r3 by (metis rb_def)
        then have "m \<le> length (buf_data rb)" using False by simp
        then show ?thesis
          using memcpy_fits [of "length full" m "full @ drop (length full) blk" "buf_data rb"] blk(1) False
          by (simp add: rm tk out_def len_def)
      qed
      have "writer_consume_all_buffers w c =
          Some (\<lparr>is_error = False, result_buffer = buffer_make out (int len) (int len)\<rparr>, w2, c2)"
        using al Some stored_len w1(1) r(1) False cp [unfolded rb_def]
        by (simp add: writer_consume_all_buffers_def Let_def split: if_splits)
      moreover have "length out = len" using mle by (simp add: out_def len_def)
      moreover have "\<exists>pad < 8. bytes_bits out = bits @ replicate pad False"
      proof (cases "n = 0")
        case True
        then show ?thesis using n_def by (auto simp: out_def m_def bits bytes full_def intro!: exI [of _ 0])
      next
        case False
        then have "out = bytes @ [buf_data cur ! k]"
          using k by (simp add: out_def m_def bytes full_def take_Suc_conv_app_nth)
        then show ?thesis using partial False n by (intro exI [of _ "8 - n"]) (simp add: bits)
      qed
      ultimately show ?thesis using r0 r3 blk(3) by (simp add: buffer_make_def)
    qed
  qed
qed

section \<open>Opening a writer\<close>

lemma writer_deinit_returns:
  assumes "queue_drain (w_buffers w) = Some q" and "queue_drain (w_free_buffers w) = Some q'"
  shows "writer_deinit w = Some writer_zero"
  using assms by (simp add: writer_deinit_def)

lemma writer_produce_first_buffer:
  assumes "queue_repr (w_buffers w) []" and "queue_repr (w_free_buffers w) []"
    and "0 < single_buffer_byte_size w" and "single_buffer_byte_size w < 2 ^ 63" and "ctx_ok M c"
  shows "\<exists>ok w' c'. writer_produce_next_buffer w c = Some (ok, w', c') \<and> ctx_ok M c' \<and>
     bytes_stored w' = bytes_stored w \<and>
     (if ok then (\<exists>b. writer_shape w' [] b 0) \<and> ctx_error c' = ctx_error c
      else queue_repr (w_buffers w') [] \<and> queue_repr (w_free_buffers w') [] \<and> context_is_errored c')"
proof -
  define w0 where "w0 = w\<lparr>current_bit_index := 0\<rparr>"
  obtain block c1 where alloc:
    "context_allocate c (word_of_int (single_buffer_byte_size w)) 1 = (block, c1)" by fastforce
  note ac = context_allocate_cases [OF alloc assms(5)]
  show ?thesis
  proof (cases block)
    case None
    then have "writer_produce_next_buffer w c = Some (False, w0, c1)"
      using queue_count [OF assms(2)] alloc
      by (simp add: writer_produce_next_buffer_def w0_def Let_def)
    then show ?thesis using ac None assms
      by (intro exI [of _ False] exI [of _ w0] exI [of _ c1]) (auto simp: w0_def)
  next
    case (Some bytes)
    define b where "b = buffer_make bytes 0 (single_buffer_byte_size w)"
    have "unat (word_of_int (single_buffer_byte_size w) :: u64) = nat (single_buffer_byte_size w)"
      using assms(3,4) by (simp add: unsigned_of_int take_bit_int_eq_self nat_take_bit_eq)
    then have b: "writable b"
      using ac Some assms(3,4) by (simp add: writable_def b_def buffer_make_def)
    obtain ok q' c' where p: "queue_push b (w_buffers w) c1 = Some (ok, q', c')"
      "queue_repr q' (if ok then [] @ [b] else [])"
      "\<not> ok \<longrightarrow> q' = w_buffers w \<and> context_is_errored c'"
      "ok \<longrightarrow> ctx_error c' = ctx_error c1" "ctx_ok M c1 \<longrightarrow> ctx_ok M c'"
      using queue_push_correct [OF assms(1), of b c1] by blast
    have "writer_produce_next_buffer w c = Some (ok, w0\<lparr>w_buffers := q'\<rparr>, c')"
      using queue_count [OF assms(2)] alloc Some p(1)
      by (simp add: writer_produce_next_buffer_def w0_def Let_def b_def)
    then show ?thesis using ac Some p b assms
      by (intro exI [of _ ok] exI [of _ "w0\<lparr>w_buffers := q'\<rparr>"] exI [of _ c'])
        (auto simp: w0_def writer_shape_def intro!: exI [of _ b])
  qed
qed

lemma writer_init_correct:
  assumes "0 < sz" and "sz < 2 ^ 63" and "ctx_ok M c" and "\<not> context_is_errored c"
  shows "\<exists>ok w c'. writer_init c sz k = Some (ok, w, c') \<and> ctx_ok M c' \<and>
     (if ok then writer_repr w [] [] \<and> \<not> context_is_errored c'
      else w = writer_zero \<and> context_is_errored c')"
proof -
  obtain ok1 c1 and q1 :: "buffer queue" where q1: "queue_init c 24 k = (ok1, q1, c1)" by (metis prod_cases3)
  note i1 = queue_init_cases [OF q1 assms(3)]
  obtain ok2 c2 and q2 :: "buffer queue" where q2: "queue_init c1 24 k = (ok2, q2, c2)" by (metis prod_cases3)
  show ?thesis
  proof (cases "ok1 \<and> ok2")
    case False
    have free: "w_free_buffers writer_zero = queue_zero" by (simp add: writer_zero_def)
    show ?thesis
    proof (cases ok1)
      case True
      then have "\<not> ok2" "ctx_ok M c1" using False i1 by auto
      moreover obtain q where "queue_drain q1 = Some q" using True i1 queue_drain_returns by auto
      ultimately show ?thesis using True q1 q2 queue_init_cases [OF q2]
        by (intro exI [of _ False]) (simp add: writer_init_def Let_def writer_deinit_returns)
    next
      case False
      then have "writer_init c sz k = Some (False, writer_zero, c1)"
        using q1 i1 free by (simp add: writer_init_def Let_def writer_deinit_returns)
      then show ?thesis using i1 False by (intro exI [of _ False]) simp
    qed
  next
    case True
    define w where "w = writer_zero\<lparr>single_buffer_byte_size := sz, w_buffers := q1,
      w_free_buffers := q2\<rparr>"
    from True i1 queue_init_cases [OF q2] have
      s: "queue_repr q1 []" "queue_repr q2 []" "ctx_ok M c2" "ctx_error c2 = ctx_error c" by auto
    have "\<exists>ok w' c'. writer_produce_next_buffer w c2 = Some (ok, w', c') \<and> ctx_ok M c' \<and>
       bytes_stored w' = bytes_stored w \<and>
       (if ok then (\<exists>b. writer_shape w' [] b 0) \<and> ctx_error c' = ctx_error c2
        else queue_repr (w_buffers w') [] \<and> queue_repr (w_free_buffers w') [] \<and> context_is_errored c')"
      using s assms(1,2) by (intro writer_produce_first_buffer) (simp_all add: w_def)
    then obtain ok w' c' where p: "writer_produce_next_buffer w c2 = Some (ok, w', c')"
      "ctx_ok M c'" "bytes_stored w' = bytes_stored w"
      "if ok then (\<exists>b. writer_shape w' [] b 0) \<and> ctx_error c' = ctx_error c2
       else queue_repr (w_buffers w') [] \<and> queue_repr (w_free_buffers w') [] \<and> context_is_errored c'"
      by blast
    have "writer_init c sz k =
       (if context_is_errored c' then do { w \<leftarrow> writer_deinit w'; Some (False, w, c') }
        else Some (True, w', c'))"
      using q1 q2 True p(1) by (simp add: writer_init_def Let_def w_def)
    moreover have "writer_repr w' [] []" if ok
      using p(3,4) that writer_shape_pos [of w' "[]"]
      by (force simp: writer_repr_def w_def writer_zero_def)
    moreover have "writer_deinit w' = Some writer_zero" if "\<not> ok"
    proof -
      have "queue_repr (w_buffers w') []" "queue_repr (w_free_buffers w') []" using p(4) that by simp_all
      then show ?thesis using queue_drain_returns writer_deinit_returns by metis
    qed
    moreover have "context_is_errored c' \<longleftrightarrow> \<not> ok"
      using p(4) s(4) assms(4) by (auto simp: context_is_errored_def split: if_splits)
    ultimately show ?thesis using p(2) by (cases ok) auto
  qed
qed

section \<open>The interface bit producers use\<close>

text \<open>
  What the entropy encoders need of a sink of bits: writing never aborts while the sink is safe
  to use, and while no error is set the bits written so far are exactly what the sink holds.
\<close>

locale bit_sink =
  fixes put_bit :: "'w \<Rightarrow> ctx \<Rightarrow> byte \<Rightarrow> ('w \<times> ctx) option"
    and sink_safe :: "'w \<Rightarrow> bool"
    and sink_holds :: "'w \<Rightarrow> bool list \<Rightarrow> bool"
  assumes holds_safe: "sink_holds w bits \<Longrightarrow> sink_safe w"
    and put_total: "sink_safe w \<Longrightarrow> ctx_ok M c \<Longrightarrow> b = 0 \<or> b = 1 \<Longrightarrow>
      \<exists>w' c'. put_bit w c b = Some (w', c') \<and> sink_safe w' \<and> ctx_ok M c' \<and>
        (context_is_errored c \<longrightarrow> ctx_error c' = ctx_error c)"
    and put_holds: "sink_holds w bits \<Longrightarrow> ctx_ok M c \<Longrightarrow> b = 0 \<or> b = 1 \<Longrightarrow>
      put_bit w c b = Some (w', c') \<Longrightarrow> \<not> context_is_errored c' \<Longrightarrow> sink_holds w' (bits @ [b = 1])"
begin

text \<open>A sink after \<open>bits\<close> were offered to it: usable, and exact unless an error is set.\<close>

definition offered :: "(nat \<Rightarrow> u64 \<Rightarrow> byte list option) \<Rightarrow> 'w \<Rightarrow> ctx \<Rightarrow> bool list \<Rightarrow> bool" where
  "offered M w c bits \<longleftrightarrow> sink_safe w \<and> ctx_ok M c \<and>
     (\<not> context_is_errored c \<longrightarrow> sink_holds w bits)"

lemma offered_put:
  assumes "offered M w c bits"
  shows "\<exists>w' c'. put_bit w c (of_bool b) = Some (w', c') \<and> offered M w' c' (bits @ [b])"
proof -
  have b: "of_bool b = (0 :: byte) \<or> of_bool b = (1 :: byte)" by (cases b) simp_all
  from put_total [OF _ _ b] assms obtain w' c' where
    p: "put_bit w c (of_bool b) = Some (w', c')" "sink_safe w'" "ctx_ok M c'"
      "context_is_errored c \<longrightarrow> ctx_error c' = ctx_error c"
    unfolding offered_def by blast
  have "sink_holds w' (bits @ [b])" if "\<not> context_is_errored c'"
  proof -
    have "\<not> context_is_errored c" using that p(4) by (auto simp: context_is_errored_def)
    then have "sink_holds w bits" "ctx_ok M c" using assms by (simp_all add: offered_def)
    from put_holds [OF this b p(1) that] show ?thesis by (cases b) simp_all
  qed
  with p show ?thesis by (auto simp: offered_def)
qed

primrec put_list :: "'w \<Rightarrow> ctx \<Rightarrow> bool list \<Rightarrow> ('w \<times> ctx) option" where
  "put_list w c [] = Some (w, c)"
| "put_list w c (b # bits) = do { (w, c) \<leftarrow> put_bit w c (of_bool b); put_list w c bits }"

lemma offered_list:
  "offered M w c bits \<Longrightarrow> \<exists>w' c'. put_list w c bs = Some (w', c') \<and> offered M w' c' (bits @ bs)"
proof (induction bs arbitrary: w c bits)
  case (Cons b bs)
  from offered_put [OF Cons.prems, of b] obtain w1 c1 where
    p: "put_bit w c (of_bool b) = Some (w1, c1)" "offered M w1 c1 (bits @ [b])" by blast
  from Cons.IH [OF p(2)] p(1) show ?case by simp
qed simp

end

interpretation bw: bit_sink writer_write_bit writer_safe writer_bits
proof unfold_locales
  show "writer_safe w" if "writer_bits w bits" for w bits
    using that by (rule writer_bits_safe)
  show "\<exists>w' c'. writer_write_bit w c b = Some (w', c') \<and> writer_safe w' \<and> ctx_ok M c' \<and>
        (context_is_errored c \<longrightarrow> ctx_error c' = ctx_error c)"
    if "writer_safe w" "ctx_ok M c" "b = 0 \<or> b = 1" for w M c b
    using that by (rule writer_write_bit_safe)
  show "writer_bits w' (bits @ [b = 1])"
    if "writer_bits w bits" "ctx_ok M c" "b = 0 \<or> b = 1"
      "writer_write_bit w c b = Some (w', c')" "\<not> context_is_errored c'" for w bits M c b w' c'
    using that by (rule writer_write_bit_bits)
qed

section \<open>Sequences of bytes\<close>

definition bytes_offered :: "(nat \<Rightarrow> u64 \<Rightarrow> byte list option) \<Rightarrow> writer \<Rightarrow> ctx \<Rightarrow> byte list \<Rightarrow> bool" where
  "bytes_offered M w c bytes \<longleftrightarrow> writer_safe w \<and> current_bit_index w mod 8 = 0 \<and> ctx_ok M c \<and>
     (\<not> context_is_errored c \<longrightarrow> writer_repr w bytes [])"

lemma bytes_offered_write:
  assumes "bytes_offered M w c bytes"
  shows "\<exists>w' c'. writer_write_byte w c v = Some (w', c') \<and> bytes_offered M w' c' (bytes @ [v])"
proof -
  have "writer_safe w" "current_bit_index w mod 8 = 0" "ctx_ok M c"
    using assms by (simp_all add: bytes_offered_def)
  from writer_write_byte_safe [OF this, of v] obtain w' c' where
    w: "writer_write_byte w c v = Some (w', c')" "writer_safe w'" "current_bit_index w' mod 8 = 0"
      "ctx_ok M c'" "context_is_errored c \<longrightarrow> ctx_error c' = ctx_error c" by (elim exE conjE)
  have "writer_repr w' (bytes @ [v]) []" if "\<not> context_is_errored c'"
  proof -
    have "\<not> context_is_errored c" using that w(5) by (auto simp: context_is_errored_def)
    then have "writer_repr w bytes []" "ctx_ok M c" using assms by (simp_all add: bytes_offered_def)
    from writer_write_byte_repr [OF this w(1) that] show ?thesis .
  qed
  with w show ?thesis by (auto simp: bytes_offered_def)
qed

lemma writer_repr_bytes_offered: "writer_repr w bytes [] \<Longrightarrow> ctx_ok M c \<Longrightarrow> bytes_offered M w c bytes"
  using writer_repr_safe [of w bytes "[]"] by (auto simp: bytes_offered_def writer_repr_def writer_shape_def)

text \<open>Consecutive calls of \<open>writer_write_byte\<close>.\<close>

primrec writer_write_bytes :: "writer \<Rightarrow> ctx \<Rightarrow> byte list \<Rightarrow> (writer \<times> ctx) option" where
  "writer_write_bytes w c [] = Some (w, c)"
| "writer_write_bytes w c (v # vs) = do { (w, c) \<leftarrow> writer_write_byte w c v; writer_write_bytes w c vs }"

lemma bytes_offered_writes:
  "bytes_offered M w c bytes \<Longrightarrow>
   \<exists>w' c'. writer_write_bytes w c vs = Some (w', c') \<and> bytes_offered M w' c' (bytes @ vs)"
proof (induction vs arbitrary: w c bytes)
  case (Cons v vs)
  from bytes_offered_write [OF Cons.prems, of v] obtain w1 c1 where
    p: "writer_write_byte w c v = Some (w1, c1)" "bytes_offered M w1 c1 (bytes @ [v])" by blast
  from Cons.IH [OF p(2)] p(1) show ?case by simp
qed simp

end
