(* ===== verification/Encoder.thy ===== *)
theory Encoder
  imports Acod_Spec Writer
begin

text \<open>
  \<open>src/arithmetic_coding/encoder.c\<close>.  The encoder holds a pointer to its writer; the record
  holds the writer itself.  \<open>encoder_holds M e c script\<close> states what the encoder has done so
  far: whatever is encoded next, the writer will end up with the bits the specification
  \<open>future\<close> gives for the whole script.
\<close>

record acod_encoder =
  enc_state :: acod_state
  underflows :: u64
  enc_writer :: writer

section \<open>Operations\<close>

definition acod_encoder_init :: "writer \<Rightarrow> acod_encoder" where
  "acod_encoder_init w = \<lparr>enc_state = acod_state_init, underflows = 0, enc_writer = w\<rparr>"

text \<open>Write out the saved underflow bits.\<close>

partial_function (option) encoder_underflow_loop ::
  "acod_encoder \<Rightarrow> ctx \<Rightarrow> byte \<Rightarrow> (acod_encoder \<times> ctx) option" where
  "encoder_underflow_loop e c b =
     (if underflows e > 0 then do {
        (w, c) \<leftarrow> writer_write_bit (enc_writer e) c (b XOR 1);
        encoder_underflow_loop (e\<lparr>enc_writer := w, underflows := underflows e - 1\<rparr>) c b
      } else Some (e, c))"

definition acod_encoder_write_shift_bit ::
  "acod_encoder \<Rightarrow> ctx \<Rightarrow> byte \<Rightarrow> (acod_encoder \<times> ctx) option" where
  "acod_encoder_write_shift_bit e c b = do {
     (w, c) \<leftarrow> writer_write_bit (enc_writer e) c b;
     encoder_underflow_loop (e\<lparr>enc_writer := w\<rparr>) c b
   }"

definition acod_encoder_finalize :: "acod_encoder \<Rightarrow> ctx \<Rightarrow> (acod_encoder \<times> ctx) option" where
  "acod_encoder_finalize e c = do {
     let e = e\<lparr>underflows := underflows e + 1\<rparr>;
     let final_bit = (if low (enc_state e) < ACOD_QUARTER_RANGE then 0 else 1);
     acod_encoder_write_shift_bit e c final_bit
   }"

text \<open>The encoder is cleared; the writer it pointed to goes back to its owner.\<close>

definition acod_encoder_deinit :: "acod_encoder \<Rightarrow> ctx \<Rightarrow> (writer \<times> ctx) option" where
  "acod_encoder_deinit e c = do {
     (e, c) \<leftarrow> acod_encoder_finalize e c;
     Some (enc_writer e, c)
   }"

partial_function (option) encoder_shift_loop ::
  "acod_encoder \<Rightarrow> ctx \<Rightarrow> (acod_encoder \<times> ctx) option" where
  "encoder_shift_loop e c =
     (if acod_is_shiftable (enc_state e) then do {
        let b = (ucast (drop_bit 31 (low (enc_state e))) :: byte);
        (e, c) \<leftarrow> acod_encoder_write_shift_bit e c b;
        st \<leftarrow> acod_perform_shift (enc_state e);
        encoder_shift_loop (e\<lparr>enc_state := st\<rparr>) c
      } else Some (e, c))"

partial_function (option) encoder_save_loop :: "acod_encoder \<Rightarrow> acod_encoder option" where
  "encoder_save_loop e =
     (if acod_is_underflowable (enc_state e) then do {
        let e = e\<lparr>underflows := underflows e + 1\<rparr>;
        st \<leftarrow> acod_perform_underflow (enc_state e);
        encoder_save_loop (e\<lparr>enc_state := st\<rparr>)
      } else Some e)"

definition acod_encoder_write ::
  "acod_encoder \<Rightarrow> ctx \<Rightarrow> ftable \<Rightarrow> int \<Rightarrow> (acod_encoder \<times> ctx) option" where
  "acod_encoder_write e c t symbol = do {
     st \<leftarrow> acod_shrink_the_range (enc_state e) t symbol;
     (e, c) \<leftarrow> encoder_shift_loop (e\<lparr>enc_state := st\<rparr>) c;
     e \<leftarrow> encoder_save_loop e;
     Some (e, c)
   }"

section \<open>The loops\<close>

lemma underflow_loop_correct:
  assumes "bw.offered M (enc_writer e) c bits" and "unat (underflows e) = u"
  shows "\<exists>w c'. encoder_underflow_loop e c (of_bool b) = Some (e\<lparr>enc_writer := w, underflows := 0\<rparr>, c') \<and>
     bw.offered M w c' (bits @ replicate u (\<not> b))"
  using assms
proof (induction u arbitrary: e c bits)
  case 0
  then have "underflows e = 0" by (simp add: unat_eq_0)
  with 0 show ?case by (subst encoder_underflow_loop.simps) (auto intro!: exI [of _ "enc_writer e"])
next
  case (Suc u)
  have nb: "of_bool b XOR 1 = (of_bool (\<not> b) :: byte)" by (cases b) simp_all
  from bw.offered_put [OF Suc.prems(1), of "\<not> b"] obtain w c1 where
    w: "writer_write_bit (enc_writer e) c (of_bool (\<not> b)) = Some (w, c1)"
      "bw.offered M w c1 (bits @ [\<not> b])" by blast
  define e1 where "e1 = e\<lparr>enc_writer := w, underflows := underflows e - 1\<rparr>"
  have nz: "underflows e > 0" using Suc.prems(2) by (simp add: word_less_nat_alt)
  then have "unat (underflows e1) = u"
    using Suc.prems(2) by (simp add: e1_def unat_minus_one word_gt_0)
  with Suc.IH [of e1 c1 "bits @ [\<not> b]"] w(2) obtain w' c' where
    "encoder_underflow_loop e1 c1 (of_bool b) = Some (e1\<lparr>enc_writer := w', underflows := 0\<rparr>, c')"
    "bw.offered M w' c' ((bits @ [\<not> b]) @ replicate u (\<not> b))" by (auto simp: e1_def)
  then show ?case
    using nz w(1)
    by (intro exI [of _ w'] exI [of _ c'], subst encoder_underflow_loop.simps) (simp add: nb e1_def)
qed

lemma write_shift_bit_correct:
  assumes "bw.offered M (enc_writer e) c bits"
  shows "\<exists>w c'. acod_encoder_write_shift_bit e c (of_bool b) =
       Some (e\<lparr>enc_writer := w, underflows := 0\<rparr>, c') \<and>
     bw.offered M w c' (bits @ b # replicate (unat (underflows e)) (\<not> b))"
proof -
  from bw.offered_put [OF assms, of b] obtain w c1 where
    w: "writer_write_bit (enc_writer e) c (of_bool b) = Some (w, c1)" "bw.offered M w c1 (bits @ [b])" by blast
  with underflow_loop_correct [of M "e\<lparr>enc_writer := w\<rparr>" c1 "bits @ [b]" _ b] show ?thesis
    by (auto simp: acod_encoder_write_shift_bit_def)
qed

lemma shift_bit_value:
  assumes "lo st < 2 ^ 32"
  shows "ucast (drop_bit 31 (low st)) = (of_bool (2 ^ 31 \<le> lo st) :: byte)"
proof -
  have "drop_bit 31 (low st) = of_bool (2 ^ 31 \<le> lo st)"
  proof (rule word_unat_eq_iff [THEN iffD2])
    have "unat (drop_bit 31 (low st)) = lo st div 2 ^ 31"
      by (simp add: lo_def unsigned_drop_bit_eq drop_bit_eq_div unat_div)
    also have "\<dots> = of_bool (2 ^ 31 \<le> lo st)" using assms by (auto simp: div_nat_eqI)
    finally show "unat (drop_bit 31 (low st)) = unat (of_bool (2 ^ 31 \<le> lo st) :: u64)" by simp
  qed
  then show ?thesis by simp
qed

lemma encoder_shift_loop_correct:
  assumes "bw.offered M (enc_writer e) c bits" and "shifts l h = (bs, l', h')"
    and "enc_state e = interval l h" and "l \<le> h" and "h < 2 ^ 32"
  shows "\<exists>w c'. encoder_shift_loop e c =
       Some (e\<lparr>enc_state := interval l' h', enc_writer := w,
                underflows := (if bs = [] then underflows e else 0)\<rparr>, c') \<and>
     bw.offered M w c' (bits @ ins (unat (underflows e)) bs)"
  using assms
proof (induction l h arbitrary: e c bits bs rule: shifts.induct)
  case (1 l h)
  have lh: "lo (interval l h) = l" "hi (interval l h) = h" using "1.prems"(4,5) by simp_all
  show ?case
  proof (cases "2 ^ 31 \<le> l \<longleftrightarrow> 2 ^ 31 \<le> h")
    case False
    then have "shifts l h = ([], l, h)" by (subst shifts.simps) auto
    moreover have "\<not> acod_is_shiftable (interval l h)"
      using False shiftable_iff [of "interval l h"] "1.prems"(4,5) unfolding lh by simp
    ultimately show ?thesis using "1.prems"(1-3)
      by (subst encoder_shift_loop.simps) (auto intro!: exI [of _ "enc_writer e"] simp: ins_def)
  next
    case True
    obtain bs1 l1 h1 where rec: "shifts (2 * (l - top l)) (2 * (h - top h) + 1) = (bs1, l1, h1)"
      by (metis prod_cases3)
    have "shifts l h = ((2 ^ 31 \<le> l) # bs1, l1, h1)"
      using rec True "1.prems"(4,5) by (subst shifts.simps) simp
    then have e: "bs = (2 ^ 31 \<le> l) # bs1" "l1 = l'" "h1 = h'" using "1.prems"(2) by simp_all
    have sh: "acod_is_shiftable (interval l h)"
      using True shiftable_iff [of "interval l h"] "1.prems"(4,5) unfolding lh by simp
    from write_shift_bit_correct [OF "1.prems"(1), of "2 ^ 31 \<le> l"] obtain w1 c1 where
      w1: "acod_encoder_write_shift_bit e c (of_bool (2 ^ 31 \<le> l)) =
          Some (e\<lparr>enc_writer := w1, underflows := 0\<rparr>, c1)"
        "bw.offered M w1 c1 (bits @ (2 ^ 31 \<le> l) # replicate (unat (underflows e)) (\<not> 2 ^ 31 \<le> l))" by blast
    define e1 where "e1 = e\<lparr>enc_writer := w1, underflows := 0,
      enc_state := interval (2 * (l - top l)) (2 * (h - top h) + 1)\<rparr>"
    have bit: "ucast (drop_bit 31 (low (interval l h))) = (of_bool (2 ^ 31 \<le> l) :: byte)"
      using shift_bit_value [of "interval l h"] "1.prems"(4,5) unfolding lh by simp
    have step: "encoder_shift_loop e c = encoder_shift_loop e1 c1"
      using sh w1(1) bit shift_correct [of "interval l h"] "1.prems"(3-5) unfolding lh
      by (subst encoder_shift_loop.simps) (simp add: e1_def Let_def)
    have "2 * (l - top l) \<le> 2 * (h - top h) + 1" "2 * (h - top h) + 1 < 2 ^ 32"
      using True "1.prems"(4,5) by (auto simp: top_def)
    moreover have "bw.offered M (enc_writer e1) c1
        (bits @ (2 ^ 31 \<le> l) # replicate (unat (underflows e)) (\<not> 2 ^ 31 \<le> l))"
      using w1(2) by (simp add: e1_def)
    moreover have "enc_state e1 = interval (2 * (l - top l)) (2 * (h - top h) + 1)" by (simp add: e1_def)
    ultimately obtain w c' where
      "encoder_shift_loop e1 c1 = Some (e1\<lparr>enc_state := interval l1 h1, enc_writer := w,
          underflows := (if bs1 = [] then underflows e1 else 0)\<rparr>, c')"
      "bw.offered M w c' ((bits @ (2 ^ 31 \<le> l) # replicate (unat (underflows e)) (\<not> 2 ^ 31 \<le> l)) @
          ins (unat (underflows e1)) bs1)"
      using "1.IH" rec True "1.prems"(4,5) unfolding e(2,3) by blast
    then show ?thesis unfolding step
      by (intro exI [of _ w] exI [of _ c']) (simp add: e e1_def ins_def [of "unat (underflows e)"])
  qed
qed

lemma encoder_save_loop_correct:
  assumes "unders l h = (n, l', h')" and "enc_state e = interval l h" and "straddles l h"
    and "unat (underflows e) + n < 2 ^ 64"
  shows "\<exists>u. encoder_save_loop e = Some (e\<lparr>enc_state := interval l' h', underflows := u\<rparr>) \<and>
     unat u = unat (underflows e) + n"
  using assms
proof (induction l h arbitrary: e n rule: unders.induct)
  case (1 l h)
  have lh: "lo (interval l h) = l" "hi (interval l h) = h" using "1.prems"(3) by (simp_all add: straddles_def)
  have iff: "acod_is_underflowable (interval l h) \<longleftrightarrow> 2 ^ 30 \<le> l \<and> h < 3 * 2 ^ 30"
    using underflowable_iff [of "interval l h"] "1.prems"(3) unfolding lh straddles_def by blast
  show ?case
  proof (cases "2 ^ 30 \<le> l \<and> h < 3 * 2 ^ 30")
    case False
    then have "unders l h = (0, l, h)" by (subst unders.simps) auto
    then show ?thesis using "1.prems"(1,2) iff False
      by (subst encoder_save_loop.simps) (auto intro!: exI [of _ "underflows e"])
  next
    case True
    then have c: "2 ^ 30 \<le> l \<and> l < 2 ^ 31 \<and> 2 ^ 31 \<le> h \<and> h < 3 * 2 ^ 30"
      using "1.prems"(3) by (simp add: straddles_def)
    obtain n1 l1 h1 where rec: "unders (2 * (l - 2 ^ 30)) (2 * (h - 2 ^ 30) + 1) = (n1, l1, h1)"
      by (metis prod_cases3)
    have "unders l h = (Suc n1, l1, h1)" using rec c by (subst unders.simps) simp
    then have e: "n = Suc n1" "l1 = l'" "h1 = h'" using "1.prems"(1) by simp_all
    define e1 where "e1 = e\<lparr>underflows := underflows e + 1,
      enc_state := interval (2 * (l - 2 ^ 30)) (2 * (h - 2 ^ 30) + 1)\<rparr>"
    have "acod_perform_underflow (interval l h) =
        Some (interval (2 * (l - 2 ^ 30)) (2 * (h - 2 ^ 30) + 1))"
      using underflow_correct [of "interval l h"] iff True "1.prems"(3) unfolding lh straddles_def by blast
    then have step: "encoder_save_loop e = encoder_save_loop e1"
      using iff True "1.prems"(2)
      by (subst encoder_save_loop.simps) (simp add: e1_def Let_def)
    have u1: "unat (underflows e1) = unat (underflows e) + 1"
      using "1.prems"(4) e(1) by (simp add: e1_def unat_word_ariths)
    have "straddles (2 * (l - 2 ^ 30)) (2 * (h - 2 ^ 30) + 1)" using c by (auto simp: straddles_def)
    moreover have "enc_state e1 = interval (2 * (l - 2 ^ 30)) (2 * (h - 2 ^ 30) + 1)" by (simp add: e1_def)
    moreover have "unat (underflows e1) + n1 < 2 ^ 64" using u1 "1.prems"(4) e(1) by simp
    ultimately obtain u where
      "encoder_save_loop e1 = Some (e1\<lparr>enc_state := interval l1 h1, underflows := u\<rparr>)"
      "unat u = unat (underflows e1) + n1"
      using "1.IH" [OF c] rec unfolding e(2,3) by blast
    then show ?thesis unfolding step using u1 by (intro exI [of _ u]) (simp add: e e1_def)
  qed
qed

section \<open>Shrinking\<close>

lemma shrink_correct:
  assumes "ftable_repr t fs" and "codable (fs, s)" and "normal (lo st) (hi st)"
    and "narrow (lo st) (hi st) fs s = (l', h')"
  shows "acod_shrink_the_range st t (int s) = Some (interval l' h')"
proof -
  define R where "R = hi st - lo st + 1"
  define T where "T = sum_list fs"
  have s: "s < length fs" "0 < fs ! s" "T \<le> 2 ^ 29"
    using assms(2) by (simp_all add: codable_def T_def)
  have lh: "lo st < 2 ^ 31" "2 ^ 31 \<le> hi st" "hi st < 2 ^ 32"
    using assms(3) by (simp_all add: normal_def straddles_def)
  have R: "R \<le> 2 ^ 32" using lh(3) by (simp add: R_def)
  define vr where "vr = high st - low st + 1"
  have "low st \<le> high st" using lh by (simp add: word_le_nat_alt lo_def hi_def)
  then have "unat (high st - low st) = hi st - lo st" by (simp add: unat_sub lo_def hi_def)
  moreover have "hi st - lo st + 1 < 2 ^ 64" using lh(3) by simp
  ultimately have vr: "unat vr = R" by (simp add: vr_def R_def unat_word_ariths)
  have T0: "unat (total t) = T" using ftable_unat_total [OF assms(1)] by (simp add: T_def)
  have Tpos: "0 < T" using cum_strict [OF s(1,2)] s(2) by (simp add: T_def)
  have part: "unat (of_nat (cum fs i) * vr div total t) = cum fs i * R div T \<and>
      cum fs i * R div T \<le> R" for i
  proof -
    have ci: "cum fs i \<le> T" using cum_le_sum [of fs i] by (simp add: T_def)
    have "cum fs i * R \<le> 2 ^ 29 * 2 ^ 32" using ci s(3) R by (intro mult_mono) simp_all
    then have "unat (of_nat (cum fs i) * vr) = cum fs i * R"
      using unat_cum [OF assms(1), of i] vr by (simp add: unat_word_ariths)
    then have "unat (of_nat (cum fs i) * vr div total t) = cum fs i * R div T"
      using T0 by (simp add: unat_div)
    moreover have "cum fs i * R div T \<le> T * R div T" using ci by (intro div_le_mono mult_right_mono) simp_all
    then have "cum fs i * R div T \<le> R" using Tpos by simp
    ultimately show ?thesis by blast
  qed
  have e: "l' = lo st + cum fs s * R div T" "h' = lo st + cum fs (Suc s) * R div T - 1"
    using assms(4) by (simp_all add: narrow_def R_def T_def)
  note n = narrow_correct [OF assms(3,2,4)]
  define nl where "nl = low st + of_nat (cum fs s) * vr div total t"
  define nh where "nh = low st + of_nat (cum fs (Suc s)) * vr div total t - 1"
  have nl: "unat nl = l'"
    using part [of s] lh R unfolding nl_def e(1) lo_def by (simp add: unat_word_ariths)
  have "unat (low st + of_nat (cum fs (Suc s)) * vr div total t) = Suc h'"
    using part [of "Suc s"] lh R n(2) unfolding e(2) lo_def by (simp add: unat_word_ariths)
  then have nh: "unat nh = h'"
    unfolding nh_def by (subst unat_minus_one) (auto simp: unat_eq_0 [symmetric])
  have "nl < nh" using n(2) nl nh by (simp add: word_less_nat_alt)
  moreover have "total t \<noteq> 0" using T0 Tpos by auto
  moreover have "ftable_get_low t (int s) = Some (of_nat (cum fs s))"
    "ftable_get_high t (int s) = Some (of_nat (cum fs (Suc s)))"
    using ftable_low [OF assms(1), of "int s"] ftable_high [OF assms(1), of "int s"] s(1) by simp_all
  ultimately have "acod_shrink_the_range st t (int s) = Some \<lparr>high = nh, low = nl\<rparr>"
    unfolding acod_shrink_the_range_def nl_def nh_def vr_def by (simp add: Let_def)
  moreover have "\<lparr>high = nh, low = nl\<rparr> = interval l' h'"
    using interval_lo_hi [of "\<lparr>high = nh, low = nl\<rparr>"] by (simp add: lo_def hi_def nl nh)
  ultimately show ?thesis by simp
qed

section \<open>What the encoder holds\<close>

definition whole :: "script \<Rightarrow> bool list" where
  "whole script = future 0 (2 ^ 32 - 1) script"

definition encoder_holds :: "(nat \<Rightarrow> u64 \<Rightarrow> byte list option) \<Rightarrow> acod_encoder \<Rightarrow> ctx \<Rightarrow> script \<Rightarrow> bool" where
  "encoder_holds M e c script \<longleftrightarrow>
     (\<exists>l h bits. enc_state e = interval l h \<and> normal l h \<and> bw.offered M (enc_writer e) c bits \<and>
        unat (underflows e) \<le> 32 * length script \<and>
        (\<forall>rest. (\<forall>p\<in>set rest. codable p) \<longrightarrow>
           bits @ ins (unat (underflows e)) (future l h rest) = whole (script @ rest)))"

lemma unders_count: "unders l h = (n, l', h') \<Longrightarrow> straddles l h \<Longrightarrow> n \<le> 32"
proof -
  have "unders l h = (n, l', h') \<Longrightarrow> straddles l h \<Longrightarrow> (h - l + 1) * 2 ^ n \<le> 2 ^ 32"
  proof (induction l h arbitrary: n rule: unders.induct)
    case (1 l h)
    show ?case
    proof (cases "2 ^ 30 \<le> l \<and> l < 2 ^ 31 \<and> 2 ^ 31 \<le> h \<and> h < 3 * 2 ^ 30")
      case True
      obtain n1 l1 h1 where rec: "unders (2 * (l - 2 ^ 30)) (2 * (h - 2 ^ 30) + 1) = (n1, l1, h1)"
        by (metis prod_cases3)
      have "unders l h = (Suc n1, l1, h1)" using rec True by (subst unders.simps) simp
      then have e: "n = Suc n1" "l1 = l'" "h1 = h'" using "1.prems"(1) by simp_all
      have "straddles (2 * (l - 2 ^ 30)) (2 * (h - 2 ^ 30) + 1)" using True by (auto simp: straddles_def)
      with "1.IH" [OF True] rec e have
        "(2 * (h - 2 ^ 30) + 1 - 2 * (l - 2 ^ 30) + 1) * 2 ^ n1 \<le> 2 ^ 32" by blast
      moreover have "2 * (h - 2 ^ 30) + 1 - 2 * (l - 2 ^ 30) + 1 = (h - l + 1) * 2" using True by auto
      ultimately show ?thesis by (simp only: e(1) power_Suc mult.assoc)
    next
      case False
      then have "unders l h = (0, l, h)" by (subst unders.simps) auto
      then show ?thesis using "1.prems" by (auto simp: straddles_def)
    qed
  qed
  moreover assume "unders l h = (n, l', h')" "straddles l h"
  ultimately have "1 * 2 ^ n \<le> (2 :: nat) ^ 32" by (meson le_add2 le_trans mult_right_mono zero_le)
  then show "n \<le> 32" by (simp only: mult_1 power_increasing_iff)
qed

lemma encoder_init_holds:
  assumes "bw.offered M w c []"
  shows "encoder_holds M (acod_encoder_init w) c []"
proof -
  have "acod_state_init = interval 0 (2 ^ 32 - 1)"
    by (simp add: acod_state_init_def interval_def acod_constants(4) mask_eq_exp_minus_1)
  then show ?thesis using assms normal_initial
    unfolding encoder_holds_def acod_encoder_init_def whole_def
    by (intro exI [of _ 0] exI [of _ "2 ^ 32 - 1"] exI [of _ "[]"]) simp
qed

lemma encoder_write_correct:
  assumes "encoder_holds M e c script" and "ftable_repr t fs" and "codable (fs, s)"
    and "length script < 2 ^ 58"
  shows "\<exists>e' c'. acod_encoder_write e c t (int s) = Some (e', c') \<and>
     encoder_holds M e' c' (script @ [(fs, s)])"
proof -
  obtain l h bits where st: "enc_state e = interval l h" and nm: "normal l h"
    and off: "bw.offered M (enc_writer e) c bits" and u: "unat (underflows e) \<le> 32 * length script"
    and fut: "\<And>rest. \<forall>p\<in>set rest. codable p \<Longrightarrow>
       bits @ ins (unat (underflows e)) (future l h rest) = whole (script @ rest)"
    using assms(1) unfolding encoder_holds_def by blast
  have lh: "lo (interval l h) = l" "hi (interval l h) = h"
    using nm by (simp_all add: normal_def straddles_def)
  from futureE [OF nm assms(3)] obtain l1 h1 bs l2 h2 n l3 h3 where
    e: "narrow l h fs s = (l1, h1)" "shifts l1 h1 = (bs, l2, h2)" "unders l2 h2 = (n, l3, h3)"
      "l1 < h1" "h1 < 2 ^ 32" "straddles l2 h2" "normal l3 h3"
      "\<And>script. future l h ((fs, s) # script) = bs @ ins n (future l3 h3 script)" by metis
  have shr: "acod_shrink_the_range (enc_state e) t (int s) = Some (interval l1 h1)"
    using shrink_correct [OF assms(2,3), of "interval l h" l1 h1] e(1) nm unfolding st lh by blast
  define e1 where "e1 = e\<lparr>enc_state := interval l1 h1\<rparr>"
  have "bw.offered M (enc_writer e1) c bits" "enc_state e1 = interval l1 h1" "l1 \<le> h1"
    using off e(4) by (simp_all add: e1_def)
  from encoder_shift_loop_correct [OF this(1) e(2) this(2,3) e(5)] obtain w c' where
    sl: "encoder_shift_loop e1 c = Some (e1\<lparr>enc_state := interval l2 h2, enc_writer := w,
           underflows := (if bs = [] then underflows e1 else 0)\<rparr>, c')"
      "bw.offered M w c' (bits @ ins (unat (underflows e1)) bs)" by blast
  define e2 where "e2 = e1\<lparr>enc_state := interval l2 h2, enc_writer := w,
     underflows := (if bs = [] then underflows e1 else 0)\<rparr>"
  have u2: "unat (underflows e2) = (if bs = [] then unat (underflows e) else 0)"
    by (simp add: e2_def e1_def)
  have nle: "n \<le> 32" using unders_count [OF e(3,6)] .
  have "unat (underflows e2) + n < 2 ^ 64" using u2 u nle assms(4) by (simp split: if_splits)
  moreover have "enc_state e2 = interval l2 h2" by (simp add: e2_def)
  ultimately obtain u3 where vl: "encoder_save_loop e2 = Some (e2\<lparr>enc_state := interval l3 h3, underflows := u3\<rparr>)"
      "unat u3 = unat (underflows e2) + n"
    using encoder_save_loop_correct [OF e(3) _ e(6)] by blast
  define e3 where "e3 = e2\<lparr>enc_state := interval l3 h3, underflows := u3\<rparr>"
  have run: "acod_encoder_write e c t (int s) = Some (e3, c')"
    unfolding acod_encoder_write_def using shr sl(1) vl(1) by (simp add: e1_def e2_def e3_def)
  have "bits @ ins (unat (underflows e)) bs @ ins (unat u3) (future l3 h3 rest) =
      whole ((script @ [(fs, s)]) @ rest)" if "\<forall>p\<in>set rest. codable p" for rest
  proof -
    have "bits @ ins (unat (underflows e)) (bs @ ins n (future l3 h3 rest)) = whole (script @ (fs, s) # rest)"
      using fut [of "(fs, s) # rest"] that assms(3) e(8) by simp
    moreover have "ins (unat (underflows e)) (bs @ ins n (future l3 h3 rest)) =
        ins (unat (underflows e)) bs @ ins (unat u3) (future l3 h3 rest)"
      using u2 vl(2) by (cases "bs = []") (simp_all add: ins_add ins_append ins_def [of _ "[]"])
    ultimately show ?thesis by simp
  qed
  moreover have "unat u3 \<le> 32 * length (script @ [(fs, s)])" using u u2 vl(2) nle by (simp split: if_splits)
  moreover have "bw.offered M (enc_writer e3) c' (bits @ ins (unat (underflows e)) bs)"
    using sl(2) by (simp add: e3_def e2_def e1_def)
  ultimately have "encoder_holds M e3 c' (script @ [(fs, s)])"
    using e(7) unfolding encoder_holds_def
    by (intro exI [of _ l3] exI [of _ h3] exI [of _ "bits @ ins (unat (underflows e)) bs"])
      (simp add: e3_def)
  with run show ?thesis by blast
qed

lemma encoder_deinit_correct:
  assumes "encoder_holds M e c script" and "length script < 2 ^ 58"
  shows "\<exists>w c'. acod_encoder_deinit e c = Some (w, c') \<and> bw.offered M w c' (whole script)"
proof -
  obtain l h bits where st: "enc_state e = interval l h" and nm: "normal l h"
    and off: "bw.offered M (enc_writer e) c bits" and u: "unat (underflows e) \<le> 32 * length script"
    and fut: "bits @ ins (unat (underflows e)) (future l h []) = whole script"
    using assms(1) unfolding encoder_holds_def by (metis append_Nil2 empty_iff list.set(1))
  define q where "q \<longleftrightarrow> 2 ^ 30 \<le> l"
  have "lo (interval l h) = l" using nm by (simp add: normal_def straddles_def)
  then have "low (enc_state e) < ACOD_QUARTER_RANGE \<longleftrightarrow> \<not> q"
    by (simp add: st acod_constants word_less_nat_alt lo_def q_def not_le)
  then have fb: "(if low (enc_state e) < ACOD_QUARTER_RANGE then 0 else 1) = (of_bool q :: byte)" by simp
  define e1 where "e1 = e\<lparr>underflows := underflows e + 1\<rparr>"
  have "unat (underflows e1) = Suc (unat (underflows e))"
    using u assms(2) by (simp add: e1_def unat_word_ariths)
  moreover have "bw.offered M (enc_writer e1) c bits" using off by (simp add: e1_def)
  ultimately obtain w c' where "acod_encoder_write_shift_bit e1 c (of_bool q) =
       Some (e1\<lparr>enc_writer := w, underflows := 0\<rparr>, c')"
     "bw.offered M w c' (bits @ q # replicate (Suc (unat (underflows e))) (\<not> q))"
    using write_shift_bit_correct [of M e1 c bits q] by auto
  moreover have "bits @ q # replicate (Suc (unat (underflows e))) (\<not> q) = whole script"
    using fut by (simp add: ins_def q_def replicate_append_same)
  ultimately show ?thesis
    by (simp add: acod_encoder_deinit_def acod_encoder_finalize_def Let_def fb e1_def)
qed

end
