(* ===== verification/Reader.thy ===== *)
theory Reader
  imports Buffers
begin

text \<open>
  \<open>src/data_structures/reader.c\<close>: a queue of filled buffers read byte by byte or bit by
  bit.  Buffers already read stay at the head of the queue until they are recovered.
  \<open>reader_repr r done_bufs cur fut\<close> splits the queue accordingly; \<open>reader_bits r bits\<close> says
  which bits are still to come.
\<close>

record reader =
  r_buffers :: "buffer queue"
  current_buffer :: buffer
  exhausted_buffers_count :: int
  bit_pointer :: int
  unconsumed_buffer_bytes_count :: int
  is_at_initial_buffer :: bool

record reader_snapshot =
  snapshot_exhausted_buffers_count :: int
  snapshot_bit_pointer :: int

section \<open>Operations\<close>

definition READER_SAFE_SIZE_SHIFT :: nat where "READER_SAFE_SIZE_SHIFT = 9"
definition READER_SAFE_SIZE :: int where "READER_SAFE_SIZE = push_bit READER_SAFE_SIZE_SHIFT 1"
definition READER_QUEUE_DEFAULT_SHIFT :: nat where "READER_QUEUE_DEFAULT_SHIFT = 4"

definition reader_zero :: reader where
  "reader_zero = \<lparr>r_buffers = queue_zero, current_buffer = EMPTY_BUFFER,
     exhausted_buffers_count = 0, bit_pointer = 0, unconsumed_buffer_bytes_count = 0,
     is_at_initial_buffer = False\<rparr>"

definition reader_deinit :: "reader \<Rightarrow> reader option" where
  "reader_deinit r = do { _ \<leftarrow> queue_drain (r_buffers r); Some reader_zero }"

definition reader_init :: "ctx \<Rightarrow> (bool \<times> reader \<times> ctx) option" where
  "reader_init c =
     (let r = reader_zero\<lparr>is_at_initial_buffer := True\<rparr>;
          (ok, q, c) = queue_init c 24 READER_QUEUE_DEFAULT_SHIFT;
          r = r\<lparr>r_buffers := q\<rparr>
      in if \<not> ok then do { r \<leftarrow> reader_deinit r; Some (False, r, c) } else Some (True, r, c))"

definition reader_get_bits_available :: "reader \<Rightarrow> int" where
  "reader_get_bits_available r = push_bit 3 (unconsumed_buffer_bytes_count r) - bit_pointer r"

definition reader_get_bytes_available :: "reader \<Rightarrow> int option" where
  "reader_get_bytes_available r = do {
     check (bit_pointer r AND 7 = 0);
     Some (unconsumed_buffer_bytes_count r - drop_bit 3 (bit_pointer r))
   }"

definition reader_has_safe_amount_of_data :: "reader \<Rightarrow> bool option" where
  "reader_has_safe_amount_of_data r =
     map_option (\<lambda>n. n \<ge> READER_SAFE_SIZE) (reader_get_bytes_available r)"

definition reader_push_buffer :: "reader \<Rightarrow> ctx \<Rightarrow> buffer \<Rightarrow> (bool \<times> reader \<times> ctx) option" where
  "reader_push_buffer r c b = do {
     check (buf_length b > 0);
     (ok, q, c) \<leftarrow> queue_push b (r_buffers r) c;
     if \<not> ok then Some (False, r\<lparr>r_buffers := q\<rparr>, c)
     else Some (True, r\<lparr>r_buffers := q,
       unconsumed_buffer_bytes_count := unconsumed_buffer_bytes_count r + buf_length b\<rparr>, c)
   }"

definition reader_has_exhausted_buffer :: "reader \<Rightarrow> bool" where
  "reader_has_exhausted_buffer r \<longleftrightarrow> exhausted_buffers_count r > 0"

definition reader_recover_exhausted_buffer :: "reader \<Rightarrow> (buffer \<times> reader) option" where
  "reader_recover_exhausted_buffer r = do {
     check (reader_has_exhausted_buffer r);
     (b, q) \<leftarrow> queue_pop (r_buffers r);
     Some (b, r\<lparr>r_buffers := q, exhausted_buffers_count := exhausted_buffers_count r - 1\<rparr>)
   }"

definition reader_set_underflow_error :: "ctx \<Rightarrow> ctx" where
  "reader_set_underflow_error c = context_set_error c ''Reader underflow''"

definition reader_get_next_buffer :: "reader \<Rightarrow> ctx \<Rightarrow> (bool \<times> reader \<times> ctx) option" where
  "reader_get_next_buffer r c =
     (let total_buffer_count =
            queue_get_count (r_buffers r) + (if is_at_initial_buffer r then 1 else 0)
      in if total_buffer_count - 1 = exhausted_buffers_count r
         then Some (False, r, reader_set_underflow_error c)
         else do {
           let r = r\<lparr>exhausted_buffers_count :=
                exhausted_buffers_count r + (if is_at_initial_buffer r then 0 else 1)\<rparr>;
           let r = r\<lparr>unconsumed_buffer_bytes_count :=
                unconsumed_buffer_bytes_count r - buf_length (current_buffer r)\<rparr>;
           slot \<leftarrow> queue_peek_at (r_buffers r) (exhausted_buffers_count r);
           Some (True, r\<lparr>current_buffer := slot, is_at_initial_buffer := False, bit_pointer := 0\<rparr>, c)
         })"

definition reader_ensure_buffer :: "reader \<Rightarrow> ctx \<Rightarrow> (bool \<times> reader \<times> ctx) option" where
  "reader_ensure_buffer r c =
     (if buf_length (current_buffer r) \<le> drop_bit 3 (bit_pointer r)
      then do {
        (ok, r, c) \<leftarrow> reader_get_next_buffer r c;
        if \<not> ok then Some (False, r, c) else Some (True, r, c)
      } else Some (True, r, c))"

definition reader_peek_byte :: "reader \<Rightarrow> ctx \<Rightarrow> (byte \<times> reader \<times> ctx) option" where
  "reader_peek_byte r c = do {
     check (bit_pointer r AND 7 = 0);
     (ok, r, c) \<leftarrow> reader_ensure_buffer r c;
     if \<not> ok then Some (0, r, c)
     else do {
       v \<leftarrow> at (buf_data (current_buffer r)) (drop_bit 3 (bit_pointer r));
       Some (v, r, c)
     }
   }"

definition reader_read_byte :: "reader \<Rightarrow> ctx \<Rightarrow> (byte \<times> reader \<times> ctx) option" where
  "reader_read_byte r c = do {
     (result, r, c) \<leftarrow> reader_peek_byte r c;
     Some (result, r\<lparr>bit_pointer := bit_pointer r + 8\<rparr>, c)
   }"

definition reader_read_bit :: "reader \<Rightarrow> ctx \<Rightarrow> (byte \<times> reader \<times> ctx) option" where
  "reader_read_bit r c = do {
     (ok, r, c) \<leftarrow>
       (if bit_pointer r AND 7 = 0 then reader_ensure_buffer r c else Some (True, r, c));
     if \<not> ok then Some (0, r, c)
     else do {
       v \<leftarrow> at (buf_data (current_buffer r)) (drop_bit 3 (bit_pointer r));
       let b = drop_bit (nat (bit_pointer r AND 7)) v AND 1;
       Some (b, r\<lparr>bit_pointer := bit_pointer r + 1\<rparr>, c)
     }
   }"

definition reader_take_snapshot :: "reader \<Rightarrow> reader_snapshot" where
  "reader_take_snapshot r =
     \<lparr>snapshot_exhausted_buffers_count =
        (if is_at_initial_buffer r then -1 else exhausted_buffers_count r),
      snapshot_bit_pointer = bit_pointer r\<rparr>"

text \<open>The loop of \<open>reader_restore_snapshot\<close> over \<open>i = from .. upto - 1\<close>.\<close>

partial_function (option) restore_lengths_loop :: "buffer queue \<Rightarrow> int \<Rightarrow> int \<Rightarrow> int \<Rightarrow> int option" where
  "restore_lengths_loop q i stop acc =
     (if i < stop then do {
        slot \<leftarrow> queue_peek_tail_at q i;
        restore_lengths_loop q (i + 1) stop (acc + buf_length slot)
      } else Some acc)"

definition reader_restore_snapshot :: "reader \<Rightarrow> reader_snapshot \<Rightarrow> reader option" where
  "reader_restore_snapshot r s =
     (let r = r\<lparr>bit_pointer := snapshot_bit_pointer s\<rparr>
      in if exhausted_buffers_count r = snapshot_exhausted_buffers_count s then Some r
         else if snapshot_exhausted_buffers_count s = -1
         then Some (r\<lparr>is_at_initial_buffer := True, current_buffer := EMPTY_BUFFER,
                      exhausted_buffers_count := 0\<rparr>)
         else do {
           check (exhausted_buffers_count r > snapshot_exhausted_buffers_count s);
           slot \<leftarrow> queue_peek_tail_at (r_buffers r) (exhausted_buffers_count r);
           let r = r\<lparr>current_buffer := slot\<rparr>;
           n \<leftarrow> restore_lengths_loop (r_buffers r) (snapshot_exhausted_buffers_count s)
                 (exhausted_buffers_count r) (unconsumed_buffer_bytes_count r);
           Some (r\<lparr>unconsumed_buffer_bytes_count := n,
                   exhausted_buffers_count := snapshot_exhausted_buffers_count s\<rparr>)
         })"

section \<open>What is still to be read\<close>

definition buffer_bytes :: "buffer \<Rightarrow> byte list" where
  "buffer_bytes b = take (nat (buf_length b)) (buf_data b)"

definition readable :: "buffer \<Rightarrow> bool" where
  "readable b \<longleftrightarrow> 0 < buf_length b \<and> buf_length b \<le> int (length (buf_data b))"

text \<open>
  \<open>reader_at r ex cur fut i\<close>: the buffers \<open>ex\<close> are exhausted, the next bit is bit
  \<open>i\<close> of \<open>cur\<close>, and \<open>fut\<close> are the buffers after it.  Before the first read the current
  buffer is the empty one and is not in the queue.
\<close>

definition reader_at :: "reader \<Rightarrow> buffer list \<Rightarrow> buffer \<Rightarrow> buffer list \<Rightarrow> nat \<Rightarrow> bool" where
  "reader_at r ex cur fut i \<longleftrightarrow>
     (if is_at_initial_buffer r then ex = [] \<and> cur = EMPTY_BUFFER \<and> queue_repr (r_buffers r) fut
      else queue_repr (r_buffers r) (ex @ cur # fut) \<and> readable cur) \<and>
     current_buffer r = cur \<and> exhausted_buffers_count r = int (length ex) \<and>
     bit_pointer r = int i \<and> i \<le> 8 * length (buffer_bytes cur) \<and>
     (\<forall>b\<in>set fut. readable b) \<and>
     unconsumed_buffer_bytes_count r = (\<Sum>b\<leftarrow>cur # fut. buf_length b)"

definition reader_bits :: "reader \<Rightarrow> bool list \<Rightarrow> bool" where
  "reader_bits r bits \<longleftrightarrow> (\<exists>ex cur fut i. reader_at r ex cur fut i \<and>
     bits = drop i (bytes_bits (buffer_bytes cur)) @ bytes_bits (concat (map buffer_bytes fut)))"

definition reader_bytes :: "reader \<Rightarrow> byte list \<Rightarrow> bool" where
  "reader_bytes r bytes \<longleftrightarrow> (\<exists>ex cur fut k. reader_at r ex cur fut (8 * k) \<and>
     bytes = drop k (buffer_bytes cur) @ concat (map buffer_bytes fut))"

lemma length_buffer_bytes: "readable b \<Longrightarrow> int (length (buffer_bytes b)) = buf_length b"
  by (auto simp: buffer_bytes_def readable_def min_def)

lemma buffer_bytes_nonempty: "readable b \<Longrightarrow> 0 < length (buffer_bytes b)"
  by (auto simp: buffer_bytes_def readable_def)

lemma buffer_bytes_empty [simp]: "buffer_bytes EMPTY_BUFFER = []"
  by (simp add: buffer_bytes_def EMPTY_BUFFER_def)

lemma reader_at_cur_length:
  "reader_at r ex cur fut i \<Longrightarrow> int (length (buffer_bytes cur)) = buf_length cur"
  unfolding reader_at_def
  by (cases "is_at_initial_buffer r") (auto simp: length_buffer_bytes, simp add: EMPTY_BUFFER_def)

lemma sum_lengths:
  "\<forall>b\<in>set fut. readable b \<Longrightarrow>
     (\<Sum>b\<leftarrow>fut. buf_length b) = int (length (concat (map buffer_bytes fut)))"
  by (induction fut) (auto simp: length_buffer_bytes)

lemma drop_bytes_bits: "drop (8 * k) (bytes_bits bs) = bytes_bits (drop k bs)"
proof (induction k arbitrary: bs)
  case (Suc k)
  then show ?case by (cases bs) (simp_all add: numeral_eq_Suc)
qed simp

lemma reader_bytes_bits: "reader_bytes r bytes \<Longrightarrow> reader_bits r (bytes_bits bytes)"
  unfolding reader_bytes_def reader_bits_def
  by (metis drop_bytes_bits bytes_bits_simps(3))

lemma bits_shift: "drop_bit 3 (int i) = int (i div 8)"
  by (simp add: shiftr_div zdiv_int)

lemma bits_low: "int i AND 7 = int (i mod 8)"
  using and_mask_mod [of "int i" 3] by (simp add: zmod_int)

section \<open>Moving to the next buffer\<close>

lemma reader_ensure_room:
  assumes "reader_at r ex cur fut i" and "i < 8 * length (buffer_bytes cur)"
  shows "reader_ensure_buffer r c = Some (True, r, c)"
proof -
  have "int (i div 8) < int (length (buffer_bytes cur))"
    using assms(2) by (simp add: less_mult_imp_div_less mult.commute)
  then have "\<not> buf_length cur \<le> int (i div 8)" using reader_at_cur_length [OF assms(1)] by simp
  then show ?thesis using assms(1) by (simp add: reader_ensure_buffer_def reader_at_def bits_shift)
qed

lemma reader_full:
  assumes "reader_at r ex cur fut (8 * length (buffer_bytes cur))"
  shows "buf_length (current_buffer r) \<le> drop_bit 3 (bit_pointer r)"
proof -
  have "current_buffer r = cur" "bit_pointer r = int (8 * length (buffer_bytes cur))"
    using assms by (simp_all add: reader_at_def)
  then show ?thesis
    using reader_at_cur_length [OF assms] by (simp only: bits_shift nonzero_mult_div_cancel_left)
qed

lemma reader_ensure_next:
  assumes "reader_at r ex cur (b # fut) (8 * length (buffer_bytes cur))"
  shows "\<exists>r' ex'. reader_ensure_buffer r c = Some (True, r', c) \<and> reader_at r' ex' b fut 0"
proof -
  define ex' where "ex' = (if is_at_initial_buffer r then [] else ex @ [cur])"
  have q: "queue_repr (r_buffers r) (ex' @ b # fut)"
    using assms by (auto simp: reader_at_def ex'_def split: if_splits)
  have pk: "queue_peek_at (r_buffers r) (int (length ex')) = Some b"
    using queue_peek_at_repr [OF q, of "length ex'"] by simp
  have cnt: "exhausted_buffers_count r + (if is_at_initial_buffer r then 0 else 1) = int (length ex')"
    using assms by (auto simp: reader_at_def ex'_def)
  have more: "queue_get_count (r_buffers r) + (if is_at_initial_buffer r then 1 else 0) - 1 \<noteq>
      exhausted_buffers_count r"
    using assms queue_count [OF q] by (auto simp: reader_at_def ex'_def)
  define r' where "r' = r\<lparr>exhausted_buffers_count := int (length ex'),
     unconsumed_buffer_bytes_count := unconsumed_buffer_bytes_count r - buf_length (current_buffer r),
     current_buffer := b, is_at_initial_buffer := False, bit_pointer := 0\<rparr>"
  have "reader_ensure_buffer r c = Some (True, r', c)"
    using reader_full [OF assms] more pk
    unfolding reader_ensure_buffer_def reader_get_next_buffer_def Let_def
    by (simp add: cnt r'_def)
  moreover have "reader_at r' ex' b fut 0"
    using assms q by (auto simp: reader_at_def r'_def)
  ultimately show ?thesis by blast
qed

lemma reader_ensure_empty:
  assumes "reader_at r ex cur [] (8 * length (buffer_bytes cur))"
  shows "reader_ensure_buffer r c = Some (False, r, reader_set_underflow_error c)"
proof -
  have "queue_get_count (r_buffers r) + (if is_at_initial_buffer r then 1 else 0) - 1 =
      exhausted_buffers_count r"
    using assms by (auto simp: reader_at_def repr_simps split: if_splits)
  then show ?thesis using reader_full [OF assms]
    by (simp add: reader_ensure_buffer_def reader_get_next_buffer_def)
qed

text \<open>Whatever the position, a reader with data left ends up inside a buffer.\<close>

lemma reader_ensure_some:
  assumes "reader_at r ex cur fut i"
    and "drop i (bytes_bits (buffer_bytes cur)) @ bytes_bits (concat (map buffer_bytes fut)) = rest"
    and "rest \<noteq> []"
  shows "\<exists>r' ex' cur' fut' j. reader_ensure_buffer r c = Some (True, r', c) \<and>
     reader_at r' ex' cur' fut' j \<and> j < 8 * length (buffer_bytes cur') \<and>
     (i mod 8 = 0 \<longrightarrow> j mod 8 = 0) \<and>
     drop j (bytes_bits (buffer_bytes cur')) @ bytes_bits (concat (map buffer_bytes fut')) = rest"
proof (cases "i < 8 * length (buffer_bytes cur)")
  case True
  then show ?thesis using reader_ensure_room [OF assms(1) True, of c] assms by blast
next
  case False
  then have i: "i = 8 * length (buffer_bytes cur)" using assms(1) by (simp add: reader_at_def)
  with assms(2,3) obtain b fut' where f: "fut = b # fut'" by (cases fut) auto
  have "readable b" using assms(1) f by (simp add: reader_at_def)
  then have "0 < length (buffer_bytes b)" by (rule buffer_bytes_nonempty)
  moreover obtain r' ex' where "reader_ensure_buffer r c = Some (True, r', c)" "reader_at r' ex' b fut' 0"
    using reader_ensure_next assms(1) unfolding i f by blast
  ultimately show ?thesis using assms(2) i f
    by (intro exI [of _ r'] exI [of _ ex'] exI [of _ b] exI [of _ fut'] exI [of _ 0]) simp
qed

section \<open>Reading bits\<close>

lemma reader_bits_available:
  assumes "reader_bits r bits"
  shows "reader_get_bits_available r = int (length bits)"
proof -
  from assms obtain ex cur fut i where at: "reader_at r ex cur fut i"
    and bits: "bits = drop i (bytes_bits (buffer_bytes cur)) @ bytes_bits (concat (map buffer_bytes fut))"
    by (auto simp: reader_bits_def)
  have "unconsumed_buffer_bytes_count r = int (length (buffer_bytes cur) + length (concat (map buffer_bytes fut)))"
    using at sum_lengths [of fut] reader_at_cur_length [OF at] by (simp add: reader_at_def)
  moreover have "bit_pointer r = int i" "i \<le> 8 * length (buffer_bytes cur)"
    using at by (simp_all add: reader_at_def)
  ultimately show ?thesis
    by (simp add: reader_get_bits_available_def push_bit_eq_mult bits of_nat_diff)
qed

lemma bytes_bits_nth:
  "i < 8 * length bs \<Longrightarrow> bytes_bits bs ! i = bit (bs ! (i div 8)) (i mod 8)"
proof (induction bs arbitrary: i)
  case (Cons b bs)
  show ?case
  proof (cases "i < 8")
    case True
    then show ?thesis by (simp add: nth_append)
  next
    case False
    then have "i div 8 = Suc ((i - 8) div 8)" "i mod 8 = (i - 8) mod 8"
      using le_div_geq [of 8 i] le_mod_geq [of 8 i] by simp_all
    then show ?thesis using Cons.IH [of "i - 8"] Cons.prems False by (simp add: nth_append)
  qed
qed simp

lemma buffer_at_nth:
  assumes "i < length (buffer_bytes b)"
  shows "at (buf_data b) (int i) = Some (buffer_bytes b ! i)"
  using assms by (simp add: buffer_bytes_def)

lemma reader_read_bit_correct:
  assumes "reader_bits r (b # bits)"
  shows "\<exists>r'. reader_read_bit r c = Some (of_bool b, r', c) \<and> reader_bits r' bits"
proof -
  from assms obtain ex cur fut i where at: "reader_at r ex cur fut i"
    and bits: "drop i (bytes_bits (buffer_bytes cur)) @ bytes_bits (concat (map buffer_bytes fut)) = b # bits"
    by (auto simp: reader_bits_def)
  have "\<exists>r1 ex1 cur1 fut1 j.
     (if bit_pointer r AND 7 = 0 then reader_ensure_buffer r c else Some (True, r, c)) = Some (True, r1, c) \<and>
     reader_at r1 ex1 cur1 fut1 j \<and> j < 8 * length (buffer_bytes cur1) \<and>
     drop j (bytes_bits (buffer_bytes cur1)) @ bytes_bits (concat (map buffer_bytes fut1)) = b # bits"
  proof (cases "i mod 8 = 0")
    case True
    then have "bit_pointer r AND 7 = 0" using at by (simp add: reader_at_def bits_low)
    then show ?thesis using reader_ensure_some [OF at bits, of c] by simp blast
  next
    case False
    then have "i \<noteq> 8 * length (buffer_bytes cur)" by auto
    then have "i < 8 * length (buffer_bytes cur)" using at by (simp add: reader_at_def)
    moreover have "bit_pointer r AND 7 \<noteq> 0"
      using False at by (simp add: reader_at_def bits_low del: of_nat_mod)
    ultimately show ?thesis using at bits by auto
  qed
  then obtain r1 ex1 cur1 fut1 j where
    e: "(if bit_pointer r AND 7 = 0 then reader_ensure_buffer r c else Some (True, r, c)) = Some (True, r1, c)"
    and at1: "reader_at r1 ex1 cur1 fut1 j" and j: "j < 8 * length (buffer_bytes cur1)"
    and bits1: "drop j (bytes_bits (buffer_bytes cur1)) @ bytes_bits (concat (map buffer_bytes fut1)) = b # bits"
    by blast
  have jl: "j div 8 < length (buffer_bytes cur1)"
    using j by (simp add: less_mult_imp_div_less mult.commute)
  have hd: "drop j (bytes_bits (buffer_bytes cur1)) =
      bytes_bits (buffer_bytes cur1) ! j # drop (Suc j) (bytes_bits (buffer_bytes cur1))"
    using j by (intro Cons_nth_drop_Suc [symmetric]) simp
  then have b: "b = bit (buffer_bytes cur1 ! (j div 8)) (j mod 8)"
    and rest: "bits = drop (Suc j) (bytes_bits (buffer_bytes cur1)) @ bytes_bits (concat (map buffer_bytes fut1))"
    using bits1 bytes_bits_nth [OF j] by simp_all
  have ptr: "current_buffer r1 = cur1" "bit_pointer r1 = int j" using at1 by (simp_all add: reader_at_def)
  have byte: "at (buf_data cur1) (int (j div 8)) = Some (buffer_bytes cur1 ! (j div 8))"
    using jl by (rule buffer_at_nth)
  have "drop_bit (j mod 8) (buffer_bytes cur1 ! (j div 8)) AND 1 = of_bool b"
    unfolding b by (rule bit_eqI) (auto simp: bit_simps)
  then have "reader_read_bit r c = Some (of_bool b, r1\<lparr>bit_pointer := int j + 1\<rparr>, c)"
    using byte unfolding reader_read_bit_def e
    by (simp add: ptr bits_shift bits_low nat_mod_distrib del: at_nat of_nat_mod of_nat_div)
  moreover have "reader_at (r1\<lparr>bit_pointer := int j + 1\<rparr>) ex1 cur1 fut1 (Suc j)"
    using at1 j by (simp add: reader_at_def)
  ultimately show ?thesis using rest by (auto simp: reader_bits_def)
qed

lemma reader_read_bit_empty:
  assumes "reader_bits r []"
  shows "reader_read_bit r c = Some (0, r, reader_set_underflow_error c)"
proof -
  from assms obtain ex cur fut i where at: "reader_at r ex cur fut i"
    and bits: "drop i (bytes_bits (buffer_bytes cur)) @ bytes_bits (concat (map buffer_bytes fut)) = []"
    by (auto simp: reader_bits_def)
  have "fut = []"
  proof (cases fut)
    case (Cons b fut')
    then have "readable b" using at by (simp add: reader_at_def)
    then have "0 < length (buffer_bytes b)" by (rule buffer_bytes_nonempty)
    moreover have "length (bytes_bits (concat (map buffer_bytes fut))) = 0"
      using bits by (simp only: append_is_Nil_conv) simp
    ultimately show ?thesis using Cons by simp
  qed
  moreover have "length (drop i (bytes_bits (buffer_bytes cur))) = 0" using bits by simp
  then have "i = 8 * length (buffer_bytes cur)" using at by (simp add: reader_at_def)
  moreover then have "bit_pointer r AND 7 = 0" using at by (simp add: reader_at_def bits_low del: of_nat_mult)
  ultimately show ?thesis using reader_ensure_empty [of r ex cur c] at
    by (simp add: reader_read_bit_def)
qed

section \<open>Reading bytes\<close>

lemma reader_peek_byte_at:
  assumes "reader_bytes r (v # bytes)"
  shows "\<exists>r1 ex cur fut k. reader_peek_byte r c = Some (v, r1, c) \<and> reader_at r1 ex cur fut (8 * k) \<and>
     k < length (buffer_bytes cur) \<and> drop k (buffer_bytes cur) @ concat (map buffer_bytes fut) = v # bytes"
proof -
  from assms obtain ex cur fut k where at: "reader_at r ex cur fut (8 * k)"
    and bytes: "drop k (buffer_bytes cur) @ concat (map buffer_bytes fut) = v # bytes"
    by (auto simp: reader_bytes_def)
  have bits: "drop (8 * k) (bytes_bits (buffer_bytes cur)) @ bytes_bits (concat (map buffer_bytes fut)) =
      bytes_bits (v # bytes)"
    by (simp only: drop_bytes_bits bytes_bits_simps(3) [symmetric] bytes)
  have "bytes_bits (v # bytes) \<noteq> []" by (simp add: byte_bits_def)
  from reader_ensure_some [OF at bits this, of c] obtain r1 ex1 cur1 fut1 j where
    e: "reader_ensure_buffer r c = Some (True, r1, c)" and at1: "reader_at r1 ex1 cur1 fut1 j"
    and j: "j < 8 * length (buffer_bytes cur1)" and j8: "j mod 8 = 0"
    and bits1: "drop j (bytes_bits (buffer_bytes cur1)) @ bytes_bits (concat (map buffer_bytes fut1)) =
      bytes_bits (v # bytes)" by auto
  obtain m where m: "j = 8 * m" using j8 by (auto elim: dvdE simp: mod_eq_0_iff_dvd)
  have ml: "m < length (buffer_bytes cur1)" using j m by simp
  have bytes1: "drop m (buffer_bytes cur1) @ concat (map buffer_bytes fut1) = v # bytes"
    using bits1 unfolding m drop_bytes_bits bytes_bits_simps(3) [symmetric] by (rule bytes_bits_inj)
  have v: "buffer_bytes cur1 ! m = v"
    using bytes1 ml by (simp add: Cons_nth_drop_Suc [symmetric])
  have "bit_pointer r AND 7 = 0" using at by (simp add: reader_at_def bits_low del: of_nat_mult)
  moreover have "drop_bit 3 (bit_pointer r1) = int m" "current_buffer r1 = cur1"
    using at1 m by (simp_all add: reader_at_def bits_shift del: of_nat_mult)
  ultimately have "reader_peek_byte r c = Some (v, r1, c)"
    using e buffer_at_nth [OF ml] v by (simp add: reader_peek_byte_def del: at_nat)
  then show ?thesis using at1 m ml bytes1 by blast
qed

lemma reader_peek_byte_correct:
  assumes "reader_bytes r (v # bytes)"
  shows "\<exists>r'. reader_peek_byte r c = Some (v, r', c) \<and> reader_bytes r' (v # bytes)"
  using reader_peek_byte_at [OF assms, of c] by (fastforce simp: reader_bytes_def)

lemma reader_read_byte_correct:
  assumes "reader_bytes r (v # bytes)"
  shows "\<exists>r'. reader_read_byte r c = Some (v, r', c) \<and> reader_bytes r' bytes"
proof -
  from reader_peek_byte_at [OF assms, of c] obtain r1 ex cur fut k where
    p: "reader_peek_byte r c = Some (v, r1, c)" and at: "reader_at r1 ex cur fut (8 * k)"
    and k: "k < length (buffer_bytes cur)"
    and bytes: "drop k (buffer_bytes cur) @ concat (map buffer_bytes fut) = v # bytes" by blast
  let ?r = "r1\<lparr>bit_pointer := bit_pointer r1 + 8\<rparr>"
  have "reader_at ?r ex cur fut (8 * Suc k)" using at k by (simp add: reader_at_def)
  moreover have "drop (Suc k) (buffer_bytes cur) @ concat (map buffer_bytes fut) = bytes"
    using bytes k by (simp add: Cons_nth_drop_Suc [symmetric])
  ultimately have "reader_bytes ?r bytes" unfolding reader_bytes_def by blast
  then show ?thesis using p by (simp add: reader_read_byte_def)
qed

lemma reader_bytes_available:
  assumes "reader_bytes r bytes"
  shows "reader_get_bytes_available r = Some (int (length bytes))"
proof -
  from assms obtain ex cur fut k where at: "reader_at r ex cur fut (8 * k)"
    and bytes: "bytes = drop k (buffer_bytes cur) @ concat (map buffer_bytes fut)"
    by (auto simp: reader_bytes_def)
  have "unconsumed_buffer_bytes_count r = int (length (buffer_bytes cur) + length (concat (map buffer_bytes fut)))"
    using at sum_lengths [of fut] reader_at_cur_length [OF at] by (simp add: reader_at_def)
  moreover have "bit_pointer r = int (8 * k)" "8 * k \<le> 8 * length (buffer_bytes cur)"
    using at by (simp_all add: reader_at_def)
  moreover have "int (8 * k) AND 7 = 0" "drop_bit 3 (int (8 * k)) = int k"
    by (simp_all add: bits_low bits_shift del: of_nat_mult)
  ultimately show ?thesis
    by (simp add: reader_get_bytes_available_def bytes of_nat_diff del: of_nat_mult)
qed

section \<open>Opening, filling and recovering\<close>

lemma reader_init_correct:
  assumes "ctx_ok M c"
  shows "\<exists>ok r c'. reader_init c = Some (ok, r, c') \<and> ctx_ok M c' \<and>
     (if ok then reader_bytes r [] \<and> ctx_error c' = ctx_error c
      else r = reader_zero \<and> context_is_errored c')"
proof -
  obtain ok c1 and q :: "buffer queue" where q: "queue_init c 24 READER_QUEUE_DEFAULT_SHIFT = (ok, q, c1)"
    by (metis prod_cases3)
  show ?thesis
  proof (cases ok)
    case True
    define r where "r = reader_zero\<lparr>is_at_initial_buffer := True, r_buffers := q\<rparr>"
    have "reader_init c = Some (True, r, c1)"
      using q True by (simp add: reader_init_def Let_def r_def)
    moreover have "reader_at r [] EMPTY_BUFFER [] 0"
      using queue_init_cases [OF q assms] True
      by (simp add: reader_at_def r_def reader_zero_def EMPTY_BUFFER_def)
    then have "reader_bytes r []" unfolding reader_bytes_def
      by (intro exI [of _ "[]"] exI [of _ EMPTY_BUFFER] exI [of _ 0]) simp
    ultimately show ?thesis using queue_init_cases [OF q assms] True
      by (intro exI [of _ True]) simp
  next
    case False
    then show ?thesis using q queue_init_cases [OF q assms]
      by (intro exI [of _ False]) (simp add: reader_init_def Let_def reader_deinit_def)
  qed
qed

lemma reader_push_at:
  assumes "reader_at r ex cur fut i" and "readable b"
  shows "\<exists>ok r' c'. reader_push_buffer r c b = Some (ok, r', c') \<and>
     (ok \<longrightarrow> ctx_error c' = ctx_error c) \<and> (\<not> ok \<longrightarrow> context_is_errored c') \<and>
     (ctx_ok M c \<longrightarrow> ctx_ok M c') \<and>
     reader_at r' ex cur (if ok then fut @ [b] else fut) i"
proof -
  define xs where "xs = (if is_at_initial_buffer r then fut else ex @ cur # fut)"
  have q: "queue_repr (r_buffers r) xs" using assms(1) by (simp add: reader_at_def xs_def)
  from queue_push_correct [OF q, of b c] obtain ok q' c' where
    p: "queue_push b (r_buffers r) c = Some (ok, q', c')"
      "queue_repr q' (if ok then xs @ [b] else xs)" "\<not> ok \<longrightarrow> context_is_errored c'"
      "ok \<longrightarrow> ctx_error c' = ctx_error c" "ctx_ok M c \<longrightarrow> ctx_ok M c'" by blast
  have pos: "buf_length b > 0" using assms(2) by (simp add: readable_def)
  define r' where "r' = r\<lparr>r_buffers := q', unconsumed_buffer_bytes_count :=
     unconsumed_buffer_bytes_count r + (if ok then buf_length b else 0)\<rparr>"
  have "reader_push_buffer r c b = Some (ok, r', c')"
    using p(1) pos by (simp add: reader_push_buffer_def r'_def)
  moreover have "reader_at r' ex cur (if ok then fut @ [b] else fut) i"
    using assms p(2) by (auto simp: reader_at_def r'_def xs_def split: if_splits)
  ultimately show ?thesis using p by blast
qed

lemma reader_push_bytes:
  assumes "reader_bytes r bytes" and "readable b" and "ctx_ok M c"
  shows "\<exists>ok r' c'. reader_push_buffer r c b = Some (ok, r', c') \<and> ctx_ok M c' \<and>
     (if ok then ctx_error c' = ctx_error c \<and> reader_bytes r' (bytes @ buffer_bytes b)
      else context_is_errored c' \<and> reader_bytes r' bytes)"
proof -
  from assms(1) obtain ex cur fut k where at: "reader_at r ex cur fut (8 * k)"
    and bytes: "bytes = drop k (buffer_bytes cur) @ concat (map buffer_bytes fut)"
    by (auto simp: reader_bytes_def)
  from reader_push_at [OF at assms(2), of c] obtain ok r' c' where
    p: "reader_push_buffer r c b = Some (ok, r', c')" "ok \<longrightarrow> ctx_error c' = ctx_error c"
      "\<not> ok \<longrightarrow> context_is_errored c'" "ctx_ok M c \<longrightarrow> ctx_ok M c'"
      "reader_at r' ex cur (if ok then fut @ [b] else fut) (8 * k)" by blast
  have "reader_bytes r' (if ok then bytes @ buffer_bytes b else bytes)"
    unfolding reader_bytes_def
    by (intro exI [of _ ex] exI [of _ cur] exI [of _ "if ok then fut @ [b] else fut"] exI [of _ k])
      (use p(5) in \<open>simp add: bytes\<close>)
  with p assms(3) show ?thesis by (intro exI [of _ ok] exI [of _ r'] exI [of _ c']) (cases ok; simp)
qed

lemma reader_recover_correct:
  assumes "reader_at r (b # ex) cur fut i"
  shows "\<exists>r'. reader_recover_exhausted_buffer r = Some (b, r') \<and> reader_at r' ex cur fut i"
proof -
  have ni: "\<not> is_at_initial_buffer r" using assms by (auto simp: reader_at_def)
  have "queue_repr (r_buffers r) (b # (ex @ cur # fut))" using assms ni by (simp add: reader_at_def)
  from queue_pop_repr [OF this] obtain q where
    "queue_pop (r_buffers r) = Some (b, q)" "queue_repr q (ex @ cur # fut)" by blast
  then show ?thesis using assms ni
    by (auto simp: reader_recover_exhausted_buffer_def reader_has_exhausted_buffer_def reader_at_def)
qed

text \<open>A snapshot is restored exactly while its buffer is still the current one.\<close>

lemma reader_restore_same_buffer:
  assumes "reader_at r ex cur fut i" and "\<not> is_at_initial_buffer r"
    and "reader_at r' ex cur fut j" and "\<not> is_at_initial_buffer r'"
  shows "\<exists>r''. reader_restore_snapshot r' (reader_take_snapshot r) = Some r'' \<and> reader_at r'' ex cur fut i"
  using assms
  by (auto simp: reader_restore_snapshot_def reader_take_snapshot_def reader_at_def)

section \<open>Bytes of the last buffer\<close>

text \<open>
  Inside the last buffer of the queue reading never moves to another buffer, so a snapshot can
  be restored.  \<open>ex\<close> and \<open>cur\<close> name the place.
\<close>

definition last_at :: "reader \<Rightarrow> buffer list \<Rightarrow> buffer \<Rightarrow> byte list \<Rightarrow> bool" where
  "last_at r ex cur bytes \<longleftrightarrow> \<not> is_at_initial_buffer r \<and>
     (\<exists>k. reader_at r ex cur [] (8 * k) \<and> bytes = drop k (buffer_bytes cur))"

definition advance :: "reader \<Rightarrow> reader" where
  "advance r = r\<lparr>bit_pointer := bit_pointer r + 8\<rparr>"

definition rewound :: "reader \<Rightarrow> reader \<Rightarrow> reader" where
  "rewound r r' = r'\<lparr>bit_pointer := bit_pointer r\<rparr>"

lemma last_at_bytes: "last_at r ex cur bytes \<Longrightarrow> reader_bytes r bytes"
  by (fastforce simp: last_at_def reader_bytes_def)

lemma last_at_available: "last_at r ex cur bytes \<Longrightarrow> reader_get_bytes_available r = Some (int (length bytes))"
  by (rule reader_bytes_available) (rule last_at_bytes)

lemma last_at_peek:
  assumes "last_at r ex cur (v # bytes)"
  shows "reader_peek_byte r c = Some (v, r, c)"
proof -
  from assms obtain k where at: "reader_at r ex cur [] (8 * k)" and b: "v # bytes = drop k (buffer_bytes cur)"
    by (auto simp: last_at_def)
  have k: "k < length (buffer_bytes cur)" using b by (metis drop_all list.distinct(1) not_less)
  have v: "buffer_bytes cur ! k = v" using b k by (simp add: Cons_nth_drop_Suc [symmetric])
  have "reader_ensure_buffer r c = Some (True, r, c)" using reader_ensure_room [OF at] k by simp
  moreover have "bit_pointer r AND 7 = 0" "drop_bit 3 (bit_pointer r) = int k" "current_buffer r = cur"
    using at by (simp_all add: reader_at_def bits_low bits_shift del: of_nat_mult)
  ultimately show ?thesis using buffer_at_nth [OF k] v by (simp add: reader_peek_byte_def del: at_nat)
qed

lemma last_at_read:
  assumes "last_at r ex cur (v # bytes)"
  shows "reader_read_byte r c = Some (v, advance r, c)" and "last_at (advance r) ex cur bytes"
proof -
  show "reader_read_byte r c = Some (v, advance r, c)"
    using last_at_peek [OF assms, of c] by (simp add: reader_read_byte_def advance_def)
  from assms obtain k where at: "reader_at r ex cur [] (8 * k)" and b: "v # bytes = drop k (buffer_bytes cur)"
    and i: "\<not> is_at_initial_buffer r" by (auto simp: last_at_def)
  have k: "k < length (buffer_bytes cur)" using b by (metis drop_all list.distinct(1) not_less)
  have "reader_at (advance r) ex cur [] (8 * Suc k)" using at k by (simp add: reader_at_def advance_def)
  moreover have "bytes = drop (Suc k) (buffer_bytes cur)" using b k by (simp add: Cons_nth_drop_Suc [symmetric])
  ultimately show "last_at (advance r) ex cur bytes"
    unfolding last_at_def using i by (intro conjI exI [of _ "Suc k"]) (simp_all add: advance_def)
qed

lemma last_at_restore:
  assumes "last_at r ex cur bytes" and "last_at r' ex cur bytes'"
  shows "reader_restore_snapshot r' (reader_take_snapshot r) = Some (rewound r r')"
    and "last_at (rewound r r') ex cur bytes"
  using assms
  by (auto simp: last_at_def reader_at_def reader_restore_snapshot_def reader_take_snapshot_def rewound_def)

text \<open>Before the first byte of the last buffer is looked at, the reader may still stand in front of it.\<close>

definition at_last :: "reader \<Rightarrow> byte list \<Rightarrow> bool" where
  "at_last r bytes \<longleftrightarrow> (\<exists>ex cur. last_at r ex cur bytes) \<or>
     (\<exists>ex cur b. reader_at r ex cur [b] (8 * length (buffer_bytes cur)) \<and> bytes = buffer_bytes b)"

lemma at_lastI: "reader_at r ex cur [b] (8 * length (buffer_bytes cur)) \<Longrightarrow> at_last r (buffer_bytes b)"
  unfolding at_last_def by blast

lemma last_at_at_last: "last_at r ex cur bytes \<Longrightarrow> at_last r bytes"
  by (auto simp: at_last_def)

lemma at_last_bytes: "at_last r bytes \<Longrightarrow> reader_bytes r bytes"
  unfolding at_last_def
proof (elim disjE exE conjE)
  fix ex cur b
  assume "reader_at r ex cur [b] (8 * length (buffer_bytes cur))" "bytes = buffer_bytes b"
  then show "reader_bytes r bytes" unfolding reader_bytes_def
    by (intro exI [of _ ex] exI [of _ cur] exI [of _ "[b]"] exI [of _ "length (buffer_bytes cur)"]) simp
qed (rule last_at_bytes)

lemma at_last_peek:
  assumes "at_last r (v # bytes)"
  shows "\<exists>r' ex cur. reader_peek_byte r c = Some (v, r', c) \<and> last_at r' ex cur (v # bytes)"
  using assms unfolding at_last_def
proof (elim disjE exE conjE)
  fix ex cur assume "last_at r ex cur (v # bytes)"
  with last_at_peek [OF this] show ?thesis by blast
next
  fix ex cur b
  assume a: "reader_at r ex cur [b] (8 * length (buffer_bytes cur))" "v # bytes = buffer_bytes b"
  from reader_ensure_next [OF a(1), of c] obtain r1 ex1 where
    e: "reader_ensure_buffer r c = Some (True, r1, c)" "reader_at r1 ex1 b [] 0" by blast
  have b: "readable b" "bit_pointer r AND 7 = 0"
    using a(1) by (simp_all add: reader_at_def bits_low del: of_nat_mult)
  have "\<not> is_at_initial_buffer r1"
    using e(2) b(1) by (auto simp: reader_at_def readable_def EMPTY_BUFFER_def split: if_splits)
  then have l: "last_at r1 ex1 b (v # bytes)"
    using e(2) a(2) unfolding last_at_def by (intro conjI exI [of _ 0]) simp_all
  have "bit_pointer r1 AND 7 = 0" using e(2) by (simp add: reader_at_def)
  moreover have "reader_ensure_buffer r1 c = Some (True, r1, c)"
    using reader_ensure_room [OF e(2)] a(2) by (cases "buffer_bytes b") auto
  ultimately have "reader_peek_byte r c = reader_peek_byte r1 c"
    using e(1) b(2) by (simp add: reader_peek_byte_def)
  with last_at_peek [OF l, of c] l show ?thesis by auto
qed

text \<open>A buffer pushed into a drained reader is the last one.\<close>

lemma reader_push_last:
  assumes "reader_bytes r []" and "readable b"
  shows "\<exists>ok r' c'. reader_push_buffer r c b = Some (ok, r', c') \<and> (ctx_ok M c \<longrightarrow> ctx_ok M c') \<and>
     (if ok then ctx_error c' = ctx_error c \<and> at_last r' (buffer_bytes b) else context_is_errored c')"
proof -
  from assms(1) obtain ex cur fut k where at: "reader_at r ex cur fut (8 * k)"
    and e: "drop k (buffer_bytes cur) @ concat (map buffer_bytes fut) = []" by (auto simp: reader_bytes_def)
  have "k = length (buffer_bytes cur)" using at e by (simp add: reader_at_def)
  moreover have "fut = []"
  proof (cases fut)
    case (Cons x xs)
    then have "readable x" using at by (simp add: reader_at_def)
    from buffer_bytes_nonempty [OF this] e Cons show ?thesis by simp
  qed simp
  ultimately have at: "reader_at r ex cur [] (8 * length (buffer_bytes cur))" using at by simp
  from reader_push_at [OF this assms(2), of c M] obtain ok r' c' where
    "reader_push_buffer r c b = Some (ok, r', c')" "ok \<longrightarrow> ctx_error c' = ctx_error c"
    "\<not> ok \<longrightarrow> context_is_errored c'" "ctx_ok M c \<longrightarrow> ctx_ok M c'"
    "reader_at r' ex cur (if ok then [] @ [b] else []) (8 * length (buffer_bytes cur))" by blast
  moreover from this have "ok \<Longrightarrow> at_last r' (buffer_bytes b)" by (auto intro: at_lastI)
  ultimately show ?thesis by (intro exI [of _ ok] exI [of _ r'] exI [of _ c']) simp
qed

section \<open>The interface bit consumers use\<close>

locale bit_source =
  fixes available :: "'r \<Rightarrow> int"
    and get_bit :: "'r \<Rightarrow> ctx \<Rightarrow> (byte \<times> 'r \<times> ctx) option"
    and source_holds :: "'r \<Rightarrow> bool list \<Rightarrow> bool"
  assumes available_holds: "source_holds r bits \<Longrightarrow> available r = int (length bits)"
    and get_holds: "source_holds r (b # bits) \<Longrightarrow>
      \<exists>r'. get_bit r c = Some (of_bool b, r', c) \<and> source_holds r' bits"
begin

text \<open>
  Reading on past the end as the arithmetic decoder does: \<open>get_padded\<close> answers clear bits and
  counts them in \<open>n\<close>.
\<close>

definition get_padded :: "'r \<Rightarrow> ctx \<Rightarrow> nat \<Rightarrow> (byte \<times> 'r \<times> ctx \<times> nat) option" where
  "get_padded r c n =
     (if available r > 0 then do { (b, r, c) \<leftarrow> get_bit r c; Some (b, r, c, n) }
      else Some (0, r, c, Suc n))"

lemma get_padded_cons:
  assumes "source_holds r (b # bits)"
  shows "\<exists>r'. get_padded r c n = Some (of_bool b, r', c, n) \<and> source_holds r' bits"
  using get_holds [OF assms, of c] available_holds [OF assms] by (auto simp: get_padded_def)

lemma get_padded_nil:
  assumes "source_holds r []"
  shows "get_padded r c n = Some (0, r, c, Suc n)"
  using available_holds [OF assms] by (simp add: get_padded_def)

primrec get_list :: "nat \<Rightarrow> 'r \<Rightarrow> ctx \<Rightarrow> (byte list \<times> 'r \<times> ctx) option" where
  "get_list 0 r c = Some ([], r, c)"
| "get_list (Suc k) r c = do {
     (b, r, c) \<leftarrow> get_bit r c;
     (bs, r, c) \<leftarrow> get_list k r c;
     Some (b # bs, r, c)
   }"

lemma get_list_holds:
  "source_holds r (bs @ bits) \<Longrightarrow>
   \<exists>r'. get_list (length bs) r c = Some (map of_bool bs, r', c) \<and> source_holds r' bits"
proof (induction bs arbitrary: r)
  case (Cons b bs)
  then have "source_holds r (b # (bs @ bits))" by simp
  from get_holds [OF this, of c] obtain r1 where
    p: "get_bit r c = Some (of_bool b, r1, c)" "source_holds r1 (bs @ bits)" by blast
  from Cons.IH [OF p(2)] p(1) show ?case by auto
qed simp

end

interpretation br: bit_source reader_get_bits_available reader_read_bit reader_bits
  by unfold_locales (simp add: reader_bits_available, rule reader_read_bit_correct)

end
