(* ===== verification/Decoder.thy ===== *)
theory Decoder
  imports Encoder Reader
begin

text \<open>
  \<open>src/arithmetic_coding/decoder.c\<close>.  \<open>decoder_ready d script\<close> says that the decoder sits
  in front of the encoding of \<open>script\<close>; reading with the tables of the script returns its
  symbols.  The window of 32 code bits may reach past the end of the stream, where the decoder
  supplies clear bits of its own; \<open>trailing_zeroes_emitted\<close> counts them.
\<close>

record acod_decoder =
  dec_state :: acod_state
  code :: u64
  dec_reader :: reader
  base_bits_received :: int
  trailing_zeroes_emitted :: int

section \<open>Operations\<close>

text \<open>\<open>deinit\<close> clears the decoder; the reader it pointed to goes back to its owner.\<close>

definition acod_decoder_deinit :: "acod_decoder \<Rightarrow> reader" where
  "acod_decoder_deinit d = dec_reader d"

definition acod_decoder_init :: "reader \<Rightarrow> acod_decoder" where
  "acod_decoder_init r = \<lparr>dec_state = acod_state_init, code = 0, dec_reader = r,
     base_bits_received = 0, trailing_zeroes_emitted = 0\<rparr>"

definition acod_decoder_produce_symbol :: "acod_decoder \<Rightarrow> ftable \<Rightarrow> (int \<times> acod_decoder) option" where
  "acod_decoder_produce_symbol d t = do {
     check (low (dec_state d) \<le> code d);
     check (code d \<le> high (dec_state d));
     let tot = total t;
     let value_range = high (dec_state d) - low (dec_state d) + 1;
     let off = code d - low (dec_state d);
     check (value_range \<noteq> 0);
     let v = ((off + 1) * tot - 1) div value_range;
     s \<leftarrow> symbol_search_loop (ftable_get_low t) v 0 (ftable_get_symbol_limit t);
     st \<leftarrow> acod_shrink_the_range (dec_state d) t s;
     Some (s, d\<lparr>dec_state := st\<rparr>)
   }"

definition acod_decoder_read_bit :: "acod_decoder \<Rightarrow> ctx \<Rightarrow> (byte \<times> acod_decoder \<times> ctx) option" where
  "acod_decoder_read_bit d c =
     (if reader_get_bits_available (dec_reader d) > 0
      then do {
        (b, r, c) \<leftarrow> reader_read_bit (dec_reader d) c;
        Some (b, d\<lparr>dec_reader := r\<rparr>, c)
      }
      else
        let c = (if trailing_zeroes_emitted d > int ACOD_STATE_SIZE_BITS
                 then reader_set_underflow_error c else c)
        in Some (0, d\<lparr>trailing_zeroes_emitted := trailing_zeroes_emitted d + 1\<rparr>, c))"

partial_function (option) decoder_fill_loop :: "acod_decoder \<Rightarrow> ctx \<Rightarrow> (acod_decoder \<times> ctx) option" where
  "decoder_fill_loop d c = do {
     (b, d, c) \<leftarrow> acod_decoder_read_bit d c;
     let d = d\<lparr>code := push_bit 1 (code d) OR ucast b,
               base_bits_received := base_bits_received d + 1\<rparr>;
     if base_bits_received d < int ACOD_STATE_SIZE_BITS then decoder_fill_loop d c else Some (d, c)
   }"

partial_function (option) decoder_shift_loop :: "acod_decoder \<Rightarrow> ctx \<Rightarrow> (acod_decoder \<times> ctx) option" where
  "decoder_shift_loop d c =
     (if acod_is_shiftable (dec_state d) then do {
        (b, d, c) \<leftarrow> acod_decoder_read_bit d c;
        let d = d\<lparr>code := (push_bit 1 (code d) AND ACOD_STATE_MASK) OR ucast b\<rparr>;
        st \<leftarrow> acod_perform_shift (dec_state d);
        decoder_shift_loop (d\<lparr>dec_state := st\<rparr>) c
      } else Some (d, c))"

partial_function (option) decoder_underflow_loop ::
  "acod_decoder \<Rightarrow> ctx \<Rightarrow> (acod_decoder \<times> ctx) option" where
  "decoder_underflow_loop d c =
     (if acod_is_underflowable (dec_state d) then do {
        (b, d, c) \<leftarrow> acod_decoder_read_bit d c;
        let d = d\<lparr>code := (code d AND ACOD_HALF_RANGE) OR
                    (push_bit 1 (code d) AND drop_bit 1 ACOD_STATE_MASK) OR ucast b\<rparr>;
        st \<leftarrow> acod_perform_underflow (dec_state d);
        decoder_underflow_loop (d\<lparr>dec_state := st\<rparr>) c
      } else Some (d, c))"

definition acod_decoder_read ::
  "acod_decoder \<Rightarrow> ctx \<Rightarrow> ftable \<Rightarrow> (int \<times> acod_decoder \<times> ctx) option" where
  "acod_decoder_read d c t =
     (if base_bits_received d < int ACOD_STATE_SIZE_BITS then do {
        (d, c) \<leftarrow> decoder_fill_loop d c;
        (s, d) \<leftarrow> acod_decoder_produce_symbol d t;
        Some (s, d, c)
      } else do {
        (d, c) \<leftarrow> decoder_shift_loop d c;
        (d, c) \<leftarrow> decoder_underflow_loop d c;
        (s, d) \<leftarrow> acod_decoder_produce_symbol d t;
        Some (s, d, c)
      })"

section \<open>Reading past the end\<close>

text \<open>
  \<open>ahead d k G\<close>: the stream \<open>G\<close> (the bits of the encoding, followed by padding) is known
  to the decoder up to bit \<open>k\<close>.
\<close>

definition ahead :: "acod_decoder \<Rightarrow> nat \<Rightarrow> bool list \<Rightarrow> bool" where
  "ahead d k G \<longleftrightarrow> reader_bits (dec_reader d) (drop k G) \<and>
     trailing_zeroes_emitted d = int (k - length G)"

definition nth_padded :: "bool list \<Rightarrow> nat \<Rightarrow> bool" where
  "nth_padded G k \<longleftrightarrow> k < length G \<and> G ! k"

lemma read_bit_ahead:
  assumes "ahead d k G" and "k - length G \<le> 32"
  shows "\<exists>r n. acod_decoder_read_bit d c =
       Some (of_bool (nth_padded G k), d\<lparr>dec_reader := r, trailing_zeroes_emitted := n\<rparr>, c) \<and>
     ahead (d\<lparr>dec_reader := r, trailing_zeroes_emitted := n\<rparr>) (Suc k) G"
proof (cases "k < length G")
  case True
  have "reader_bits (dec_reader d) (G ! k # drop (Suc k) G)"
    using assms(1) True by (simp add: ahead_def Cons_nth_drop_Suc)
  from br.get_padded_cons [OF this, of c 0] obtain r where
    "br.get_padded (dec_reader d) c 0 = Some (of_bool (G ! k), r, c, 0)"
    "reader_bits r (drop (Suc k) G)" by blast
  moreover have "reader_get_bits_available (dec_reader d) > 0"
    using br.available_holds [OF \<open>reader_bits (dec_reader d) (G ! k # drop (Suc k) G)\<close>] by simp
  ultimately show ?thesis using assms(1) True
    by (intro exI [of _ r] exI [of _ "trailing_zeroes_emitted d"])
      (auto simp: acod_decoder_read_bit_def ahead_def nth_padded_def br.get_padded_def
        split: Option.bind_splits)
next
  case False
  then have "reader_get_bits_available (dec_reader d) = 0"
    using assms(1) br.available_holds [of "dec_reader d" "[]"] by (simp add: ahead_def)
  moreover have "trailing_zeroes_emitted d = int (k - length G)" using assms(1) by (simp add: ahead_def)
  ultimately show ?thesis using assms False
    by (intro exI [of _ "dec_reader d"] exI [of _ "trailing_zeroes_emitted d + 1"])
      (auto simp: acod_decoder_read_bit_def ahead_def nth_padded_def Let_def ACOD_STATE_SIZE_BITS_def
        Suc_diff_le)
qed

lemma window_next: "window (Suc k) G = 2 * window k G + of_bool (nth_padded G k)"
  by (simp only: window_Suc nth_padded_def)

section \<open>The code value\<close>

definition window_at :: "acod_decoder \<Rightarrow> bool list \<Rightarrow> bool" where
  "window_at d G \<longleftrightarrow> unat (code d) = window 32 G \<and> ahead d 32 G"

lemma or_bit_even:
  assumes "even (unat (x :: u64))" and "unat x < 2 ^ 63"
  shows "unat (x OR of_bool b) = unat x + of_bool b"
  using unat_or_one_even [OF assms] by (cases b) simp_all

lemma shifted_code:
  assumes "unat x = window 32 (b # G)"
  shows "unat ((push_bit 1 x AND ACOD_STATE_MASK) OR of_bool (nth_padded (b # G) 32)) = window 32 G"
proof -
  have w: "unat x = of_bool b * 2 ^ 31 + window 31 G" using assms by (simp only: window_32)
  have lt: "window 31 G < 2 ^ 31" by (rule window_less)
  then have x: "unat x < 2 ^ 32" using w by (cases b) simp_all
  have "unat (push_bit 1 x AND mask 32) = 2 * (unat x - top (unat x))" using x by (rule unat_shifted)
  also have "\<dots> = 2 * window 31 G" using w lt by (cases b) (simp_all add: top_def)
  finally have m: "unat (push_bit 1 x AND mask 32) = 2 * window 31 G" .
  moreover have "2 * window 31 G < 2 ^ 63" using lt by simp
  ultimately have "unat ((push_bit 1 x AND mask 32) OR of_bool (nth_padded (b # G) 32)) =
      2 * window 31 G + of_bool (nth_padded (b # G) 32)" by (subst or_bit_even) simp_all
  also have "\<dots> = window 32 G"
    using window_next [of 31 G] by (simp add: nth_padded_def)
  finally show ?thesis by (simp only: acod_constants)
qed

lemma unat_doubled_low:
  assumes "unat (x :: u64) < 2 ^ 32"
  shows "unat (push_bit 1 x AND mask 31) = 2 * unat x mod 2 ^ 31"
proof -
  have "unat (push_bit 1 x) = 2 * unat x" using assms by (intro unat_double) simp
  then show ?thesis unfolding take_bit_eq_mask [symmetric] unsigned_take_bit_eq by (simp only: take_bit_eq_mod)
qed

lemma underflow_code:
  assumes "unat x = window 32 (b # (\<not> b) # G)"
  shows "unat ((x AND ACOD_HALF_RANGE) OR (push_bit 1 x AND drop_bit 1 ACOD_STATE_MASK) OR
           of_bool (nth_padded (b # (\<not> b) # G) 32)) = window 32 (b # G)"
proof -
  define w where "w = window 30 G"
  have w: "unat x = of_bool b * 2 ^ 31 + (of_bool (\<not> b) * 2 ^ 30 + w)"
    using assms by (simp only: window_32 window_31 w_def)
  have lt: "w < 2 ^ 30" unfolding w_def by (rule window_less)
  have x: "unat x < 2 ^ 32" using w lt by (cases b) simp_all
  have "bit x 31 \<longleftrightarrow> b" using w lt unfolding bit_31 [OF x] by (cases b) simp_all
  then have hb: "x AND 2 ^ 31 = (if b then 2 ^ 31 else 0)" by (simp only: and_power)
  have mask: "drop_bit 1 ACOD_STATE_MASK = mask 31"
    by (simp add: acod_constants(4) mask_eq_exp_minus_1)
  have "2 * unat x mod 2 ^ 31 = 2 * w"
  proof -
    have "2 * unat x = 2 * w + 2 ^ 31 * (if b then 2 else 1)" using w by (cases b) simp_all
    moreover have "2 * w < 2 ^ 31" using lt by simp
    ultimately show ?thesis by (simp only: mod_mult_self2 mod_less)
  qed
  then have m: "unat (push_bit 1 x AND mask 31) = 2 * w" using unat_doubled_low [OF x] by simp
  define y where "y = (push_bit 1 x AND mask 31) OR (of_bool (nth_padded (b # (\<not> b) # G) 32) :: u64)"
  have "unat y = 2 * w + of_bool (nth_padded (b # (\<not> b) # G) 32)"
    unfolding y_def using m lt by (subst or_bit_even) simp_all
  also have "nth_padded (b # (\<not> b) # G) 32 = nth_padded G 30" by (simp add: nth_padded_def)
  also have "2 * w + of_bool (nth_padded G 30) = window 31 G"
    using window_next [of 30 G] by (simp add: w_def)
  finally have y: "unat y = window 31 G" .
  have ylt: "unat y < 2 ^ 31" unfolding y by (rule window_less)
  have "unat ((if b then 2 ^ 31 else 0) OR y) = of_bool b * 2 ^ 31 + window 31 G"
    using unat_or_half [OF ylt] y by (cases b) (simp_all add: or.commute)
  then show ?thesis by (simp only: acod_constants(2) hb mask y_def window_32)
qed

lemma window_at_shift:
  assumes "window_at d (b # G)" and "G \<noteq> []"
  shows "\<exists>x d1. acod_decoder_read_bit d c = Some (x, d1, c) \<and> dec_state d1 = dec_state d \<and>
     code d1 = code d \<and> base_bits_received d1 = base_bits_received d \<and>
     window_at (d1\<lparr>code := (push_bit 1 (code d1) AND ACOD_STATE_MASK) OR ucast x\<rparr>) G"
proof -
  have a: "ahead d 32 (b # G)" "unat (code d) = window 32 (b # G)" using assms(1) by (simp_all add: window_at_def)
  have "32 - length (b # G) \<le> 32" by simp
  from read_bit_ahead [OF a(1) this, of c] obtain r n where
    r: "acod_decoder_read_bit d c = Some (of_bool (nth_padded (b # G) 32),
          d\<lparr>dec_reader := r, trailing_zeroes_emitted := n\<rparr>, c)"
      "ahead (d\<lparr>dec_reader := r, trailing_zeroes_emitted := n\<rparr>) (Suc 32) (b # G)" by blast
  from r(2) have "ahead (d\<lparr>dec_reader := r, trailing_zeroes_emitted := n\<rparr>) 32 G"
    by (simp add: ahead_def)
  with r(1) shifted_code [OF a(2)] show ?thesis by (auto simp: window_at_def ahead_def)
qed

lemma window_at_underflow:
  assumes "window_at d (b # (\<not> b) # G)"
  shows "\<exists>x d1. acod_decoder_read_bit d c = Some (x, d1, c) \<and> dec_state d1 = dec_state d \<and>
     code d1 = code d \<and> base_bits_received d1 = base_bits_received d \<and>
     window_at (d1\<lparr>code := (code d1 AND ACOD_HALF_RANGE) OR
       (push_bit 1 (code d1) AND drop_bit 1 ACOD_STATE_MASK) OR ucast x\<rparr>) (b # G)"
proof -
  have a: "ahead d 32 (b # (\<not> b) # G)" "unat (code d) = window 32 (b # (\<not> b) # G)"
    using assms(1) by (simp_all add: window_at_def)
  have "32 - length (b # (\<not> b) # G) \<le> 32" by simp
  from read_bit_ahead [OF a(1) this, of c] obtain r n where
    r: "acod_decoder_read_bit d c = Some (of_bool (nth_padded (b # (\<not> b) # G) 32),
          d\<lparr>dec_reader := r, trailing_zeroes_emitted := n\<rparr>, c)"
      "ahead (d\<lparr>dec_reader := r, trailing_zeroes_emitted := n\<rparr>) (Suc 32) (b # (\<not> b) # G)" by blast
  from r(2) have "ahead (d\<lparr>dec_reader := r, trailing_zeroes_emitted := n\<rparr>) 32 (b # G)"
    by (simp add: ahead_def)
  with r(1) underflow_code [OF a(2)] show ?thesis by (auto simp: window_at_def ahead_def)
qed

section \<open>The loops\<close>

lemma decoder_shift_loop_correct:
  assumes "shifts l h = (bs, l', h')" and "window_at d (bs @ G)" and "G \<noteq> []"
    and "dec_state d = interval l h" and "l \<le> h" and "h < 2 ^ 32"
  shows "\<exists>d'. decoder_shift_loop d c = Some (d', c) \<and> dec_state d' = interval l' h' \<and>
     window_at d' G \<and> base_bits_received d' = base_bits_received d"
  using assms
proof (induction l h arbitrary: d bs rule: shifts.induct)
  case (1 l h)
  have lh: "lo (interval l h) = l" "hi (interval l h) = h" using "1.prems"(5,6) by simp_all
  show ?case
  proof (cases "2 ^ 31 \<le> l \<longleftrightarrow> 2 ^ 31 \<le> h")
    case False
    then have "shifts l h = ([], l, h)" by (subst shifts.simps) auto
    moreover have "\<not> acod_is_shiftable (interval l h)"
      using False shiftable_iff [of "interval l h"] "1.prems"(5,6) unfolding lh by simp
    ultimately show ?thesis using "1.prems"(1-4) by (subst decoder_shift_loop.simps) auto
  next
    case True
    obtain bs1 l1 h1 where rec: "shifts (2 * (l - top l)) (2 * (h - top h) + 1) = (bs1, l1, h1)"
      by (metis prod_cases3)
    have "shifts l h = ((2 ^ 31 \<le> l) # bs1, l1, h1)"
      using rec True "1.prems"(5,6) by (subst shifts.simps) simp
    then have e: "bs = (2 ^ 31 \<le> l) # bs1" "l1 = l'" "h1 = h'" using "1.prems"(1) by simp_all
    have sh: "acod_is_shiftable (interval l h)"
      using True shiftable_iff [of "interval l h"] "1.prems"(5,6) unfolding lh by simp
    have "window_at d ((2 ^ 31 \<le> l) # (bs1 @ G))" using "1.prems"(2) e(1) by simp
    from window_at_shift [OF this, of c] "1.prems"(3) obtain x d1 where
      d1: "acod_decoder_read_bit d c = Some (x, d1, c)" "dec_state d1 = dec_state d"
        "base_bits_received d1 = base_bits_received d"
        "window_at (d1\<lparr>code := (push_bit 1 (code d1) AND ACOD_STATE_MASK) OR ucast x\<rparr>) (bs1 @ G)" by auto
    define d2 where "d2 = d1\<lparr>code := (push_bit 1 (code d1) AND ACOD_STATE_MASK) OR ucast x,
      dec_state := interval (2 * (l - top l)) (2 * (h - top h) + 1)\<rparr>"
    have step: "decoder_shift_loop d c = decoder_shift_loop d2 c"
      using sh d1(1,2) shift_correct [of "interval l h"] "1.prems"(4-6) unfolding lh
      by (subst decoder_shift_loop.simps) (simp add: d2_def Let_def)
    have w2: "window_at d2 (bs1 @ G)" using d1(4) by (simp add: d2_def window_at_def ahead_def)
    have "2 * (l - top l) \<le> 2 * (h - top h) + 1" "2 * (h - top h) + 1 < 2 ^ 32"
      using True "1.prems"(5,6) by (auto simp: top_def)
    moreover have "dec_state d2 = interval (2 * (l - top l)) (2 * (h - top h) + 1)" by (simp add: d2_def)
    ultimately obtain d' where "decoder_shift_loop d2 c = Some (d', c)" "dec_state d' = interval l1 h1"
       "window_at d' G" "base_bits_received d' = base_bits_received d2"
      using "1.IH" rec True "1.prems"(3,5,6) w2 unfolding e(2,3) by blast
    then show ?thesis unfolding step by (simp add: e(2,3) d2_def d1(3))
  qed
qed

lemma decoder_underflow_loop_correct:
  assumes "unders l h = (n, l', h')" and "window_at d (ins n G)" and "G \<noteq> []"
    and "dec_state d = interval l h" and "straddles l h"
  shows "\<exists>d'. decoder_underflow_loop d c = Some (d', c) \<and> dec_state d' = interval l' h' \<and>
     window_at d' G \<and> base_bits_received d' = base_bits_received d"
  using assms
proof (induction l h arbitrary: d n rule: unders.induct)
  case (1 l h)
  have lh: "lo (interval l h) = l" "hi (interval l h) = h" using "1.prems"(5) by (simp_all add: straddles_def)
  have iff: "acod_is_underflowable (interval l h) \<longleftrightarrow> 2 ^ 30 \<le> l \<and> h < 3 * 2 ^ 30"
    using underflowable_iff [of "interval l h"] "1.prems"(5) unfolding lh straddles_def by blast
  show ?case
  proof (cases "2 ^ 30 \<le> l \<and> h < 3 * 2 ^ 30")
    case False
    then have "unders l h = (0, l, h)" by (subst unders.simps) auto
    then show ?thesis using "1.prems"(1,2,4) iff False by (subst decoder_underflow_loop.simps) auto
  next
    case True
    then have cond: "2 ^ 30 \<le> l \<and> l < 2 ^ 31 \<and> 2 ^ 31 \<le> h \<and> h < 3 * 2 ^ 30"
      using "1.prems"(5) by (simp add: straddles_def)
    obtain n1 l1 h1 where rec: "unders (2 * (l - 2 ^ 30)) (2 * (h - 2 ^ 30) + 1) = (n1, l1, h1)"
      by (metis prod_cases3)
    have "unders l h = (Suc n1, l1, h1)" using rec cond by (subst unders.simps) simp
    then have e: "n = Suc n1" "l1 = l'" "h1 = h'" using "1.prems"(1) by simp_all
    obtain b r where br: "ins n1 G = b # r" using "1.prems"(3) by (cases G) (simp_all add: ins_def)
    have "ins n G = b # (\<not> b) # r" by (simp only: e(1) ins_Suc [of n1] br) (simp add: ins_def)
    with "1.prems"(2) have "window_at d (b # (\<not> b) # r)" by simp
    from window_at_underflow [OF this, of c] obtain x d1 where
      d1: "acod_decoder_read_bit d c = Some (x, d1, c)" "dec_state d1 = dec_state d"
        "base_bits_received d1 = base_bits_received d"
        "window_at (d1\<lparr>code := (code d1 AND ACOD_HALF_RANGE) OR
           (push_bit 1 (code d1) AND drop_bit 1 ACOD_STATE_MASK) OR ucast x\<rparr>) (ins n1 G)"
      unfolding br by auto
    define d2 where "d2 = d1\<lparr>code := (code d1 AND ACOD_HALF_RANGE) OR
        (push_bit 1 (code d1) AND drop_bit 1 ACOD_STATE_MASK) OR ucast x,
      dec_state := interval (2 * (l - 2 ^ 30)) (2 * (h - 2 ^ 30) + 1)\<rparr>"
    have "acod_perform_underflow (interval l h) =
        Some (interval (2 * (l - 2 ^ 30)) (2 * (h - 2 ^ 30) + 1))"
      using underflow_correct [of "interval l h"] iff True "1.prems"(5) unfolding lh straddles_def by blast
    then have step: "decoder_underflow_loop d c = decoder_underflow_loop d2 c"
      using iff True "1.prems"(4) d1(1,2)
      by (subst decoder_underflow_loop.simps) (simp add: d2_def Let_def)
    have w2: "window_at d2 (ins n1 G)" using d1(4) by (simp add: d2_def window_at_def ahead_def)
    have "straddles (2 * (l - 2 ^ 30)) (2 * (h - 2 ^ 30) + 1)" using cond by (auto simp: straddles_def)
    moreover have "dec_state d2 = interval (2 * (l - 2 ^ 30)) (2 * (h - 2 ^ 30) + 1)" by (simp add: d2_def)
    ultimately obtain d' where "decoder_underflow_loop d2 c = Some (d', c)" "dec_state d' = interval l1 h1"
       "window_at d' G" "base_bits_received d' = base_bits_received d2"
      using "1.IH" [OF cond] rec "1.prems"(3) w2 unfolding e(2,3) by blast
    then show ?thesis unfolding step by (simp add: e(2,3) d2_def d1(3))
  qed
qed

lemma decoder_fill_loop_correct:
  assumes "ahead d k G" and "unat (code d) = window k G" and "base_bits_received d = int k" and "k < 32"
  shows "\<exists>d'. decoder_fill_loop d c = Some (d', c) \<and> dec_state d' = dec_state d \<and>
     window_at d' G \<and> base_bits_received d' = 32"
  using assms
proof (induction "31 - k" arbitrary: d k)
  case (0 k d)
  then have k: "k = 31" by simp
  show ?case
  proof -
    have "k - length G \<le> 32" using k by arith
    from read_bit_ahead [OF 0(2) this, of c] obtain r n where
      r: "acod_decoder_read_bit d c = Some (of_bool (nth_padded G k),
            d\<lparr>dec_reader := r, trailing_zeroes_emitted := n\<rparr>, c)"
        "ahead (d\<lparr>dec_reader := r, trailing_zeroes_emitted := n\<rparr>) (Suc k) G" by blast
    have lt: "window k G < 2 ^ 31" using window_less [of k G] k by simp
    have "unat (push_bit 1 (code d)) = 2 * window k G"
      using 0(3) lt by (subst unat_double) simp_all
    then have "unat (push_bit 1 (code d) OR of_bool (nth_padded G k)) = window 32 G"
      using window_next [of k G] k lt by (subst or_bit_even) simp_all
    with r k 0(4) show ?thesis
      by (subst decoder_fill_loop.simps) (auto simp: window_at_def ahead_def ACOD_STATE_SIZE_BITS_def Let_def)
  qed
next
  case (Suc m k d)
  then have k: "k < 31" by simp
  have "k - length G \<le> 32" using k by arith
  from read_bit_ahead [OF Suc.prems(1) this, of c] obtain r n where
    r: "acod_decoder_read_bit d c = Some (of_bool (nth_padded G k),
          d\<lparr>dec_reader := r, trailing_zeroes_emitted := n\<rparr>, c)"
      "ahead (d\<lparr>dec_reader := r, trailing_zeroes_emitted := n\<rparr>) (Suc k) G" by blast
  define d1 where "d1 = d\<lparr>dec_reader := r, trailing_zeroes_emitted := n,
    code := push_bit 1 (code d) OR of_bool (nth_padded G k), base_bits_received := int (Suc k)\<rparr>"
  have "(2 :: nat) ^ k < 2 ^ 31" using k by (intro power_strict_increasing) simp_all
  then have lt: "window k G < 2 ^ 31" using window_less [of k G] by linarith
  have "unat (push_bit 1 (code d)) = 2 * window k G"
    using Suc.prems(2) lt by (subst unat_double) simp_all
  then have "unat (push_bit 1 (code d) OR of_bool (nth_padded G k)) = window (Suc k) G"
    using lt window_next [of k G] by (subst or_bit_even) simp_all
  then have c1: "unat (code d1) = window (Suc k) G" by (simp add: d1_def)
  have step: "decoder_fill_loop d c = decoder_fill_loop d1 c"
    using r(1) k Suc.prems(3)
    by (subst decoder_fill_loop.simps) (simp add: d1_def Let_def ACOD_STATE_SIZE_BITS_def add.commute)
  have "ahead d1 (Suc k) G" using r(2) by (simp add: d1_def ahead_def)
  moreover have "base_bits_received d1 = int (Suc k)" "m = 31 - Suc k" "Suc k < 32"
    using Suc.hyps(2) k by (simp_all add: d1_def)
  ultimately obtain d' where "decoder_fill_loop d1 c = Some (d', c)" "dec_state d' = dec_state d1"
     "window_at d' G" "base_bits_received d' = 32"
    using Suc.hyps(1) [of "Suc k" d1] c1 by blast
  then show ?case unfolding step by (simp add: d1_def)
qed

section \<open>Producing a symbol\<close>

text \<open>The state between two reads: the interval is narrowed but not yet renormalised.\<close>

definition narrowed :: "acod_decoder \<Rightarrow> script \<Rightarrow> bool" where
  "narrowed d script \<longleftrightarrow> (\<exists>l1 h1 bs l2 h2 n l3 h3 pad. dec_state d = interval l1 h1 \<and>
     l1 \<le> h1 \<and> h1 < 2 ^ 32 \<and> shifts l1 h1 = (bs, l2, h2) \<and> straddles l2 h2 \<and>
     unders l2 h2 = (n, l3, h3) \<and> normal l3 h3 \<and>
     window_at d (bs @ ins n (future l3 h3 script @ replicate pad False)))"

lemma produce_symbol_correct:
  assumes "ftable_repr t fs" and "dec_state d = interval l h" and "normal l h"
    and "window_at d (future l h ((fs, s) # script) @ replicate pad False)"
    and "codable (fs, s)" and "\<forall>p\<in>set script. codable p"
  shows "\<exists>d'. acod_decoder_produce_symbol d t = Some (int s, d') \<and> narrowed d' script \<and>
     base_bits_received d' = base_bits_received d"
proof -
  from futureE [OF assms(3,5)] obtain l1 h1 bs l2 h2 n l3 h3 where
    e: "narrow l h fs s = (l1, h1)" "shifts l1 h1 = (bs, l2, h2)" "unders l2 h2 = (n, l3, h3)"
      "l1 < h1" "l \<le> l1" "h1 \<le> h" "h1 < 2 ^ 32" "straddles l2 h2" "normal l3 h3"
      "future l h ((fs, s) # script) = bs @ ins n (future l3 h3 script)" by metis
  define R where "R = h - l + 1"
  define T where "T = sum_list fs"
  define w where "w = window 32 (future l h ((fs, s) # script))"
  have s: "s < length fs" "0 < fs ! s" "T \<le> 2 ^ 29"
    using assms(5) by (simp_all add: codable_def T_def)
  have ne: "future l3 h3 script \<noteq> []" using future_nonempty [OF e(9) assms(6)] .
  have "l2 \<le> window 32 (ins n (future l3 h3 script)) \<and> window 32 (ins n (future l3 h3 script)) \<le> h2"
    using future_in_interval [OF e(9) assms(6)] window_unders [OF e(3) ne] by blast
  then have win: "l1 \<le> w" "w \<le> h1"
    using window_shifts [OF e(2) _ e(7)] e(4) unfolding w_def e(10) by simp_all
  have code: "unat (code d) = w"
    using assms(4) by (simp add: window_at_def w_def window_append_False)
  have lh: "l < 2 ^ 31" "2 ^ 31 \<le> h" "h < 2 ^ 32" using assms(3) by (simp_all add: normal_def straddles_def)
  have st: "unat (low (dec_state d)) = l" "unat (high (dec_state d)) = h"
    using lh lo_interval [of l h] hi_interval [of h l] by (simp_all add: assms(2) lo_def hi_def)
  have within: "low (dec_state d) \<le> code d" "code d \<le> high (dec_state d)"
    using win e(5,6) by (simp_all add: word_le_nat_alt code st)
  have "low (dec_state d) \<le> high (dec_state d)" using lh by (simp add: word_le_nat_alt st)
  then have vr: "unat (high (dec_state d) - low (dec_state d) + 1) = R"
    using lh by (simp add: unat_word_ariths unat_sub st R_def)
  have Rpos: "0 < R" "R \<le> 2 ^ 32" using lh by (simp_all add: R_def)
  have Tpos: "0 < T" using cum_strict [OF s(1,2)] s(2) by (simp add: T_def)
  define D where "D = w - l"
  have DR: "D < R" using win e(5,6) by (simp add: D_def R_def)
  have prod: "(D + 1) * T \<le> 2 ^ 32 * 2 ^ 29" using DR Rpos s(3) by (intro mult_mono) simp_all
  define v where "v = ((code d - low (dec_state d) + 1) * total t - 1) div
     (high (dec_state d) - low (dec_state d) + 1)"
  have o: "unat (code d - low (dec_state d)) = D" using within by (simp add: unat_sub code st D_def)
  then have "unat (code d - low (dec_state d) + 1) = D + 1" using DR Rpos by (simp add: unat_word_ariths)
  then have m: "unat ((code d - low (dec_state d) + 1) * total t) = (D + 1) * T"
    using prod ftable_unat_total [OF assms(1)] by (simp add: unat_word_ariths T_def)
  then have "(code d - low (dec_state d) + 1) * total t \<noteq> 0" using Tpos by auto
  then have v: "unat v = ((D + 1) * T - 1) div R"
    using m vr by (simp add: v_def unat_div unat_minus_one)
  have nar: "l1 = l + cum fs s * R div T" "h1 = l + cum fs (Suc s) * R div T - 1"
    using e(1) by (simp_all add: narrow_def R_def T_def)
  have "cum fs s * R div T \<le> D" using win(1) by (simp add: nar D_def)
  moreover have "D + 1 \<le> cum fs (Suc s) * R div T"
    using win e(4,5) unfolding nar D_def by linarith
  ultimately have off: "cum fs s \<le> unat v" "unat v < cum fs (Suc s)"
    using offset_finds_symbol [OF Tpos Rpos(1)] unfolding v by blast+
  have "unat v < sum_list fs" using off(2) cum_strict(2) [OF s(1,2)] by simp
  from freq.search_finds [OF assms(1) this] obtain s' where
    s': "symbol_search_loop (ftable_get_low t) v 0 (ftable_get_symbol_limit t) = Some (int s')"
      "cum fs s' \<le> unat v" "unat v < cum fs (Suc s')" .
  have "s' = s" using cum_interval_unique [OF s'(2,3) off] .
  with s'(1) have search: "symbol_search_loop (ftable_get_low t) v 0 (ftable_get_symbol_limit t) = Some (int s)"
    by simp
  have shr: "acod_shrink_the_range (dec_state d) t (int s) = Some (interval l1 h1)"
    using shrink_correct [OF assms(1,5), of "dec_state d" l1 h1] e(1) assms(3) st
    by (simp add: lo_def hi_def)
  have vr0: "high (dec_state d) - low (dec_state d) + 1 \<noteq> 0" using vr Rpos by auto
  define d' where "d' = d\<lparr>dec_state := interval l1 h1\<rparr>"
  have run: "acod_decoder_produce_symbol d t = Some (int s, d')"
    unfolding acod_decoder_produce_symbol_def Let_def v_def [symmetric]
    using within vr0 search shr by (simp add: d'_def)
  have "window_at d' (bs @ ins n (future l3 h3 script @ replicate pad False))"
    using assms(4) ne unfolding e(10) by (simp add: d'_def window_at_def ahead_def ins_append)
  moreover have "dec_state d' = interval l1 h1" "l1 \<le> h1" using e(4) by (simp_all add: d'_def)
  ultimately have "narrowed d' script" using e(2,3,7-9) unfolding narrowed_def by blast
  with run show ?thesis by (simp add: d'_def)
qed

section \<open>Reading a script back\<close>

definition decoder_ready :: "acod_decoder \<Rightarrow> script \<Rightarrow> bool" where
  "decoder_ready d script \<longleftrightarrow> (\<forall>p\<in>set script. codable p) \<and>
     (base_bits_received d = 0 \<and> code d = 0 \<and> dec_state d = interval 0 (2 ^ 32 - 1) \<and>
        (\<exists>pad. ahead d 0 (whole script @ replicate pad False)) \<or>
      base_bits_received d = 32 \<and> narrowed d script)"

lemma decoder_init_ready:
  assumes "reader_bits r (whole script @ replicate pad False)" and "\<forall>p\<in>set script. codable p"
  shows "decoder_ready (acod_decoder_init r) script"
proof -
  have "acod_state_init = interval 0 (2 ^ 32 - 1)"
    by (simp add: acod_state_init_def interval_def acod_constants(4) mask_eq_exp_minus_1)
  then show ?thesis using assms
    by (auto simp: decoder_ready_def acod_decoder_init_def ahead_def)
qed

lemma decoder_read_correct:
  assumes "decoder_ready d ((fs, s) # script)" and "ftable_repr t fs"
  shows "\<exists>d'. acod_decoder_read d c t = Some (int s, d', c) \<and> decoder_ready d' script"
proof -
  have cod: "codable (fs, s)" "\<forall>p\<in>set script. codable p"
    using assms(1) by (simp_all add: decoder_ready_def)
  have produced: "\<exists>d'. acod_decoder_produce_symbol d1 t = Some (int s, d') \<and> decoder_ready d' script"
    if "dec_state d1 = interval l h" "normal l h" "base_bits_received d1 = 32"
      "window_at d1 (future l h ((fs, s) # script) @ replicate pad False)" for d1 l h pad
    using produce_symbol_correct [OF assms(2) that(1,2,4) cod] that(3) cod
    by (auto simp: decoder_ready_def)
  show ?thesis
  proof (cases "base_bits_received d = 0")
    case True
    then obtain pad where "code d = 0" "dec_state d = interval 0 (2 ^ 32 - 1)"
      "ahead d 0 (whole ((fs, s) # script) @ replicate pad False)"
      using assms(1) by (auto simp: decoder_ready_def)
    moreover from this decoder_fill_loop_correct [of d 0 _ c] True obtain d1 where
      "decoder_fill_loop d c = Some (d1, c)" "dec_state d1 = dec_state d"
      "window_at d1 (whole ((fs, s) # script) @ replicate pad False)" "base_bits_received d1 = 32" by auto
    ultimately show ?thesis using produced [of d1 0 "2 ^ 32 - 1" pad] normal_initial True
      unfolding whole_def by (auto simp: acod_decoder_read_def ACOD_STATE_SIZE_BITS_def)
  next
    case False
    then have base: "base_bits_received d = 32" and nar: "narrowed d ((fs, s) # script)"
      using assms(1) by (auto simp: decoder_ready_def)
    from nar obtain l1 h1 bs l2 h2 n l3 h3 pad where
      n: "dec_state d = interval l1 h1" "l1 \<le> h1" "h1 < 2 ^ 32" "shifts l1 h1 = (bs, l2, h2)"
        "straddles l2 h2" "unders l2 h2 = (n, l3, h3)" "normal l3 h3"
        "window_at d (bs @ ins n (future l3 h3 ((fs, s) # script) @ replicate pad False))"
      unfolding narrowed_def by blast
    have "\<forall>p\<in>set ((fs, s) # script). codable p" using cod by simp
    from future_nonempty [OF n(7) this]
    have ne: "future l3 h3 ((fs, s) # script) @ replicate pad False \<noteq> []" by simp
    then have ne2: "ins n (future l3 h3 ((fs, s) # script) @ replicate pad False) \<noteq> []"
      by (simp only: ins_nil_iff not_False_eq_True)
    from decoder_shift_loop_correct [OF n(4,8) ne2 n(1,2,3), of c] obtain d1 where
      d1: "decoder_shift_loop d c = Some (d1, c)" "dec_state d1 = interval l2 h2"
        "window_at d1 (ins n (future l3 h3 ((fs, s) # script) @ replicate pad False))"
        "base_bits_received d1 = 32" using base by auto
    from decoder_underflow_loop_correct [OF n(6) d1(3) ne d1(2) n(5), of c] obtain d2 where
      d2: "decoder_underflow_loop d1 c = Some (d2, c)" "dec_state d2 = interval l3 h3"
        "window_at d2 (future l3 h3 ((fs, s) # script) @ replicate pad False)"
        "base_bits_received d2 = 32" using d1(4) by auto
    from produced [OF d2(2) n(7) d2(4) d2(3)] d1(1) d2(1) base show ?thesis
      by (auto simp: acod_decoder_read_def ACOD_STATE_SIZE_BITS_def)
  qed
qed

end
