(* ===== verification/Codec.thy ===== *)
theory Codec
  imports Decoder
begin

text \<open>
  What every user of the arithmetic coder shares.  A codec turns a value into a script of
  symbols under adaptive frequency tables, and back; \<open>symbol_codec\<close> states the contract of one
  value and proves it for lists of values and for the whole way through the writer, the byte
  buffer and the reader.
\<close>

section \<open>The length of the encoding\<close>

lemma shifts_count: "shifts l h = (bs, l', h') \<Longrightarrow> l \<le> h \<Longrightarrow> h < 2 ^ 32 \<Longrightarrow> length bs \<le> 32"
proof -
  have "shifts l h = (bs, l', h') \<Longrightarrow> l \<le> h \<Longrightarrow> h < 2 ^ 32 \<Longrightarrow> (h - l + 1) * 2 ^ length bs \<le> 2 ^ 32"
  proof (induction l h arbitrary: bs rule: shifts.induct)
    case (1 l h)
    show ?case
    proof (cases "2 ^ 31 \<le> l \<longleftrightarrow> 2 ^ 31 \<le> h")
      case True
      obtain bs1 l1 h1 where rec: "shifts (2 * (l - top l)) (2 * (h - top h) + 1) = (bs1, l1, h1)"
        by (metis prod_cases3)
      have "shifts l h = ((2 ^ 31 \<le> l) # bs1, l1, h1)"
        using rec True "1.prems"(2,3) by (subst shifts.simps) simp
      then have e: "bs = (2 ^ 31 \<le> l) # bs1" "l1 = l'" "h1 = h'" using "1.prems"(1) by simp_all
      have "2 * (l - top l) \<le> 2 * (h - top h) + 1" "2 * (h - top h) + 1 < 2 ^ 32"
        using True "1.prems"(2,3) by (auto simp: top_def)
      with "1.IH" rec True "1.prems"(2,3) e have
        "(2 * (h - top h) + 1 - 2 * (l - top l) + 1) * 2 ^ length bs1 \<le> 2 ^ 32" by blast
      moreover have "2 * (h - top h) + 1 - 2 * (l - top l) + 1 = (h - l + 1) * 2"
        using True "1.prems"(2) by (auto simp: top_def)
      ultimately show ?thesis by (simp only: e(1) list.size power_Suc mult.assoc add_0_right One_nat_def add_Suc_right)
    next
      case False
      then have "shifts l h = ([], l, h)" by (subst shifts.simps) auto
      then show ?thesis using "1.prems" by auto
    qed
  qed
  moreover assume "shifts l h = (bs, l', h')" "l \<le> h" "h < 2 ^ 32"
  ultimately have "1 * 2 ^ length bs \<le> (2 :: nat) ^ 32" by (meson le_add2 le_trans mult_right_mono zero_le)
  then show "length bs \<le> 32" by (simp only: mult_1 power_increasing_iff)
qed

lemma future_length:
  assumes "normal l h" and "\<forall>p\<in>set script. codable p"
  shows "length (future l h script) \<le> 64 * length script + 2"
  using assms
proof (induction script arbitrary: l h)
  case (Cons p script)
  obtain fs s where p: "p = (fs, s)" by fastforce
  with Cons.prems have cp: "codable (fs, s)" and rest: "\<forall>p\<in>set script. codable p" by simp_all
  from futureE [OF Cons.prems(1) cp] obtain l1 h1 bs l2 h2 n l3 h3 where
    e: "shifts l1 h1 = (bs, l2, h2)" "unders l2 h2 = (n, l3, h3)"
      "l1 < h1" "h1 < 2 ^ 32" "straddles l2 h2" "normal l3 h3"
      "future l h (p # script) = bs @ ins n (future l3 h3 script)" unfolding p by metis
  have "length bs \<le> 32" using shifts_count [OF e(1)] e(3,4) by simp
  moreover have "n \<le> 32" using unders_count [OF e(2,5)] .
  moreover have "length (future l3 h3 script) \<le> 64 * length script + 2" using Cons.IH [OF e(6) rest] .
  ultimately show ?case
    using length_ins [OF future_nonempty [OF e(6) rest], of n] by (simp add: e(7))
qed simp

lemma whole_length: "\<forall>p\<in>set script. codable p \<Longrightarrow> length (whole script) \<le> 64 * length script + 2"
  unfolding whole_def by (rule future_length [OF normal_initial])

text \<open>At any time the bits written and the underflow bits pending are at most 64 to a symbol.\<close>

lemma encoder_bits_bound:
  assumes "encoder_holds M e c script" and "\<forall>p\<in>set script. codable p"
  shows "\<exists>bits. bw.offered M (enc_writer e) c bits \<and> length bits + unat (underflows e) \<le> 64 * length script"
proof -
  obtain l h bits where "bw.offered M (enc_writer e) c bits"
    "bits @ ins (unat (underflows e)) (future l h []) = whole script"
    using assms(1) unfolding encoder_holds_def by (metis append_Nil2 empty_iff list.set(1))
  moreover from this(2) have "length bits + unat (underflows e) + 2 = length (whole script)"
    by (metis add.assoc future.simps(1) length_append length_ins list.simps(3) list.size(3,4) One_nat_def
        add_Suc_right add_0_right numeral_2_eq_2)
  ultimately show ?thesis using whole_length [OF assms(2)] by (intro exI [of _ bits]) simp
qed

section \<open>From the encoder to the decoder\<close>

text \<open>Finish an encoding: flush the encoder and take the bytes out of its writer.\<close>

definition seal :: "acod_encoder \<Rightarrow> ctx \<Rightarrow> (buffer_or_error \<times> ctx) option" where
  "seal e c = do {
     (w, c) \<leftarrow> acod_encoder_deinit e c;
     (r, w, c) \<leftarrow> writer_consume_all_buffers w c;
     Some (r, c)
   }"

text \<open>A reader on one buffer, and a decoder on that reader.\<close>

definition open_stream :: "ctx \<Rightarrow> buffer \<Rightarrow> (acod_decoder \<times> ctx) option" where
  "open_stream c b = do {
     (ok, r, c) \<leftarrow> reader_init c;
     check ok;
     (ok, r, c) \<leftarrow> reader_push_buffer r c b;
     check ok;
     Some (acod_decoder_init r, c)
   }"

text \<open>The bytes a reader is given stand for \<open>script\<close>: its encoding, up to clear padding bits.\<close>

definition stands_for_script :: "byte list \<Rightarrow> script \<Rightarrow> bool" where
  "stands_for_script bytes script \<longleftrightarrow> (\<exists>pad < 8. bytes_bits bytes = whole script @ replicate pad False)"

lemma stands_for_length:
  assumes "stands_for_script bytes script" and "\<forall>p\<in>set script. codable p"
  shows "length bytes \<le> 8 * length script + 1"
proof -
  obtain pad where p: "pad < 8" "bytes_bits bytes = whole script @ replicate pad False"
    using assms(1) by (auto simp: stands_for_script_def)
  have "8 * length bytes = length (whole script) + pad" using arg_cong [OF p(2), of length] by simp
  then show ?thesis using whole_length [OF assms(2)] p(1) by linarith
qed

lemma seal_correct:
  assumes "encoder_holds M e c script" and "\<forall>p\<in>set script. codable p" and "length script < 2 ^ 56"
  shows "\<exists>w c1. acod_encoder_deinit e c = Some (w, c1) \<and> ctx_ok M c1 \<and>
     (\<not> context_is_errored c1 \<longrightarrow>
        (\<exists>r c2. seal e c = Some (r, c2) \<and> ctx_ok M c2 \<and>
           (if is_error r then context_is_errored c2
            else stands_for_script (buf_data (result_buffer r)) script \<and>
              buf_length (result_buffer r) = int (length (buf_data (result_buffer r))))))"
proof -
  have small: "length script < 2 ^ 58" using assms(3) by simp
  from encoder_deinit_correct [OF assms(1) small] obtain w c1 where
    d: "acod_encoder_deinit e c = Some (w, c1)" "bw.offered M w c1 (whole script)" by blast
  have "\<exists>r c2. seal e c = Some (r, c2) \<and> ctx_ok M c2 \<and>
       (if is_error r then context_is_errored c2
        else stands_for_script (buf_data (result_buffer r)) script \<and>
          buf_length (result_buffer r) = int (length (buf_data (result_buffer r))))"
    if ok: "\<not> context_is_errored c1"
  proof -
    have w: "writer_bits w (whole script)" "ctx_ok M c1" using d(2) ok by (simp_all add: bw.offered_def)
    have "length (whole script) < 2 ^ 63" using whole_length [OF assms(2)] assms(3) by simp
    from writer_consume_all_correct [OF w this ok] obtain r w' c2 where
      r: "writer_consume_all_buffers w c1 = Some (r, w', c2)" "ctx_ok M c2"
        "if is_error r then context_is_errored c2
         else ctx_error c2 = ctx_error c1 \<and>
           (\<exists>pad < 8. bytes_bits (buf_data (result_buffer r)) = whole script @ replicate pad False) \<and>
           buf_length (result_buffer r) = int (length (buf_data (result_buffer r)))" by blast
    have "seal e c = Some (r, c2)" using d(1) r(1) by (simp add: seal_def)
    then show ?thesis using r(2,3) by (auto simp: stands_for_script_def split: if_splits)
  qed
  with d show ?thesis by (auto simp: bw.offered_def)
qed

lemma seal_total:
  assumes "encoder_holds M e c script" and "\<forall>p\<in>set script. codable p" and "length script < 2 ^ 56"
    and "never_refuses M"
  shows "\<exists>r c2. seal e c = Some (r, c2) \<and> ctx_ok M c2 \<and> \<not> is_error r \<and>
     stands_for_script (buf_data (result_buffer r)) script \<and>
     buf_length (result_buffer r) = int (length (buf_data (result_buffer r)))"
proof -
  from seal_correct [OF assms(1-3)] obtain w c1 where
    s: "acod_encoder_deinit e c = Some (w, c1)" "ctx_ok M c1"
      "\<not> context_is_errored c1 \<longrightarrow> (\<exists>r c2. seal e c = Some (r, c2) \<and> ctx_ok M c2 \<and>
         (if is_error r then context_is_errored c2
          else stands_for_script (buf_data (result_buffer r)) script \<and>
            buf_length (result_buffer r) = int (length (buf_data (result_buffer r)))))" by blast
  from s(3) ctx_ok_no_error [OF s(2) assms(4)] obtain r c2 where
    r: "seal e c = Some (r, c2)" "ctx_ok M c2" "if is_error r then context_is_errored c2
         else stands_for_script (buf_data (result_buffer r)) script \<and>
           buf_length (result_buffer r) = int (length (buf_data (result_buffer r)))" by blast
  moreover have "\<not> is_error r" using r(3) ctx_ok_no_error [OF r(2) assms(4)] by (auto split: if_splits)
  ultimately show ?thesis by auto
qed

text \<open>Opening the stream fails only when an allocation is refused.\<close>

lemma open_stream_cases:
  assumes "stands_for_script (buf_data b) script" and "buf_length b = int (length (buf_data b))"
    and "\<forall>p\<in>set script. codable p" and "ctx_ok M c"
  shows "case open_stream c b of None \<Rightarrow> \<not> never_refuses M
    | Some (d, c') \<Rightarrow> decoder_ready d script \<and> ctx_ok M c' \<and> ctx_error c' = ctx_error c"
proof -
  from assms(1) obtain pad where pad: "bytes_bits (buf_data b) = whole script @ replicate pad False"
    by (auto simp: stands_for_script_def)
  have "whole script \<noteq> []" using future_nonempty [OF normal_initial assms(3)] by (simp add: whole_def)
  then have "buf_data b \<noteq> []" using pad by (metis append_is_Nil_conv bytes_bits_simps(1))
  then have rd: "readable b" and bb: "buffer_bytes b = buf_data b"
    using assms(2) by (simp_all add: readable_def buffer_bytes_def)
  from reader_init_correct [OF assms(4)] obtain ok r c1 where
    i: "reader_init c = Some (ok, r, c1)" "ctx_ok M c1"
      "if ok then reader_bytes r [] \<and> ctx_error c1 = ctx_error c
       else r = reader_zero \<and> context_is_errored c1" by blast
  show ?thesis
  proof (cases ok)
    case False
    then have "\<not> never_refuses M" using i(2,3) ctx_ok_no_error by auto
    then show ?thesis using i(1) False by (simp add: open_stream_def)
  next
    case True
    with i(3) have "reader_bytes r []" by simp
    from reader_push_bytes [OF this rd i(2)] obtain ok2 r2 c2 where
      p: "reader_push_buffer r c1 b = Some (ok2, r2, c2)" "ctx_ok M c2"
        "if ok2 then ctx_error c2 = ctx_error c1 \<and> reader_bytes r2 ([] @ buffer_bytes b)
         else context_is_errored c2 \<and> reader_bytes r2 []" by blast
    show ?thesis
    proof (cases ok2)
      case False
      then have "\<not> never_refuses M" using p(2,3) ctx_ok_no_error by auto
      then show ?thesis using i(1) True p(1) False by (simp add: open_stream_def)
    next
      case ok2: True
      with p(3) have "reader_bits r2 (whole script @ replicate pad False)"
        using reader_bytes_bits [of r2 "buf_data b"] by (simp add: bb pad)
      then show ?thesis using i(1,3) True p ok2 decoder_init_ready [OF _ assms(3)]
        by (auto simp: open_stream_def)
    qed
  qed
qed

section \<open>Codecs\<close>

locale symbol_codec =
  fixes encode :: "'t \<Rightarrow> acod_encoder \<Rightarrow> ctx \<Rightarrow> 'x \<Rightarrow> ('t \<times> acod_encoder \<times> ctx) option"
    and decode :: "'t \<Rightarrow> acod_decoder \<Rightarrow> ctx \<Rightarrow> ('x \<times> 't \<times> acod_decoder \<times> ctx) option"
    and models :: "'t \<Rightarrow> 'm \<Rightarrow> bool"
    and script_of :: "'m \<Rightarrow> 'x \<Rightarrow> script"
    and adapt :: "'m \<Rightarrow> 'x \<Rightarrow> 'm"
    and accepts :: "'m \<Rightarrow> 'x \<Rightarrow> bool"
  assumes encode_holds: "models t m \<Longrightarrow> accepts m x \<Longrightarrow> encoder_holds M e c pre \<Longrightarrow>
      length pre + length (script_of m x) < 2 ^ 56 \<Longrightarrow>
      \<exists>t' e' c'. encode t e c x = Some (t', e', c') \<and> models t' (adapt m x) \<and>
        encoder_holds M e' c' (pre @ script_of m x)"
    and decode_ready: "models t m \<Longrightarrow> accepts m x \<Longrightarrow> decoder_ready d (script_of m x @ rest) \<Longrightarrow>
      \<exists>t' d'. decode t d c = Some (x, t', d', c) \<and> models t' (adapt m x) \<and> decoder_ready d' rest"
    and script_codable: "accepts m x \<Longrightarrow> p \<in> set (script_of m x) \<Longrightarrow> codable p"
begin

primrec encode_list :: "'t \<Rightarrow> acod_encoder \<Rightarrow> ctx \<Rightarrow> 'x list \<Rightarrow> ('t \<times> acod_encoder \<times> ctx) option" where
  "encode_list t e c [] = Some (t, e, c)"
| "encode_list t e c (x # xs) = do { (t, e, c) \<leftarrow> encode t e c x; encode_list t e c xs }"

primrec decode_list :: "nat \<Rightarrow> 't \<Rightarrow> acod_decoder \<Rightarrow> ctx \<Rightarrow> ('x list \<times> 't \<times> acod_decoder \<times> ctx) option" where
  "decode_list 0 t d c = Some ([], t, d, c)"
| "decode_list (Suc n) t d c = do {
     (x, t, d, c) \<leftarrow> decode t d c;
     (xs, t, d, c) \<leftarrow> decode_list n t d c;
     Some (x # xs, t, d, c)
   }"

primrec list_script :: "'m \<Rightarrow> 'x list \<Rightarrow> script" where
  "list_script m [] = []"
| "list_script m (x # xs) = script_of m x @ list_script (adapt m x) xs"

primrec accepts_list :: "'m \<Rightarrow> 'x list \<Rightarrow> bool" where
  "accepts_list m [] \<longleftrightarrow> True"
| "accepts_list m (x # xs) \<longleftrightarrow> accepts m x \<and> accepts_list (adapt m x) xs"

primrec adapt_list :: "'m \<Rightarrow> 'x list \<Rightarrow> 'm" where
  "adapt_list m [] = m"
| "adapt_list m (x # xs) = adapt_list (adapt m x) xs"

lemma encode_list_holds:
  assumes "models t m" and "accepts_list m xs" and "encoder_holds M e c pre"
    and "length pre + length (list_script m xs) < 2 ^ 56"
  shows "\<exists>t' e' c'. encode_list t e c xs = Some (t', e', c') \<and> models t' (adapt_list m xs) \<and>
     encoder_holds M e' c' (pre @ list_script m xs)"
  using assms
proof (induction xs arbitrary: t m e c pre)
  case (Cons x xs)
  from encode_holds [OF Cons.prems(1) _ Cons.prems(3), of x] Cons.prems(2,4) obtain t1 e1 c1 where
    s: "encode t e c x = Some (t1, e1, c1)" "models t1 (adapt m x)"
      "encoder_holds M e1 c1 (pre @ script_of m x)" by auto
  from Cons.IH [OF s(2) _ s(3)] Cons.prems(2,4) s(1) show ?case by auto
qed simp

lemma decode_list_ready:
  assumes "models t m" and "accepts_list m xs" and "decoder_ready d (list_script m xs @ rest)"
  shows "\<exists>t' d'. decode_list (length xs) t d c = Some (xs, t', d', c) \<and> models t' (adapt_list m xs) \<and>
     decoder_ready d' rest"
  using assms
proof (induction xs arbitrary: t m d)
  case (Cons x xs)
  from decode_ready [OF Cons.prems(1), of x d "list_script (adapt m x) xs @ rest" c] Cons.prems(2,3)
  obtain t1 d1 where s: "decode t d c = Some (x, t1, d1, c)" "models t1 (adapt m x)"
    "decoder_ready d1 (list_script (adapt m x) xs @ rest)" by auto
  from Cons.IH [OF s(2) _ s(3)] Cons.prems(2) s(1) show ?case by auto
qed simp

lemma list_script_codable: "accepts_list m xs \<Longrightarrow> \<forall>p\<in>set (list_script m xs). codable p"
  by (induction xs arbitrary: m) (auto intro: script_codable)

text \<open>
  Out and back: what was encoded into an empty writer and sealed is decoded from the sealed bytes
  by tables that started in the same state.
\<close>

lemma list_round_trip:
  assumes "models te m" and "models td m" and "accepts_list m xs"
    and "length (list_script m xs) < 2 ^ 56" and "writer_bits w []" and "ctx_ok M c"
    and "never_refuses M"
  shows "\<exists>te' e c1 r c2 d c3 td' d'. encode_list te (acod_encoder_init w) c xs = Some (te', e, c1) \<and>
     seal e c1 = Some (r, c2) \<and> \<not> is_error r \<and>
     open_stream c2 (result_buffer r) = Some (d, c3) \<and>
     decode_list (length xs) td d c3 = Some (xs, td', d', c3) \<and> \<not> context_is_errored c3"
proof -
  note cod = list_script_codable [OF assms(3)]
  have "bw.offered M w c []"
    using assms(5,6) writer_bits_safe by (simp add: bw.offered_def)
  from encode_list_holds [OF assms(1,3) encoder_init_holds [OF this]] assms(4) obtain te' e c1 where
    e: "encode_list te (acod_encoder_init w) c xs = Some (te', e, c1)"
      "encoder_holds M e c1 (list_script m xs)" by auto
  from seal_total [OF e(2) cod assms(4,7)] obtain r c2 where
    s: "seal e c1 = Some (r, c2)" "ctx_ok M c2" "\<not> is_error r"
      "stands_for_script (buf_data (result_buffer r)) (list_script m xs)"
      "buf_length (result_buffer r) = int (length (buf_data (result_buffer r)))" by blast
  from open_stream_cases [OF s(4,5) cod s(2)] assms(7) obtain d c3 where
    o: "open_stream c2 (result_buffer r) = Some (d, c3)" "decoder_ready d (list_script m xs @ [])"
      "ctx_ok M c3" by (auto split: option.splits)
  from decode_list_ready [OF assms(2,3) o(2), of c3] obtain td' d' where
    "decode_list (length xs) td d c3 = Some (xs, td', d', c3)" by blast
  with e(1) s(1,3) o(1) ctx_ok_no_error [OF o(3) assms(7)] show ?thesis by blast
qed

end

section \<open>Single symbols under an adaptive table\<close>

text \<open>
  The pattern of all callers: code a symbol, then count it.  The model is the frequency list; a
  symbol is accepted while its own frequency is positive and the total leaves the coder room.
\<close>

definition encode_symbol :: "ftable \<Rightarrow> acod_encoder \<Rightarrow> ctx \<Rightarrow> int \<Rightarrow> (ftable \<times> acod_encoder \<times> ctx) option" where
  "encode_symbol t e c s = do {
     (e, c) \<leftarrow> acod_encoder_write e c t s;
     t \<leftarrow> ftable_increment t s;
     Some (t, e, c)
   }"

definition decode_symbol :: "ftable \<Rightarrow> acod_decoder \<Rightarrow> ctx \<Rightarrow> (int \<times> ftable \<times> acod_decoder \<times> ctx) option" where
  "decode_symbol t d c = do {
     (s, d, c) \<leftarrow> acod_decoder_read d c t;
     t \<leftarrow> ftable_increment t s;
     Some (s, t, d, c)
   }"

definition symbol_ok :: "nat list \<Rightarrow> int \<Rightarrow> bool" where
  "symbol_ok fs s \<longleftrightarrow> 0 \<le> s \<and> codable (fs, nat s)"

interpretation sym: symbol_codec encode_symbol decode_symbol ftable_repr
  "\<lambda>fs s. [(fs, nat s)]" "\<lambda>fs s. bump fs (nat s)" symbol_ok
proof unfold_locales
  fix t fs s M e c pre
  assume a: "ftable_repr t fs" "symbol_ok fs s" "encoder_holds M e c pre"
    "length pre + length [(fs, nat s)] < 2 ^ 56"
  then have s: "0 \<le> s" "codable (fs, nat s)" "s < int (length fs)" by (auto simp: symbol_ok_def codable_def)
  from encoder_write_correct [OF a(3,1) s(2)] a(4) obtain e' c' where
    "acod_encoder_write e c t s = Some (e', c')" "encoder_holds M e' c' (pre @ [(fs, nat s)])"
    using s(1) by auto
  moreover from ftable_increment_correct [OF a(1) s(1,3)] obtain t' where
    "ftable_increment t s = Some t'" "ftable_repr t' (bump fs (nat s))" by blast
  ultimately show "\<exists>t' e' c'. encode_symbol t e c s = Some (t', e', c') \<and> ftable_repr t' (bump fs (nat s)) \<and>
      encoder_holds M e' c' (pre @ [(fs, nat s)])" by (simp add: encode_symbol_def)
next
  fix t fs s d rest c
  assume a: "ftable_repr t fs" "symbol_ok fs s" "decoder_ready d ([(fs, nat s)] @ rest)"
  then have s: "0 \<le> s" "s < int (length fs)" by (auto simp: symbol_ok_def codable_def)
  have "decoder_ready d ((fs, nat s) # rest)" using a(3) by simp
  from decoder_read_correct [OF this a(1), of c] obtain d' where
    "acod_decoder_read d c t = Some (s, d', c)" "decoder_ready d' rest" using s(1) by auto
  moreover from ftable_increment_correct [OF a(1) s] obtain t' where
    "ftable_increment t s = Some t'" "ftable_repr t' (bump fs (nat s))" by blast
  ultimately show "\<exists>t' d'. decode_symbol t d c = Some (s, t', d', c) \<and> ftable_repr t' (bump fs (nat s)) \<and>
      decoder_ready d' rest" by (simp add: decode_symbol_def)
qed (simp add: symbol_ok_def)

text \<open>A table of positive frequencies with room for the whole input accepts all of it.\<close>

definition roomy :: "nat list \<Rightarrow> nat \<Rightarrow> bool" where
  "roomy fs n \<longleftrightarrow> (\<forall>f\<in>set fs. 0 < f) \<and> sum_list fs + n \<le> 2 ^ 29"

lemma roomy_bump:
  assumes "roomy fs (Suc n)" and "s < length fs"
  shows "roomy (bump fs s) n" and "length (bump fs s) = length fs"
proof -
  have small: "sum_list fs < 2 ^ 30 + 2" using assms(1) by (simp add: roomy_def)
  have "sum_list (bump fs s) = Suc (sum_list fs)" using small assms(2)
    by (simp add: bump_small sum_list_update elem_le_sum_list)
  moreover have "\<forall>f\<in>set (bump fs s). 0 < f"
    using assms(1) set_update_subset_insert [of fs s "fs ! s + 1"] by (auto simp: bump_small [OF small] roomy_def)
  ultimately show "roomy (bump fs s) n" using assms(1) by (simp add: roomy_def)
  show "length (bump fs s) = length fs" by (simp add: bump_small [OF small])
qed

lemma roomy_symbol_ok: "roomy fs n \<Longrightarrow> 0 \<le> s \<Longrightarrow> s < int (length fs) \<Longrightarrow> symbol_ok fs s"
  by (auto simp: roomy_def symbol_ok_def codable_def)

lemma roomy_accepts_list:
  "roomy fs (length xs) \<Longrightarrow> \<forall>s\<in>set xs. 0 \<le> s \<and> s < int (length fs) \<Longrightarrow> sym.accepts_list fs xs"
proof (induction xs arbitrary: fs)
  case (Cons s xs)
  have s: "nat s < length fs" using Cons.prems(2) by auto
  have "roomy fs (Suc (length xs))" using Cons.prems(1) by simp
  from roomy_bump [OF this s] Cons.IH [of "bump fs (nat s)"] Cons.prems
    roomy_symbol_ok [OF Cons.prems(1)] show ?case by simp
qed simp

end
