(* ===== verification/Math_Bits.thy ===== *)
theory Math_Bits
  imports Prelude
begin

text \<open>
  \<open>src/math.c\<close>: the index of the most significant bit.  The compiler builtin
  \<open>__builtin_clzg\<close> counts the zero bits above the highest set one.
\<close>

fun clz_from :: "nat \<Rightarrow> u64 \<Rightarrow> nat" where
  "clz_from 0 x = 0"
| "clz_from (Suc k) x = (if bit x k then 0 else Suc (clz_from k x))"

definition builtin_clzg :: "u64 \<Rightarrow> nat" where
  "builtin_clzg x = clz_from 64 x"

definition most_significant_bit_index :: "u64 \<Rightarrow> int" where
  "most_significant_bit_index x =
     (if x = 0 then -1 else int (8 * 8) - 1 - int (builtin_clzg x))"

lemma clz_from_le: "clz_from k x \<le> k"
  by (induction k) auto

lemma clz_from_bits:
  assumes "\<forall>i\<ge>k. \<not> bit x i"
  shows "(\<forall>i\<ge>k - clz_from k x. \<not> bit x i) \<and>
         (clz_from k x < k \<longrightarrow> bit x (k - clz_from k x - 1))"
  using assms
proof (induction k)
  case 0
  then show ?case by simp
next
  case (Suc k)
  show ?case
  proof (cases "bit x k")
    case True
    with Suc.prems show ?thesis by simp
  next
    case False
    have "\<forall>i\<ge>k. \<not> bit x i"
      using Suc.prems False by (metis le_antisym not_less_eq_eq)
    from Suc.IH [OF this] False show ?thesis by auto
  qed
qed

lemma no_high_bits: "\<forall>i\<ge>64. \<not> bit (x :: u64) i"
  using bit_imp_le_length by fastforce

lemma clz_nonzero:
  assumes "x \<noteq> 0"
  shows "clz_from 64 x < 64"
proof (rule ccontr)
  assume "\<not> clz_from 64 x < 64"
  with clz_from_le [of 64 x] have "clz_from 64 x = 64" by simp
  with clz_from_bits [OF no_high_bits, of x] have "\<forall>i. \<not> bit x i" by simp
  then have "x = 0" by (simp add: bit_eq_iff)
  with assms show False by simp
qed

lemma unat_less_of_bits:
  assumes "\<forall>i\<ge>k. \<not> bit (x :: u64) i"
  shows "unat x < 2 ^ k"
proof -
  have "take_bit k (unat x) = unat x"
    using assms by (auto simp: bit_eq_iff bit_simps) (meson not_le_imp_less)
  then show ?thesis by (simp add: take_bit_nat_eq_self_iff)
qed

lemma unat_ge_of_bit:
  assumes "bit (x :: u64) k"
  shows "2 ^ k \<le> unat x"
proof (rule ccontr)
  assume "\<not> 2 ^ k \<le> unat x"
  then have "take_bit k (unat x) = unat x" by (simp add: take_bit_nat_eq_self_iff)
  moreover have "bit (unat x) k" using assms by (simp add: bit_simps)
  ultimately show False by (metis bit_take_bit_iff less_irrefl)
qed

lemma msb_index_zero [simp]: "most_significant_bit_index 0 = -1"
  by (simp add: most_significant_bit_index_def)

lemma msb_index_nonzero:
  assumes "x \<noteq> 0"
  obtains k where "most_significant_bit_index x = int k" and "k < 64"
    and "2 ^ k \<le> unat x" and "unat x < 2 ^ Suc k"
proof -
  define c where "c = clz_from 64 x"
  have c: "c < 64" using clz_nonzero [OF assms] by (simp add: c_def)
  have bits: "\<forall>i\<ge>64 - c. \<not> bit x i" "bit x (64 - c - 1)"
    using clz_from_bits [OF no_high_bits, of x] c by (auto simp: c_def)
  have "most_significant_bit_index x = int (63 - c)"
    using assms c by (simp add: most_significant_bit_index_def builtin_clzg_def c_def)
  moreover have "2 ^ (63 - c) \<le> unat x" using unat_ge_of_bit [OF bits(2)] c by simp
  moreover have "unat x < 2 ^ Suc (63 - c)"
    using unat_less_of_bits [OF bits(1)] c by (simp add: Suc_diff_le [symmetric])
  ultimately show ?thesis by (intro that [of "63 - c"]) simp_all
qed

text \<open>For a non-zero argument the result is the binary logarithm rounded down.\<close>

lemma msb_index_bound:
  assumes "x \<noteq> 0"
  shows "2 ^ nat (most_significant_bit_index x) \<le> unat x \<and>
         unat x < 2 ^ Suc (nat (most_significant_bit_index x)) \<and>
         0 \<le> most_significant_bit_index x \<and> most_significant_bit_index x < 64"
  using assms by (rule msb_index_nonzero) simp

end
