(* ===== verification/Uint_Codec.thy ===== *)
theory Uint_Codec
  imports Codec Math_Bits
begin

text \<open>
  \<open>src/arithmetic_coding/uint_freq_tables.c\<close>, \<open>uint_writer.c\<close>, \<open>uint_reader.c\<close>: an
  unsigned integer is coded as the number of its four-bit groups, then the groups, lowest first,
  the last one under a table of its own.
\<close>

record uint_freq_tables =
  length_table :: ftable
  uint_parts_table :: ftable
  last_part_table :: ftable

definition UINT_BIT_GROUP_SIZE :: nat where "UINT_BIT_GROUP_SIZE = 4"
definition UINT_SYMBOL_MASK :: u64 where "UINT_SYMBOL_MASK = push_bit UINT_BIT_GROUP_SIZE 1 - 1"

section \<open>Operations\<close>

definition uint_freq_tables_deinit :: "uint_freq_tables \<Rightarrow> uint_freq_tables" where
  "uint_freq_tables_deinit t = t\<lparr>uint_parts_table := ftable_deinit (uint_parts_table t),
     last_part_table := ftable_deinit (last_part_table t),
     length_table := ftable_deinit (length_table t)\<rparr>"

definition uint_freq_tables_init :: "ctx \<Rightarrow> u64 \<Rightarrow> (uint_freq_tables \<times> ctx) option" where
  "uint_freq_tables_init c max_value = do {
     let flags = FTABLE_INIT_ONE OR FTABLE_EXCLUDE_EOF;
     (parts, c) \<leftarrow> ftable_init c (push_bit UINT_BIT_GROUP_SIZE 1) flags;
     (last, c) \<leftarrow> ftable_init c (push_bit UINT_BIT_GROUP_SIZE 1) flags;
     let max_value_bits = most_significant_bit_index max_value;
     let symbol_count = (max_value_bits + (int UINT_BIT_GROUP_SIZE - 1)) div int UINT_BIT_GROUP_SIZE;
     (lengths, c) \<leftarrow> ftable_init c (symbol_count + 1) flags;
     Some (\<lparr>length_table = lengths, uint_parts_table = parts, last_part_table = last\<rparr>, c)
   }"

definition uint_reader_append_part :: "u64 \<Rightarrow> int \<Rightarrow> int \<Rightarrow> u64" where
  "uint_reader_append_part result part read_symbol_count =
     result OR push_bit (nat (read_symbol_count * int UINT_BIT_GROUP_SIZE)) (word_of_int part)"

text \<open>\<open>uint_read_loop k i result\<close> reads \<open>k\<close> more parts from index \<open>i\<close> on.\<close>

fun uint_read_loop :: "nat \<Rightarrow> int \<Rightarrow> u64 \<Rightarrow> uint_freq_tables \<Rightarrow> acod_decoder \<Rightarrow> ctx \<Rightarrow>
    (u64 \<times> acod_decoder \<times> ctx) option" where
  "uint_read_loop 0 i result t d c = Some (result, d, c)"
| "uint_read_loop (Suc k) i result t d c = do {
     (part, d, c) \<leftarrow> acod_decoder_read d c (uint_parts_table t);
     uint_read_loop k (i + 1) (uint_reader_append_part result part i) t d c
   }"

definition uint_reader_read ::
  "uint_freq_tables \<Rightarrow> acod_decoder \<Rightarrow> ctx \<Rightarrow> (u64 \<times> uint_freq_tables \<times> acod_decoder \<times> ctx) option" where
  "uint_reader_read t d c = do {
     (total_symbol_count, d, c) \<leftarrow> acod_decoder_read d c (length_table t);
     lt \<leftarrow> ftable_increment (length_table t) total_symbol_count;
     let t = t\<lparr>length_table := lt\<rparr>;
     (result, d, c) \<leftarrow> uint_read_loop (nat (total_symbol_count - 1)) 0 0 t d c;
     if total_symbol_count > 0 then do {
       (part, d, c) \<leftarrow> acod_decoder_read d c (last_part_table t);
       pt \<leftarrow> ftable_increment (last_part_table t) part;
       Some (uint_reader_append_part result part (total_symbol_count - 1),
             t\<lparr>last_part_table := pt\<rparr>, d, c)
     } else Some (result, t, d, c)
   }"

text \<open>\<open>uint_write_loop k i n value\<close> writes the \<open>k\<close> groups from index \<open>i\<close> on, of \<open>n\<close>.\<close>

fun uint_write_loop :: "nat \<Rightarrow> int \<Rightarrow> int \<Rightarrow> u64 \<Rightarrow> uint_freq_tables \<Rightarrow> acod_encoder \<Rightarrow> ctx \<Rightarrow>
    (uint_freq_tables \<times> acod_encoder \<times> ctx) option" where
  "uint_write_loop 0 i n v t e c = Some (t, e, c)"
| "uint_write_loop (Suc k) i n v t e c = do {
     let part = (ucast (v AND UINT_SYMBOL_MASK) :: byte);
     let v = drop_bit UINT_BIT_GROUP_SIZE v;
     let is_last_part = (i = n - 1);
     (t, e, c) \<leftarrow>
       (if is_last_part then do {
          (e, c) \<leftarrow> acod_encoder_write e c (last_part_table t) (uint part);
          pt \<leftarrow> ftable_increment (last_part_table t) (uint part);
          Some (t\<lparr>last_part_table := pt\<rparr>, e, c)
        } else do {
          (e, c) \<leftarrow> acod_encoder_write e c (uint_parts_table t) (uint part);
          Some (t, e, c)
        });
     uint_write_loop k (i + 1) n v t e c
   }"

definition uint_writer_write ::
  "uint_freq_tables \<Rightarrow> acod_encoder \<Rightarrow> ctx \<Rightarrow> u64 \<Rightarrow> (uint_freq_tables \<times> acod_encoder \<times> ctx) option" where
  "uint_writer_write t e c v = do {
     let bit_index = most_significant_bit_index v;
     let n = to_int16 ((bit_index + int UINT_BIT_GROUP_SIZE) div int UINT_BIT_GROUP_SIZE);
     (e, c) \<leftarrow> acod_encoder_write e c (length_table t) n;
     lt \<leftarrow> ftable_increment (length_table t) n;
     uint_write_loop (nat n) 0 n v (t\<lparr>length_table := lt\<rparr>) e c
   }"

section \<open>Groups of a number\<close>

definition group_count :: "u64 \<Rightarrow> nat" where
  "group_count v = nat ((most_significant_bit_index v + 4) div 4)"

definition group :: "u64 \<Rightarrow> nat \<Rightarrow> nat" where
  "group v i = unat (drop_bit (4 * i) v AND UINT_SYMBOL_MASK)"

lemma UINT_SYMBOL_MASK_mask: "UINT_SYMBOL_MASK = mask 4"
  by (simp add: UINT_SYMBOL_MASK_def UINT_BIT_GROUP_SIZE_def mask_eq_exp_minus_1)

lemma group_less: "group v i < 16"
proof -
  have "group v i = take_bit 4 (unat (drop_bit (4 * i) v))"
    unfolding group_def UINT_SYMBOL_MASK_mask take_bit_eq_mask [symmetric]
    by (rule unsigned_take_bit_eq)
  also have "\<dots> < 2 ^ 4" by (rule take_bit_nat_less_exp)
  finally show ?thesis by simp
qed

lemma group_count_bounds: "group_count v \<le> 16" and group_count_fits: "unat v < 2 ^ (4 * group_count v)"
proof -
  have "group_count v \<le> 16 \<and> unat v < 2 ^ (4 * group_count v)"
  proof (cases "v = 0")
    case True
    then show ?thesis by (simp add: group_count_def)
  next
    case False
    then obtain k where k: "most_significant_bit_index v = int k" "k < 64" "unat v < 2 ^ Suc k"
      by (rule msb_index_nonzero)
    have g: "group_count v = (k + 4) div 4" by (simp add: group_count_def k(1) nat_div_distrib nat_add_distrib)
    have "Suc k \<le> 4 * group_count v" unfolding g by presburger
    then have "(2 :: nat) ^ Suc k \<le> 2 ^ (4 * group_count v)" by (rule power_increasing) simp
    with k(3) have "unat v < 2 ^ (4 * group_count v)" by (rule less_le_trans)
    moreover have "group_count v \<le> 16" using k(2) by (simp add: g)
    ultimately show ?thesis by blast
  qed
  then show "group_count v \<le> 16" "unat v < 2 ^ (4 * group_count v)" by blast+
qed

lemma group_count_int:
  "to_int16 ((most_significant_bit_index v + int UINT_BIT_GROUP_SIZE) div int UINT_BIT_GROUP_SIZE) =
     int (group_count v)"
proof -
  have "0 \<le> (most_significant_bit_index v + 4) div 4"
  proof (cases "v = 0")
    case False
    then obtain k where "most_significant_bit_index v = int k" by (rule msb_index_nonzero)
    then show ?thesis by simp
  qed simp
  then show ?thesis using group_count_bounds [of v]
    by (simp add: group_count_def UINT_BIT_GROUP_SIZE_def)
qed

text \<open>Reading the groups back from the lowest on restores ever more low bits.\<close>

lemma append_group:
  "uint_reader_append_part (take_bit (4 * i) v) (int (group v i)) (int i) = take_bit (4 * Suc i) v"
proof -
  have "(word_of_int (int (group v i)) :: u64) = take_bit 4 (drop_bit (4 * i) v)"
    by (simp add: group_def UINT_SYMBOL_MASK_mask take_bit_eq_mask)
  then have "uint_reader_append_part (take_bit (4 * i) v) (int (group v i)) (int i) =
      take_bit (4 * i) v OR push_bit (4 * i) (take_bit 4 (drop_bit (4 * i) v))"
    by (simp add: uint_reader_append_part_def UINT_BIT_GROUP_SIZE_def nat_mult_distrib mult.commute)
  also have "\<dots> = take_bit (4 * Suc i) v"
    by (rule bit_eqI) (auto simp: bit_simps)
  finally show ?thesis .
qed

lemma take_all_groups: "take_bit (4 * group_count v) v = v"
proof -
  have "take_bit (4 * group_count v) (unat v) = unat v"
    using group_count_fits [of v] by (simp add: take_bit_nat_eq_self_iff)
  then show ?thesis by (simp add: unsigned_take_bit_eq [symmetric] word_unat_eq_iff)
qed

section \<open>The codec contract\<close>

type_synonym uint_model = "nat list \<times> nat list \<times> nat list"

definition uint_repr :: "uint_freq_tables \<Rightarrow> uint_model \<Rightarrow> bool" where
  "uint_repr t m \<longleftrightarrow> (case m of (L, P, Z) \<Rightarrow> ftable_repr (length_table t) L \<and>
     ftable_repr (uint_parts_table t) P \<and> ftable_repr (last_part_table t) Z)"

definition parts_script :: "nat list \<Rightarrow> nat list \<Rightarrow> u64 \<Rightarrow> nat \<Rightarrow> nat \<Rightarrow> script" where
  "parts_script P Z v i n = map (\<lambda>j. (if Suc j = n then Z else P, group v j)) [i..<n]"

definition uint_script :: "uint_model \<Rightarrow> u64 \<Rightarrow> script" where
  "uint_script m v = (case m of (L, P, Z) \<Rightarrow>
     (L, group_count v) # parts_script P Z v 0 (group_count v))"

definition uint_adapt :: "uint_model \<Rightarrow> u64 \<Rightarrow> uint_model" where
  "uint_adapt m v = (case m of (L, P, Z) \<Rightarrow>
     (bump L (group_count v), P,
      if group_count v = 0 then Z else bump Z (group v (group_count v - 1))))"

definition uint_ok :: "uint_model \<Rightarrow> u64 \<Rightarrow> bool" where
  "uint_ok m v \<longleftrightarrow> (\<forall>p\<in>set (uint_script m v). codable p)"

lemma parts_script_Cons:
  "i < n \<Longrightarrow> parts_script P Z v i n =
     (if Suc i = n then Z else P, group v i) # parts_script P Z v (Suc i) n"
  by (simp add: parts_script_def upt_rec [of i n])

lemma parts_script_empty [simp]: "parts_script P Z v n n = []"
  by (simp add: parts_script_def)

lemma length_uint_script: "length (uint_script m v) \<le> 17"
  using group_count_bounds [of v] by (simp add: uint_script_def parts_script_def split: prod.split)

lemma uint_group: "uint (ucast (drop_bit (4 * i) v AND UINT_SYMBOL_MASK) :: byte) = int (group v i)"
proof -
  have "unat (ucast (drop_bit (4 * i) v AND UINT_SYMBOL_MASK) :: byte) = group v i"
    using group_less [of v i] by (simp add: unsigned_ucast_eq group_def take_bit_nat_eq_self_iff)
  then show ?thesis by (metis uint_nat)
qed

lemma codable_length: "codable (fs, s) \<Longrightarrow> s < length fs"
  by (simp add: codable_def)

lemma uint_write_loop_correct:
  assumes "uint_repr t (L, P, Z)" and "k + i = n" and "encoder_holds M e c pre"
    and "length pre + k < 2 ^ 56" and "\<forall>p\<in>set (parts_script P Z v i n). codable p"
  shows "\<exists>t' e' c'. uint_write_loop k (int i) (int n) (drop_bit (4 * i) v) t e c = Some (t', e', c') \<and>
     uint_repr t' (L, P, if k = 0 then Z else bump Z (group v (n - 1))) \<and>
     encoder_holds M e' c' (pre @ parts_script P Z v i n)"
  using assms
proof (induction k arbitrary: t e c pre i)
  case 0
  then show ?case by simp
next
  case (Suc k)
  have i: "i < n" using Suc.prems(2) by simp
  note ps = parts_script_Cons [OF i, of P Z v]
  have small: "length pre < 2 ^ 58" using Suc.prems(4) by simp
  have next_v: "drop_bit UINT_BIT_GROUP_SIZE (drop_bit (4 * i) v) = drop_bit (4 * Suc i) v"
    by (simp add: UINT_BIT_GROUP_SIZE_def)
  have tabs: "ftable_repr (uint_parts_table t) P" "ftable_repr (last_part_table t) Z"
    using Suc.prems(1) by (simp_all add: uint_repr_def)
  show ?case
  proof (cases "Suc i = n")
    case True
    then have k: "k = 0" using Suc.prems(2) by simp
    have cod: "codable (Z, group v i)" using Suc.prems(5) True by (simp add: ps)
    from encoder_write_correct [OF Suc.prems(3) tabs(2) cod small] obtain e1 c1 where
      w: "acod_encoder_write e c (last_part_table t) (int (group v i)) = Some (e1, c1)"
        "encoder_holds M e1 c1 (pre @ [(Z, group v i)])" by blast
    from ftable_increment_correct [OF tabs(2), of "int (group v i)"] codable_length [OF cod]
    obtain pt where pt: "ftable_increment (last_part_table t) (int (group v i)) = Some pt"
      "ftable_repr pt (bump Z (group v i))" by auto
    have "uint_write_loop (Suc k) (int i) (int n) (drop_bit (4 * i) v) t e c =
        Some (t\<lparr>last_part_table := pt\<rparr>, e1, c1)"
      using w(1) pt(1) True k by (simp add: uint_group Let_def)
    moreover have "n - 1 = i" "parts_script P Z v i n = [(Z, group v i)]" using True by (simp_all add: ps)
    ultimately show ?thesis using w(2) pt(2) Suc.prems(1) k by (simp add: uint_repr_def)
  next
    case False
    then have kn: "k \<noteq> 0" using Suc.prems(2) by auto
    have cod: "codable (P, group v i)" using Suc.prems(5) False by (simp add: ps)
    from encoder_write_correct [OF Suc.prems(3) tabs(1) cod small] obtain e1 c1 where
      w: "acod_encoder_write e c (uint_parts_table t) (int (group v i)) = Some (e1, c1)"
        "encoder_holds M e1 c1 (pre @ [(P, group v i)])" by blast
    have "uint_write_loop (Suc k) (int i) (int n) (drop_bit (4 * i) v) t e c =
        uint_write_loop k (int (Suc i)) (int n) (drop_bit (4 * Suc i) v) t e1 c1"
      using w(1) False next_v by (simp add: uint_group Let_def add.commute)
    moreover have "k + Suc i = n" "length (pre @ [(P, group v i)]) + k < 2 ^ 56"
      "\<forall>p\<in>set (parts_script P Z v (Suc i) n). codable p" using Suc.prems(2,4,5) by (simp_all add: ps)
    ultimately show ?thesis
      using Suc.IH [OF Suc.prems(1) _ w(2), of "Suc i"] False kn by (simp add: ps)
  qed
qed

lemma uint_read_loop_correct:
  assumes "ftable_repr (uint_parts_table t) P" and "Suc k + i = n"
    and "decoder_ready d (parts_script P Z v i n @ rest)"
  shows "\<exists>d'. uint_read_loop k (int i) (take_bit (4 * i) v) t d c =
       Some (take_bit (4 * (n - 1)) v, d', c) \<and>
     decoder_ready d' ((Z, group v (n - 1)) # rest)"
  using assms
proof (induction k arbitrary: d i)
  case 0
  then have "n = Suc i" by simp
  with 0 show ?case by (simp add: parts_script_Cons)
next
  case (Suc k)
  then have i: "i < n" "Suc i \<noteq> n" by simp_all
  have "decoder_ready d ((P, group v i) # (parts_script P Z v (Suc i) n @ rest))"
    using Suc.prems(3) i by (simp add: parts_script_Cons)
  from decoder_read_correct [OF this Suc.prems(1), of c] obtain d1 where
    r: "acod_decoder_read d c (uint_parts_table t) = Some (int (group v i), d1, c)"
      "decoder_ready d1 (parts_script P Z v (Suc i) n @ rest)" by blast
  have "uint_read_loop (Suc k) (int i) (take_bit (4 * i) v) t d c =
      uint_read_loop k (int (Suc i)) (take_bit (4 * Suc i) v) t d1 c"
    using r(1) append_group [of i v] by (simp add: add.commute)
  moreover have "Suc k + Suc i = n" using Suc.prems(2) by simp
  ultimately show ?case using Suc.IH [OF Suc.prems(1) _ r(2)] by simp
qed

lemma uint_write_correct:
  assumes "uint_repr t m" and "uint_ok m v" and "encoder_holds M e c pre"
    and "length pre + length (uint_script m v) < 2 ^ 56"
  shows "\<exists>t' e' c'. uint_writer_write t e c v = Some (t', e', c') \<and> uint_repr t' (uint_adapt m v) \<and>
     encoder_holds M e' c' (pre @ uint_script m v)"
proof -
  obtain L P Z where m: "m = (L, P, Z)" by (cases m)
  define n where "n = group_count v"
  have sc: "uint_script m v = (L, n) # parts_script P Z v 0 n" by (simp add: uint_script_def m n_def)
  have cod: "codable (L, n)" "\<forall>p\<in>set (parts_script P Z v 0 n). codable p"
    using assms(2) by (simp_all add: uint_ok_def sc)
  have L: "ftable_repr (length_table t) L" using assms(1) by (simp add: uint_repr_def m)
  have lens: "length pre < 2 ^ 58" "length (pre @ [(L, n)]) + n < 2 ^ 56"
    using assms(4) by (simp_all add: sc parts_script_def)
  from encoder_write_correct [OF assms(3) L cod(1) lens(1)] obtain e1 c1 where
    w: "acod_encoder_write e c (length_table t) (int n) = Some (e1, c1)"
      "encoder_holds M e1 c1 (pre @ [(L, n)])" by blast
  from ftable_increment_correct [OF L, of "int n"] codable_length [OF cod(1)] obtain lt where
    lt: "ftable_increment (length_table t) (int n) = Some lt" "ftable_repr lt (bump L n)" by auto
  define t1 where "t1 = t\<lparr>length_table := lt\<rparr>"
  have t1: "uint_repr t1 (bump L n, P, Z)" using assms(1) lt(2) by (simp add: uint_repr_def m t1_def)
  from uint_write_loop_correct [OF t1 _ w(2) lens(2) cod(2)] obtain t' e' c' where
    "uint_write_loop n 0 (int n) v t1 e1 c1 = Some (t', e', c')"
    "uint_repr t' (bump L n, P, if n = 0 then Z else bump Z (group v (n - 1)))"
    "encoder_holds M e' c' ((pre @ [(L, n)]) @ parts_script P Z v 0 n)" by auto
  moreover have "uint_writer_write t e c v = uint_write_loop n 0 (int n) v t1 e1 c1"
    unfolding uint_writer_write_def Let_def group_count_int
    using w(1) lt(1) by (simp add: n_def t1_def)
  moreover have "uint_adapt m v = (bump L n, P, if n = 0 then Z else bump Z (group v (n - 1)))"
    by (simp only: uint_adapt_def m n_def prod.case)
  ultimately show ?thesis by (simp only: sc append_assoc append_Cons append_Nil) simp
qed

lemma uint_read_correct:
  assumes "uint_repr t m" and "uint_ok m v" and "decoder_ready d (uint_script m v @ rest)"
  shows "\<exists>t' d'. uint_reader_read t d c = Some (v, t', d', c) \<and> uint_repr t' (uint_adapt m v) \<and>
     decoder_ready d' rest"
proof -
  obtain L P Z where m: "m = (L, P, Z)" by (cases m)
  define n where "n = group_count v"
  have sc: "uint_script m v = (L, n) # parts_script P Z v 0 n" by (simp add: uint_script_def m n_def)
  have cod: "codable (L, n)" "\<forall>p\<in>set (parts_script P Z v 0 n). codable p"
    using assms(2) by (simp_all add: uint_ok_def sc)
  have tabs: "ftable_repr (length_table t) L" "ftable_repr (uint_parts_table t) P"
    "ftable_repr (last_part_table t) Z" using assms(1) by (simp_all add: uint_repr_def m)
  have "decoder_ready d ((L, n) # (parts_script P Z v 0 n @ rest))" using assms(3) by (simp add: sc)
  from decoder_read_correct [OF this tabs(1), of c] obtain d1 where
    r: "acod_decoder_read d c (length_table t) = Some (int n, d1, c)"
      "decoder_ready d1 (parts_script P Z v 0 n @ rest)" by blast
  from ftable_increment_correct [OF tabs(1), of "int n"] codable_length [OF cod(1)] obtain lt where
    lt: "ftable_increment (length_table t) (int n) = Some lt" "ftable_repr lt (bump L n)" by auto
  define t1 where "t1 = t\<lparr>length_table := lt\<rparr>"
  have full: "take_bit (4 * n) v = v" unfolding n_def by (rule take_all_groups)
  show ?thesis
  proof (cases "n = 0")
    case True
    then have "uint_reader_read t d c = Some (v, t1, d1, c)"
      using r(1) lt(1) full by (simp add: uint_reader_read_def t1_def)
    then show ?thesis using r(2) lt(2) assms(1) True
      by (simp add: uint_repr_def uint_adapt_def m n_def t1_def)
  next
    case False
    then obtain k where k: "n = Suc k" by (cases n) auto
    have t1p: "ftable_repr (uint_parts_table t1) P" using tabs by (simp add: t1_def)
    from uint_read_loop_correct [OF t1p _ r(2), of k c] k obtain d2 where
      l: "uint_read_loop k 0 0 t1 d1 c = Some (take_bit (4 * k) v, d2, c)"
        "decoder_ready d2 ((Z, group v k) # rest)" by auto
    from decoder_read_correct [OF l(2) tabs(3), of c] obtain d3 where
      p: "acod_decoder_read d2 c (last_part_table t) = Some (int (group v k), d3, c)"
        "decoder_ready d3 rest" by blast
    have "codable (Z, group v k)" using cod(2) k by (auto simp: parts_script_def)
    from ftable_increment_correct [OF tabs(3), of "int (group v k)"] codable_length [OF this] obtain pt where
      pt: "ftable_increment (last_part_table t) (int (group v k)) = Some pt"
        "ftable_repr pt (bump Z (group v k))" by auto
    have "uint_reader_append_part (take_bit (4 * k) v) (int (group v k)) (int k) = v"
      using append_group [of k v] full k by simp
    then have "uint_reader_read t d c = Some (v, t1\<lparr>last_part_table := pt\<rparr>, d3, c)"
      using r(1) lt(1) l(1) p(1) pt(1) k by (simp add: uint_reader_read_def t1_def)
    then show ?thesis using p(2) lt(2) pt(2) tabs(2) k
      by (simp add: uint_repr_def uint_adapt_def m n_def t1_def)
  qed
qed

interpretation ui: symbol_codec uint_writer_write uint_reader_read uint_repr uint_script uint_adapt uint_ok
  using uint_write_correct uint_read_correct by unfold_locales (auto simp: uint_ok_def)

section \<open>Fresh tables\<close>

definition uint_symbols :: "u64 \<Rightarrow> nat" where
  "uint_symbols max_value = nat ((most_significant_bit_index max_value + 3) div 4 + 1)"

definition uint_fresh :: "u64 \<Rightarrow> uint_model" where
  "uint_fresh max_value = (replicate (uint_symbols max_value) 1, replicate 16 1, replicate 16 1)"

lemma init_frequencies_plain:
  "init_frequencies n (FTABLE_INIT_ONE OR FTABLE_EXCLUDE_EOF) = replicate n 1"
  by (simp add: init_frequencies_def ftable_get_init_value_def ftable_get_eof_length_padding_def
      FTABLE_INIT_ONE_def FTABLE_EXCLUDE_EOF_def FTABLE_INCLUDE_EOF_def push_bit_eq_mult)

lemma msb_index_bounds: "-1 \<le> most_significant_bit_index v" "most_significant_bit_index v < 64"
proof -
  have "-1 \<le> most_significant_bit_index v \<and> most_significant_bit_index v < 64"
  proof (cases "v = 0")
    case False
    then obtain k where "most_significant_bit_index v = int k" "k < 64" by (rule msb_index_nonzero)
    then show ?thesis by simp
  qed simp
  then show "-1 \<le> most_significant_bit_index v" "most_significant_bit_index v < 64" by simp_all
qed

lemma uint_symbols_int:
  "(most_significant_bit_index m + (int UINT_BIT_GROUP_SIZE - 1)) div int UINT_BIT_GROUP_SIZE + 1 =
     int (uint_symbols m)"
  using msb_index_bounds [of m] by (simp add: uint_symbols_def UINT_BIT_GROUP_SIZE_def)

lemma uint_symbols_le: "uint_symbols m \<le> 17"
  using msb_index_bounds [of m] by (simp add: uint_symbols_def)

lemma uint_freq_tables_init_correct:
  assumes "900 < arena_free c"
  shows "\<exists>t c'. uint_freq_tables_init c max_value = Some (t, c') \<and> uint_repr t (uint_fresh max_value) \<and>
     arena_free c \<le> arena_free c' + 860 \<and> ctx_error c' = ctx_error c"
proof -
  let ?flags = "FTABLE_INIT_ONE OR FTABLE_EXCLUDE_EOF"
  have sixteen: "push_bit UINT_BIT_GROUP_SIZE 1 = int 16" by (simp add: UINT_BIT_GROUP_SIZE_def)
  from ftable_init_correct [of 16 c ?flags] assms obtain t1 c1 where
    t1: "ftable_init c (int 16) ?flags = Some (t1, c1)" "ftable_repr t1 (replicate 16 1)"
      "arena_free c \<le> arena_free c1 + 280" "ctx_error c1 = ctx_error c"
    unfolding init_frequencies_plain by auto
  from ftable_init_correct [of 16 c1 ?flags] assms t1(3) obtain t2 c2 where
    t2: "ftable_init c1 (int 16) ?flags = Some (t2, c2)" "ftable_repr t2 (replicate 16 1)"
      "arena_free c1 \<le> arena_free c2 + 280" "ctx_error c2 = ctx_error c1"
    unfolding init_frequencies_plain by auto
  have "8 * (2 * uint_symbols max_value + 3) \<le> 296" using uint_symbols_le [of max_value] by simp
  with ftable_init_correct [of "uint_symbols max_value" c2 ?flags] assms t1(3) t2(3)
    uint_symbols_le [of max_value] obtain t3 c3 where
    t3: "ftable_init c2 (int (uint_symbols max_value)) ?flags = Some (t3, c3)"
      "ftable_repr t3 (replicate (uint_symbols max_value) 1)"
      "arena_free c2 \<le> arena_free c3 + 296" "ctx_error c3 = ctx_error c2"
    unfolding init_frequencies_plain by auto
  have "uint_freq_tables_init c max_value =
      Some (\<lparr>length_table = t3, uint_parts_table = t1, last_part_table = t2\<rparr>, c3)"
    using t1(1) t2(1) t3(1) unfolding uint_freq_tables_init_def Let_def uint_symbols_int sixteen by simp
  then show ?thesis using t1 t2 t3 by (simp add: uint_repr_def uint_fresh_def)
qed

definition uint_roomy :: "uint_model \<Rightarrow> nat \<Rightarrow> bool" where
  "uint_roomy m k \<longleftrightarrow> (case m of (L, P, Z) \<Rightarrow> roomy L k \<and> roomy P 0 \<and> roomy Z k \<and>
     length P = 16 \<and> length Z = 16)"

definition uint_limit :: "uint_model \<Rightarrow> nat" where
  "uint_limit m = length (fst m)"

lemma uint_roomy_fresh: "n \<le> 2 ^ 28 \<Longrightarrow> uint_roomy (uint_fresh max_value) n"
  using uint_symbols_le [of max_value]
  by (simp add: uint_roomy_def uint_fresh_def roomy_def sum_list_replicate)

lemma uint_limit_fresh [simp]: "uint_limit (uint_fresh max_value) = uint_symbols max_value"
  by (simp add: uint_limit_def uint_fresh_def)

lemma roomy_codable: "roomy fs n \<Longrightarrow> s < length fs \<Longrightarrow> codable (fs, s)"
  by (auto simp: roomy_def codable_def)

lemma uint_roomy_step:
  assumes "uint_roomy m (Suc k)" and "group_count v < uint_limit m"
  shows "uint_ok m v" and "uint_roomy (uint_adapt m v) k" and "uint_limit (uint_adapt m v) = uint_limit m"
proof -
  obtain L P Z where m: "m = (L, P, Z)" by (cases m)
  have r: "roomy L (Suc k)" "roomy P 0" "roomy Z (Suc k)" "length P = 16" "length Z = 16"
    and g: "group_count v < length L"
    using assms by (simp_all add: uint_roomy_def uint_limit_def m)
  have gz: "group v i < length Z" "group v i < length P" for i using group_less [of v i] r by simp_all
  show "uint_ok m v"
    using roomy_codable [OF r(1) g] roomy_codable [OF r(2) gz(2)] roomy_codable [OF r(3) gz(1)]
    by (auto simp: uint_ok_def uint_script_def m parts_script_def)
  have "roomy Z k" using r(3) by (simp add: roomy_def)
  then show "uint_roomy (uint_adapt m v) k" "uint_limit (uint_adapt m v) = uint_limit m"
    using roomy_bump [OF r(1) g] roomy_bump [OF r(3) gz(1)] r(2,4,5)
    by (simp_all add: uint_roomy_def uint_limit_def uint_adapt_def m)
qed

lemma uint_roomy_accepts:
  "uint_roomy m (length vs) \<Longrightarrow> \<forall>v\<in>set vs. group_count v < uint_limit m \<Longrightarrow> ui.accepts_list m vs"
proof (induction vs arbitrary: m)
  case (Cons v vs)
  then have "uint_roomy m (Suc (length vs))" "group_count v < uint_limit m" by simp_all
  from uint_roomy_step [OF this] Cons show ?case by simp
qed simp

lemma uint_script_list_length: "length (ui.list_script m vs) \<le> 17 * length vs"
proof (induction vs arbitrary: m)
  case (Cons v vs)
  show ?case using add_mono [OF length_uint_script [of m v] Cons.IH [of "uint_adapt m v"]] by simp
qed simp

section \<open>The limit of the length table\<close>

lemma write_outside_table:
  assumes "ftable_repr t fs" and "length fs \<le> s"
  shows "acod_encoder_write e c t (int s) = None"
proof -
  have "ftree_size (frequencies t) = int (length fs) + 1"
    using ftree_repr_size [of "frequencies t" "map of_nat fs"] assms(1) by (simp add: ftable_repr_def)
  then have "ftable_get_high t (int s) = None"
    using assms(2) by (simp add: ftable_get_high_def ftree_sum_def)
  then show ?thesis
    by (simp add: acod_encoder_write_def acod_shrink_the_range_def Let_def bind_eq_None_conv)
qed

lemma uint_write_too_long:
  assumes "uint_repr t m" and "uint_limit m \<le> group_count v"
  shows "uint_writer_write t e c v = None"
proof -
  obtain L P Z where m: "m = (L, P, Z)" by (cases m)
  have "ftable_repr (length_table t) L" "length L \<le> group_count v"
    using assms by (simp_all add: uint_repr_def uint_limit_def m)
  from write_outside_table [OF this] show ?thesis
    by (simp only: uint_writer_write_def Let_def group_count_int) simp
qed

text \<open>
  The length table of \<open>uint_freq_tables_init\<close> has a symbol too few for \<open>max_value\<close> itself when
  the index of its highest bit is a multiple of four.
\<close>

lemma uint_symbols_short:
  assumes "most_significant_bit_index v = int (4 * k)"
  shows "uint_symbols v = group_count v"
  using assms by (simp add: uint_symbols_def group_count_def nat_div_distrib nat_add_distrib)

end
