(* ===== verification/Ring_Buffer.thy ===== *)
theory Ring_Buffer
  imports Context
begin

text \<open>
  \<open>src/data_structures/ring_buffer.c\<close>: a window over the last \<open>2 ^ k\<close> bytes of a stream.
  \<open>ring_hist r k hist\<close> relates the buffer to the whole stream \<open>hist\<close>, which starts with the
  \<open>2 ^ k\<close> zero bytes the buffer is initialised with.
\<close>

record ring_buffer =
  rb_content :: "byte cells"
  content_position :: int
  rb_length_mask :: int

section \<open>Operations\<close>

definition ring_buffer_get_length :: "ring_buffer \<Rightarrow> int" where
  "ring_buffer_get_length rb = rb_length_mask rb + 1"

definition ring_buffer_deinit :: "ring_buffer \<Rightarrow> ring_buffer" where
  "ring_buffer_deinit rb = \<lparr>rb_content = [], content_position = 0, rb_length_mask = 0\<rparr>"

definition ring_buffer_init :: "ctx \<Rightarrow> nat \<Rightarrow> (ring_buffer \<times> ctx) option" where
  "ring_buffer_init c length_shift = do {
     let len = push_bit length_shift 1;
     (_, c) \<leftarrow> context_arena_allocate_zero_init c len 1;
     Some (\<lparr>rb_content = zeroed len 0, content_position = 0, rb_length_mask = len - 1\<rparr>, c)
   }"

definition ring_buffer_get_index :: "ring_buffer \<Rightarrow> int" where
  "ring_buffer_get_index rb = content_position rb"

definition ring_buffer_push :: "ring_buffer \<Rightarrow> byte \<Rightarrow> ring_buffer option" where
  "ring_buffer_push rb b = do {
     cs \<leftarrow> cell_put (rb_content rb) (content_position rb) b;
     Some (rb\<lparr>rb_content := cs,
              content_position := (content_position rb + 1) AND rb_length_mask rb\<rparr>)
   }"

definition ring_buffer_get :: "ring_buffer \<Rightarrow> int \<Rightarrow> byte option" where
  "ring_buffer_get rb index = cell_at (rb_content rb) (index AND rb_length_mask rb)"

section \<open>The stream behind the window\<close>

definition ring_hist :: "ring_buffer \<Rightarrow> nat \<Rightarrow> byte list \<Rightarrow> bool" where
  "ring_hist rb k hist \<longleftrightarrow> 2 ^ k \<le> length hist \<and> length (rb_content rb) = 2 ^ k \<and>
     content_position rb = int (length hist mod 2 ^ k) \<and> rb_length_mask rb = 2 ^ k - 1 \<and>
     (\<forall>j<length hist. length hist \<le> j + 2 ^ k \<longrightarrow> rb_content rb ! (j mod 2 ^ k) = Some (hist ! j))"

lemma ring_hist_length: "ring_hist rb k hist \<Longrightarrow> ring_buffer_get_length rb = 2 ^ k"
  by (simp add: ring_hist_def ring_buffer_get_length_def)

lemma ring_hist_index: "ring_hist rb k hist \<Longrightarrow> ring_buffer_get_index rb = int (length hist mod 2 ^ k)"
  by (simp add: ring_hist_def ring_buffer_get_index_def)

lemma mod_window:
  assumes "a \<le> x" and "x < a + n" and "a \<le> y" and "y < a + n" and "x mod n = y mod (n :: nat)"
  shows "x = y"
proof -
  have "u = v" if "u mod n = v mod n" "u \<le> v" "v < u + n" for u v :: nat
  proof -
    have "n dvd v - u" using that mod_eq_dvd_iff_nat [of u v n] by simp
    moreover have "v - u < n" using that by simp
    ultimately show ?thesis using that(2) by (metis dvd_imp_le diff_is_0_eq le_antisym not_le zero_less_diff)
  qed
  from this [of x y] this [of y x] assms show ?thesis by (cases "x \<le> y") auto
qed

lemma ring_hist_get:
  assumes "ring_hist rb k hist" and "j < length hist" and "length hist \<le> j + 2 ^ k"
    and "i mod 2 ^ k = int j mod 2 ^ k"
  shows "ring_buffer_get rb i = Some (hist ! j)"
proof -
  have "i AND rb_length_mask rb = int (j mod 2 ^ k)"
    using assms(1,4) and_mask_mod [of i k] by (simp add: ring_hist_def zmod_int)
  moreover have "j mod 2 ^ k < length (rb_content rb)" using assms(1) by (simp add: ring_hist_def)
  ultimately show ?thesis using assms(1-3)
    by (simp add: ring_buffer_get_def cell_at_nat ring_hist_def del: of_nat_mod)
qed

lemma ring_hist_push:
  assumes "ring_hist rb k hist"
  shows "\<exists>rb'. ring_buffer_push rb b = Some rb' \<and> ring_hist rb' k (hist @ [b])"
proof -
  define n where "n = (2 :: nat) ^ k"
  define p where "p = length hist mod n"
  have n0: "0 < n" by (simp add: n_def)
  have r: "n \<le> length hist" "length (rb_content rb) = n" "content_position rb = int p"
    "rb_length_mask rb = 2 ^ k - 1"
    "\<And>j. j < length hist \<Longrightarrow> length hist \<le> j + n \<Longrightarrow> rb_content rb ! (j mod n) = Some (hist ! j)"
    using assms by (simp_all add: ring_hist_def n_def p_def)
  have p: "p < n" using n0 by (simp add: p_def)
  define rb' where "rb' = rb\<lparr>rb_content := (rb_content rb)[p := Some b],
     content_position := int (length (hist @ [b]) mod n)\<rparr>"
  have "(int p + 1) AND rb_length_mask rb = int (Suc p) mod 2 ^ k"
    using and_mask_mod [of "int p + 1" k] by (simp add: r(4) add.commute)
  also have "\<dots> = int (Suc p mod n)" by (simp add: n_def zmod_int)
  also have "Suc p mod n = length (hist @ [b]) mod n" by (simp add: p_def mod_Suc_eq)
  finally have pos: "(int p + 1) AND rb_length_mask rb = int (length (hist @ [b]) mod n)" .
  have run: "ring_buffer_push rb b = Some rb'"
    using p r(2) unfolding ring_buffer_push_def r(3) pos
    by (simp add: cell_put_nat rb'_def)
  have "rb_content rb' ! (j mod n) = Some ((hist @ [b]) ! j)"
    if j: "j < length (hist @ [b])" "length (hist @ [b]) \<le> j + n" for j
  proof (cases "j = length hist")
    case True
    then show ?thesis using p r(2) by (simp add: rb'_def p_def)
  next
    case False
    then have jl: "j < length hist" using j(1) by simp
    have "j mod n \<noteq> p"
    proof
      assume "j mod n = p"
      then have "j mod n = length hist mod n" by (simp add: p_def)
      then have "j = length hist" using mod_window [of j j n "length hist"] jl j(2) n0 by simp
      then show False using False by simp
    qed
    then show ?thesis using r(5) [OF jl] j(2) jl by (simp add: rb'_def nth_append)
  qed
  then have "ring_hist rb' k (hist @ [b])"
    using r n0 by (simp add: ring_hist_def rb'_def n_def [symmetric])
  with run show ?thesis by blast
qed

lemma ring_buffer_init_correct:
  assumes "2 ^ k < arena_free c"
  shows "\<exists>rb c'. ring_buffer_init c k = Some (rb, c') \<and> ring_hist rb k (replicate (2 ^ k) 0) \<and>
     arena_free c' = arena_free c - 2 ^ k \<and> ctx_error c' = ctx_error c"
proof -
  have len: "push_bit k (1 :: int) = int (2 ^ k)" by (simp add: push_bit_eq_mult)
  have "2 ^ k * 1 < arena_free c" using assms by simp
  from arena_allocate_room [OF this] obtain c' where
    a: "context_arena_allocate c (int (2 ^ k)) 1 = Some (arena_offset (ctx_arena c), c')"
      "arena_free c' = arena_free c - 2 ^ k" "ctx_error c' = ctx_error c" by auto
  define rb where "rb = \<lparr>rb_content = zeroed (int (2 ^ k)) 0, content_position = 0,
     rb_length_mask = int (2 ^ k) - 1\<rparr>"
  have "ring_buffer_init c k = Some (rb, c')"
    using a(1) unfolding ring_buffer_init_def context_arena_allocate_zero_init_def Let_def len rb_def by simp
  moreover have "ring_hist rb k (replicate (2 ^ k) 0)"
    by (simp add: ring_hist_def rb_def zeroed_def nat_power_eq)
  ultimately show ?thesis using a by blast
qed

end
