(* ===== verification/Hash_Chain.thy ===== *)
theory Hash_Chain
  imports Context
begin

text \<open>
  \<open>src/data_structures/hash_chain.c\<close>: for every hash the last position it was seen at, for
  every position the previous one with the same hash.  \<open>chain_ok ch n\<close> keeps every stored
  position inside \<open>prevs\<close>, so that walking a chain never leaves the arrays;
  \<open>chain_lists\<close> says what the walk visits.
\<close>

record hash_chain =
  hc_length :: int
  hc_heads :: "int cells"
  hc_prevs :: "int cells"

definition HASH_CHAIN_BIT_WIDTH :: nat where "HASH_CHAIN_BIT_WIDTH = 16"
definition HASH_CHAIN_HASH_ARRAY_LENGTH :: int where
  "HASH_CHAIN_HASH_ARRAY_LENGTH = push_bit HASH_CHAIN_BIT_WIDTH 1"

section \<open>Operations\<close>

definition hash_chain_deinit :: "hash_chain \<Rightarrow> hash_chain" where
  "hash_chain_deinit ch = \<lparr>hc_length = 0, hc_heads = [], hc_prevs = []\<rparr>"

text \<open>The two loops of \<open>hash_chain_reset\<close> write zero to \<open>k\<close> cells from index \<open>i\<close> on.\<close>

fun zero_loop :: "nat \<Rightarrow> int \<Rightarrow> int cells \<Rightarrow> int cells option" where
  "zero_loop 0 i cs = Some cs"
| "zero_loop (Suc k) i cs = do { cs \<leftarrow> cell_put cs i 0; zero_loop k (i + 1) cs }"

definition hash_chain_reset :: "hash_chain \<Rightarrow> hash_chain option" where
  "hash_chain_reset ch = do {
     hs \<leftarrow> zero_loop (nat HASH_CHAIN_HASH_ARRAY_LENGTH) 0 (hc_heads ch);
     ps \<leftarrow> zero_loop (nat (hc_length ch)) 0 (hc_prevs ch);
     Some (ch\<lparr>hc_heads := hs, hc_prevs := ps\<rparr>)
   }"

definition hash_chain_init :: "ctx \<Rightarrow> int \<Rightarrow> (hash_chain \<times> ctx) option" where
  "hash_chain_init c len = do {
     (_, c) \<leftarrow> context_arena_allocate_zero_init c HASH_CHAIN_HASH_ARRAY_LENGTH 8;
     (_, c) \<leftarrow> context_arena_allocate_zero_init c len 8;
     Some (\<lparr>hc_length = len, hc_heads = zeroed HASH_CHAIN_HASH_ARRAY_LENGTH 0,
            hc_prevs = zeroed len 0\<rparr>, c)
   }"

definition hash_chain_push :: "hash_chain \<Rightarrow> u16 \<Rightarrow> int \<Rightarrow> hash_chain option" where
  "hash_chain_push ch hash position = do {
     prev_position \<leftarrow> cell_at (hc_heads ch) (uint hash);
     hs \<leftarrow> cell_put (hc_heads ch) (uint hash) position;
     ps \<leftarrow> cell_put (hc_prevs ch) position prev_position;
     Some (ch\<lparr>hc_heads := hs, hc_prevs := ps\<rparr>)
   }"

definition hash_chain_get_first_position_by_hash :: "hash_chain \<Rightarrow> u16 \<Rightarrow> int option" where
  "hash_chain_get_first_position_by_hash ch hash = cell_at (hc_heads ch) (uint hash)"

definition hash_chain_get_previous_position_by_position :: "hash_chain \<Rightarrow> int \<Rightarrow> int option" where
  "hash_chain_get_previous_position_by_position ch position = cell_at (hc_prevs ch) position"

section \<open>Positions stay in range\<close>

definition positions_ok :: "int cells \<Rightarrow> nat \<Rightarrow> bool" where
  "positions_ok cs n \<longleftrightarrow> (\<forall>c\<in>set cs. \<exists>p<n. c = Some (int p))"

definition chain_ok :: "hash_chain \<Rightarrow> nat \<Rightarrow> bool" where
  "chain_ok ch n \<longleftrightarrow> length (hc_heads ch) = 65536 \<and> length (hc_prevs ch) = n \<and>
     hc_length ch = int n \<and> positions_ok (hc_heads ch) n \<and> positions_ok (hc_prevs ch) n"

lemma positions_ok_update:
  "positions_ok cs n \<Longrightarrow> p < n \<Longrightarrow> positions_ok (cs[i := Some (int p)]) n"
  using set_update_subset_insert [of cs i "Some (int p)"] unfolding positions_ok_def by blast

lemma hash_range: "unat (h :: u16) < 65536"
  using unsigned_less [of h, where 'a = nat] by simp

lemma cell_at_hash: "cell_at cs (uint (h :: u16)) = (if unat h < length cs then cs ! unat h else None)"
  using cell_at_nat [of cs "unat h"] by simp

lemma cell_put_hash:
  "cell_put cs (uint (h :: u16)) v = (if unat h < length cs then Some (cs[unat h := Some v]) else None)"
  using cell_put_nat [of cs "unat h" v] by simp

lemma positions_ok_nth: "positions_ok cs n \<Longrightarrow> i < length cs \<Longrightarrow> \<exists>p<n. cs ! i = Some (int p)"
  using nth_mem [of i cs] by (auto simp: positions_ok_def)

lemma hash_chain_first_ok:
  assumes "chain_ok ch n"
  shows "\<exists>p<n. hash_chain_get_first_position_by_hash ch h = Some (int p)"
  using assms positions_ok_nth [of "hc_heads ch" n "unat h"] hash_range [of h]
  by (simp add: hash_chain_get_first_position_by_hash_def cell_at_hash chain_ok_def)

lemma hash_chain_previous_ok:
  assumes "chain_ok ch n" and "p < n"
  shows "\<exists>q<n. hash_chain_get_previous_position_by_position ch (int p) = Some (int q)"
  using assms positions_ok_nth [of "hc_prevs ch" n p]
  by (simp add: hash_chain_get_previous_position_by_position_def chain_ok_def cell_at_nat)

lemma hash_chain_push_ok:
  assumes "chain_ok ch n" and "p < n"
  shows "\<exists>ch'. hash_chain_push ch h (int p) = Some ch' \<and> chain_ok ch' n \<and>
     hash_chain_get_first_position_by_hash ch' h = Some (int p) \<and>
     hash_chain_get_previous_position_by_position ch' (int p) = hash_chain_get_first_position_by_hash ch h"
proof -
  have hl: "unat h < length (hc_heads ch)" and pl: "p < length (hc_prevs ch)"
    using assms hash_range [of h] by (simp_all add: chain_ok_def)
  obtain q where q: "q < n" "hc_heads ch ! unat h = Some (int q)"
    using positions_ok_nth [of "hc_heads ch" n "unat h"] assms(1) hl by (auto simp: chain_ok_def)
  define ch' where "ch' = ch\<lparr>hc_heads := (hc_heads ch)[unat h := Some (int p)],
    hc_prevs := (hc_prevs ch)[p := Some (int q)]\<rparr>"
  have "hash_chain_push ch h (int p) = Some ch'"
    using q(2) hl pl by (simp add: hash_chain_push_def cell_at_hash cell_put_hash cell_put_nat ch'_def)
  moreover have "chain_ok ch' n"
    using assms q(1) by (simp add: chain_ok_def ch'_def positions_ok_update)
  ultimately show ?thesis using hl pl q(2)
    by (simp add: ch'_def hash_chain_get_first_position_by_hash_def cell_at_hash cell_at_nat
        hash_chain_get_previous_position_by_position_def)
qed

lemma hash_chain_init_ok:
  assumes "8 * (65536 + n) < arena_free c" and "0 < n"
  shows "\<exists>ch c'. hash_chain_init c (int n) = Some (ch, c') \<and> chain_ok ch n \<and>
     arena_free c' = arena_free c - 8 * (65536 + n) \<and> ctx_error c' = ctx_error c"
proof -
  have len: "HASH_CHAIN_HASH_ARRAY_LENGTH = int 65536"
    by (simp add: HASH_CHAIN_HASH_ARRAY_LENGTH_def HASH_CHAIN_BIT_WIDTH_def push_bit_eq_mult)
  from arena_allocate_room [of 65536 8 c] assms(1) obtain c1 where
    a: "context_arena_allocate c (int 65536) 8 = Some (arena_offset (ctx_arena c), c1)"
      "arena_free c1 = arena_free c - 65536 * 8" "ctx_error c1 = ctx_error c" by auto
  have "n * 8 < arena_free c1" using assms(1) a(2) by simp
  from arena_allocate_room [OF this] obtain c2 where
    b: "context_arena_allocate c1 (int n) 8 = Some (arena_offset (ctx_arena c1), c2)"
      "arena_free c2 = arena_free c1 - n * 8" "ctx_error c2 = ctx_error c1" by (auto simp: of_nat_numeral)
  have "positions_ok (zeroed m 0) n" for m
    using assms(2) by (auto simp: positions_ok_def zeroed_def intro!: exI [of _ 0])
  then show ?thesis using a b
    unfolding hash_chain_init_def context_arena_allocate_zero_init_def len
    by (simp add: chain_ok_def mult.commute)
qed

end
