(* ===== verification/Byte_Stream_Matcher.thy ===== *)
theory Byte_Stream_Matcher
  imports Ring_Buffer Hash_Chain
begin

text \<open>
  \<open>src/string_compression/byte_stream_matcher.c\<close>: the search window of the string
  compressor.  Hash collisions and stale chain entries are harmless: a match is accepted only for
  the bytes that were compared (\<open>bsm_find_match_correct\<close>).
\<close>

definition BSM_LENGTH_SHIFT :: nat where "BSM_LENGTH_SHIFT = 16"
definition BSM_LENGTH :: int where "BSM_LENGTH = push_bit BSM_LENGTH_SHIFT 1"
definition BSM_LENGTH_MASK :: int where "BSM_LENGTH_MASK = BSM_LENGTH - 1"
definition BSM_MAX_HYPOTHESIS :: nat where "BSM_MAX_HYPOTHESIS = 20"
definition BSM_MATCH_LENGTH_SHIFT :: nat where "BSM_MATCH_LENGTH_SHIFT = 12"
definition BSM_MATCH_LENGTH_LIMIT :: int where "BSM_MATCH_LENGTH_LIMIT = push_bit BSM_MATCH_LENGTH_SHIFT 1"
definition BSM_GOOD_ENOUGH_MATCH_LENGTH :: int where
  "BSM_GOOD_ENOUGH_MATCH_LENGTH = BSM_MATCH_LENGTH_LIMIT div 2"
definition BSM_HASH_LENGTH_BYTES :: nat where "BSM_HASH_LENGTH_BYTES = 4"

record byte_stream_matcher =
  bsm_content :: ring_buffer
  bsm_chain :: hash_chain
  rolling_hash :: u16

record bsm_match =
  match_offset :: int
  match_length :: int

definition BSM_MATCH_EMPTY :: bsm_match where
  "BSM_MATCH_EMPTY = \<lparr>match_offset = 0, match_length = 0\<rparr>"

section \<open>Operations\<close>

definition bsm_deinit :: "byte_stream_matcher \<Rightarrow> byte_stream_matcher" where
  "bsm_deinit m = \<lparr>bsm_content = ring_buffer_deinit (bsm_content m),
     bsm_chain = hash_chain_deinit (bsm_chain m), rolling_hash = 0\<rparr>"

definition bsm_init :: "ctx \<Rightarrow> (byte_stream_matcher \<times> ctx) option" where
  "bsm_init c = do {
     (ch, c) \<leftarrow> hash_chain_init c BSM_LENGTH;
     (rb, c) \<leftarrow> ring_buffer_init c BSM_LENGTH_SHIFT;
     Some (\<lparr>bsm_content = rb, bsm_chain = ch, rolling_hash = 0\<rparr>, c)
   }"

definition bsm_update_rolling_hash :: "byte_stream_matcher \<Rightarrow> byte \<Rightarrow> u16 \<times> byte_stream_matcher" where
  "bsm_update_rolling_hash m new_byte =
     (let h = push_bit 4 (rolling_hash m) XOR ucast new_byte in (h, m\<lparr>rolling_hash := h\<rparr>))"

fun bsm_hash_loop :: "nat \<Rightarrow> int \<Rightarrow> ring_buffer \<Rightarrow> int \<Rightarrow> u16 \<Rightarrow> u16 option" where
  "bsm_hash_loop 0 i rb position hash = Some hash"
| "bsm_hash_loop (Suc k) i rb position hash = do {
     b \<leftarrow> ring_buffer_get rb (position + i);
     bsm_hash_loop k (i + 1) rb position (push_bit 4 hash XOR ucast b)
   }"

definition bsm_calc_hash_at :: "ring_buffer \<Rightarrow> int \<Rightarrow> u16 option" where
  "bsm_calc_hash_at rb position = bsm_hash_loop BSM_HASH_LENGTH_BYTES 0 rb position 0"

definition bsm_update_hash_chain :: "byte_stream_matcher \<Rightarrow> u16 \<Rightarrow> byte \<Rightarrow> byte_stream_matcher option" where
  "bsm_update_hash_chain m index new_byte = do {
     let (hash, m) = bsm_update_rolling_hash m new_byte;
     let intermediate = uint index - int BSM_HASH_LENGTH_BYTES + 1;
     let target_index = (word_of_int (if intermediate < 0 then intermediate + BSM_LENGTH
                                      else intermediate) :: u16);
     ch \<leftarrow> hash_chain_push (bsm_chain m) hash (uint target_index);
     Some (m\<lparr>bsm_chain := ch\<rparr>)
   }"

definition bsm_push :: "byte_stream_matcher \<Rightarrow> byte \<Rightarrow> byte_stream_matcher option" where
  "bsm_push m b = do {
     let position = (word_of_int (ring_buffer_get_index (bsm_content m)) :: u16);
     rb \<leftarrow> ring_buffer_push (bsm_content m) b;
     bsm_update_hash_chain (m\<lparr>bsm_content := rb\<rparr>) position b
   }"

text \<open>
  \<open>k\<close> comparisons are left, from \<open>len\<close> up to \<open>length_limit\<close>; with none left the limit is the answer,
  also when it is negative.
\<close>

fun bsm_compare_loop :: "nat \<Rightarrow> int \<Rightarrow> int \<Rightarrow> ring_buffer \<Rightarrow> int \<Rightarrow> ring_buffer \<Rightarrow> int \<Rightarrow> int option" where
  "bsm_compare_loop 0 length_limit len content position source source_position = Some length_limit"
| "bsm_compare_loop (Suc k) length_limit len content position source source_position = do {
     buffer_byte \<leftarrow> ring_buffer_get content (position + len);
     src_byte \<leftarrow> ring_buffer_get source (source_position + len);
     if buffer_byte \<noteq> src_byte then Some len
     else bsm_compare_loop k length_limit (len + 1) content position source source_position
   }"

definition bsm_check_match_starting_at ::
  "byte_stream_matcher \<Rightarrow> int \<Rightarrow> ring_buffer \<Rightarrow> int \<Rightarrow> int option" where
  "bsm_check_match_starting_at m position source source_position =
     (let src_end = ring_buffer_get_index source;
          src_end = (if src_end < source_position then src_end + ring_buffer_get_length source else src_end);
          dist_to_src_end = src_end - source_position;
          search_end = ring_buffer_get_index (bsm_content m);
          search_end = (if search_end < position then search_end + ring_buffer_get_length (bsm_content m)
                        else search_end);
          dist_to_search_end = search_end - position;
          length_limit = (if dist_to_search_end < dist_to_src_end then dist_to_search_end else dist_to_src_end)
      in bsm_compare_loop (nat length_limit) length_limit 0 (bsm_content m) position source source_position)"

text \<open>\<open>k\<close> more hypotheses along the chain.\<close>

fun bsm_find_loop :: "nat \<Rightarrow> byte_stream_matcher \<Rightarrow> ring_buffer \<Rightarrow> int \<Rightarrow> int \<Rightarrow> int \<Rightarrow> bsm_match \<Rightarrow>
    bsm_match option" where
  "bsm_find_loop 0 m source source_position buffer_end_position position result = Some result"
| "bsm_find_loop (Suc k) m source source_position buffer_end_position position result = do {
     len \<leftarrow> bsm_check_match_starting_at m position source source_position;
     let match_position = position;
     position \<leftarrow> hash_chain_get_previous_position_by_position (bsm_chain m) position;
     if len > match_length result then
       let off = buffer_end_position - match_position;
           off = (if off < 0 then off + BSM_LENGTH else off);
           result = result\<lparr>match_length := len, match_offset := off\<rparr>
       in if match_length result \<ge> BSM_GOOD_ENOUGH_MATCH_LENGTH then Some result
          else bsm_find_loop k m source source_position buffer_end_position position result
     else bsm_find_loop k m source source_position buffer_end_position position result
   }"

definition bsm_find_match :: "byte_stream_matcher \<Rightarrow> ring_buffer \<Rightarrow> int \<Rightarrow> bsm_match option" where
  "bsm_find_match m source source_position = do {
     hash \<leftarrow> bsm_calc_hash_at source source_position;
     let buffer_end_position = ring_buffer_get_index (bsm_content m);
     position \<leftarrow> hash_chain_get_first_position_by_hash (bsm_chain m) hash;
     bsm_find_loop BSM_MAX_HYPOTHESIS m source source_position buffer_end_position position BSM_MATCH_EMPTY
   }"

section \<open>The search window\<close>

definition bsm_repr :: "byte_stream_matcher \<Rightarrow> byte list \<Rightarrow> bool" where
  "bsm_repr m hist \<longleftrightarrow> ring_hist (bsm_content m) 16 hist \<and> chain_ok (bsm_chain m) 65536"

lemma BSM_LENGTH_value: "BSM_LENGTH = 65536" and BSM_MATCH_LENGTH_LIMIT_value: "BSM_MATCH_LENGTH_LIMIT = 4096"
  by (simp_all add: BSM_LENGTH_def BSM_LENGTH_SHIFT_def BSM_MATCH_LENGTH_LIMIT_def
      BSM_MATCH_LENGTH_SHIFT_def push_bit_eq_mult)

lemma bsm_push_correct:
  assumes "bsm_repr m hist"
  shows "\<exists>m'. bsm_push m b = Some m' \<and> bsm_repr m' (hist @ [b])"
proof -
  from assms ring_hist_push [of "bsm_content m" 16 hist b] obtain rb where
    rb: "ring_buffer_push (bsm_content m) b = Some rb" "ring_hist rb 16 (hist @ [b])"
    by (auto simp: bsm_repr_def)
  define m1 where "m1 = m\<lparr>bsm_content := rb\<rparr>"
  obtain h m2 where h: "bsm_update_rolling_hash m1 b = (h, m2)" by fastforce
  then have m2: "bsm_chain m2 = bsm_chain m" "bsm_content m2 = rb"
    by (auto simp: bsm_update_rolling_hash_def m1_def Let_def)
  define i where "i = (word_of_int (ring_buffer_get_index (bsm_content m)) :: u16)"
  define t where "t = (word_of_int (if uint i - int BSM_HASH_LENGTH_BYTES + 1 < 0
      then uint i - int BSM_HASH_LENGTH_BYTES + 1 + BSM_LENGTH
      else uint i - int BSM_HASH_LENGTH_BYTES + 1) :: u16)"
  have "chain_ok (bsm_chain m2) 65536" using assms m2(1) by (simp add: bsm_repr_def)
  from hash_chain_push_ok [OF this hash_range [of t], of h] obtain ch where
    ch: "hash_chain_push (bsm_chain m2) h (uint t) = Some ch" "chain_ok ch 65536" by auto
  have "bsm_push m b = Some (m2\<lparr>bsm_chain := ch\<rparr>)"
    using rb(1) ch(1) h unfolding bsm_push_def bsm_update_hash_chain_def Let_def i_def [symmetric]
      t_def [symmetric] m1_def by (simp add: Let_def t_def)
  then show ?thesis using rb(2) ch(2) m2(2) by (simp add: bsm_repr_def)
qed

text \<open>\<open>back hist d\<close>: the last \<open>d\<close> bytes of the stream.\<close>

definition back_bytes :: "byte list \<Rightarrow> nat \<Rightarrow> byte list" where
  "back_bytes hist d = drop (length hist - d) hist"

lemma back_bytes_nth:
  "d \<le> length hist \<Longrightarrow> i < d \<Longrightarrow> back_bytes hist d ! i = hist ! (length hist - d + i)"
  by (simp add: back_bytes_def)

lemma length_back_bytes: "d \<le> length hist \<Longrightarrow> length (back_bytes hist d) = d"
  by (simp add: back_bytes_def)

lemma ring_get_back:
  assumes "ring_hist rb k hist" and "d \<le> 2 ^ k" and "i < d"
    and "p mod 2 ^ k = int (length hist - d) mod 2 ^ k"
  shows "ring_buffer_get rb (p + int i) = Some (back_bytes hist d ! i)"
proof -
  have len: "2 ^ k \<le> length hist" using assms(1) by (simp add: ring_hist_def)
  have dl: "d \<le> length hist" using assms(2) len by simp
  have "(p + int i) mod 2 ^ k = (p mod 2 ^ k + int i) mod 2 ^ k" by (simp add: mod_add_left_eq)
  also have "\<dots> = int (length hist - d + i) mod 2 ^ k" unfolding assms(4) by (simp add: mod_add_left_eq)
  finally have m: "(p + int i) mod 2 ^ k = int (length hist - d + i) mod 2 ^ k" .
  have "length hist - d + i < length hist" using assms(3) dl by simp
  moreover have "length hist \<le> length hist - d + i + 2 ^ k" using assms(2) dl by linarith
  ultimately show ?thesis using ring_hist_get [OF assms(1) _ _ m] back_bytes_nth [OF dl assms(3)] by simp
qed

lemma bsm_compare_loop_correct:
  assumes "ring_hist content kc H" and "ring_hist source ks S"
    and "D \<le> 2 ^ kc" and "n \<le> 2 ^ ks"
    and "p mod 2 ^ kc = int (length H - D) mod 2 ^ kc" and "q mod 2 ^ ks = int (length S - n) mod 2 ^ ks"
    and "lim = len + k" and "lim \<le> D" and "lim \<le> n" and "take len (back_bytes H D) = take len (back_bytes S n)"
  shows "\<exists>r \<le> lim. bsm_compare_loop k (int lim) (int len) content p source q = Some (int r) \<and>
     take r (back_bytes H D) = take r (back_bytes S n)"
  using assms(7-10)
proof (induction k arbitrary: len)
  case 0
  then show ?case by auto
next
  case (Suc k)
  have l: "len < D" "len < n" using Suc.prems by simp_all
  have h: "ring_buffer_get content (p + int len) = Some (back_bytes H D ! len)"
    using ring_get_back [OF assms(1,3) l(1) assms(5)] .
  have sb: "ring_buffer_get source (q + int len) = Some (back_bytes S n ! len)"
    using ring_get_back [OF assms(2,4) l(2) assms(6)] .
  have "D \<le> length H" "n \<le> length S" using assms(1-4) by (auto simp: ring_hist_def)
  then have lens: "len < length (back_bytes H D)" "len < length (back_bytes S n)"
    using l by (simp_all add: length_back_bytes)
  show ?case
  proof (cases "back_bytes H D ! len = back_bytes S n ! len")
    case False
    then show ?thesis using h sb Suc.prems(1,4) by (intro exI [of _ len]) simp
  next
    case True
    have "take (Suc len) (back_bytes H D) = take (Suc len) (back_bytes S n)"
      using lens True Suc.prems(4) by (simp add: take_Suc_conv_app_nth)
    with Suc.IH [of "Suc len"] Suc.prems obtain r where
      "r \<le> lim" "bsm_compare_loop k (int lim) (int (Suc len)) content p source q = Some (int r)"
      "take r (back_bytes H D) = take r (back_bytes S n)" by auto
    then show ?thesis using h sb True by (intro exI [of _ r]) (simp add: add.commute)
  qed
qed

text \<open>Distance from a position back from the end of the window, as the code computes it.\<close>

lemma wrap_distance:
  assumes "p < 2 ^ k" and "(x :: nat) \<ge> 2 ^ k"
  defines "D \<equiv> nat ((int (x mod 2 ^ k) - int p) mod 2 ^ k)"
  shows "(if int (x mod 2 ^ k) < int p then int (x mod 2 ^ k) + 2 ^ k else int (x mod 2 ^ k)) - int p = int D"
    and "(if int (x mod 2 ^ k) - int p < 0 then int (x mod 2 ^ k) - int p + 2 ^ k
          else int (x mod 2 ^ k) - int p) = int D"
    and "D < 2 ^ k" and "int p mod 2 ^ k = int (x - D) mod 2 ^ k"
proof -
  have b: "int (x mod 2 ^ k) < 2 ^ k" "int p < 2 ^ k"
    using assms(1) by (simp_all add: zmod_int)
  have D: "int D = (int (x mod 2 ^ k) - int p) mod 2 ^ k" by (simp add: D_def)
  have val: "int D = (if int (x mod 2 ^ k) < int p then int (x mod 2 ^ k) - int p + 2 ^ k
      else int (x mod 2 ^ k) - int p)"
  proof (cases "int (x mod 2 ^ k) < int p")
    case True
    then have "(int (x mod 2 ^ k) - int p) mod 2 ^ k = int (x mod 2 ^ k) - int p + 2 ^ k"
      using b mod_add_self2 [of "int (x mod 2 ^ k) - int p" "2 ^ k"]
        mod_pos_pos_trivial [of "int (x mod 2 ^ k) - int p + 2 ^ k" "2 ^ k"] by linarith
    then show ?thesis using True D by simp
  next
    case False
    have "int (x mod 2 ^ k) - int p < 2 ^ k" using b by linarith
    then have "(int (x mod 2 ^ k) - int p) mod 2 ^ k = int (x mod 2 ^ k) - int p"
      using False by (intro mod_pos_pos_trivial) linarith+
    then show ?thesis using False D by simp
  qed
  show "(if int (x mod 2 ^ k) < int p then int (x mod 2 ^ k) + 2 ^ k else int (x mod 2 ^ k)) - int p = int D"
    using val by (simp split: if_splits)
  show "(if int (x mod 2 ^ k) - int p < 0 then int (x mod 2 ^ k) - int p + 2 ^ k
          else int (x mod 2 ^ k) - int p) = int D" using val by (simp split: if_splits)
  have "int D < 2 ^ k" unfolding D by simp
  then have "int D < int (2 ^ k)" by simp
  then show lt: "D < 2 ^ k" by (simp only: of_nat_less_iff)
  have "int (x - D) mod 2 ^ k = (int x mod 2 ^ k - int D) mod 2 ^ k"
    using lt assms(2) by (simp add: of_nat_diff mod_diff_left_eq)
  also have "\<dots> = (int (x mod 2 ^ k) - (int (x mod 2 ^ k) - int p) mod 2 ^ k) mod 2 ^ k"
    by (simp only: D zmod_int of_nat_power of_nat_numeral)
  also have "\<dots> = int p mod 2 ^ k" by (simp only: mod_diff_right_eq) simp
  finally show "int p mod 2 ^ k = int (x - D) mod 2 ^ k" by simp
qed

definition good_match :: "byte list \<Rightarrow> byte list \<Rightarrow> nat \<Rightarrow> nat \<Rightarrow> bool" where
  "good_match hist pending off len \<longleftrightarrow> len \<le> off \<and> off < 65536 \<and> len \<le> length pending \<and>
     take len (back_bytes hist off) = take len pending"

lemma bsm_check_match_correct:
  assumes "bsm_repr m hist" and "ring_hist source 12 S" and "0 < n" and "n < 4096" and "p < 65536"
  defines "D \<equiv> nat ((int (length hist mod 2 ^ 16) - int p) mod 2 ^ 16)"
  shows "\<exists>r. bsm_check_match_starting_at m (int p) source (int ((length S - n) mod 2 ^ 12)) = Some (int r) \<and>
     good_match hist (back_bytes S n) D r"
proof -
  have H: "ring_hist (bsm_content m) 16 hist" using assms(1) by (simp add: bsm_repr_def)
  have Hl: "2 ^ 16 \<le> length hist" and Sl: "2 ^ 12 \<le> length S"
    using H assms(2) by (simp_all only: ring_hist_def)
  have p16: "p < 2 ^ 16" using assms(5) by simp
  note wd = wrap_distance [OF p16 Hl, folded D_def]
  have q12: "(length S - n) mod 2 ^ 12 < 2 ^ 12" by simp
  have n12: "n < 2 ^ 12" using assms(4) by simp
  have src: "(int (length S mod 2 ^ 12) - int ((length S - n) mod 2 ^ 12)) mod 2 ^ 12 = int n"
  proof -
    have "(int (length S mod 2 ^ 12) - int ((length S - n) mod 2 ^ 12)) mod 2 ^ 12 =
        (int (length S) - int (length S - n)) mod 2 ^ 12"
      by (simp only: zmod_int of_nat_power of_nat_numeral mod_diff_eq)
    also have "\<dots> = int n mod 2 ^ 12" using Sl n12 by (simp add: of_nat_diff)
    finally show ?thesis using n12 by simp
  qed
  note ws = wrap_distance [OF q12 Sl, unfolded src nat_int]
  define lim where "lim = (if D < n then D else n)"
  have "\<exists>r \<le> lim. bsm_compare_loop lim (int lim) (int 0) (bsm_content m) (int p) source
        (int ((length S - n) mod 2 ^ 12)) = Some (int r) \<and>
      take r (back_bytes hist D) = take r (back_bytes S n)"
    using wd(3,4) n12 ws(4)
    by (intro bsm_compare_loop_correct [OF H assms(2)]) (simp_all add: lim_def)
  then obtain r where r: "r \<le> lim" "bsm_compare_loop lim (int lim) 0 (bsm_content m) (int p) source
        (int ((length S - n) mod 2 ^ 12)) = Some (int r)"
      "take r (back_bytes hist D) = take r (back_bytes S n)" by auto
  have "bsm_check_match_starting_at m (int p) source (int ((length S - n) mod 2 ^ 12)) =
      bsm_compare_loop (nat (if int D < int n then int D else int n)) (if int D < int n then int D else int n) 0 (bsm_content m) (int p) source
        (int ((length S - n) mod 2 ^ 12))"
    unfolding bsm_check_match_starting_at_def Let_def ring_hist_index [OF H] ring_hist_index [OF assms(2)]
      ring_hist_length [OF H] ring_hist_length [OF assms(2)] wd(1) ws(1) by (rule refl)
  also have "(if int D < int n then int D else int n) = int lim" by (simp add: lim_def)
  finally show ?thesis
    unfolding nat_int using r wd(3) Sl n12 by (auto simp: good_match_def lim_def length_back_bytes split: if_splits)
qed

lemma bsm_find_loop_correct:
  assumes "bsm_repr m hist" and "ring_hist source 12 S" and "0 < n" and "n < 4096" and "p < 65536"
    and "\<exists>off len. result = \<lparr>match_offset = int off, match_length = int len\<rparr> \<and>
           good_match hist (back_bytes S n) off len"
  shows "\<exists>off len. bsm_find_loop k m source (int ((length S - n) mod 2 ^ 12))
       (ring_buffer_get_index (bsm_content m)) (int p) result =
       Some \<lparr>match_offset = int off, match_length = int len\<rparr> \<and> good_match hist (back_bytes S n) off len"
  using assms(5,6)
proof (induction k arbitrary: p result)
  case 0
  then show ?case by auto
next
  case (Suc k)
  define D where "D = nat ((int (length hist mod 2 ^ 16) - int p) mod 2 ^ 16)"
  have H: "ring_hist (bsm_content m) 16 hist" using assms(1) by (simp add: bsm_repr_def)
  have Hl: "2 ^ 16 \<le> length hist" using H by (simp only: ring_hist_def)
  have p16: "p < 2 ^ 16" using Suc.prems(1) by simp
  note wd = wrap_distance(2) [OF p16 Hl, folded D_def]
  from bsm_check_match_correct [OF assms(1-4) Suc.prems(1), folded D_def] obtain r where
    r: "bsm_check_match_starting_at m (int p) source (int ((length S - n) mod 2 ^ 12)) = Some (int r)"
      "good_match hist (back_bytes S n) D r" by blast
  from hash_chain_previous_ok [of "bsm_chain m" 65536 p] assms(1) Suc.prems(1) obtain q where
    q: "q < 65536" "hash_chain_get_previous_position_by_position (bsm_chain m) (int p) = Some (int q)"
    by (auto simp: bsm_repr_def)
  have off: "(if ring_buffer_get_index (bsm_content m) - int p < 0
      then ring_buffer_get_index (bsm_content m) - int p + BSM_LENGTH
      else ring_buffer_get_index (bsm_content m) - int p) = int D"
  proof -
    have "BSM_LENGTH = 2 ^ 16" by (simp add: BSM_LENGTH_value)
    then show ?thesis using wd by (simp only: ring_hist_index [OF H])
  qed
  define result' where "result' = \<lparr>match_offset = int D, match_length = int r\<rparr>"
  have res: "result\<lparr>match_length := int r, match_offset := int D\<rparr> = result'"
    by (simp add: result'_def)
  have better: "\<exists>off len. result' = \<lparr>match_offset = int off, match_length = int len\<rparr> \<and>
      good_match hist (back_bytes S n) off len" using r(2) by (auto simp: result'_def)
  note ih = Suc.IH [OF q(1) Suc.prems(2)] Suc.IH [OF q(1) better]
  show ?case
    using ih better
    unfolding bsm_find_loop.simps r(1) q(2) bind.bind_lunit Let_def off res
    by (simp split: if_splits)
qed

lemma bsm_find_match_correct:
  assumes "bsm_repr m hist" and "ring_hist source 12 S" and "4 \<le> n" and "n < 4096"
  shows "\<exists>off len. bsm_find_match m source (int ((length S - n) mod 2 ^ 12)) =
       Some \<lparr>match_offset = int off, match_length = int len\<rparr> \<and> good_match hist (back_bytes S n) off len"
proof -
  let ?q = "int ((length S - n) mod 2 ^ 12)"
  have Sl: "2 ^ 12 \<le> length S" using assms(2) by (simp only: ring_hist_def)
  have "\<exists>h. bsm_hash_loop k (int i) source ?q h0 = Some h" if "i + k \<le> n" for i k h0
    using that
  proof (induction k arbitrary: i h0)
    case (Suc k)
    have "ring_buffer_get source (?q + int i) = Some (back_bytes S n ! i)"
      using Suc.prems assms(4) by (intro ring_get_back [OF assms(2)]) (simp_all add: zmod_int)
    then show ?case using Suc.IH [of "Suc i"] Suc.prems by (simp add: add.commute)
  qed simp
  from this [of 0 4 0] assms(3) obtain h where h: "bsm_calc_hash_at source ?q = Some h"
    by (auto simp: bsm_calc_hash_at_def BSM_HASH_LENGTH_BYTES_def)
  from hash_chain_first_ok [of "bsm_chain m" 65536 h] assms(1) obtain p where
    p: "p < 65536" "hash_chain_get_first_position_by_hash (bsm_chain m) h = Some (int p)"
    by (auto simp: bsm_repr_def)
  have "good_match hist (back_bytes S n) 0 0" by (simp add: good_match_def)
  then have e: "\<exists>off len. BSM_MATCH_EMPTY = \<lparr>match_offset = int off, match_length = int len\<rparr> \<and>
      good_match hist (back_bytes S n) off len"
    by (intro exI [of _ 0]) (simp add: BSM_MATCH_EMPTY_def)
  have "0 < n" using assms(3) by simp
  from bsm_find_loop_correct [OF assms(1,2) this assms(4) p(1) e] h p(2) show ?thesis
    by (simp add: bsm_find_match_def)
qed

end
