(* ===== verification/String_Base.thy ===== *)
theory String_Base
  imports Uint_Codec Byte_Stream_Matcher
begin

text \<open>
  \<open>src/string_compression/string_compression_base.c\<close>, and what the string compressor and
  decompressor share: a stream of bytes is coded as a list of items, each a literal byte, a
  back reference or the end mark.  \<open>expand hist items\<close> is the text the items stand for after
  the stream \<open>hist\<close>.
\<close>

definition STRCOMP_MIN_BACKREFERENCE_LENGTH :: int where "STRCOMP_MIN_BACKREFERENCE_LENGTH = 5"
definition STRCOMP_BACKREFERENCE_SYMBOL :: int where "STRCOMP_BACKREFERENCE_SYMBOL = 256"

record string_compression_base =
  main_symbol_table :: ftable
  offset_tables :: uint_freq_tables
  length_tables :: uint_freq_tables

definition strcomp_deinit_base :: "string_compression_base \<Rightarrow> string_compression_base" where
  "strcomp_deinit_base b = \<lparr>main_symbol_table = ftable_deinit (main_symbol_table b),
     offset_tables = uint_freq_tables_deinit (offset_tables b),
     length_tables = uint_freq_tables_deinit (length_tables b)\<rparr>"

definition strcomp_init_base :: "ctx \<Rightarrow> (string_compression_base \<times> ctx) option" where
  "strcomp_init_base c = do {
     (t, c) \<leftarrow> ftable_init c (STRCOMP_BACKREFERENCE_SYMBOL + 1) (FTABLE_INIT_ONE OR FTABLE_INCLUDE_EOF);
     (ot, c) \<leftarrow> uint_freq_tables_init c (word_of_int BSM_LENGTH);
     (lt, c) \<leftarrow> uint_freq_tables_init c (word_of_int BSM_MATCH_LENGTH_LIMIT);
     Some (\<lparr>main_symbol_table = t, offset_tables = ot, length_tables = lt\<rparr>, c)
   }"

text \<open>
  \<open>_strcomp_write_backreference\<close> uses of the compressor only its base and its encoder.
\<close>

definition strcomp_write_backreference ::
  "string_compression_base \<Rightarrow> acod_encoder \<Rightarrow> ctx \<Rightarrow> int \<Rightarrow> int \<Rightarrow>
   (string_compression_base \<times> acod_encoder \<times> ctx) option" where
  "strcomp_write_backreference b e c off len = do {
     (e, c) \<leftarrow> acod_encoder_write e c (main_symbol_table b) STRCOMP_BACKREFERENCE_SYMBOL;
     t \<leftarrow> ftable_increment (main_symbol_table b) STRCOMP_BACKREFERENCE_SYMBOL;
     (ot, e, c) \<leftarrow> uint_writer_write (offset_tables b) e c (word_of_int (off - len));
     (lt, e, c) \<leftarrow> uint_writer_write (length_tables b) e c (word_of_int len);
     Some (b\<lparr>main_symbol_table := t, offset_tables := ot, length_tables := lt\<rparr>, e, c)
   }"

section \<open>Items\<close>

datatype item = Literal byte | Backreference nat nat | End_Of_String

type_synonym string_model = "nat list \<times> uint_model \<times> uint_model"

definition string_repr :: "string_compression_base \<Rightarrow> string_model \<Rightarrow> bool" where
  "string_repr b m \<longleftrightarrow> (case m of (F, W, N) \<Rightarrow> ftable_repr (main_symbol_table b) F \<and> length F = 258 \<and>
     uint_repr (offset_tables b) W \<and> uint_repr (length_tables b) N)"

definition item_script :: "string_model \<Rightarrow> item \<Rightarrow> script" where
  "item_script m it = (case m of (F, W, N) \<Rightarrow> case it of
     Literal b \<Rightarrow> [(F, unat b)]
   | Backreference off len \<Rightarrow>
       (F, 256) # uint_script W (of_nat (off - len)) @ uint_script N (of_nat len)
   | End_Of_String \<Rightarrow> [(F, 257)])"

definition item_adapt :: "string_model \<Rightarrow> item \<Rightarrow> string_model" where
  "item_adapt m it = (case m of (F, W, N) \<Rightarrow> case it of
     Literal b \<Rightarrow> (bump F (unat b), W, N)
   | Backreference off len \<Rightarrow>
       (bump F 256, uint_adapt W (of_nat (off - len)), uint_adapt N (of_nat len))
   | End_Of_String \<Rightarrow> (bump F 257, W, N))"

definition item_ok :: "string_model \<Rightarrow> item \<Rightarrow> bool" where
  "item_ok m it \<longleftrightarrow> (\<forall>p\<in>set (item_script m it). codable p) \<and> sum_list (fst m) < 2 ^ 30 \<and>
     (case it of Backreference off len \<Rightarrow> len \<le> off \<and> off < 65536 | _ \<Rightarrow> True)"

definition encode_item :: "string_compression_base \<Rightarrow> acod_encoder \<Rightarrow> ctx \<Rightarrow> item \<Rightarrow>
    (string_compression_base \<times> acod_encoder \<times> ctx) option" where
  "encode_item b e c it = (case it of
     Literal x \<Rightarrow> do {
       (t, e, c) \<leftarrow> encode_symbol (main_symbol_table b) e c (uint x);
       Some (b\<lparr>main_symbol_table := t\<rparr>, e, c)
     }
   | Backreference off len \<Rightarrow> strcomp_write_backreference b e c (int off) (int len)
   | End_Of_String \<Rightarrow> do {
       (t, e, c) \<leftarrow> encode_symbol (main_symbol_table b) e c (ftable_get_eof_symbol (main_symbol_table b));
       Some (b\<lparr>main_symbol_table := t\<rparr>, e, c)
     })"

definition decode_item :: "string_compression_base \<Rightarrow> acod_decoder \<Rightarrow> ctx \<Rightarrow>
    (item \<times> string_compression_base \<times> acod_decoder \<times> ctx) option" where
  "decode_item b d c = do {
     (s, t, d, c) \<leftarrow> decode_symbol (main_symbol_table b) d c;
     let b = b\<lparr>main_symbol_table := t\<rparr>;
     if s = ftable_get_eof_symbol t then Some (End_Of_String, b, d, c)
     else if s = STRCOMP_BACKREFERENCE_SYMBOL then do {
       (off, ot, d, c) \<leftarrow> uint_reader_read (offset_tables b) d c;
       (len, lt, d, c) \<leftarrow> uint_reader_read (length_tables b) d c;
       Some (Backreference (unat off + unat len) (unat len),
             b\<lparr>offset_tables := ot, length_tables := lt\<rparr>, d, c)
     } else Some (Literal (word_of_int s), b, d, c)
   }"

section \<open>The codec contract\<close>

lemma write_backreference_symbol:
  "strcomp_write_backreference b e c off len = do {
     (t, e, c) \<leftarrow> encode_symbol (main_symbol_table b) e c STRCOMP_BACKREFERENCE_SYMBOL;
     (ot, e, c) \<leftarrow> uint_writer_write (offset_tables b) e c (word_of_int (off - len));
     (lt, e, c) \<leftarrow> uint_writer_write (length_tables b) e c (word_of_int len);
     Some (b\<lparr>main_symbol_table := t, offset_tables := ot, length_tables := lt\<rparr>, e, c)
   }"
  by (simp add: strcomp_write_backreference_def encode_symbol_def case_prod_unfold)

lemma eof_symbol: "ftable_repr t F \<Longrightarrow> length F = 258 \<Longrightarrow> ftable_get_eof_symbol t = 257"
  using ftable_limit [of t F] by (simp add: ftable_get_eof_symbol_def)

lemma encode_symbol_correct:
  assumes "ftable_repr t fs" and "codable (fs, s)" and "encoder_holds M e c pre" and "length pre + 1 < 2 ^ 56"
  shows "\<exists>t' e' c'. encode_symbol t e c (int s) = Some (t', e', c') \<and> ftable_repr t' (bump fs s) \<and>
     encoder_holds M e' c' (pre @ [(fs, s)])"
  using sym.encode_holds [OF assms(1) _ assms(3), of "int s"] assms(2,4) by (simp add: symbol_ok_def)

lemma decode_symbol_correct:
  assumes "ftable_repr t fs" and "decoder_ready d ((fs, s) # rest)"
  shows "\<exists>t' d'. decode_symbol t d c = Some (int s, t', d', c) \<and> ftable_repr t' (bump fs s) \<and>
     decoder_ready d' rest"
proof -
  have "symbol_ok fs (int s)" using assms(2) by (simp add: symbol_ok_def decoder_ready_def)
  from sym.decode_ready [OF assms(1) this, of d rest c] assms(2) show ?thesis by simp
qed

lemma encode_item_holds:
  assumes "string_repr b m" and "item_ok m it" and "encoder_holds M e c pre"
    and "length pre + length (item_script m it) < 2 ^ 56"
  shows "\<exists>b' e' c'. encode_item b e c it = Some (b', e', c') \<and> string_repr b' (item_adapt m it) \<and>
     encoder_holds M e' c' (pre @ item_script m it)"
proof -
  obtain F W N where m: "m = (F, W, N)" by (cases m)
  have r: "ftable_repr (main_symbol_table b) F" "length F = 258" "uint_repr (offset_tables b) W"
    "uint_repr (length_tables b) N" using assms(1) by (simp_all add: string_repr_def m)
  have small: "sum_list F < 2 ^ 30" using assms(2) by (simp add: item_ok_def m)
  have lens: "length (bump F s) = 258" for s using r(2) by simp
  show ?thesis
  proof (cases it)
    case (Literal x)
    have "codable (F, unat x)" using assms(2) by (simp add: item_ok_def item_script_def m Literal)
    moreover have "length pre + 1 < 2 ^ 56" using assms(4) by (simp add: item_script_def m Literal)
    ultimately show ?thesis using encode_symbol_correct [OF r(1) _ assms(3), of "unat x"] r lens
      by (auto simp: encode_item_def item_script_def item_adapt_def m Literal string_repr_def)
  next
    case End_Of_String
    have "codable (F, 257)" using assms(2) by (simp add: item_ok_def item_script_def m End_Of_String)
    moreover have "length pre + 1 < 2 ^ 56" using assms(4) by (simp add: item_script_def m End_Of_String)
    ultimately show ?thesis using encode_symbol_correct [OF r(1) _ assms(3), of 257] r lens
      by (auto simp: encode_item_def item_script_def item_adapt_def m End_Of_String string_repr_def eof_symbol)
  next
    case (Backreference off len)
    have ok: "codable (F, 256)" "uint_ok W (of_nat (off - len))" "uint_ok N (of_nat len)" "len \<le> off"
      using assms(2) by (simp_all add: item_ok_def item_script_def m Backreference uint_ok_def)
    have lengths: "length pre + 1 < 2 ^ 56"
      "length (pre @ [(F, 256)]) + length (uint_script W (of_nat (off - len))) < 2 ^ 56"
      "length ((pre @ [(F, 256)]) @ uint_script W (of_nat (off - len))) +
         length (uint_script N (of_nat len)) < 2 ^ 56"
      using assms(4) by (simp_all add: item_script_def m Backreference)
    from encode_symbol_correct [OF r(1) ok(1) assms(3) lengths(1)] obtain t e1 c1 where
      s: "encode_symbol (main_symbol_table b) e c 256 = Some (t, e1, c1)" "ftable_repr t (bump F 256)"
        "encoder_holds M e1 c1 (pre @ [(F, 256)])" by auto
    from ui.encode_holds [OF r(3) ok(2) s(3) lengths(2)] obtain ot e2 c2 where
      o: "uint_writer_write (offset_tables b) e1 c1 (of_nat (off - len)) = Some (ot, e2, c2)"
        "uint_repr ot (uint_adapt W (of_nat (off - len)))"
        "encoder_holds M e2 c2 ((pre @ [(F, 256)]) @ uint_script W (of_nat (off - len)))" by blast
    from ui.encode_holds [OF r(4) ok(3) o(3) lengths(3)] obtain lt e3 c3 where
      l: "uint_writer_write (length_tables b) e2 c2 (of_nat len) = Some (lt, e3, c3)"
        "uint_repr lt (uint_adapt N (of_nat len))"
        "encoder_holds M e3 c3 (((pre @ [(F, 256)]) @ uint_script W (of_nat (off - len))) @ uint_script N (of_nat len))"
      by blast
    have w: "(word_of_int (int off - int len) :: u64) = of_nat (off - len)"
      using ok(4) by (simp add: of_nat_diff)
    have "encode_item b e c it =
        Some (b\<lparr>main_symbol_table := t, offset_tables := ot, length_tables := lt\<rparr>, e3, c3)"
      unfolding encode_item_def Backreference item.case write_backreference_symbol
        STRCOMP_BACKREFERENCE_SYMBOL_def w of_int_of_nat_eq s(1) bind.bind_lunit prod.case o(1) l(1) by (rule refl)
    then show ?thesis using s(2) o(2) l(2,3) lens
      by (simp add: string_repr_def item_adapt_def item_script_def m Backreference)
  qed
qed

lemma decode_item_ready:
  assumes "string_repr b m" and "item_ok m it" and "decoder_ready d (item_script m it @ rest)"
  shows "\<exists>b' d'. decode_item b d c = Some (it, b', d', c) \<and> string_repr b' (item_adapt m it) \<and>
     decoder_ready d' rest"
proof -
  obtain F W N where m: "m = (F, W, N)" by (cases m)
  have r: "ftable_repr (main_symbol_table b) F" "length F = 258" "uint_repr (offset_tables b) W"
    "uint_repr (length_tables b) N" using assms(1) by (simp_all add: string_repr_def m)
  have small: "sum_list F < 2 ^ 30" using assms(2) by (simp add: item_ok_def m)
  have lens: "length (bump F s) = 258" for s using r(2) by simp
  have eof: "ftable_get_eof_symbol t = 257" if "ftable_repr t (bump F s)" for t s
    using eof_symbol [OF that] lens by simp
  show ?thesis
  proof (cases it)
    case (Literal x)
    have "uint x < 256" using unsigned_less [of x, where 'a = int] by simp
    moreover have "decoder_ready d ((F, unat x) # rest)" using assms(3) by (simp add: item_script_def m Literal)
    from decode_symbol_correct [OF r(1) this, of c] obtain t d1 where
      "decode_symbol (main_symbol_table b) d c = Some (int (unat x), t, d1, c)"
      "ftable_repr t (bump F (unat x))" "decoder_ready d1 rest" by blast
    ultimately show ?thesis using r lens eof
      by (simp add: decode_item_def item_adapt_def m Literal string_repr_def STRCOMP_BACKREFERENCE_SYMBOL_def
          Let_def)
  next
    case End_Of_String
    have "decoder_ready d ((F, 257) # rest)" using assms(3) by (simp add: item_script_def m End_Of_String)
    from decode_symbol_correct [OF r(1) this, of c] obtain t d1 where
      "decode_symbol (main_symbol_table b) d c = Some (257, t, d1, c)"
      "ftable_repr t (bump F 257)" "decoder_ready d1 rest" by auto
    then show ?thesis using r lens eof
      by (simp add: decode_item_def item_adapt_def m End_Of_String string_repr_def)
  next
    case (Backreference off len)
    have ok: "uint_ok W (of_nat (off - len))" "uint_ok N (of_nat len)" "len \<le> off" "off < 65536"
      using assms(2) by (simp_all add: item_ok_def item_script_def m Backreference uint_ok_def)
    have "decoder_ready d ((F, 256) # (uint_script W (of_nat (off - len)) @ (uint_script N (of_nat len) @ rest)))"
      using assms(3) by (simp add: item_script_def m Backreference)
    from decode_symbol_correct [OF r(1) this, of c] obtain t d1 where
      s: "decode_symbol (main_symbol_table b) d c = Some (256, t, d1, c)" "ftable_repr t (bump F 256)"
        "decoder_ready d1 (uint_script W (of_nat (off - len)) @ (uint_script N (of_nat len) @ rest))" by auto
    from ui.decode_ready [OF r(3) ok(1) s(3), of c] obtain ot d2 where
      o: "uint_reader_read (offset_tables b) d1 c = Some (of_nat (off - len), ot, d2, c)"
        "uint_repr ot (uint_adapt W (of_nat (off - len)))" "decoder_ready d2 (uint_script N (of_nat len) @ rest)"
      by blast
    from ui.decode_ready [OF r(4) ok(2) o(3), of c] obtain lt d3 where
      l: "uint_reader_read (length_tables b) d2 c = Some (of_nat len, lt, d3, c)"
        "uint_repr lt (uint_adapt N (of_nat len))" "decoder_ready d3 rest" by blast
    have u: "unat (of_nat (off - len) :: u64) = off - len" "unat (of_nat len :: u64) = len"
      using ok(3,4) by (auto intro!: unat_of_nat_small simp del: of_nat_diff)
    have "decode_item b d c = Some (it, b\<lparr>main_symbol_table := t, offset_tables := ot, length_tables := lt\<rparr>, d3, c)"
      using s(1) o(1) l(1) eof [OF s(2)] ok(3) u
      by (simp add: decode_item_def Backreference STRCOMP_BACKREFERENCE_SYMBOL_def Let_def)
    then show ?thesis using s(2) o(2) l(2,3) lens
      by (simp add: string_repr_def item_adapt_def m Backreference)
  qed
qed

interpretation it: symbol_codec encode_item decode_item string_repr item_script item_adapt item_ok
  using encode_item_holds decode_item_ready by unfold_locales (auto simp: item_ok_def)

section \<open>Fresh tables and their capacity\<close>

definition string_fresh :: string_model where
  "string_fresh = (replicate 258 1, uint_fresh 65536, uint_fresh 4096)"

definition item_fits :: "item \<Rightarrow> bool" where
  "item_fits it \<longleftrightarrow> (case it of Backreference off len \<Rightarrow> len \<le> off \<and> off < 65536 \<and> len < 4096 | _ \<Rightarrow> True)"

definition string_roomy :: "string_model \<Rightarrow> nat \<Rightarrow> bool" where
  "string_roomy m k \<longleftrightarrow> (case m of (F, W, N) \<Rightarrow> roomy F k \<and> length F = 258 \<and>
     uint_roomy W k \<and> uint_limit W = 5 \<and> uint_roomy N k \<and> uint_limit N = 4)"

lemma group_count_le: "unat v < 2 ^ (4 * g) \<Longrightarrow> group_count v \<le> g"
proof (cases "v = 0")
  case False
  assume lt: "unat v < 2 ^ (4 * g)"
  obtain k where k: "most_significant_bit_index v = int k" "2 ^ k \<le> unat v"
    using False by (rule msb_index_nonzero)
  have "(2 :: nat) ^ k < 2 ^ (4 * g)" using k(2) lt by (rule le_less_trans)
  then have "k < 4 * g" by (simp only: power_strict_increasing_iff)
  then show ?thesis by (simp add: group_count_def k(1) nat_div_distrib nat_add_distrib)
qed (simp add: group_count_def)

lemma msb_index_power:
  assumes "unat x = 2 ^ k" and "k < 64"
  shows "most_significant_bit_index x = int k"
proof -
  have "x \<noteq> 0" using assms by auto
  then obtain j where j: "most_significant_bit_index x = int j" "2 ^ j \<le> unat x" "unat x < 2 ^ Suc j"
    by (rule msb_index_nonzero)
  have "j \<le> k" using j(2) unfolding assms(1) by simp
  moreover have "(2 :: nat) ^ k < 2 ^ Suc j" using j(3) unfolding assms(1) .
  then have "k < Suc j" by (simp only: power_strict_increasing_iff)
  ultimately show ?thesis using j(1) by simp
qed

lemma uint_symbols_values: "uint_symbols 65536 = 5" "uint_symbols 4096 = 4"
  using msb_index_power [of 65536 16] msb_index_power [of 4096 12] by (simp_all add: uint_symbols_def)

lemma string_roomy_fresh: "n \<le> 2 ^ 28 \<Longrightarrow> string_roomy string_fresh n"
  using uint_roomy_fresh [of n]
  by (simp add: string_roomy_def string_fresh_def roomy_def sum_list_replicate uint_symbols_values)

lemma roomy_less: "roomy fs n \<Longrightarrow> k \<le> n \<Longrightarrow> roomy fs k"
  by (simp add: roomy_def)

lemma uint_roomy_less: "uint_roomy u n \<Longrightarrow> k \<le> n \<Longrightarrow> uint_roomy u k"
  by (auto simp: uint_roomy_def dest: roomy_less split: prod.splits)

lemma string_roomy_less: "string_roomy m n \<Longrightarrow> k \<le> n \<Longrightarrow> string_roomy m k"
  by (auto simp: string_roomy_def dest: roomy_less uint_roomy_less)

lemma string_roomy_step:
  assumes "string_roomy m (Suc k)" and "item_fits it"
  shows "item_ok m it" and "string_roomy (item_adapt m it) k"
proof -
  obtain F W N where m: "m = (F, W, N)" by (cases m)
  have r: "roomy F (Suc k)" "length F = 258" "uint_roomy W (Suc k)" "uint_limit W = 5"
    "uint_roomy N (Suc k)" "uint_limit N = 4" using assms(1) by (simp_all add: string_roomy_def m)
  have small: "sum_list F < 2 ^ 30" using r(1) by (simp add: roomy_def)
  have uless: "uint_roomy u (Suc k) \<Longrightarrow> uint_roomy u k" for u
    by (erule uint_roomy_less) simp
  have F: "codable (F, s) \<and> roomy (bump F s) k \<and> length (bump F s) = 258" if "s < 258" for s
    using roomy_codable [OF r(1)] roomy_bump [OF r(1)] that r(2) by simp
  have "item_ok m it \<and> string_roomy (item_adapt m it) k"
  proof (cases it)
    case (Literal x)
    have "unat x < 258" using unsigned_less [of x, where 'a = nat] by simp
    then show ?thesis using F [of "unat x"] r uless [OF r(3)] uless [OF r(5)] small
      by (simp add: item_ok_def item_script_def string_roomy_def item_adapt_def m Literal)
  next
    case End_Of_String
    then show ?thesis using F [of 257] r uless [OF r(3)] uless [OF r(5)] small
      by (simp add: item_ok_def item_script_def string_roomy_def item_adapt_def m)
  next
    case (Backreference off len)
    then have f: "len \<le> off" "off < 65536" "len < 4096" using assms(2) by (simp_all add: item_fits_def)
    define v where "v = (of_nat (off - len) :: u64)"
    define n where "n = (of_nat len :: u64)"
    have "unat v = off - len" unfolding v_def using f by (intro unat_of_nat_small) simp
    then have "unat v < 2 ^ (4 * 4)" using f by simp
    then have v: "group_count v < uint_limit W" using group_count_le [of v 4] r(4) by simp
    have "unat n = len" unfolding n_def using f by (intro unat_of_nat_small) simp
    then have "unat n < 2 ^ (4 * 3)" using f by simp
    then have n: "group_count n < uint_limit N" using group_count_le [of n 3] r(6) by simp
    note W = uint_roomy_step [OF r(3) v] and N = uint_roomy_step [OF r(5) n]
    show ?thesis using F [of 256] r W N small f
      by (auto simp: item_ok_def item_script_def string_roomy_def item_adapt_def m Backreference uint_ok_def
          v_def [symmetric] n_def [symmetric] simp del: of_nat_diff)
  qed
  then show "item_ok m it" "string_roomy (item_adapt m it) k" by simp_all
qed

lemma string_roomy_list:
  "string_roomy m (length its + k) \<Longrightarrow> \<forall>i\<in>set its. item_fits i \<Longrightarrow> string_roomy (it.adapt_list m its) k"
proof (induction its arbitrary: m)
  case (Cons i its)
  then have "string_roomy m (Suc (length its + k))" "item_fits i" by simp_all
  from string_roomy_step(2) [OF this] Cons show ?case by simp
qed simp

lemma string_roomy_accepts:
  "string_roomy m (length its) \<Longrightarrow> \<forall>i\<in>set its. item_fits i \<Longrightarrow> it.accepts_list m its"
proof (induction its arbitrary: m)
  case (Cons i its)
  then have "string_roomy m (Suc (length its))" "item_fits i" by simp_all
  from string_roomy_step [OF this] Cons show ?case by simp
qed simp

lemma length_item_script: "length (item_script m i) \<le> 35"
  using length_uint_script
  by (auto simp: item_script_def split: item.split prod.split)
    (metis (no_types, lifting) add_le_mono numeral_Bit0)

lemma string_script_length: "length (it.list_script m its) \<le> 35 * length its"
proof (induction its arbitrary: m)
  case (Cons i its)
  show ?case using add_mono [OF length_item_script [of m i] Cons.IH [of "item_adapt m i"]] by simp
qed simp

lemma strcomp_init_base_correct:
  assumes "6000 < arena_free c"
  shows "\<exists>b c'. strcomp_init_base c = Some (b, c') \<and> string_repr b string_fresh \<and>
     arena_free c \<le> arena_free c' + 6000 \<and> ctx_error c' = ctx_error c"
proof -
  let ?flags = "FTABLE_INIT_ONE OR FTABLE_INCLUDE_EOF"
  have freqs: "init_frequencies 257 ?flags = replicate 258 1"
    by (simp add: init_frequencies_def ftable_get_init_value_def ftable_get_eof_length_padding_def
        FTABLE_INIT_ONE_def FTABLE_INCLUDE_EOF_def push_bit_eq_mult replicate_add [symmetric]
        flip: replicate_Suc)
  from ftable_init_correct [of 257 c ?flags] assms obtain t c1 where
    t: "ftable_init c 257 ?flags = Some (t, c1)" "ftable_repr t (replicate 258 1)"
      "arena_free c \<le> arena_free c1 + 4136" "ctx_error c1 = ctx_error c"
    unfolding freqs by auto
  from uint_freq_tables_init_correct [of c1 65536] assms t(3) obtain ot c2 where
    ot: "uint_freq_tables_init c1 65536 = Some (ot, c2)" "uint_repr ot (uint_fresh 65536)"
      "arena_free c1 \<le> arena_free c2 + 860" "ctx_error c2 = ctx_error c1" by auto
  from uint_freq_tables_init_correct [of c2 4096] assms t(3) ot(3) obtain lt c3 where
    lt: "uint_freq_tables_init c2 4096 = Some (lt, c3)" "uint_repr lt (uint_fresh 4096)"
      "arena_free c2 \<le> arena_free c3 + 860" "ctx_error c3 = ctx_error c2" by auto
  have "strcomp_init_base c =
      Some (\<lparr>main_symbol_table = t, offset_tables = ot, length_tables = lt\<rparr>, c3)"
    using t(1) ot(1) lt(1)
    by (simp add: strcomp_init_base_def STRCOMP_BACKREFERENCE_SYMBOL_def BSM_LENGTH_value
        BSM_MATCH_LENGTH_LIMIT_value)
  then show ?thesis using t ot lt by (simp add: string_repr_def string_fresh_def)
qed

section \<open>The text behind a list of items\<close>

primrec item_text :: "byte list \<Rightarrow> item \<Rightarrow> byte list" where
  "item_text hist (Literal b) = [b]"
| "item_text hist (Backreference off len) = take len (back_bytes hist off)"
| "item_text hist End_Of_String = []"

primrec expand :: "byte list \<Rightarrow> item list \<Rightarrow> byte list" where
  "expand hist [] = []"
| "expand hist (i # its) = item_text hist i @ expand (hist @ item_text hist i) its"

lemma expand_snoc:
  "expand hist (its @ [i]) = expand hist its @ item_text (hist @ expand hist its) i"
  by (induction its arbitrary: hist) simp_all

text \<open>What both lookback buffers hold at the start.\<close>

definition zeroes :: "byte list" where
  "zeroes = replicate 65536 0"

lemma zeroes_length [simp]: "length zeroes = 65536"
  by (simp add: zeroes_def)

end
