(* ===== verification/String_Compressor.thy ===== *)
theory String_Compressor
  imports String_Base
begin

text \<open>
  \<open>src/string_compression/string_compressor.c\<close>.  Bytes wait in \<open>input_buffer\<close> until 4095 of
  them are there or the text ends; one step (\<open>flush_once\<close>) turns the oldest of them into one
  item.  \<open>compressor_holds\<close> is the invariant: the items written so far, expanded, and the bytes
  still waiting are the text fed in.
\<close>

record string_compressor =
  input_buffer :: ring_buffer
  sc_base :: string_compression_base
  bytes_in_buffer :: int
  sc_bsm :: byte_stream_matcher

section \<open>Operations\<close>

definition strcomp_deinit :: "string_compressor \<Rightarrow> string_compressor" where
  "strcomp_deinit s = \<lparr>input_buffer = ring_buffer_deinit (input_buffer s),
     sc_base = strcomp_deinit_base (sc_base s), bytes_in_buffer = 0, sc_bsm = bsm_deinit (sc_bsm s)\<rparr>"

definition strcomp_init :: "ctx \<Rightarrow> (string_compressor \<times> ctx) option" where
  "strcomp_init c = do {
     (b, c) \<leftarrow> strcomp_init_base c;
     (m, c) \<leftarrow> bsm_init c;
     (rb, c) \<leftarrow> ring_buffer_init c BSM_MATCH_LENGTH_SHIFT;
     Some (\<lparr>input_buffer = rb, sc_base = b, bytes_in_buffer = 0, sc_bsm = m\<rparr>, c)
   }"

text \<open>The loop that feeds the matched bytes to the matcher: \<open>k\<close> more of them from index \<open>i\<close>.\<close>

fun strcomp_push_loop :: "nat \<Rightarrow> int \<Rightarrow> ring_buffer \<Rightarrow> byte_stream_matcher \<Rightarrow> byte_stream_matcher option" where
  "strcomp_push_loop 0 i rb m = Some m"
| "strcomp_push_loop (Suc k) i rb m = do {
     b \<leftarrow> ring_buffer_get rb i;
     m \<leftarrow> bsm_push m b;
     strcomp_push_loop k (i + 1) rb m
   }"

definition strcomp_flush_once ::
  "string_compressor \<Rightarrow> acod_encoder \<Rightarrow> ctx \<Rightarrow> (string_compressor \<times> acod_encoder \<times> ctx) option" where
  "strcomp_flush_once s e c = do {
     let buffer_start = ring_buffer_get_index (input_buffer s) - bytes_in_buffer s;
     let buffer_start = (if buffer_start < 0 then buffer_start + BSM_MATCH_LENGTH_LIMIT else buffer_start);
     match \<leftarrow> (if bytes_in_buffer s < int BSM_HASH_LENGTH_BYTES then Some BSM_MATCH_EMPTY
               else bsm_find_match (sc_bsm s) (input_buffer s) buffer_start);
     if match_length match \<ge> STRCOMP_MIN_BACKREFERENCE_LENGTH then do {
       (b, e, c) \<leftarrow> strcomp_write_backreference (sc_base s) e c (match_offset match) (match_length match);
       m \<leftarrow> strcomp_push_loop (nat (match_length match)) buffer_start (input_buffer s) (sc_bsm s);
       let n = bytes_in_buffer s - match_length match;
       check (n \<ge> 0);
       Some (s\<lparr>sc_base := b, sc_bsm := m, bytes_in_buffer := n\<rparr>, e, c)
     } else do {
       first_byte \<leftarrow> ring_buffer_get (input_buffer s) buffer_start;
       (e, c) \<leftarrow> acod_encoder_write e c (main_symbol_table (sc_base s)) (uint first_byte);
       t \<leftarrow> ftable_increment (main_symbol_table (sc_base s)) (uint first_byte);
       m \<leftarrow> bsm_push (sc_bsm s) first_byte;
       let n = bytes_in_buffer s - 1;
       check (n \<ge> 0);
       Some (s\<lparr>sc_base := (sc_base s)\<lparr>main_symbol_table := t\<rparr>, sc_bsm := m, bytes_in_buffer := n\<rparr>, e, c)
     }
   }"

definition strcomp_write ::
  "string_compressor \<Rightarrow> acod_encoder \<Rightarrow> ctx \<Rightarrow> byte \<Rightarrow> (string_compressor \<times> acod_encoder \<times> ctx) option" where
  "strcomp_write s e c b = do {
     rb \<leftarrow> ring_buffer_push (input_buffer s) b;
     let s = s\<lparr>input_buffer := rb, bytes_in_buffer := bytes_in_buffer s + 1\<rparr>;
     if bytes_in_buffer s = BSM_MATCH_LENGTH_LIMIT - 1 then strcomp_flush_once s e c
     else Some (s, e, c)
   }"

partial_function (option) strcomp_flush_loop ::
  "string_compressor \<Rightarrow> acod_encoder \<Rightarrow> ctx \<Rightarrow> (string_compressor \<times> acod_encoder \<times> ctx) option" where
  "strcomp_flush_loop s e c =
     (if bytes_in_buffer s > 0 then do {
        (s, e, c) \<leftarrow> strcomp_flush_once s e c;
        strcomp_flush_loop s e c
      } else Some (s, e, c))"

definition strcomp_flush ::
  "string_compressor \<Rightarrow> acod_encoder \<Rightarrow> ctx \<Rightarrow> (string_compressor \<times> acod_encoder \<times> ctx) option" where
  "strcomp_flush s e c = do {
     (s, e, c) \<leftarrow> strcomp_flush_loop s e c;
     let t = main_symbol_table (sc_base s);
     let eof = ftable_get_eof_symbol t;
     (e, c) \<leftarrow> acod_encoder_write e c t eof;
     t \<leftarrow> ftable_increment t eof;
     Some (s\<lparr>sc_base := (sc_base s)\<lparr>main_symbol_table := t\<rparr>\<rparr>, e, c)
   }"

text \<open>Writing a whole text.\<close>

primrec strcomp_write_all :: "string_compressor \<Rightarrow> acod_encoder \<Rightarrow> ctx \<Rightarrow> byte list \<Rightarrow>
    (string_compressor \<times> acod_encoder \<times> ctx) option" where
  "strcomp_write_all s e c [] = Some (s, e, c)"
| "strcomp_write_all s e c (b # bs) = do {
     (s, e, c) \<leftarrow> strcomp_write s e c b;
     strcomp_write_all s e c bs
   }"

section \<open>The invariant\<close>

text \<open>
  \<open>hist\<close> is everything the matcher saw, \<open>S\<close> everything the input buffer saw.  A text may
  follow others in the same stream: it starts from tables \<open>m0\<close>, history \<open>h0\<close> and a script
  \<open>pre0\<close> already written, with room for \<open>K\<close> more items.
\<close>

definition string_room :: "string_model \<Rightarrow> script \<Rightarrow> nat \<Rightarrow> bool" where
  "string_room m0 pre0 K \<longleftrightarrow> string_roomy m0 K \<and> length pre0 + 35 * K < 2 ^ 56"

definition buffered :: "string_compressor \<Rightarrow> byte list \<Rightarrow> byte list \<Rightarrow> bool" where
  "buffered s hist pending \<longleftrightarrow> bsm_repr (sc_bsm s) hist \<and> length pending < 4096 \<and>
     bytes_in_buffer s = int (length pending) \<and>
     (\<exists>S. ring_hist (input_buffer s) 12 S \<and> back_bytes S (length pending) = pending)"

definition compressor_holds ::
  "(nat \<Rightarrow> u64 \<Rightarrow> byte list option) \<Rightarrow> string_model \<Rightarrow> byte list \<Rightarrow> script \<Rightarrow>
   string_compressor \<Rightarrow> acod_encoder \<Rightarrow> ctx \<Rightarrow> item list \<Rightarrow> byte list \<Rightarrow> bool" where
  "compressor_holds M m0 h0 pre0 s e c its pending \<longleftrightarrow>
     buffered s (h0 @ expand h0 its) pending \<and>
     (\<forall>i\<in>set its. item_fits i) \<and> End_Of_String \<notin> set its \<and> length its \<le> length (expand h0 its) \<and>
     string_repr (sc_base s) (it.adapt_list m0 its) \<and>
     encoder_holds M e c (pre0 @ it.list_script m0 its)"

lemma list_script_append: "it.list_script m (xs @ ys) = it.list_script m xs @ it.list_script (it.adapt_list m xs) ys"
  by (induction xs arbitrary: m) simp_all

lemma adapt_list_append: "it.adapt_list m (xs @ ys) = it.adapt_list (it.adapt_list m xs) ys"
  by (induction xs arbitrary: m) simp_all

text \<open>Writing one more item keeps the tables and the encoder in step.\<close>

lemma encode_next_item:
  assumes "string_repr b (it.adapt_list m0 its)"
    and "encoder_holds M e c (pre0 @ it.list_script m0 its)"
    and "\<forall>i\<in>set its. item_fits i" and "item_fits i" and "length its < K" and "string_room m0 pre0 K"
  shows "\<exists>b' e' c'. encode_item b e c i = Some (b', e', c') \<and>
     string_repr b' (it.adapt_list m0 (its @ [i])) \<and>
     encoder_holds M e' c' (pre0 @ it.list_script m0 (its @ [i]))"
proof -
  have room: "string_roomy m0 (length its + Suc 0)"
    using string_roomy_less [of m0 K "length its + Suc 0"] assms(5,6) by (simp add: string_room_def)
  from string_roomy_step(1) [OF string_roomy_list [OF room assms(3)] assms(4)]
  have ok: "item_ok (it.adapt_list m0 its) i" .
  have "length (pre0 @ it.list_script m0 its) + length (item_script (it.adapt_list m0 its) i) < 2 ^ 56"
    using string_script_length [of m0 its] assms(5,6)
      length_item_script [of "it.adapt_list m0 its" i] by (simp add: string_room_def)
  from it.encode_holds [OF assms(1) ok assms(2) this] show ?thesis
    by (simp add: list_script_append adapt_list_append)
qed

lemma strcomp_push_loop_correct:
  assumes "ring_hist rb 12 S" and "d \<le> 4096" and "bsm_repr m hist" and "i + k \<le> d"
    and "p mod 2 ^ 12 = int (length S - d) mod 2 ^ 12"
  shows "\<exists>m'. strcomp_push_loop k (p + int i) rb m = Some m' \<and>
     bsm_repr m' (hist @ take k (drop i (back_bytes S d)))"
  using assms(3,4)
proof (induction k arbitrary: i m hist)
  case 0
  then show ?case by simp
next
  case (Suc k)
  have i: "i < d" using Suc.prems(2) by simp
  have S: "4096 \<le> length S" using assms(1) by (simp add: ring_hist_def)
  have "d \<le> 2 ^ 12" using assms(2) by simp
  from ring_get_back [OF assms(1) this i assms(5)]
  have g: "ring_buffer_get rb (p + int i) = Some (back_bytes S d ! i)" .
  from bsm_push_correct [OF Suc.prems(1)] obtain m1 where
    m1: "bsm_push m (back_bytes S d ! i) = Some m1" "bsm_repr m1 (hist @ [back_bytes S d ! i])" by blast
  from Suc.IH [OF m1(2), of "Suc i"] Suc.prems(2) obtain m' where
    "strcomp_push_loop k (p + int (Suc i)) rb m1 = Some m'"
    "bsm_repr m' ((hist @ [back_bytes S d ! i]) @ take k (drop (Suc i) (back_bytes S d)))" by auto
  moreover have "drop i (back_bytes S d) = back_bytes S d ! i # drop (Suc i) (back_bytes S d)"
    using i S assms(2) by (simp add: Cons_nth_drop_Suc length_back_bytes)
  ultimately show ?case using g m1(1) by (simp add: add.assoc add.commute [of 1])
qed

lemma buffer_start:
  assumes "ring_hist rb 12 S" and "n < 4096"
  shows "(if ring_buffer_get_index rb - int n < 0 then ring_buffer_get_index rb - int n + BSM_MATCH_LENGTH_LIMIT
          else ring_buffer_get_index rb - int n) = int ((length S - n) mod 2 ^ 12)"
proof -
  define x where "x = ring_buffer_get_index rb"
  have S: "4096 \<le> length S" using assms(1) by (simp add: ring_hist_def)
  have x: "x = int (length S) mod 4096"
    using ring_hist_index [OF assms(1)] by (simp add: x_def zmod_int)
  have "int ((length S - n) mod 2 ^ 12) = (int (length S) - int n) mod 4096"
    using S assms(2) by (simp add: zmod_int of_nat_diff)
  also have "\<dots> = (x - int n) mod 4096" by (simp add: x mod_diff_left_eq)
  also have "\<dots> = (if x - int n < 0 then x - int n + 4096 else x - int n)"
  proof (cases "x - int n < 0")
    case True
    have "x \<ge> 0" by (simp add: x)
    then have "(x - int n + 4096) mod 4096 = x - int n + 4096" using True assms(2) by (intro mod_pos_pos_trivial) simp_all
    then show ?thesis using True by simp
  next
    case False
    have "x < 4096" by (simp add: x)
    then show ?thesis using False by (simp add: mod_pos_pos_trivial)
  qed
  finally show ?thesis by (simp add: x_def BSM_MATCH_LENGTH_LIMIT_value)
qed

text \<open>One step: some item is written, and it stands for the oldest waiting bytes.\<close>

lemma strcomp_flush_once_correct:
  assumes "compressor_holds M m0 h0 pre0 s e c its pending" and "pending \<noteq> []" and "length its < K"
    and "string_room m0 pre0 K"
  shows "\<exists>s' e' c' i rest. strcomp_flush_once s e c = Some (s', e', c') \<and>
     compressor_holds M m0 h0 pre0 s' e' c' (its @ [i]) rest \<and>
     item_text (h0 @ expand h0 its) i @ rest = pending \<and> length rest < length pending"
proof -
  define hist where "hist = h0 @ expand h0 its"
  define n where "n = length pending"
  obtain S where bsm: "bsm_repr (sc_bsm s) hist" and n: "n < 4096" "bytes_in_buffer s = int n"
    and rb: "ring_hist (input_buffer s) 12 S" and pend: "back_bytes S n = pending"
    using assms(1) by (auto simp: compressor_holds_def buffered_def hist_def n_def)
  have fits: "\<forall>i\<in>set its. item_fits i" and noend: "End_Of_String \<notin> set its"
    and len: "length its \<le> length (expand h0 its)"
    and repr: "string_repr (sc_base s) (it.adapt_list m0 its)"
    and enc: "encoder_holds M e c (pre0 @ it.list_script m0 its)"
    using assms(1) by (auto simp: compressor_holds_def)
  have n0: "0 < n" using assms(2) by (simp add: n_def)
  define q where "q = int ((length S - n) mod 2 ^ 12)"
  have start: "(if ring_buffer_get_index (input_buffer s) - bytes_in_buffer s < 0
      then ring_buffer_get_index (input_buffer s) - bytes_in_buffer s + BSM_MATCH_LENGTH_LIMIT
      else ring_buffer_get_index (input_buffer s) - bytes_in_buffer s) = q"
    using buffer_start [OF rb n(1)] unfolding n(2) q_def .
  have qm: "q mod 2 ^ 12 = int (length S - n) mod 2 ^ 12" by (simp add: q_def zmod_int)
  have S: "4096 \<le> length S" using rb by (simp add: ring_hist_def)
  have "\<exists>off len. (if bytes_in_buffer s < int BSM_HASH_LENGTH_BYTES then Some BSM_MATCH_EMPTY
       else bsm_find_match (sc_bsm s) (input_buffer s) q) =
       Some \<lparr>match_offset = int off, match_length = int len\<rparr> \<and> good_match hist pending off len"
  proof (cases "n < 4")
    case True
    then show ?thesis
      by (intro exI [of _ 0]) (simp add: n(2) BSM_HASH_LENGTH_BYTES_def BSM_MATCH_EMPTY_def good_match_def)
  next
    case False
    then have "4 \<le> n" by simp
    from bsm_find_match_correct [OF bsm rb this n(1)] False show ?thesis
      unfolding q_def [symmetric] pend by (simp add: n(2) BSM_HASH_LENGTH_BYTES_def)
  qed
  then obtain off ml where
    match: "(if bytes_in_buffer s < int BSM_HASH_LENGTH_BYTES then Some BSM_MATCH_EMPTY
       else bsm_find_match (sc_bsm s) (input_buffer s) q) =
       Some \<lparr>match_offset = int off, match_length = int ml\<rparr>"
    and good: "ml \<le> off" "off < 65536" "ml \<le> n" "take ml (back_bytes hist off) = take ml pending"
    by (auto simp: good_match_def n_def)
  have step: "\<exists>s' e' c'. strcomp_flush_once s e c = Some (s', e', c') \<and>
       compressor_holds M m0 h0 pre0 s' e' c' (its @ [i]) (drop k pending)"
    if "item_fits i \<and> i \<noteq> End_Of_String" "item_text hist i = take k pending" "0 < k" "k \<le> n"
      "\<And>b' e' c' m'. encode_item (sc_base s) e c i = Some (b', e', c') \<Longrightarrow>
         strcomp_push_loop k q (input_buffer s) (sc_bsm s) = Some m' \<Longrightarrow>
         strcomp_flush_once s e c = Some (s\<lparr>sc_base := b', sc_bsm := m', bytes_in_buffer := int (n - k)\<rparr>, e', c')"
    for i k
  proof -
    from encode_next_item [OF repr enc fits conjunct1 [OF that(1)] assms(3,4)] obtain b' e' c' where
      w: "encode_item (sc_base s) e c i = Some (b', e', c')"
        "string_repr b' (it.adapt_list m0 (its @ [i]))"
        "encoder_holds M e' c' (pre0 @ it.list_script m0 (its @ [i]))" by blast
    from strcomp_push_loop_correct [OF rb _ bsm _ qm, of 0 k] that(4) n(1) obtain m' where
      m: "strcomp_push_loop k q (input_buffer s) (sc_bsm s) = Some m'"
        "bsm_repr m' (hist @ take k pending)" by (auto simp: pend)
    have "back_bytes S (n - k) = drop k pending"
      using S n(1) that(4) by (simp add: pend [symmetric] back_bytes_def add.commute)
    then have "buffered (s\<lparr>sc_base := b', sc_bsm := m', bytes_in_buffer := int (n - k)\<rparr>)
        (h0 @ expand h0 (its @ [i])) (drop k pending)"
      using m(2) rb n(1) that(2,4)
      by (auto simp: buffered_def expand_snoc hist_def [symmetric] n_def intro!: exI [of _ S])
        (simp add: hist_def)
    moreover have "length (its @ [i]) \<le> length (expand h0 (its @ [i]))"
      using len that(2-4) by (simp add: expand_snoc hist_def [symmetric] n_def)
    ultimately have "compressor_holds M m0 h0 pre0 (s\<lparr>sc_base := b', sc_bsm := m', bytes_in_buffer := int (n - k)\<rparr>)
        e' c' (its @ [i]) (drop k pending)"
      using w(2,3) fits noend that(1) by (auto simp: compressor_holds_def)
    with that(5) [OF w(1) m(1)] show ?thesis by blast
  qed
  show ?thesis
  proof (cases "5 \<le> ml")
    case True
    have run: "strcomp_flush_once s e c =
        Some (s\<lparr>sc_base := b', sc_bsm := m', bytes_in_buffer := int (n - ml)\<rparr>, e', c')"
      if "encode_item (sc_base s) e c (Backreference off ml) = Some (b', e', c')"
        "strcomp_push_loop ml q (input_buffer s) (sc_bsm s) = Some m'" for b' e' c' m'
      using that True good(3) unfolding strcomp_flush_once_def Let_def start match
      by (simp add: STRCOMP_MIN_BACKREFERENCE_LENGTH_def encode_item_def n(2) of_nat_diff)
    have "item_fits (Backreference off ml) \<and> Backreference off ml \<noteq> End_Of_String" using good n(1) by (simp add: item_fits_def)
    from step [OF this _ _ good(3) run] good(4) True obtain s' e' c' where
      "strcomp_flush_once s e c = Some (s', e', c')"
      "compressor_holds M m0 h0 pre0 s' e' c' (its @ [Backreference off ml]) (drop ml pending)" by auto
    then show ?thesis using good(4) True n0
      by (intro exI [of _ s'] exI [of _ e'] exI [of _ c'] exI [of _ "Backreference off ml"]
          exI [of _ "drop ml pending"]) (simp add: hist_def [symmetric] n_def)
  next
    case False
    have hd: "ring_buffer_get (input_buffer s) q = Some (hd pending)"
      using ring_get_back [OF rb _ n0 qm] n(1) assms(2) by (simp add: pend hd_conv_nth)
    have run: "strcomp_flush_once s e c =
        Some (s\<lparr>sc_base := b', sc_bsm := m', bytes_in_buffer := int (n - 1)\<rparr>, e', c')"
      if "encode_item (sc_base s) e c (Literal (hd pending)) = Some (b', e', c')"
        "strcomp_push_loop 1 q (input_buffer s) (sc_bsm s) = Some m'" for b' e' c' m'
      using that False n0 unfolding strcomp_flush_once_def Let_def start match
      by (auto simp: STRCOMP_MIN_BACKREFERENCE_LENGTH_def encode_item_def encode_symbol_def n(2) of_nat_diff hd
          split: Option.bind_splits)
    have one: "take 1 pending = [hd pending]" using assms(2) by (cases pending) simp_all
    have "item_fits (Literal (hd pending)) \<and> Literal (hd pending) \<noteq> End_Of_String" by (simp add: item_fits_def)
    from step [OF this _ _ _ run] n0 one obtain s' e' c' where
      "strcomp_flush_once s e c = Some (s', e', c')"
      "compressor_holds M m0 h0 pre0 s' e' c' (its @ [Literal (hd pending)]) (drop 1 pending)" by auto
    then show ?thesis using assms(2)
      by (intro exI [of _ s'] exI [of _ e'] exI [of _ c'] exI [of _ "Literal (hd pending)"]
          exI [of _ "drop 1 pending"]) (cases pending; simp)
  qed
qed

section \<open>Writing and flushing\<close>

lemma strcomp_write_correct:
  assumes "compressor_holds M m0 h0 pre0 s e c its pending" and "length pending < 4095" and "length its < K"
    and "string_room m0 pre0 K"
  shows "\<exists>s' e' c' its' rest. strcomp_write s e c b = Some (s', e', c') \<and>
     compressor_holds M m0 h0 pre0 s' e' c' its' rest \<and> length rest < 4095 \<and>
     expand h0 its' @ rest = expand h0 its @ pending @ [b]"
proof -
  obtain S where bsm: "bsm_repr (sc_bsm s) (h0 @ expand h0 its)"
    and n: "bytes_in_buffer s = int (length pending)"
    and rb: "ring_hist (input_buffer s) 12 S" and pend: "back_bytes S (length pending) = pending"
    using assms(1) by (auto simp: compressor_holds_def buffered_def)
  from ring_hist_push [OF rb] obtain rb' where
    rb': "ring_buffer_push (input_buffer s) b = Some rb'" "ring_hist rb' 12 (S @ [b])" by blast
  define s1 where "s1 = s\<lparr>input_buffer := rb', bytes_in_buffer := bytes_in_buffer s + 1\<rparr>"
  have "4096 \<le> length S" using rb by (simp add: ring_hist_def)
  then have "back_bytes (S @ [b]) (length (pending @ [b])) = pending @ [b]"
    using pend assms(2) by (simp add: back_bytes_def)
  then have h1: "compressor_holds M m0 h0 pre0 s1 e c its (pending @ [b])"
    using assms(1,2) rb'(2) by (auto simp: compressor_holds_def buffered_def s1_def)
  have run: "strcomp_write s e c b =
      (if bytes_in_buffer s1 = 4095 then strcomp_flush_once s1 e c else Some (s1, e, c))"
    using rb'(1) by (simp add: strcomp_write_def s1_def Let_def BSM_MATCH_LENGTH_LIMIT_value)
  have n1: "bytes_in_buffer s1 = int (length (pending @ [b]))" by (simp add: s1_def n)
  show ?thesis
  proof (cases "length (pending @ [b]) = 4095")
    case False
    then have "bytes_in_buffer s1 \<noteq> 4095" unfolding n1 by simp
    then show ?thesis using h1 run assms(2) False
      by (intro exI [of _ s1] exI [of _ e] exI [of _ c] exI [of _ its] exI [of _ "pending @ [b]"]) simp
  next
    case True
    then have "bytes_in_buffer s1 = 4095" unfolding n1 by simp
    moreover from strcomp_flush_once_correct [OF h1 _ assms(3,4)] obtain s' e' c' i rest where
      f: "strcomp_flush_once s1 e c = Some (s', e', c')" "compressor_holds M m0 h0 pre0 s' e' c' (its @ [i]) rest"
        "item_text (h0 @ expand h0 its) i @ rest = pending @ [b]"
        "length rest < length (pending @ [b])" by blast
    ultimately show ?thesis using run True
      by (intro exI [of _ s'] exI [of _ e'] exI [of _ c'] exI [of _ "its @ [i]"] exI [of _ rest])
        (simp add: expand_snoc)
  qed
qed

lemma compressor_items_le:
  "compressor_holds M m0 h0 pre0 s e c its pending \<Longrightarrow> length its \<le> length (expand h0 its)"
  by (simp add: compressor_holds_def)

lemma strcomp_write_all_correct:
  assumes "compressor_holds M m0 h0 pre0 s e c its pending" and "length pending < 4095"
    and "length (expand h0 its @ pending @ bs) < K" and room: "string_room m0 pre0 K"
  shows "\<exists>s' e' c' its' rest. strcomp_write_all s e c bs = Some (s', e', c') \<and>
     compressor_holds M m0 h0 pre0 s' e' c' its' rest \<and> length rest < 4095 \<and>
     expand h0 its' @ rest = expand h0 its @ pending @ bs"
  using assms(1-3)
proof (induction bs arbitrary: s e c its pending)
  case Nil
  then show ?case by auto
next
  case (Cons b bs)
  have "length its < K" using compressor_items_le [OF Cons.prems(1)] Cons.prems(3) by simp
  from strcomp_write_correct [OF Cons.prems(1,2) this room] obtain s1 e1 c1 its1 rest1 where
    w: "strcomp_write s e c b = Some (s1, e1, c1)" "compressor_holds M m0 h0 pre0 s1 e1 c1 its1 rest1"
      "length rest1 < 4095" "expand h0 its1 @ rest1 = expand h0 its @ pending @ [b]" by blast
  have same: "expand h0 its1 @ rest1 @ bs = expand h0 its @ pending @ b # bs"
    using w(4) by (metis append.assoc append_Cons append_Nil)
  then have "length (expand h0 its1 @ rest1 @ bs) < K" using Cons.prems(3) by (simp only:)
  from Cons.IH [OF w(2,3) this] w(1) same show ?case by auto
qed

lemma strcomp_flush_loop_correct:
  assumes "compressor_holds M m0 h0 pre0 s e c its pending" and "length (expand h0 its @ pending) < K"
    and room: "string_room m0 pre0 K"
  shows "\<exists>s' e' c' its'. strcomp_flush_loop s e c = Some (s', e', c') \<and>
     compressor_holds M m0 h0 pre0 s' e' c' its' [] \<and> expand h0 its' = expand h0 its @ pending"
  using assms(1,2)
proof (induction "length pending" arbitrary: s e c its pending rule: less_induct)
  case less
  have n: "bytes_in_buffer s = int (length pending)"
    using less.prems(1) by (simp add: compressor_holds_def buffered_def)
  show ?case
  proof (cases "pending = []")
    case True
    then show ?thesis using less.prems(1) n by (subst strcomp_flush_loop.simps) auto
  next
    case False
    have "length its < K" using compressor_items_le [OF less.prems(1)] less.prems(2) by simp
    from strcomp_flush_once_correct [OF less.prems(1) False this room] obtain s1 e1 c1 i rest where
      f: "strcomp_flush_once s e c = Some (s1, e1, c1)" "compressor_holds M m0 h0 pre0 s1 e1 c1 (its @ [i]) rest"
        "item_text (h0 @ expand h0 its) i @ rest = pending" "length rest < length pending" by blast
    have same: "expand h0 (its @ [i]) @ rest = expand h0 its @ pending"
      using f(3) by (simp add: expand_snoc)
    from less.hyps [OF f(4,2)] less.prems(2) same f(1) n False show ?thesis
      by (subst strcomp_flush_loop.simps) simp
  qed
qed

text \<open>After the end mark the compressor is ready for another text.\<close>

lemma strcomp_flush_correct:
  assumes "compressor_holds M m0 h0 pre0 s e c its pending" and "length (expand h0 its @ pending) < K"
    and "string_room m0 pre0 K"
  shows "\<exists>s' e' c' its'. strcomp_flush s e c = Some (s', e', c') \<and>
     expand h0 its' = expand h0 its @ pending \<and> (\<forall>i\<in>set its'. item_fits i) \<and>
     End_Of_String \<notin> set its' \<and> length its' \<le> length (expand h0 its') \<and>
     compressor_holds M (it.adapt_list m0 (its' @ [End_Of_String])) (h0 @ expand h0 its')
       (pre0 @ it.list_script m0 (its' @ [End_Of_String])) s' e' c' [] []"
proof -
  from strcomp_flush_loop_correct [OF assms] obtain s1 e1 c1 its' where
    l: "strcomp_flush_loop s e c = Some (s1, e1, c1)" "compressor_holds M m0 h0 pre0 s1 e1 c1 its' []"
      "expand h0 its' = expand h0 its @ pending" by blast
  have fits: "\<forall>i\<in>set its'. item_fits i" and noend: "End_Of_String \<notin> set its'"
    and len: "length its' \<le> length (expand h0 its')"
    and repr: "string_repr (sc_base s1) (it.adapt_list m0 its')"
    and enc: "encoder_holds M e1 c1 (pre0 @ it.list_script m0 its')"
    and buf: "buffered s1 (h0 @ expand h0 its') []"
    using l(2) by (auto simp: compressor_holds_def)
  have small: "length its' < K" using len l(3) assms(2) by simp
  have "item_fits End_Of_String" by (simp add: item_fits_def)
  from encode_next_item [OF repr enc fits this small assms(3)] obtain b' e' c' where
    w: "encode_item (sc_base s1) e1 c1 End_Of_String = Some (b', e', c')"
      "string_repr b' (it.adapt_list m0 (its' @ [End_Of_String]))"
      "encoder_holds M e' c' (pre0 @ it.list_script m0 (its' @ [End_Of_String]))" by blast
  have "strcomp_flush s e c = Some (s1\<lparr>sc_base := b'\<rparr>, e', c')"
    using l(1) w(1) by (auto simp: strcomp_flush_def encode_item_def encode_symbol_def Let_def
        split: Option.bind_splits)
  moreover have "compressor_holds M (it.adapt_list m0 (its' @ [End_Of_String])) (h0 @ expand h0 its')
      (pre0 @ it.list_script m0 (its' @ [End_Of_String])) (s1\<lparr>sc_base := b'\<rparr>) e' c' [] []"
    using w(2,3) buf by (simp add: compressor_holds_def buffered_def)
  ultimately show ?thesis using l(3) fits noend len by blast
qed

section \<open>A fresh compressor\<close>

lemma bsm_init_correct:
  assumes "1114112 < arena_free c"
  shows "\<exists>m c'. bsm_init c = Some (m, c') \<and> bsm_repr m zeroes \<and>
     arena_free c \<le> arena_free c' + 1114112 \<and> ctx_error c' = ctx_error c"
proof -
  from hash_chain_init_ok [of 65536 c] assms obtain ch c1 where
    ch: "hash_chain_init c BSM_LENGTH = Some (ch, c1)" "chain_ok ch 65536"
      "arena_free c1 = arena_free c - 1048576" "ctx_error c1 = ctx_error c"
    by (auto simp: BSM_LENGTH_value)
  have "2 ^ 16 < arena_free c1" using assms ch(3) by simp
  from ring_buffer_init_correct [OF this] obtain rb c2 where
    rb: "ring_buffer_init c1 BSM_LENGTH_SHIFT = Some (rb, c2)" "ring_hist rb 16 zeroes"
      "arena_free c2 = arena_free c1 - 65536" "ctx_error c2 = ctx_error c1"
    by (auto simp: BSM_LENGTH_SHIFT_def zeroes_def)
  have "arena_free c \<le> arena_free c2 + 1114112" using ch(3) rb(3) by linarith
  then show ?thesis using ch rb by (simp add: bsm_init_def bsm_repr_def)
qed

lemma strcomp_init_correct:
  assumes "1130000 < arena_free c" and "encoder_holds M e c' pre"
  shows "\<exists>s c''. strcomp_init c = Some (s, c'') \<and> compressor_holds M string_fresh zeroes pre s e c' [] [] \<and>
     ctx_error c'' = ctx_error c"
proof -
  from strcomp_init_base_correct [of c] assms(1) obtain b c1 where
    b: "strcomp_init_base c = Some (b, c1)" "string_repr b string_fresh"
      "arena_free c \<le> arena_free c1 + 6000" "ctx_error c1 = ctx_error c" by auto
  from bsm_init_correct [of c1] assms(1) b(3) obtain m c2 where
    m: "bsm_init c1 = Some (m, c2)" "bsm_repr m zeroes"
      "arena_free c1 \<le> arena_free c2 + 1114112" "ctx_error c2 = ctx_error c1" by auto
  from ring_buffer_init_correct [of 12 c2] assms(1) b(3) m(3) obtain rb c3 where
    rb: "ring_buffer_init c2 BSM_MATCH_LENGTH_SHIFT = Some (rb, c3)"
      "ring_hist rb 12 (replicate 4096 0)" "ctx_error c3 = ctx_error c2"
    by (auto simp: BSM_MATCH_LENGTH_SHIFT_def)
  define s where "s = \<lparr>input_buffer = rb, sc_base = b, bytes_in_buffer = 0, sc_bsm = m\<rparr>"
  have "strcomp_init c = Some (s, c3)" using b(1) m(1) rb(1) by (simp add: strcomp_init_def s_def)
  moreover have "buffered s zeroes []"
    using m(2) rb(2) by (auto simp: buffered_def s_def back_bytes_def intro!: exI [of _ "replicate 4096 0"])
  then have "compressor_holds M string_fresh zeroes pre s e c' [] []"
    using b(2) assms(2) by (simp add: compressor_holds_def s_def)
  ultimately show ?thesis using b m rb by simp
qed

end
