(* ===== verification/String_Decompressor.thy ===== *)
theory String_Decompressor
  imports String_Base
begin

text \<open>
  \<open>src/string_compression/string_decompressor.c\<close>.  The lookback buffer sees the same bytes as
  the compressor's matcher did, so a back reference denotes the same text on both sides
  (\<open>materialize_correct\<close>); reading until the end mark writes the expanded items.
\<close>

record string_decompressor =
  lookback_buffer :: ring_buffer
  sd_base :: string_compression_base
  sd_writer :: writer

section \<open>Operations\<close>

definition strdecomp_deinit :: "string_decompressor \<Rightarrow> string_decompressor" where
  "strdecomp_deinit s = \<lparr>lookback_buffer = ring_buffer_deinit (lookback_buffer s),
     sd_base = strcomp_deinit_base (sd_base s), sd_writer = sd_writer s\<rparr>"

definition strdecomp_init :: "ctx \<Rightarrow> writer \<Rightarrow> (string_decompressor \<times> ctx) option" where
  "strdecomp_init c w = do {
     (b, c) \<leftarrow> strcomp_init_base c;
     (rb, c) \<leftarrow> ring_buffer_init c BSM_LENGTH_SHIFT;
     Some (\<lparr>lookback_buffer = rb, sd_base = b, sd_writer = w\<rparr>, c)
   }"

text \<open>\<open>k\<close> more bytes of the reference, from index \<open>i\<close> on.\<close>

fun materialize_loop :: "nat \<Rightarrow> int \<Rightarrow> ring_buffer \<Rightarrow> writer \<Rightarrow> ctx \<Rightarrow> (ring_buffer \<times> writer \<times> ctx) option" where
  "materialize_loop 0 i rb w c = Some (rb, w, c)"
| "materialize_loop (Suc k) i rb w c = do {
     b \<leftarrow> ring_buffer_get rb i;
     (w, c) \<leftarrow> writer_write_byte w c b;
     rb \<leftarrow> ring_buffer_push rb b;
     materialize_loop k (i + 1) rb w c
   }"

definition strdecomp_materialize_backreference ::
  "string_decompressor \<Rightarrow> ctx \<Rightarrow> int \<Rightarrow> int \<Rightarrow> (string_decompressor \<times> ctx) option" where
  "strdecomp_materialize_backreference s c off len = do {
     let start_index = ring_buffer_get_index (lookback_buffer s) - (off + len);
     let start_index = (if start_index < 0 then start_index + ring_buffer_get_length (lookback_buffer s)
                        else start_index);
     (rb, w, c) \<leftarrow> materialize_loop (nat len) start_index (lookback_buffer s) (sd_writer s) c;
     Some (s\<lparr>lookback_buffer := rb, sd_writer := w\<rparr>, c)
   }"

definition strdecomp_read_backreference ::
  "string_decompressor \<Rightarrow> acod_decoder \<Rightarrow> ctx \<Rightarrow> (string_decompressor \<times> acod_decoder \<times> ctx) option" where
  "strdecomp_read_backreference s d c = do {
     (off, ot, d, c) \<leftarrow> uint_reader_read (offset_tables (sd_base s)) d c;
     (len, lt, d, c) \<leftarrow> uint_reader_read (length_tables (sd_base s)) d c;
     let s = s\<lparr>sd_base := (sd_base s)\<lparr>offset_tables := ot, length_tables := lt\<rparr>\<rparr>;
     (s, c) \<leftarrow> strdecomp_materialize_backreference s c (sint off) (sint len);
     Some (s, d, c)
   }"

definition strdecomp_read ::
  "string_decompressor \<Rightarrow> acod_decoder \<Rightarrow> ctx \<Rightarrow> (bool \<times> string_decompressor \<times> acod_decoder \<times> ctx) option" where
  "strdecomp_read s d c = do {
     (sym, d, c) \<leftarrow> acod_decoder_read d c (main_symbol_table (sd_base s));
     t \<leftarrow> ftable_increment (main_symbol_table (sd_base s)) sym;
     let s = s\<lparr>sd_base := (sd_base s)\<lparr>main_symbol_table := t\<rparr>\<rparr>;
     if sym = ftable_get_eof_symbol (main_symbol_table (sd_base s)) then Some (False, s, d, c)
     else if sym = STRCOMP_BACKREFERENCE_SYMBOL then do {
       (s, d, c) \<leftarrow> strdecomp_read_backreference s d c;
       Some (True, s, d, c)
     } else do {
       (w, c) \<leftarrow> writer_write_byte (sd_writer s) c (word_of_int sym);
       rb \<leftarrow> ring_buffer_push (lookback_buffer s) (word_of_int sym);
       Some (True, s\<lparr>sd_writer := w, lookback_buffer := rb\<rparr>, d, c)
     }
   }"

text \<open>Read until the end mark.\<close>

partial_function (option) strdecomp_read_all ::
  "string_decompressor \<Rightarrow> acod_decoder \<Rightarrow> ctx \<Rightarrow> (string_decompressor \<times> acod_decoder \<times> ctx) option" where
  "strdecomp_read_all s d c = do {
     (more, s, d, c) \<leftarrow> strdecomp_read s d c;
     if more then strdecomp_read_all s d c else Some (s, d, c)
   }"

section \<open>Materialising a back reference\<close>

lemma materialize_loop_correct:
  assumes "ring_hist rb 16 (hist @ take i (back_bytes hist off))" and "65536 \<le> length hist"
    and "off < 65536" and "i + k \<le> off" and "q mod 2 ^ 16 = int (length hist - off) mod 2 ^ 16"
    and "bytes_offered M w c (bytes @ take i (back_bytes hist off))"
  shows "\<exists>rb' w' c'. materialize_loop k (q + int i) rb w c = Some (rb', w', c') \<and>
     ring_hist rb' 16 (hist @ take (i + k) (back_bytes hist off)) \<and>
     bytes_offered M w' c' (bytes @ take (i + k) (back_bytes hist off))"
  using assms
proof (induction k arbitrary: i rb w c)
  case 0
  then show ?case by simp
next
  case (Suc k)
  let ?seen = "hist @ take i (back_bytes hist off)"
  have i: "i < off" using Suc.prems(4) by simp
  have bl: "length (back_bytes hist off) = off" using Suc.prems(2,3) by (simp add: length_back_bytes)
  have "(q + int i) mod 2 ^ 16 = (q mod 2 ^ 16 + int i) mod 2 ^ 16" by (simp add: mod_add_left_eq)
  also have "\<dots> = int (length hist - off + i) mod 2 ^ 16"
    unfolding Suc.prems(5) by (simp add: mod_add_left_eq)
  finally have m: "(q + int i) mod 2 ^ 16 = int (length hist - off + i) mod 2 ^ 16" .
  have pos: "length hist - off + i < length hist" using i Suc.prems(2,3) by simp
  then have "length hist - off + i < length ?seen" by simp
  moreover have "length ?seen \<le> length hist - off + i + 2 ^ 16" using bl i Suc.prems(2,3) by simp
  ultimately have "ring_buffer_get rb (q + int i) = Some (?seen ! (length hist - off + i))"
    using ring_hist_get [OF Suc.prems(1) _ _ m] by blast
  also have "?seen ! (length hist - off + i) = back_bytes hist off ! i"
    using pos i Suc.prems(2,3) by (simp add: nth_append back_bytes_nth)
  finally have g: "ring_buffer_get rb (q + int i) = Some (back_bytes hist off ! i)" .
  have tk: "take (Suc i) (back_bytes hist off) = take i (back_bytes hist off) @ [back_bytes hist off ! i]"
    using i bl by (simp add: take_Suc_conv_app_nth)
  from bytes_offered_write [OF Suc.prems(6), of "back_bytes hist off ! i"] obtain w1 c1 where
    w1: "writer_write_byte w c (back_bytes hist off ! i) = Some (w1, c1)"
      "bytes_offered M w1 c1 (bytes @ take (Suc i) (back_bytes hist off))" by (auto simp: tk)
  from ring_hist_push [OF Suc.prems(1), of "back_bytes hist off ! i"] obtain rb1 where
    rb1: "ring_buffer_push rb (back_bytes hist off ! i) = Some rb1"
      "ring_hist rb1 16 (hist @ take (Suc i) (back_bytes hist off))" by (auto simp: tk)
  have "materialize_loop (Suc k) (q + int i) rb w c = materialize_loop k (q + int (Suc i)) rb1 w1 c1"
    using g w1(1) rb1(1) by (simp add: ac_simps)
  with Suc.IH [OF rb1(2) Suc.prems(2,3) _ Suc.prems(5) w1(2)] Suc.prems(4) show ?case by simp
qed

lemma materialize_correct:
  assumes "ring_hist (lookback_buffer s) 16 hist" and "off < 65536" and "len \<le> off"
    and "bytes_offered M (sd_writer s) c bytes"
  shows "\<exists>rb w c'. strdecomp_materialize_backreference s c (int (off - len)) (int len) =
       Some (s\<lparr>lookback_buffer := rb, sd_writer := w\<rparr>, c') \<and>
     ring_hist rb 16 (hist @ take len (back_bytes hist off)) \<and>
     bytes_offered M w c' (bytes @ take len (back_bytes hist off))"
proof -
  define x where "x = ring_buffer_get_index (lookback_buffer s)"
  have S: "65536 \<le> length hist" using assms(1) by (simp add: ring_hist_def)
  have x: "x = int (length hist) mod 65536"
    using ring_hist_index [OF assms(1)] by (simp add: x_def zmod_int)
  define q where "q = (if x - int off < 0 then x - int off + 65536 else x - int off)"
  have "q mod 65536 = (x - int off) mod 65536" by (simp add: q_def)
  also have "\<dots> = int (length hist - off) mod 65536"
    using S assms(2) by (simp add: x mod_diff_left_eq of_nat_diff)
  finally have q: "q mod 2 ^ 16 = int (length hist - off) mod 2 ^ 16" by simp
  have sum: "int (off - len) + int len = int off" using assms(3) by simp
  have r0: "ring_hist (lookback_buffer s) 16 (hist @ take 0 (back_bytes hist off))" using assms(1) by simp
  have b0: "bytes_offered M (sd_writer s) c (bytes @ take 0 (back_bytes hist off))" using assms(4) by simp
  have l0: "0 + len \<le> off" using assms(3) by simp
  from materialize_loop_correct [OF r0 S assms(2) l0 q b0] obtain rb w c' where
    l: "materialize_loop len q (lookback_buffer s) (sd_writer s) c = Some (rb, w, c')"
      "ring_hist rb 16 (hist @ take len (back_bytes hist off))"
      "bytes_offered M w c' (bytes @ take len (back_bytes hist off))" by auto
  have len: "ring_buffer_get_length (lookback_buffer s) = 65536"
    using ring_hist_length [OF assms(1)] by simp
  have "strdecomp_materialize_backreference s c (int (off - len)) (int len) =
      Some (s\<lparr>lookback_buffer := rb, sd_writer := w\<rparr>, c')"
    unfolding strdecomp_materialize_backreference_def Let_def sum len x_def [symmetric] q_def [symmetric] nat_int
    using l(1) by simp
  with l(2,3) show ?thesis by blast
qed

section \<open>Reading items\<close>

definition decompressor_holds ::
  "(nat \<Rightarrow> u64 \<Rightarrow> byte list option) \<Rightarrow> string_decompressor \<Rightarrow> acod_decoder \<Rightarrow> ctx \<Rightarrow> string_model \<Rightarrow> script \<Rightarrow> byte list \<Rightarrow> byte list \<Rightarrow> bool" where
  "decompressor_holds M s d c m script hist bytes \<longleftrightarrow> string_repr (sd_base s) m \<and>
     decoder_ready d script \<and> ring_hist (lookback_buffer s) 16 hist \<and> bytes_offered M (sd_writer s) c bytes"

text \<open>What \<open>strdecomp_read\<close> does with the item \<open>decode_item\<close> reads.\<close>

lemma small_sint: "x < 2 ^ 63 \<Longrightarrow> sint (of_nat x :: u64) = int x"
  by (simp add: signed_of_nat signed_take_bit_int_eq_self)

lemma strdecomp_read_item:
  assumes "decompressor_holds M s d c m (item_script m i @ rest) hist bytes" and "item_ok m i"
  shows "\<exists>s' d' c'. strdecomp_read s d c = Some (i \<noteq> End_Of_String, s', d', c') \<and>
     decompressor_holds M s' d' c' (item_adapt m i) rest (hist @ item_text hist i) (bytes @ item_text hist i)"
proof -
  have h: "string_repr (sd_base s) m" "decoder_ready d (item_script m i @ rest)"
    "ring_hist (lookback_buffer s) 16 hist" "bytes_offered M (sd_writer s) c bytes"
    using assms(1) by (simp_all add: decompressor_holds_def)
  from it.decode_ready [OF h(1) assms(2) h(2), of c] obtain b' d' where
    it: "decode_item (sd_base s) d c = Some (i, b', d', c)" "string_repr b' (item_adapt m i)"
      "decoder_ready d' rest" by blast
  from it(1) obtain sym t d1 c1 where
    sym: "decode_symbol (main_symbol_table (sd_base s)) d c = Some (sym, t, d1, c1)"
    by (auto simp: decode_item_def split: Option.bind_splits)
  then have sym': "acod_decoder_read d c (main_symbol_table (sd_base s)) = Some (sym, d1, c1)"
    "ftable_increment (main_symbol_table (sd_base s)) sym = Some t"
    by (auto simp: decode_symbol_def split: Option.bind_splits)
  show ?thesis
  proof (cases i)
    case End_Of_String
    then have "sym = ftable_get_eof_symbol t" "b' = (sd_base s)\<lparr>main_symbol_table := t\<rparr>" "d' = d1" "c1 = c"
      using it(1) sym by (auto simp: decode_item_def Let_def split: if_splits Option.bind_splits)
    then have "strdecomp_read s d c = Some (False, s\<lparr>sd_base := b'\<rparr>, d', c)"
      using sym' by (simp add: strdecomp_read_def)
    then show ?thesis using h it(2,3) End_Of_String by (simp add: decompressor_holds_def)
  next
    case (Literal x)
    then have e: "sym \<noteq> ftable_get_eof_symbol t" "sym \<noteq> STRCOMP_BACKREFERENCE_SYMBOL"
      "b' = (sd_base s)\<lparr>main_symbol_table := t\<rparr>" "d' = d1" "c1 = c" "word_of_int sym = x"
      using it(1) sym by (auto simp: decode_item_def Let_def split: if_splits Option.bind_splits)
    from bytes_offered_write [OF h(4), of x] obtain w c' where
      w: "writer_write_byte (sd_writer s) c x = Some (w, c')" "bytes_offered M w c' (bytes @ [x])" by blast
    from ring_hist_push [OF h(3), of x] obtain rb where
      rb: "ring_buffer_push (lookback_buffer s) x = Some rb" "ring_hist rb 16 (hist @ [x])" by blast
    have "strdecomp_read s d c = Some (True, s\<lparr>sd_base := b', sd_writer := w, lookback_buffer := rb\<rparr>, d', c')"
      using sym' e w(1) rb(1) by (simp add: strdecomp_read_def)
    then show ?thesis using w(2) rb(2) it(2,3) Literal by (simp add: decompressor_holds_def)
  next
    case (Backreference off len)
    have ok: "len \<le> off" "off < 65536"
      using assms(2) by (auto simp: item_ok_def Backreference split: prod.splits)
    from it(1) sym Backreference obtain uo ot d2 c2 ul lt where
      u: "sym \<noteq> ftable_get_eof_symbol t" "sym = STRCOMP_BACKREFERENCE_SYMBOL"
        "uint_reader_read (offset_tables (sd_base s)) d1 c1 = Some (uo, ot, d2, c2)"
        "uint_reader_read (length_tables (sd_base s)) d2 c2 = Some (ul, lt, d', c)"
        "off = unat uo + unat ul" "len = unat ul"
        "b' = (sd_base s)\<lparr>main_symbol_table := t, offset_tables := ot, length_tables := lt\<rparr>"
      by (auto simp: decode_item_def Let_def split: if_splits Option.bind_splits)
    have "sint uo = int (off - len)" using small_sint [of "unat uo"] u(5,6) ok by simp
    moreover have "sint ul = int len" using small_sint [of "unat ul"] u(6) ok by simp
    moreover
    define s1 where "s1 = s\<lparr>sd_base := b'\<rparr>"
    have "ring_hist (lookback_buffer s1) 16 hist" "bytes_offered M (sd_writer s1) c bytes"
      using h by (simp_all add: s1_def)
    from materialize_correct [OF this(1) ok(2,1) this(2)] obtain rb w c' where
      mt: "strdecomp_materialize_backreference s1 c (int (off - len)) (int len) =
           Some (s1\<lparr>lookback_buffer := rb, sd_writer := w\<rparr>, c')"
        "ring_hist rb 16 (hist @ take len (back_bytes hist off))"
        "bytes_offered M w c' (bytes @ take len (back_bytes hist off))" by blast
    ultimately have "strdecomp_read s d c = Some (True, s1\<lparr>lookback_buffer := rb, sd_writer := w\<rparr>, d', c')"
      using sym' u(1-4) by (simp add: strdecomp_read_def strdecomp_read_backreference_def Let_def s1_def u(7))
    then show ?thesis using mt(2,3) it(2,3) Backreference by (simp add: decompressor_holds_def s1_def)
  qed
qed

lemma strdecomp_read_all_correct:
  assumes "decompressor_holds M s d c m (it.list_script m (its @ [End_Of_String]) @ rest) hist bytes"
    and "it.accepts_list m (its @ [End_Of_String])" and "End_Of_String \<notin> set its"
  shows "\<exists>s' d' c'. strdecomp_read_all s d c = Some (s', d', c') \<and>
     bytes_offered M (sd_writer s') c' (bytes @ expand hist its) \<and> decoder_ready d' rest"
  using assms
proof (induction its arbitrary: s d c m hist bytes)
  case Nil
  then have "decompressor_holds M s d c m (item_script m End_Of_String @ rest) hist bytes"
    "item_ok m End_Of_String" by simp_all
  from strdecomp_read_item [OF this] show ?case
    by (subst strdecomp_read_all.simps) (auto simp: decompressor_holds_def)
next
  case (Cons i its)
  then have "decompressor_holds M s d c m
      (item_script m i @ (it.list_script (item_adapt m i) (its @ [End_Of_String]) @ rest)) hist bytes"
    "item_ok m i" by simp_all
  from strdecomp_read_item [OF this] obtain s1 d1 c1 where
    r: "strdecomp_read s d c = Some (i \<noteq> End_Of_String, s1, d1, c1)"
      "decompressor_holds M s1 d1 c1 (item_adapt m i)
         (it.list_script (item_adapt m i) (its @ [End_Of_String]) @ rest)
         (hist @ item_text hist i) (bytes @ item_text hist i)" by blast
  have "i \<noteq> End_Of_String" "End_Of_String \<notin> set its"
    "it.accepts_list (item_adapt m i) (its @ [End_Of_String])" using Cons.prems(2,3) by auto
  with Cons.IH [OF r(2)] r(1) show ?case by (subst strdecomp_read_all.simps) simp
qed

lemma strdecomp_init_correct:
  assumes "80000 < arena_free c" and "bytes_offered M w c' []" and "decoder_ready d script"
  shows "\<exists>s c''. strdecomp_init c w = Some (s, c'') \<and>
     decompressor_holds M s d c' string_fresh script (replicate 65536 0) [] \<and> ctx_error c'' = ctx_error c"
proof -
  from strcomp_init_base_correct [of c] assms(1) obtain b c1 where
    b: "strcomp_init_base c = Some (b, c1)" "string_repr b string_fresh"
      "arena_free c \<le> arena_free c1 + 6000" "ctx_error c1 = ctx_error c" by auto
  have "2 ^ 16 < arena_free c1" using assms(1) b(3) by simp
  from ring_buffer_init_correct [OF this] obtain rb c2 where
    rb: "ring_buffer_init c1 16 = Some (rb, c2)" "ring_hist rb 16 (replicate (2 ^ 16) 0)"
      "ctx_error c2 = ctx_error c1" by blast
  then show ?thesis using b assms(2,3)
    by (simp add: strdecomp_init_def BSM_LENGTH_SHIFT_def decompressor_holds_def)
qed

end
