(* ===== verification/Sessions.thy ===== *)
theory Sessions
  imports String_Compressor String_Decompressor
begin

text \<open>
  Whole runs from a fresh context: how a client of the library strings the components together
  (\<open>context_init\<close>, the structures carved from the arena, a writer or a reader, the coder, the
  teardown), and the lemmas that carry the components' invariants through a run.
\<close>

section \<open>A fresh context\<close>

definition well_behaved :: "(nat \<Rightarrow> u64 \<Rightarrow> byte list option) \<Rightarrow> bool" where
  "well_behaved M \<longleftrightarrow> never_refuses M \<and> (\<forall>k n bs. M k n = Some bs \<longrightarrow> length bs = unat n)"

definition start_context :: "(nat \<Rightarrow> u64 \<Rightarrow> byte list option) \<Rightarrow> ctx option" where
  "start_context M = do {
     let (ok, c) = context_init M (\<lambda>_ _ _. False) (\<lambda>_ _. False);
     check ok;
     Some c
   }"

definition start_writer :: "ctx \<Rightarrow> (writer \<times> ctx) option" where
  "start_writer c = do {
     (ok, w, c) \<leftarrow> writer_init c 4096 4;
     check ok;
     Some (w, c)
   }"

lemma start_context_correct:
  assumes "well_behaved M"
  shows "\<exists>c. start_context M = Some c \<and> ctx_ok M c \<and> arena_free c = 33554432"
proof -
  from assms obtain bs where "M 0 CONTEXT_ARENA_SIZE = Some bs"
    unfolding well_behaved_def never_refuses_def by blast
  then show ?thesis using assms
    by (simp add: start_context_def context_init_def Let_def context_set_allocators_def context_zero_def
        arena_init_def arena_reset_def context_reset_def context_clear_error_def ctx_ok_def
        well_behaved_def context_is_errored_def no_error_def arena_free_def CONTEXT_ARENA_SIZE_def)
qed

lemma well_behavedD: "well_behaved M \<Longrightarrow> never_refuses M"
  by (simp add: well_behaved_def)

lemma start_writer_correct:
  assumes "ctx_ok M c" and "never_refuses M"
  shows "\<exists>w c'. start_writer c = Some (w, c') \<and> writer_repr w [] [] \<and> ctx_ok M c'"
proof -
  from writer_init_correct [OF _ _ assms(1) ctx_ok_no_error [OF assms], of 4096 4] obtain ok w c' where
    w: "writer_init c 4096 4 = Some (ok, w, c')" "ctx_ok M c'"
      "if ok then writer_repr w [] [] \<and> \<not> context_is_errored c'
       else w = writer_zero \<and> context_is_errored c'" by auto
  then have ok using ctx_ok_no_error [OF w(2) assms(2)] by (auto split: if_splits)
  with w show ?thesis by (simp add: start_writer_def)
qed

lemma writer_repr_offered:
  assumes "writer_repr w [] []" and "ctx_ok M c"
  shows "bw.offered M w c []"
proof -
  have "writer_bits w []" unfolding writer_bits_def using assms(1) by (intro exI [of _ "[]"]) simp
  then show ?thesis using assms(2) writer_bits_safe by (simp add: bw.offered_def)
qed

section \<open>Structures carved from the arena leave the rest of the context alone\<close>

named_theorems carved \<open>the allocator and the error of a context survive an initialisation\<close>

definition same_client :: "ctx \<Rightarrow> ctx \<Rightarrow> bool" where
  "same_client c c' \<longleftrightarrow> ctx_malloc c' = ctx_malloc c \<and> ctx_error c' = ctx_error c"

lemma same_client_refl [simp]: "same_client c c"
  by (simp add: same_client_def)

lemma same_client_trans [trans]: "same_client a b \<Longrightarrow> same_client b c \<Longrightarrow> same_client a c"
  by (simp add: same_client_def)

lemma same_client_ok: "same_client c c' \<Longrightarrow> ctx_ok M c \<Longrightarrow> ctx_ok M c'"
  using ctx_ok_same_error by (simp add: same_client_def)

lemma carved_arena [carved]: "context_arena_allocate c n s = Some (p, c') \<Longrightarrow> same_client c c'"
  by (auto simp: context_arena_allocate_def same_client_def bind_eq_Some_conv)

lemma carved_arena_zero [carved]: "context_arena_allocate_zero_init c n s = Some (p, c') \<Longrightarrow> same_client c c'"
  unfolding context_arena_allocate_zero_init_def by (rule carved_arena)

lemma carved_ftree [carved]: "ftree_init c n = Some (t, c') \<Longrightarrow> same_client c c'"
  by (auto simp: ftree_init_def bind_eq_Some_conv intro: carved)

lemma carved_ftable [carved]: "ftable_init c n flags = Some (t, c') \<Longrightarrow> same_client c c'"
  by (auto simp: ftable_init_def bind_eq_Some_conv Let_def split: if_splits
      dest!: carved elim: same_client_trans)

lemma carved_uint [carved]: "uint_freq_tables_init c n = Some (t, c') \<Longrightarrow> same_client c c'"
  by (auto simp: uint_freq_tables_init_def bind_eq_Some_conv Let_def split: if_splits
      dest!: carved elim: same_client_trans)

lemma carved_ring [carved]: "ring_buffer_init c k = Some (t, c') \<Longrightarrow> same_client c c'"
  by (auto simp: ring_buffer_init_def bind_eq_Some_conv Let_def split: if_splits
      dest!: carved elim: same_client_trans)

lemma carved_chain [carved]: "hash_chain_init c n = Some (t, c') \<Longrightarrow> same_client c c'"
  by (auto simp: hash_chain_init_def bind_eq_Some_conv Let_def split: if_splits
      dest!: carved elim: same_client_trans)

lemma carved_bsm [carved]: "bsm_init c = Some (t, c') \<Longrightarrow> same_client c c'"
  by (auto simp: bsm_init_def bind_eq_Some_conv Let_def split: if_splits
      dest!: carved elim: same_client_trans)

lemma carved_base [carved]: "strcomp_init_base c = Some (t, c') \<Longrightarrow> same_client c c'"
  by (auto simp: strcomp_init_base_def bind_eq_Some_conv Let_def split: if_splits
      dest!: carved elim: same_client_trans)

lemma carved_strcomp [carved]: "strcomp_init c = Some (t, c') \<Longrightarrow> same_client c c'"
  by (auto simp: strcomp_init_def bind_eq_Some_conv Let_def split: if_splits
      dest!: carved elim: same_client_trans)

lemma carved_strdecomp [carved]: "strdecomp_init c w = Some (t, c') \<Longrightarrow> same_client c c'"
  by (auto simp: strdecomp_init_def bind_eq_Some_conv Let_def split: if_splits
      dest!: carved elim: same_client_trans)

text \<open>The writer lives on the heap: opening one leaves the arena as it is.\<close>

named_theorems on_heap \<open>operations that do not touch the arena\<close>

lemma heap_allocate [on_heap]: "context_allocate c n s = (r, c') \<Longrightarrow> ctx_arena c' = ctx_arena c"
  by (auto simp: context_allocate_def Let_def context_set_error_on_malloc_def split: option.splits)

lemma heap_queue_init [on_heap]: "queue_init c n k = (ok, q, c') \<Longrightarrow> ctx_arena c' = ctx_arena c"
  by (auto simp: queue_init_def Let_def split: option.splits prod.splits dest!: on_heap)

lemma heap_queue_push [on_heap]: "queue_push x q c = Some (ok, q', c') \<Longrightarrow> ctx_arena c' = ctx_arena c"
  by (auto simp: queue_push_def queue_maybe_grow_def Let_def bind_eq_Some_conv
      split: option.splits prod.splits if_splits dest!: on_heap)

lemma heap_next_buffer [on_heap]:
  assumes "writer_produce_next_buffer w c = Some (ok, w', c')"
  shows "ctx_arena c' = ctx_arena c"
proof -
  obtain r c1 where a: "context_allocate c (word_of_int (single_buffer_byte_size w)) 1 = (r, c1)" by fastforce
  have c1: "ctx_arena c1 = ctx_arena c" using a by (rule heap_allocate)
  have "c' = c \<or> c' = c1 \<or> (\<exists>(b :: buffer) q ok q' c0. queue_push b q c0 = Some (ok, q', c') \<and> (c0 = c \<or> c0 = c1))"
  proof (cases "0 < queue_get_count (w_free_buffers w)")
    case True
    with assms show ?thesis
      by (simp add: writer_produce_next_buffer_def Let_def bind_eq_Some_conv split: prod.splits) blast
  next
    case False
    with assms a show ?thesis
      by (simp add: writer_produce_next_buffer_def Let_def bind_eq_Some_conv
          split: prod.splits option.splits) blast
  qed
  with c1 show ?thesis using heap_queue_push by metis
qed

lemma start_writer_room:
  assumes "start_writer c = Some (w, c')"
  shows "arena_free c' = arena_free c"
proof -
  obtain ok1 q1 c1 where q1: "queue_init c 24 4 = (ok1, q1 :: buffer queue, c1)" by (metis prod_cases3)
  obtain ok2 q2 c2 where q2: "queue_init c1 24 4 = (ok2, q2 :: buffer queue, c2)" by (metis prod_cases3)
  from assms q1 q2 obtain w1 w2 ok3 where "writer_produce_next_buffer w1 c2 = Some (ok3, w2, c')"
    by (auto simp: start_writer_def writer_init_def Let_def bind_eq_Some_conv split: if_splits)
  with q1 q2 have "ctx_arena c' = ctx_arena c" by (metis heap_queue_init heap_next_buffer)
  then show ?thesis by (simp add: arena_free_def)
qed

section \<open>Symbols under one adaptive table\<close>

definition encode_symbols ::
  "(nat \<Rightarrow> u64 \<Rightarrow> byte list option) \<Rightarrow> nat \<Rightarrow> int list \<Rightarrow> (buffer_or_error \<times> ctx) option" where
  "encode_symbols M n syms = do {
     c \<leftarrow> start_context M;
     (t, c) \<leftarrow> ftable_init c (int n) (FTABLE_INIT_ONE OR FTABLE_EXCLUDE_EOF);
     (w, c) \<leftarrow> start_writer c;
     (t, e, c) \<leftarrow> sym.encode_list t (acod_encoder_init w) c syms;
     seal e c
   }"

definition decode_symbols ::
  "(nat \<Rightarrow> u64 \<Rightarrow> byte list option) \<Rightarrow> nat \<Rightarrow> nat \<Rightarrow> buffer \<Rightarrow> (int list \<times> ctx) option" where
  "decode_symbols M n k b = do {
     c \<leftarrow> start_context M;
     (t, c) \<leftarrow> ftable_init c (int n) (FTABLE_INIT_ONE OR FTABLE_EXCLUDE_EOF);
     (d, c) \<leftarrow> open_stream c b;
     (syms, t, d, c) \<leftarrow> sym.decode_list k t d c;
     Some (syms, c)
   }"

section \<open>Unsigned integers\<close>

definition encode_uints ::
  "(nat \<Rightarrow> u64 \<Rightarrow> byte list option) \<Rightarrow> u64 \<Rightarrow> u64 list \<Rightarrow> (buffer_or_error \<times> ctx) option" where
  "encode_uints M max_value vs = do {
     c \<leftarrow> start_context M;
     (t, c) \<leftarrow> uint_freq_tables_init c max_value;
     (w, c) \<leftarrow> start_writer c;
     (t, e, c) \<leftarrow> ui.encode_list t (acod_encoder_init w) c vs;
     seal e c
   }"

definition decode_uints ::
  "(nat \<Rightarrow> u64 \<Rightarrow> byte list option) \<Rightarrow> u64 \<Rightarrow> nat \<Rightarrow> buffer \<Rightarrow> (u64 list \<times> ctx) option" where
  "decode_uints M max_value k b = do {
     c \<leftarrow> start_context M;
     (t, c) \<leftarrow> uint_freq_tables_init c max_value;
     (d, c) \<leftarrow> open_stream c b;
     (vs, t, d, c) \<leftarrow> ui.decode_list k t d c;
     Some (vs, c)
   }"

section \<open>Strings\<close>

definition compress_text ::
  "(nat \<Rightarrow> u64 \<Rightarrow> byte list option) \<Rightarrow> byte list \<Rightarrow> (buffer_or_error \<times> ctx) option" where
  "compress_text M bytes = do {
     c \<leftarrow> start_context M;
     (s, c) \<leftarrow> strcomp_init c;
     (w, c) \<leftarrow> start_writer c;
     (s, e, c) \<leftarrow> strcomp_write_all s (acod_encoder_init w) c bytes;
     (s, e, c) \<leftarrow> strcomp_flush s e c;
     seal e c
   }"

definition decompress_text ::
  "(nat \<Rightarrow> u64 \<Rightarrow> byte list option) \<Rightarrow> buffer \<Rightarrow> (buffer_or_error \<times> ctx) option" where
  "decompress_text M b = do {
     c \<leftarrow> start_context M;
     (w, c) \<leftarrow> start_writer c;
     (s, c) \<leftarrow> strdecomp_init c w;
     (d, c) \<leftarrow> open_stream c b;
     (s, d, c) \<leftarrow> strdecomp_read_all s d c;
     (r, w, c) \<leftarrow> writer_consume_all_buffers (sd_writer s) c;
     Some (r, c)
   }"

section \<open>Runs are correct\<close>

text \<open>What a sealed stream promises its reader.\<close>

definition sealed :: "(nat \<Rightarrow> u64 \<Rightarrow> byte list option) \<Rightarrow> buffer_or_error \<Rightarrow> ctx \<Rightarrow> script \<Rightarrow> bool" where
  "sealed M r c script \<longleftrightarrow> \<not> is_error r \<and> ctx_ok M c \<and>
     stands_for_script (buf_data (result_buffer r)) script \<and>
     buf_length (result_buffer r) = int (length (buf_data (result_buffer r))) \<and>
     (\<forall>p\<in>set script. codable p)"

lemma sealed_no_error: "sealed M r c script \<Longrightarrow> never_refuses M \<Longrightarrow> \<not> is_error r \<and> \<not> context_is_errored c"
  using ctx_ok_no_error by (auto simp: sealed_def)

lemma seal_seals:
  assumes "encoder_holds M e c script" and "\<forall>p\<in>set script. codable p" and "length script < 2 ^ 56"
    and "never_refuses M"
  shows "\<exists>r c'. seal e c = Some (r, c') \<and> sealed M r c' script"
  using seal_total [OF assms] assms(2) by (auto simp: sealed_def)

lemma open_sealed:
  assumes "sealed M' r c' script" and "ctx_ok M c" and "never_refuses M"
  shows "\<exists>d c1. open_stream c (result_buffer r) = Some (d, c1) \<and> decoder_ready d script \<and>
     ctx_ok M c1 \<and> ctx_error c1 = ctx_error c"
proof -
  have s: "stands_for_script (buf_data (result_buffer r)) script"
    "buf_length (result_buffer r) = int (length (buf_data (result_buffer r)))"
    "\<forall>p\<in>set script. codable p" using assms(1) by (simp_all add: sealed_def)
  from open_stream_cases [OF s assms(2)] assms(3) show ?thesis by (auto split: option.splits)
qed

context symbol_codec begin

text \<open>One end of a channel, after its tables: a fresh writer in, a sealed stream out; and back.\<close>

lemma encode_run:
  assumes "models t m" and "accepts_list m xs" and "length (list_script m xs) < 2 ^ 56"
    and "ctx_ok M c" and "never_refuses M"
  shows "\<exists>r c'. do { (w, c) \<leftarrow> start_writer c;
       (t, e, c) \<leftarrow> encode_list t (acod_encoder_init w) c xs; seal e c } = Some (r, c') \<and>
     sealed M r c' (list_script m xs)"
proof -
  from start_writer_correct [OF assms(4,5)] obtain w c1 where
    w: "start_writer c = Some (w, c1)" "writer_repr w [] []" "ctx_ok M c1" by blast
  from encode_list_holds [OF assms(1,2) encoder_init_holds [OF writer_repr_offered [OF w(2,3)]]] assms(3)
  obtain t' e c2 where e: "encode_list t (acod_encoder_init w) c1 xs = Some (t', e, c2)"
    "encoder_holds M e c2 (list_script m xs)" by auto
  from seal_seals [OF e(2) list_script_codable [OF assms(2)] assms(3,5)] w(1) e(1) show ?thesis by simp
qed

lemma decode_run:
  assumes "models t m" and "accepts_list m xs" and "sealed M' r c' (list_script m xs)"
    and "ctx_ok M c" and "never_refuses M"
  shows "\<exists>t' d c1. do { (d, c) \<leftarrow> open_stream c (result_buffer r); decode_list (length xs) t d c } =
       Some (xs, t', d, c1) \<and> ctx_ok M c1"
proof -
  from open_sealed [OF assms(3-5)] obtain d c1 where
    d: "open_stream c (result_buffer r) = Some (d, c1)" "decoder_ready d (list_script m xs @ [])"
      "ctx_ok M c1" by auto
  from decode_list_ready [OF assms(1,2) d(2), of c1] d(1,3) show ?thesis by auto
qed

end

lemma sym_script_length [simp]: "length (sym.list_script fs syms) = length syms"
  by (induction syms arbitrary: fs) simp_all

text \<open>How much is written for symbols under one table, before and after the stream is closed.\<close>

lemma encoded_length:
  assumes "ftable_repr t fs" and "roomy fs (length syms)" and "\<forall>s\<in>set syms. 0 \<le> s \<and> s < int (length fs)"
    and "writer_repr w [] []" and "ctx_ok M c" and "never_refuses M"
  shows "\<exists>t' e c' bits r c''. sym.encode_list t (acod_encoder_init w) c syms = Some (t', e, c') \<and>
     writer_bits (enc_writer e) bits \<and> length bits + unat (underflows e) \<le> 64 * length syms \<and>
     seal e c' = Some (r, c'') \<and> \<not> is_error r \<and> buf_length (result_buffer r) \<le> 8 * int (length syms) + 1"
proof -
  have acc: "sym.accepts_list fs syms" using assms(2,3) by (rule roomy_accepts_list)
  have small: "length syms < 2 ^ 56" using assms(2) by (simp add: roomy_def)
  from sym.encode_list_holds [OF assms(1) acc encoder_init_holds [OF writer_repr_offered [OF assms(4,5)]]] small
  obtain t' e c' where e: "sym.encode_list t (acod_encoder_init w) c syms = Some (t', e, c')"
    "encoder_holds M e c' (sym.list_script fs syms)" by auto
  note cod = sym.list_script_codable [OF acc]
  from encoder_bits_bound [OF e(2) cod] obtain bits where
    b: "bw.offered M (enc_writer e) c' bits" "length bits + unat (underflows e) \<le> 64 * length syms" by auto
  then have "writer_bits (enc_writer e) bits" using ctx_ok_no_error assms(6) by (auto simp: bw.offered_def)
  moreover from seal_total [OF e(2) cod _ assms(6)] small obtain r c'' where
    r: "seal e c' = Some (r, c'')" "\<not> is_error r"
      "stands_for_script (buf_data (result_buffer r)) (sym.list_script fs syms)"
      "buf_length (result_buffer r) = int (length (buf_data (result_buffer r)))" by auto
  ultimately show ?thesis using e(1) b(2) stands_for_length [OF r(3) cod] by auto
qed

lemma symbols_run:
  assumes "well_behaved M" and "well_behaved M'" and "n < 32767" and "length syms \<le> 2 ^ 28"
    and "\<forall>s\<in>set syms. 0 \<le> s \<and> s < int n"
  shows "\<exists>r c c'. encode_symbols M n syms = Some (r, c) \<and> \<not> is_error r \<and> \<not> context_is_errored c \<and>
     decode_symbols M' n (length syms) (result_buffer r) = Some (syms, c') \<and> \<not> context_is_errored c'"
proof -
  define fs :: "nat list" where "fs = replicate n 1"
  have table: "\<exists>c t c1. start_context N = Some c \<and>
      ftable_init c (int n) (FTABLE_INIT_ONE OR FTABLE_EXCLUDE_EOF) = Some (t, c1) \<and>
      ftable_repr t fs \<and> ctx_ok N c1" if N: "well_behaved N" for N
  proof -
    from start_context_correct [OF N] obtain c where c: "start_context N = Some c" "ctx_ok N c"
      "arena_free c = 33554432" by blast
    from ftable_init_correct [of n c "FTABLE_INIT_ONE OR FTABLE_EXCLUDE_EOF"] assms(3) c(3) obtain t c1 where
      t: "ftable_init c (int n) (FTABLE_INIT_ONE OR FTABLE_EXCLUDE_EOF) = Some (t, c1)" "ftable_repr t fs"
      unfolding init_frequencies_plain fs_def by auto
    with c same_client_ok [OF carved_ftable [OF t(1)] c(2)] show ?thesis by blast
  qed
  have "roomy fs (length syms)"
    using assms(3,4) by (simp add: roomy_def fs_def sum_list_replicate)
  then have acc: "sym.accepts_list fs syms"
    by (rule roomy_accepts_list) (use assms(5) in \<open>simp add: fs_def\<close>)
  have short: "length (sym.list_script fs syms) < 2 ^ 56" using assms(4) by simp
  from table [OF assms(1)] obtain c t c1 where e: "start_context M = Some c"
    "ftable_init c (int n) (FTABLE_INIT_ONE OR FTABLE_EXCLUDE_EOF) = Some (t, c1)"
    "ftable_repr t fs" "ctx_ok M c1" by blast
  from table [OF assms(2)] obtain c' t' c1' where d: "start_context M' = Some c'"
    "ftable_init c' (int n) (FTABLE_INIT_ONE OR FTABLE_EXCLUDE_EOF) = Some (t', c1')"
    "ftable_repr t' fs" "ctx_ok M' c1'" by blast
  note nr = well_behavedD [OF assms(1)] well_behavedD [OF assms(2)]
  from sym.encode_run [OF e(3) acc short e(4) nr(1)] obtain r c2 where
    r: "encode_symbols M n syms = Some (r, c2)" "sealed M r c2 (sym.list_script fs syms)"
    unfolding encode_symbols_def by (auto simp: e)
  from sym.decode_run [OF d(3) acc r(2) d(4) nr(2)] obtain c3 where
    "decode_symbols M' n (length syms) (result_buffer r) = Some (syms, c3)" "ctx_ok M' c3"
    unfolding decode_symbols_def by (auto simp: d bind_eq_Some_conv)
  with r sealed_no_error [OF r(2) nr(1)] ctx_ok_no_error [OF _ nr(2)] show ?thesis by blast
qed

lemma uints_run:
  assumes "well_behaved M" and "well_behaved M'" and "length vs \<le> 2 ^ 28"
    and "\<forall>v\<in>set vs. group_count v < uint_symbols max_value"
  shows "\<exists>r c c'. encode_uints M max_value vs = Some (r, c) \<and> \<not> is_error r \<and> \<not> context_is_errored c \<and>
     decode_uints M' max_value (length vs) (result_buffer r) = Some (vs, c') \<and> \<not> context_is_errored c'"
proof -
  define m where "m = uint_fresh max_value"
  have table: "\<exists>c t c1. start_context N = Some c \<and> uint_freq_tables_init c max_value = Some (t, c1) \<and>
      uint_repr t m \<and> ctx_ok N c1" if N: "well_behaved N" for N
  proof -
    from start_context_correct [OF N] obtain c where c: "start_context N = Some c" "ctx_ok N c"
      "arena_free c = 33554432" by blast
    from uint_freq_tables_init_correct [of c max_value] c(3) obtain t c1 where
      t: "uint_freq_tables_init c max_value = Some (t, c1)" "uint_repr t m" unfolding m_def by auto
    with c same_client_ok [OF carved_uint [OF t(1)] c(2)] show ?thesis by blast
  qed
  have "uint_roomy m (length vs)" using uint_roomy_fresh [OF assms(3)] by (simp add: m_def)
  then have acc: "ui.accepts_list m vs"
    by (rule uint_roomy_accepts) (use assms(4) in \<open>simp add: m_def\<close>)
  have short: "length (ui.list_script m vs) < 2 ^ 56"
    using uint_script_list_length [of m vs] assms(3) by simp
  from table [OF assms(1)] obtain c t c1 where e: "start_context M = Some c"
    "uint_freq_tables_init c max_value = Some (t, c1)" "uint_repr t m" "ctx_ok M c1" by blast
  from table [OF assms(2)] obtain c' t' c1' where d: "start_context M' = Some c'"
    "uint_freq_tables_init c' max_value = Some (t', c1')" "uint_repr t' m" "ctx_ok M' c1'" by blast
  note nr = well_behavedD [OF assms(1)] well_behavedD [OF assms(2)]
  from ui.encode_run [OF e(3) acc short e(4) nr(1)] obtain r c2 where
    r: "encode_uints M max_value vs = Some (r, c2)" "sealed M r c2 (ui.list_script m vs)"
    unfolding encode_uints_def by (auto simp: e)
  from ui.decode_run [OF d(3) acc r(2) d(4) nr(2)] obtain c3 where
    "decode_uints M' max_value (length vs) (result_buffer r) = Some (vs, c3)" "ctx_ok M' c3"
    unfolding decode_uints_def by (auto simp: d bind_eq_Some_conv)
  with r sealed_no_error [OF r(2) nr(1)] ctx_ok_no_error [OF _ nr(2)] show ?thesis by blast
qed

text \<open>The bytes a writer was given come out of it.\<close>

lemma consume_bytes:
  assumes "writer_repr w bytes []" and "ctx_ok M c" and "never_refuses M" and "length bytes < 2 ^ 59"
  shows "\<exists>r w' c'. writer_consume_all_buffers w c = Some (r, w', c') \<and> ctx_ok M c' \<and> \<not> is_error r \<and>
     buf_data (result_buffer r) = bytes \<and> buf_length (result_buffer r) = int (length bytes)"
proof -
  have "writer_bits w (bytes_bits bytes)" unfolding writer_bits_def
    using assms(1) by (intro exI [of _ bytes] exI [of _ "[]"]) simp
  from writer_consume_all_correct [OF this assms(2) _ ctx_ok_no_error [OF assms(2,3)]] assms(4)
  obtain r w' c' where r: "writer_consume_all_buffers w c = Some (r, w', c')" "ctx_ok M c'"
    "if is_error r then context_is_errored c'
     else ctx_error c' = ctx_error c \<and>
       (\<exists>pad<8. bytes_bits (buf_data (result_buffer r)) = bytes_bits bytes @ replicate pad False) \<and>
       buf_length (result_buffer r) = int (length (buf_data (result_buffer r)))" by auto
  have ok: "\<not> is_error r" using r(3) ctx_ok_no_error [OF r(2) assms(3)] by (auto split: if_splits)
  then obtain pad where pad: "pad < 8"
    "bytes_bits (buf_data (result_buffer r)) = bytes_bits bytes @ replicate pad False"
    "buf_length (result_buffer r) = int (length (buf_data (result_buffer r)))" using r(3) by auto
  have "8 * length (buf_data (result_buffer r)) = 8 * length bytes + pad"
    using arg_cong [OF pad(2), of length] by simp
  with pad(1) have "pad = 0" by presburger
  with pad(2) have "buf_data (result_buffer r) = bytes" by (auto intro: bytes_bits_inj)
  with r(1,2) ok pad(3) show ?thesis by auto
qed

lemma compress_run:
  assumes "well_behaved M" and "length bytes < 2 ^ 28"
  shows "\<exists>r c its. compress_text M bytes = Some (r, c) \<and>
     sealed M r c (it.list_script string_fresh (its @ [End_Of_String])) \<and> expand zeroes its = bytes \<and>
     End_Of_String \<notin> set its \<and> it.accepts_list string_fresh (its @ [End_Of_String]) \<and>
     length its \<le> length bytes"
proof -
  note nr = well_behavedD [OF assms(1)]
  from start_context_correct [OF assms(1)] obtain c0 where c0: "start_context M = Some c0" "ctx_ok M c0"
    "arena_free c0 = 33554432" by blast
  have room: "1130000 < arena_free c0" using c0(3) by simp
  have dummy: "encoder_holds M (acod_encoder_init w) c [] \<Longrightarrow> \<exists>s c''. strcomp_init c0 = Some (s, c'') \<and>
    compressor_holds M string_fresh zeroes [] s (acod_encoder_init w) c [] [] \<and> ctx_error c'' = ctx_error c0" for w c
    by (rule strcomp_init_correct [OF room])
  from start_writer_correct [OF c0(2) nr] obtain w0 c0' where "writer_repr w0 [] []" "ctx_ok M c0'" by blast
  from dummy [OF encoder_init_holds [OF writer_repr_offered [OF this]]] obtain s c1 where
    s: "strcomp_init c0 = Some (s, c1)" by blast
  have "ctx_ok M c1" using same_client_ok [OF carved_strcomp [OF s] c0(2)] .
  from start_writer_correct [OF this nr] obtain w c2 where
    w: "start_writer c1 = Some (w, c2)" "writer_repr w [] []" "ctx_ok M c2" by blast
  from dummy [OF encoder_init_holds [OF writer_repr_offered [OF w(2,3)]]] s
  have h: "compressor_holds M string_fresh zeroes [] s (acod_encoder_init w) c2 [] []" by auto
  have sr: "string_room string_fresh [] (2 ^ 28)"
    unfolding string_room_def using string_roomy_fresh [of "2 ^ 28"] by simp
  from strcomp_write_all_correct [OF h _ _ sr, of bytes] assms(2) obtain s1 e1 c3 its rest where
    a: "strcomp_write_all s (acod_encoder_init w) c2 bytes = Some (s1, e1, c3)"
      "compressor_holds M string_fresh zeroes [] s1 e1 c3 its rest" "expand zeroes its @ rest = bytes" by auto
  from strcomp_flush_correct [OF a(2) _ sr] a(3) assms(2) obtain s2 e2 c4 its' where
    f: "strcomp_flush s1 e1 c3 = Some (s2, e2, c4)" "expand zeroes its' = bytes"
      "\<forall>i\<in>set its'. item_fits i" "End_Of_String \<notin> set its'" "length its' \<le> length (expand zeroes its')"
      "encoder_holds M e2 c4 (it.list_script string_fresh (its' @ [End_Of_String]))"
    by (auto simp: compressor_holds_def)
  have "string_roomy string_fresh (length (its' @ [End_Of_String]))"
    by (rule string_roomy_fresh) (use f(2,5) assms(2) in simp)
  then have acc: "it.accepts_list string_fresh (its' @ [End_Of_String])"
    by (rule string_roomy_accepts) (use f(3) in \<open>auto simp: item_fits_def\<close>)
  have "length (it.list_script string_fresh (its' @ [End_Of_String])) < 2 ^ 56"
    using string_script_length [of string_fresh "its' @ [End_Of_String]"] f(2,5) assms(2) by simp
  from seal_seals [OF f(6) it.list_script_codable [OF acc] this nr] obtain r c5 where
    "seal e2 c4 = Some (r, c5)" "sealed M r c5 (it.list_script string_fresh (its' @ [End_Of_String]))" by blast
  with c0(1) s w(1) a(1) f(1,2,4,5) acc show ?thesis by (auto simp: compress_text_def)
qed

lemma decompress_run:
  assumes "well_behaved M'" and "sealed M r c (it.list_script string_fresh (its @ [End_Of_String]))"
    and "End_Of_String \<notin> set its" and "it.accepts_list string_fresh (its @ [End_Of_String])"
    and "length (expand zeroes its) < 2 ^ 59"
  shows "\<exists>r' c'. decompress_text M' (result_buffer r) = Some (r', c') \<and> ctx_ok M' c' \<and> \<not> is_error r' \<and>
     buf_data (result_buffer r') = expand zeroes its \<and>
     buf_length (result_buffer r') = int (length (expand zeroes its))"
proof -
  note nr = well_behavedD [OF assms(1)]
  from start_context_correct [OF assms(1)] obtain c0 where c0: "start_context M' = Some c0" "ctx_ok M' c0"
    "arena_free c0 = 33554432" by blast
  from start_writer_correct [OF c0(2) nr] obtain w c1 where
    w: "start_writer c0 = Some (w, c1)" "writer_repr w [] []" "ctx_ok M' c1" by blast
  have room: "80000 < arena_free c1" using c0(3) start_writer_room [OF w(1)] by simp
  have off: "bytes_offered M' w c [] " if "ctx_ok M' c" for c
    using w(2) that by (rule writer_repr_bytes_offered)
  have dummy: "decoder_ready d script \<Longrightarrow> ctx_ok M' c \<Longrightarrow> \<exists>s c''. strdecomp_init c1 w = Some (s, c'') \<and>
    decompressor_holds M' s d c string_fresh script (replicate 65536 0) [] \<and> ctx_error c'' = ctx_error c1"
    for d c script by (rule strdecomp_init_correct [OF room off])
  from open_sealed [OF assms(2) w(3) nr] w(3) dummy obtain s c2 where
    s: "strdecomp_init c1 w = Some (s, c2)" by blast
  have "ctx_ok M' c2" using same_client_ok [OF carved_strdecomp [OF s] w(3)] .
  from open_sealed [OF assms(2) this nr] obtain d c3 where
    d: "open_stream c2 (result_buffer r) = Some (d, c3)"
      "decoder_ready d (it.list_script string_fresh (its @ [End_Of_String]))" "ctx_ok M' c3" by blast
  from dummy [OF d(2,3)] s have "decompressor_holds M' s d c3 string_fresh
      (it.list_script string_fresh (its @ [End_Of_String]) @ []) zeroes []" by (auto simp: zeroes_def)
  from strdecomp_read_all_correct [OF this assms(4,3)] obtain s' d' c4 where
    a: "strdecomp_read_all s d c3 = Some (s', d', c4)" "bytes_offered M' (sd_writer s') c4 (expand zeroes its)"
    by auto
  have c4: "ctx_ok M' c4" using a(2) by (simp add: bytes_offered_def)
  have "writer_repr (sd_writer s') (expand zeroes its) []"
    using a(2) ctx_ok_no_error [OF c4 nr] by (simp add: bytes_offered_def)
  from consume_bytes [OF this c4 nr assms(5)] show ?thesis
    by (auto simp: decompress_text_def c0(1) w(1) s d(1) a(1))
qed

section \<open>Bits through the writer and the reader\<close>

definition write_bits ::
  "(nat \<Rightarrow> u64 \<Rightarrow> byte list option) \<Rightarrow> bool list \<Rightarrow> (buffer_or_error \<times> ctx) option" where
  "write_bits M bits = do {
     c \<leftarrow> start_context M;
     (w, c) \<leftarrow> start_writer c;
     (w, c) \<leftarrow> bw.put_list w c bits;
     (r, w, c) \<leftarrow> writer_consume_all_buffers w c;
     Some (r, c)
   }"

definition read_bits ::
  "(nat \<Rightarrow> u64 \<Rightarrow> byte list option) \<Rightarrow> nat \<Rightarrow> buffer \<Rightarrow> (byte list \<times> ctx) option" where
  "read_bits M k b = do {
     c \<leftarrow> start_context M;
     (ok, r, c) \<leftarrow> reader_init c;
     check ok;
     (ok, r, c) \<leftarrow> reader_push_buffer r c b;
     check ok;
     (bs, r, c) \<leftarrow> br.get_list k r c;
     Some (bs, c)
   }"

lemma bits_run:
  assumes "well_behaved M" and "well_behaved M'" and "bits \<noteq> []" and "length bits < 2 ^ 62"
  shows "\<exists>r c c'. write_bits M bits = Some (r, c) \<and> \<not> is_error r \<and> \<not> context_is_errored c \<and>
     read_bits M' (length bits) (result_buffer r) = Some (map of_bool bits, c') \<and> \<not> context_is_errored c'"
proof -
  note nr = well_behavedD [OF assms(1)] and nr' = well_behavedD [OF assms(2)]
  from start_context_correct [OF assms(1)] obtain c0 where c0: "start_context M = Some c0" "ctx_ok M c0" by blast
  from start_writer_correct [OF c0(2) nr] obtain w c1 where
    w: "start_writer c0 = Some (w, c1)" "writer_repr w [] []" "ctx_ok M c1" by blast
  from bw.offered_list [OF writer_repr_offered [OF w(2,3)], of bits] obtain w1 c2 where
    p: "bw.put_list w c1 bits = Some (w1, c2)" "bw.offered M w1 c2 bits" by auto
  have c2: "ctx_ok M c2" using p(2) by (simp add: bw.offered_def)
  have wb: "writer_bits w1 bits" using p(2) ctx_ok_no_error [OF c2 nr] by (simp add: bw.offered_def)
  from writer_consume_all_correct [OF wb c2 _ ctx_ok_no_error [OF c2 nr]] assms(4) obtain r w' c3 where
    r: "writer_consume_all_buffers w1 c2 = Some (r, w', c3)" "ctx_ok M c3"
    "if is_error r then context_is_errored c3
     else ctx_error c3 = ctx_error c2 \<and>
       (\<exists>pad<8. bytes_bits (buf_data (result_buffer r)) = bits @ replicate pad False) \<and>
       buf_length (result_buffer r) = int (length (buf_data (result_buffer r)))" by auto
  have ok: "\<not> is_error r" "\<not> context_is_errored c3" using r(3) ctx_ok_no_error [OF r(2) nr] by (auto split: if_splits)
  define b where "b = result_buffer r"
  from r(3) ok obtain pad where b: "bytes_bits (buf_data b) = bits @ replicate pad False"
    "buf_length b = int (length (buf_data b))" unfolding b_def by auto
  have "buf_data b \<noteq> []" using b(1) assms(3) by (metis append_is_Nil_conv bytes_bits_simps(1))
  then have rd: "readable b" and bb: "buffer_bytes b = buf_data b"
    using b(2) by (simp_all add: readable_def buffer_bytes_def)
  from start_context_correct [OF assms(2)] obtain d0 where d0: "start_context M' = Some d0" "ctx_ok M' d0" by blast
  from reader_init_correct [OF d0(2)] obtain ok1 rd1 d1 where i: "reader_init d0 = Some (ok1, rd1, d1)"
    "ctx_ok M' d1" "if ok1 then reader_bytes rd1 [] \<and> ctx_error d1 = ctx_error d0
       else rd1 = reader_zero \<and> context_is_errored d1" by blast
  have ok1: ok1 using i(3) ctx_ok_no_error [OF i(2) nr'] by (auto split: if_splits)
  then have "reader_bytes rd1 []" using i(3) by simp
  from reader_push_bytes [OF this rd i(2)] obtain ok2 rd2 d2 where
    u: "reader_push_buffer rd1 d1 b = Some (ok2, rd2, d2)" "ctx_ok M' d2"
      "if ok2 then ctx_error d2 = ctx_error d1 \<and> reader_bytes rd2 ([] @ buffer_bytes b)
       else context_is_errored d2 \<and> reader_bytes rd1 []"
    using \<open>reader_bytes rd1 []\<close> by (auto split: if_splits)
  have ok2: ok2 using u(3) ctx_ok_no_error [OF u(2) nr'] by (auto split: if_splits)
  then have "reader_bits rd2 (bits @ replicate pad False)"
    using u(3) reader_bytes_bits [of rd2 "buf_data b"] by (simp add: bb b(1))
  from br.get_list_holds [OF this, of d2] obtain rd3 where
    "br.get_list (length bits) rd2 d2 = Some (map of_bool bits, rd3, d2)" by blast
  with d0(1) i(1) ok1 u(1,2) ok2 ctx_ok_no_error [OF u(2) nr'] ok
  show ?thesis by (auto simp: write_bits_def read_bits_def c0(1) w(1) p(1) r(1) b_def)
qed

section \<open>Concrete starting points\<close>

text \<open>An allocator that grants everything, zero filled.\<close>

definition lavish :: "nat \<Rightarrow> u64 \<Rightarrow> byte list option" where
  "lavish k n = Some (replicate (unat n) 0)"

lemma lavish_well_behaved [simp]: "well_behaved lavish"
  by (simp add: well_behaved_def never_refuses_def lavish_def)

lemma lavish_never_refuses [simp]: "never_refuses lavish"
  by (rule well_behavedD) simp

lemma fresh_context: "\<exists>c. start_context lavish = Some c \<and> ctx_ok lavish c \<and> arena_free c = 33554432"
  by (rule start_context_correct) simp

lemma fresh_room: "k < 33554432 \<Longrightarrow> \<exists>c. k < arena_free c"
  using fresh_context by metis

lemma fresh_writer: "\<exists>w c. writer_repr w [] [] \<and> ctx_ok lavish c"
  using fresh_context start_writer_correct [of lavish] by fastforce

lemma fresh_offered: "\<exists>w c. bytes_offered lavish w c []"
  using fresh_writer writer_repr_bytes_offered by blast

lemma fresh_reader:
  assumes "bytes \<noteq> []"
  shows "\<exists>r. at_last r bytes"
proof -
  define b where "b = \<lparr>buf_data = bytes, buf_length = int (length bytes), allocated_length = int (length bytes)\<rparr>"
  have b: "readable b" "buffer_bytes b = bytes" using assms by (simp_all add: b_def readable_def buffer_bytes_def)
  from fresh_context obtain c where c: "ctx_ok lavish c" by blast
  from reader_init_correct [OF c] obtain ok r c' where i: "ctx_ok lavish c'"
    "if ok then reader_bytes r [] \<and> ctx_error c' = ctx_error c else r = reader_zero \<and> context_is_errored c'" by blast
  have "reader_bytes r []" using i ctx_ok_no_error [OF i(1)] by (auto split: if_splits)
  from reader_push_last [OF this b(1), of c' lavish] obtain ok2 r' c2 where
    p: "ctx_ok lavish c' \<longrightarrow> ctx_ok lavish c2"
    "if ok2 then ctx_error c2 = ctx_error c' \<and> at_last r' (buffer_bytes b) else context_is_errored c2" by blast
  then show ?thesis using i(1) ctx_ok_no_error [of lavish c2] b(2) by (auto split: if_splits)
qed

lemma fresh_decoder:
  assumes "encoder_holds lavish e c script" and "\<forall>p\<in>set script. codable p" and "length script < 2 ^ 56"
  shows "\<exists>d. decoder_ready d script"
proof -
  from seal_seals [OF assms lavish_never_refuses] obtain r c' where "sealed lavish r c' script" by blast
  with open_sealed fresh_context show ?thesis by (metis lavish_never_refuses)
qed

lemma fresh_encoder: "\<exists>e c. encoder_holds lavish e c []"
  using fresh_writer encoder_init_holds writer_repr_offered by blast

lemma fresh_table: "\<exists>t. ftable_repr t [1, 1]"
proof -
  from fresh_context obtain c where "arena_free c = 33554432" by blast
  with ftable_init_correct [of 2 c "FTABLE_INIT_ONE OR FTABLE_EXCLUDE_EOF"] show ?thesis
    by (auto simp: init_frequencies_plain numeral_2_eq_2)
qed

end
