(* ===== verification/Json_Base.thy ===== *)
theory Json_Base
  imports Prelude
begin

text \<open>
  \<open>src/json/json_base.c\<close>: token kinds and parser states are enumerations there (\<open>byte\<close>
  constants), datatypes here, with \<open>kind_code\<close> and \<open>state_code\<close> their values.  The union inside
  \<open>json_token\<close> is the payload; reading another member than the one written is an abort.
\<close>

definition JSON_MAX_STATE_STACK_LENGTH :: nat where "JSON_MAX_STATE_STACK_LENGTH = 512"
definition JSON_HEX_CHARACTERS_IN_ESCAPED_UNICODE_CODEPOINT :: nat where
  "JSON_HEX_CHARACTERS_IN_ESCAPED_UNICODE_CODEPOINT = 4"
definition JSON_MAX_NUMBER_LEADING_ZEROES :: nat where "JSON_MAX_NUMBER_LEADING_ZEROES = 80"

text \<open>A character literal of the source.\<close>

definition chr :: "char \<Rightarrow> byte" where
  "chr x = of_nat (of_char x)"

definition chrs :: "string \<Rightarrow> byte list" where
  "chrs s = map chr s"

definition JTOK_TRUE_BYTES :: "byte list" where "JTOK_TRUE_BYTES = chrs ''true''"
definition JTOK_FALSE_BYTES :: "byte list" where "JTOK_FALSE_BYTES = chrs ''false''"
definition JTOK_NULL_BYTES :: "byte list" where "JTOK_NULL_BYTES = chrs ''null''"
definition JTOK_ESCAPE_SEQ_CHARS :: "byte list" where
  "JTOK_ESCAPE_SEQ_CHARS = [0x5C, 0x22, 0x2F, 0x62, 0x66, 0x6E, 0x72, 0x74]"
definition JTOK_WHITESPACE_CHARS :: "byte list" where
  "JTOK_WHITESPACE_CHARS = [0x20, 0x0A, 0x0D, 0x09]"

section \<open>Token kinds\<close>

datatype json_token_kind =
    JSON_TOKEN_INVALID | JSON_TOKEN_OBJECT_OPEN | JSON_TOKEN_OBJECT_CLOSE | JSON_TOKEN_ARRAY_OPEN
  | JSON_TOKEN_ARRAY_CLOSE | JSON_TOKEN_TRUE | JSON_TOKEN_FALSE | JSON_TOKEN_NULL
  | JSON_TOKEN_VALUE_SEPARATOR | JSON_TOKEN_STRING_DELIMITER | JSON_TOKEN_KV_SEPARATOR
  | JSON_TOKEN_BOM | JSON_TOKEN_WHITESPACE | JSON_TOKEN_ESCAPE_SEQUENCE
  | JSON_TOKEN_UNICODE_CHARACTER | JSON_TOKEN_ESCAPED_UNICODE_CHARCODE | JSON_TOKEN_NUMBER

definition json_kinds :: "json_token_kind list" where
  "json_kinds = [JSON_TOKEN_INVALID, JSON_TOKEN_OBJECT_OPEN, JSON_TOKEN_OBJECT_CLOSE,
     JSON_TOKEN_ARRAY_OPEN, JSON_TOKEN_ARRAY_CLOSE, JSON_TOKEN_TRUE, JSON_TOKEN_FALSE,
     JSON_TOKEN_NULL, JSON_TOKEN_VALUE_SEPARATOR, JSON_TOKEN_STRING_DELIMITER,
     JSON_TOKEN_KV_SEPARATOR, JSON_TOKEN_BOM, JSON_TOKEN_WHITESPACE, JSON_TOKEN_ESCAPE_SEQUENCE,
     JSON_TOKEN_UNICODE_CHARACTER, JSON_TOKEN_ESCAPED_UNICODE_CHARCODE, JSON_TOKEN_NUMBER]"

primrec kind_code :: "json_token_kind \<Rightarrow> nat" where
  "kind_code JSON_TOKEN_INVALID = 0"
| "kind_code JSON_TOKEN_OBJECT_OPEN = 1"
| "kind_code JSON_TOKEN_OBJECT_CLOSE = 2"
| "kind_code JSON_TOKEN_ARRAY_OPEN = 3"
| "kind_code JSON_TOKEN_ARRAY_CLOSE = 4"
| "kind_code JSON_TOKEN_TRUE = 5"
| "kind_code JSON_TOKEN_FALSE = 6"
| "kind_code JSON_TOKEN_NULL = 7"
| "kind_code JSON_TOKEN_VALUE_SEPARATOR = 8"
| "kind_code JSON_TOKEN_STRING_DELIMITER = 9"
| "kind_code JSON_TOKEN_KV_SEPARATOR = 10"
| "kind_code JSON_TOKEN_BOM = 11"
| "kind_code JSON_TOKEN_WHITESPACE = 12"
| "kind_code JSON_TOKEN_ESCAPE_SEQUENCE = 13"
| "kind_code JSON_TOKEN_UNICODE_CHARACTER = 14"
| "kind_code JSON_TOKEN_ESCAPED_UNICODE_CHARCODE = 15"
| "kind_code JSON_TOKEN_NUMBER = 16"

definition JSON_TOKEN_MAX :: nat where "JSON_TOKEN_MAX = kind_code JSON_TOKEN_NUMBER"

text \<open>The kind a number stands for; a number above \<open>JSON_TOKEN_MAX\<close> is none.\<close>

definition kind_of_code :: "int \<Rightarrow> json_token_kind option" where
  "kind_of_code s = at json_kinds s"

lemma kind_code_less [simp]: "kind_code k < 17"
  by (cases k) simp_all

lemma kind_of_code [simp]: "kind_of_code (int (kind_code k)) = Some k"
  by (cases k) (simp_all add: kind_of_code_def json_kinds_def at_def in_range_def)

section \<open>Parser states\<close>

datatype json_state =
    JSON_STATE_ROOT | JSON_STATE_START | JSON_STATE_VALUE | JSON_STATE_OBJECT_START
  | JSON_STATE_OBJECT_CONTINUE | JSON_STATE_OBJECT_KV_SEPARATOR | JSON_STATE_OBJECT_KEY_START
  | JSON_STATE_ARRAY_START | JSON_STATE_ARRAY_CONTINUE | JSON_STATE_STRING | JSON_STATE_OBJECT_KEY

primrec state_code :: "json_state \<Rightarrow> nat" where
  "state_code JSON_STATE_ROOT = 0"
| "state_code JSON_STATE_START = 1"
| "state_code JSON_STATE_VALUE = 2"
| "state_code JSON_STATE_OBJECT_START = 3"
| "state_code JSON_STATE_OBJECT_CONTINUE = 4"
| "state_code JSON_STATE_OBJECT_KV_SEPARATOR = 5"
| "state_code JSON_STATE_OBJECT_KEY_START = 6"
| "state_code JSON_STATE_ARRAY_START = 7"
| "state_code JSON_STATE_ARRAY_CONTINUE = 8"
| "state_code JSON_STATE_STRING = 9"
| "state_code JSON_STATE_OBJECT_KEY = 10"

definition JSON_STATE_MAX :: nat where "JSON_STATE_MAX = state_code JSON_STATE_OBJECT_KEY"

lemma state_code_less [simp]: "state_code s < 11"
  by (cases s) simp_all

lemma state_code_inject [simp]: "state_code s = state_code t \<longleftrightarrow> s = t"
  by (cases s; cases t) simp_all

definition json_is_string_state :: "json_state \<Rightarrow> bool" where
  "json_is_string_state s \<longleftrightarrow> s = JSON_STATE_STRING \<or> s = JSON_STATE_OBJECT_KEY"

section \<open>Tokens\<close>

definition JSON_NUMBER_INTEGER_PART_IS_ZERO :: byte where "JSON_NUMBER_INTEGER_PART_IS_ZERO = push_bit 0 1"
definition JSON_NUMBER_IS_NEGATIVE :: byte where "JSON_NUMBER_IS_NEGATIVE = push_bit 1 1"
definition JSON_NUMBER_HAS_FRACTION :: byte where "JSON_NUMBER_HAS_FRACTION = push_bit 2 1"
definition JSON_NUMBER_HAS_EXPONENT :: byte where "JSON_NUMBER_HAS_EXPONENT = push_bit 3 1"
definition JSON_NUMBER_EXPONENT_UPPERCASE :: byte where "JSON_NUMBER_EXPONENT_UPPERCASE = push_bit 4 1"
definition JSON_NUMBER_EXPONENT_IS_NEGATIVE :: byte where "JSON_NUMBER_EXPONENT_IS_NEGATIVE = push_bit 5 1"
definition JSON_NUMBER_EXPONENT_HAS_PLUS :: byte where "JSON_NUMBER_EXPONENT_HAS_PLUS = push_bit 6 1"
definition JSON_NUMBER_FLAGS_MAX :: u64 where "JSON_NUMBER_FLAGS_MAX = push_bit 7 1 - 1"

lemmas json_number_flag_defs = JSON_NUMBER_INTEGER_PART_IS_ZERO_def JSON_NUMBER_IS_NEGATIVE_def
  JSON_NUMBER_HAS_FRACTION_def JSON_NUMBER_HAS_EXPONENT_def JSON_NUMBER_EXPONENT_UPPERCASE_def
  JSON_NUMBER_EXPONENT_IS_NEGATIVE_def JSON_NUMBER_EXPONENT_HAS_PLUS_def

text \<open>\<open>flags & flag\<close> read as a condition.\<close>

definition flag_set :: "byte \<Rightarrow> byte \<Rightarrow> bool" where
  "flag_set flags flag \<longleftrightarrow> flags AND flag \<noteq> 0"

record json_number_token =
  integer_part :: u64
  fraction_part :: u64
  exponent_part :: u16
  number_flags :: byte
  fraction_leading_zeroes :: byte
  exponent_leading_zeroes :: byte

definition zero_number :: json_number_token where
  "zero_number = \<lparr>integer_part = 0, fraction_part = 0, exponent_part = 0, number_flags = 0,
     fraction_leading_zeroes = 0, exponent_leading_zeroes = 0\<rparr>"

text \<open>\<open>Unicode value length\<close>: up to eight bytes packed into \<open>value\<close>, lowest first.\<close>

datatype token_payload = No_Payload | Character byte | Unicode u64 byte | Number json_number_token

record json_token =
  token_kind :: json_token_kind
  payload :: token_payload

definition simple_token :: "json_token_kind \<Rightarrow> json_token" where
  "simple_token k = \<lparr>token_kind = k, payload = No_Payload\<rparr>"

definition INVALID_JSON_TOKEN :: json_token where
  "INVALID_JSON_TOKEN = simple_token JSON_TOKEN_INVALID"

primrec payload_character :: "token_payload \<Rightarrow> byte option" where
  "payload_character No_Payload = None"
| "payload_character (Character b) = Some b"
| "payload_character (Unicode v n) = None"
| "payload_character (Number n) = None"

primrec payload_unicode :: "token_payload \<Rightarrow> (u64 \<times> byte) option" where
  "payload_unicode No_Payload = None"
| "payload_unicode (Character b) = None"
| "payload_unicode (Unicode v n) = Some (v, n)"
| "payload_unicode (Number n) = None"

primrec payload_number :: "token_payload \<Rightarrow> json_number_token option" where
  "payload_number No_Payload = None"
| "payload_number (Character b) = None"
| "payload_number (Unicode v n) = None"
| "payload_number (Number n) = Some n"

end
