(* ===== verification/Utf8.thy ===== *)
theory Utf8
  imports Prelude
begin

text \<open>
  \<open>src/utf8.c\<close>, compared with the encoder and the grammar of RFC 3629.  The code checks less than the
  RFC: the second byte after \<open>E0\<close>, \<open>ED\<close>, \<open>F0\<close> and \<open>F4\<close> may be any continuation byte.
\<close>

definition UTF8_BOM :: "byte list" where
  "UTF8_BOM = [0xEF, 0xBB, 0xBF]"

definition utf8_can_bytes_be_bom_start :: "byte list \<Rightarrow> int \<Rightarrow> bool option" where
  "utf8_can_bytes_be_bom_start bytes len = do {
     a \<leftarrow> (if len < 1 then Some True else map_option (\<lambda>b. b = UTF8_BOM ! 0) (at bytes 0));
     b \<leftarrow> (if \<not> a then Some False else if len < 2 then Some True
           else map_option (\<lambda>b. b = UTF8_BOM ! 1) (at bytes 1));
     if \<not> b then Some False else if len < 3 then Some True
     else map_option (\<lambda>b. b = UTF8_BOM ! 2) (at bytes 2)
   }"

definition utf8_get_sequence_length_by_first_byte :: "byte \<Rightarrow> int" where
  "utf8_get_sequence_length_by_first_byte b =
     (if b \<le> 0x7F then 1
      else if b \<le> 0xC1 then 0
      else if b \<le> 0xDF then 2
      else if b \<le> 0xEF then 3
      else if b \<le> 0xF4 then 4
      else 0)"

definition utf8_is_valid_continuation_byte :: "byte \<Rightarrow> bool" where
  "utf8_is_valid_continuation_byte b \<longleftrightarrow> b AND 0xC0 = 0x80"

text \<open>The loop from \<open>i\<close>, with \<open>n\<close> rounds left.\<close>

primrec utf8_continuation_loop :: "nat \<Rightarrow> byte list \<Rightarrow> int \<Rightarrow> bool option" where
  "utf8_continuation_loop 0 bytes i = Some True"
| "utf8_continuation_loop (Suc n) bytes i = do {
     b \<leftarrow> at bytes i;
     if \<not> utf8_is_valid_continuation_byte b then Some False
     else utf8_continuation_loop n bytes (i + 1)
   }"

definition utf8_are_continuation_bytes_valid :: "byte list \<Rightarrow> int \<Rightarrow> bool option" where
  "utf8_are_continuation_bytes_valid bytes len = utf8_continuation_loop (nat (len - 1)) bytes 1"

definition utf8_get_meaningful_bits_of_first_byte :: "byte \<Rightarrow> byte" where
  "utf8_get_meaningful_bits_of_first_byte b =
     (let len = utf8_get_sequence_length_by_first_byte b
      in if len = 1 then b AND 0x7F else b AND drop_bit (nat len) 0x7F)"

definition utf8_get_meaningful_bits_of_continuation_byte :: "byte \<Rightarrow> byte" where
  "utf8_get_meaningful_bits_of_continuation_byte b = b AND 0x3F"

section \<open>The encoder\<close>

text \<open>The bits of a number spread over bytes; only scalar values are characters of the RFC.\<close>

definition utf8_scalar :: "nat \<Rightarrow> bool" where
  "utf8_scalar cp \<longleftrightarrow> cp < 0xD800 \<or> 0xE000 \<le> cp \<and> cp < 0x110000"

definition utf8_encode :: "nat \<Rightarrow> byte list" where
  "utf8_encode cp =
     (if cp < 0x80 then [of_nat cp]
      else if cp < 0x800 then [of_nat (0xC0 + cp div 64), of_nat (0x80 + cp mod 64)]
      else if cp < 0x10000
      then [of_nat (0xE0 + cp div 4096), of_nat (0x80 + cp div 64 mod 64), of_nat (0x80 + cp mod 64)]
      else [of_nat (0xF0 + cp div 262144), of_nat (0x80 + cp div 4096 mod 64),
            of_nat (0x80 + cp div 64 mod 64), of_nat (0x80 + cp mod 64)])"

text \<open>The number a sequence stands for, by the two functions of the code.\<close>

definition utf8_decode :: "byte list \<Rightarrow> nat" where
  "utf8_decode bs = foldl (\<lambda>n b. n * 64 + unat (utf8_get_meaningful_bits_of_continuation_byte b))
     (unat (utf8_get_meaningful_bits_of_first_byte (hd bs))) (tl bs)"

text \<open>Bytes are few: the facts about single ones are evaluated.\<close>

lemma continuation_table:
  "list_all (\<lambda>n. utf8_is_valid_continuation_byte (of_nat (0x80 + n)) \<and>
     unat (utf8_get_meaningful_bits_of_continuation_byte (of_nat (0x80 + n))) = n) [0..<64]"
  by code_simp

definition starts_with :: "nat \<Rightarrow> nat \<Rightarrow> nat \<Rightarrow> bool" where
  "starts_with len base n \<longleftrightarrow>
     utf8_get_sequence_length_by_first_byte (of_nat (base + n)) = int len \<and>
     unat (utf8_get_meaningful_bits_of_first_byte (of_nat (base + n))) = n"

lemma first_table:
  "list_all (starts_with 1 0) [0..<128]" "list_all (starts_with 2 0xC0) [2..<32]"
  "list_all (starts_with 3 0xE0) [0..<16]" "list_all (starts_with 4 0xF0) [0..<5]"
  by code_simp+

lemma list_all_upt: "list_all P [a..<b] \<Longrightarrow> a \<le> n \<Longrightarrow> n < b \<Longrightarrow> P n"
  by (simp only: list_all_iff set_upt) auto

lemma continuation_byte [simp]:
  assumes "n < 64"
  shows "utf8_is_valid_continuation_byte (of_nat (0x80 + n))"
    and "unat (utf8_get_meaningful_bits_of_continuation_byte (of_nat (0x80 + n))) = n"
  using list_all_upt [OF continuation_table, of n] assms by simp_all

lemma first_byte:
  "n < 128 \<Longrightarrow> starts_with 1 0 n" "2 \<le> n \<Longrightarrow> n < 32 \<Longrightarrow> starts_with 2 0xC0 n"
  "n < 16 \<Longrightarrow> starts_with 3 0xE0 n" "n < 5 \<Longrightarrow> starts_with 4 0xF0 n"
  by (rule list_all_upt [OF first_table(1)] list_all_upt [OF first_table(2)]
      list_all_upt [OF first_table(3)] list_all_upt [OF first_table(4)]; simp)+

text \<open>Two rounds of \<open>n = 64 * (n div 64) + n mod 64\<close> put a code point together again.\<close>

lemma split_64: "(n :: nat) div 64 * 64 + n mod 64 = n"
  by simp

lemma split_4096: "(n :: nat) div 4096 = n div 64 div 64" "(n :: nat) div 262144 = n div 64 div 64 div 64"
  by (simp_all add: div_mult2_eq [symmetric])

definition utf8_well_formed :: "byte list \<Rightarrow> bool" where
  "utf8_well_formed bs \<longleftrightarrow>
     utf8_get_sequence_length_by_first_byte (hd bs) = int (length bs) \<and>
     utf8_are_continuation_bytes_valid bs (int (length bs)) = Some True"

lemma continuation_loop_checks:
  "utf8_continuation_loop (length ys) (xs @ ys) (int (length xs)) =
     Some (list_all utf8_is_valid_continuation_byte ys)"
proof (induction ys arbitrary: xs)
  case (Cons y ys)
  from Cons.IH [of "xs @ [y]"] show ?case by (simp add: nth_append add.commute del: of_nat_add)
qed simp

lemma continuation_bytes_checked:
  "utf8_are_continuation_bytes_valid (b # bs) (int (length (b # bs))) =
     Some (list_all utf8_is_valid_continuation_byte bs)"
  using continuation_loop_checks [of bs "[b]"] by (simp add: utf8_are_continuation_bytes_valid_def)

lemma well_formed_Cons_iff:
  "utf8_well_formed (b # bs) \<longleftrightarrow> utf8_get_sequence_length_by_first_byte b = int (Suc (length bs)) \<and>
     list_all utf8_is_valid_continuation_byte bs"
  using continuation_bytes_checked [of b bs] by (simp add: utf8_well_formed_def)

lemma well_formed_Cons:
  assumes "utf8_get_sequence_length_by_first_byte b = int (Suc (length bs))"
    and "list_all utf8_is_valid_continuation_byte bs"
  shows "utf8_well_formed (b # bs)"
  using assms by (simp add: well_formed_Cons_iff)

lemma utf8_encode_correct:
  assumes "cp < 0x110000"
  shows "utf8_well_formed (utf8_encode cp) \<and> utf8_decode (utf8_encode cp) = cp"
proof -
  consider "cp < 0x80" | "0x80 \<le> cp" "cp < 0x800" | "0x800 \<le> cp" "cp < 0x10000" | "0x10000 \<le> cp"
    by linarith
  then show ?thesis
  proof cases
    case 1
    with first_byte(1) [of cp] show ?thesis
      by (simp add: utf8_encode_def well_formed_Cons utf8_decode_def starts_with_def)
  next
    case 2
    then have "2 \<le> cp div 64" "cp div 64 < 32" by simp_all
    from first_byte(2) [OF this] 2 show ?thesis
      by (simp add: utf8_encode_def well_formed_Cons utf8_decode_def starts_with_def split_64 del: of_nat_add)
  next
    case 3
    then have "cp div 4096 < 16" by simp
    from first_byte(3) [OF this] 3 show ?thesis
      by (simp add: utf8_encode_def well_formed_Cons utf8_decode_def starts_with_def split_4096 split_64
          del: of_nat_add)
  next
    case 4
    with assms have "cp div 262144 < 5" by simp
    from first_byte(4) [OF this] 4 show ?thesis
      by (simp add: utf8_encode_def well_formed_Cons utf8_decode_def starts_with_def split_4096 split_64
          del: of_nat_add)
  qed
qed

section \<open>The grammar of the RFC\<close>

text \<open>Section 4 of RFC 3629, by the length of the sequence.\<close>

definition utf8_tail :: "byte \<Rightarrow> bool" where
  "utf8_tail b \<longleftrightarrow> 0x80 \<le> b \<and> b \<le> 0xBF"

fun utf8_rfc3629 :: "byte list \<Rightarrow> bool" where
  "utf8_rfc3629 [a] \<longleftrightarrow> a \<le> 0x7F"
| "utf8_rfc3629 [a, b] \<longleftrightarrow> 0xC2 \<le> a \<and> a \<le> 0xDF \<and> utf8_tail b"
| "utf8_rfc3629 [a, b, c] \<longleftrightarrow> utf8_tail c \<and>
     (a = 0xE0 \<and> 0xA0 \<le> b \<and> b \<le> 0xBF \<or> 0xE1 \<le> a \<and> a \<le> 0xEC \<and> utf8_tail b \<or>
      a = 0xED \<and> 0x80 \<le> b \<and> b \<le> 0x9F \<or> 0xEE \<le> a \<and> a \<le> 0xEF \<and> utf8_tail b)"
| "utf8_rfc3629 [a, b, c, d] \<longleftrightarrow> utf8_tail c \<and> utf8_tail d \<and>
     (a = 0xF0 \<and> 0x90 \<le> b \<and> b \<le> 0xBF \<or> 0xF1 \<le> a \<and> a \<le> 0xF3 \<and> utf8_tail b \<or>
      a = 0xF4 \<and> 0x80 \<le> b \<and> b \<le> 0x8F)"
| "utf8_rfc3629 _ \<longleftrightarrow> False"

text \<open>
  What the code lets through besides: three-byte and four-byte forms that are too long (\<open>E0 80-9F\<close>,
  \<open>F0 80-8F\<close>), surrogates (\<open>ED A0-BF\<close>), numbers beyond \<open>10FFFF\<close> (\<open>F4 90-BF\<close>).
\<close>

fun utf8_unchecked :: "byte list \<Rightarrow> bool" where
  "utf8_unchecked [a, b, c] \<longleftrightarrow> utf8_tail b \<and> utf8_tail c \<and> (a = 0xE0 \<and> b < 0xA0 \<or> a = 0xED \<and> 0x9F < b)"
| "utf8_unchecked [a, b, c, d] \<longleftrightarrow> utf8_tail b \<and> utf8_tail c \<and> utf8_tail d \<and>
     (a = 0xF0 \<and> b < 0x90 \<or> a = 0xF4 \<and> 0x8F < b)"
| "utf8_unchecked _ \<longleftrightarrow> False"

lemma byte_table: "list_all (\<lambda>n. P (of_nat n :: byte)) [0..<256] \<Longrightarrow> P b"
  using list_all_upt [of "\<lambda>n. P (of_nat n)" 0 256 "unat b"] unsigned_less [of b] by simp

lemma continuation_is_tail: "utf8_is_valid_continuation_byte b \<longleftrightarrow> utf8_tail b"
  by (rule byte_table [where P = "\<lambda>b. utf8_is_valid_continuation_byte b \<longleftrightarrow> utf8_tail b"]) code_simp

lemma sequence_lengths:
  "utf8_get_sequence_length_by_first_byte b \<in> {0, 1, 2, 3, 4}"
  "utf8_get_sequence_length_by_first_byte b = 1 \<longleftrightarrow> b \<le> 0x7F"
  "utf8_get_sequence_length_by_first_byte b = 2 \<longleftrightarrow> 0xC2 \<le> b \<and> b \<le> 0xDF"
  "utf8_get_sequence_length_by_first_byte b = 3 \<longleftrightarrow> b = 0xE0 \<or> 0xE1 \<le> b \<and> b \<le> 0xEC \<or> b = 0xED \<or> 0xEE \<le> b \<and> b \<le> 0xEF"
  "utf8_get_sequence_length_by_first_byte b = 4 \<longleftrightarrow> b = 0xF0 \<or> 0xF1 \<le> b \<and> b \<le> 0xF3 \<or> b = 0xF4"
  by (simp_all add: utf8_get_sequence_length_by_first_byte_def word_le_nat_alt word_unat_eq_iff) presburger+

lemma rfc_long: "utf8_rfc3629 (a # b # c # d # e # bs) = False" "utf8_unchecked (a # b # c # d # e # bs) = False"
  by simp_all

text \<open>The two functions together accept the grammar of the RFC and the unchecked forms, no more.\<close>

lemma well_formed_iff:
  assumes "bs \<noteq> []"
  shows "utf8_well_formed bs \<longleftrightarrow> utf8_rfc3629 bs \<or> utf8_unchecked bs"
proof -
  consider a where "bs = [a]" | a b where "bs = [a, b]" | a b c where "bs = [a, b, c]"
    | a b c d where "bs = [a, b, c, d]" | a b c d e r where "bs = a # b # c # d # e # r"
    using assms by (metis neq_Nil_conv)
  then show ?thesis
  proof cases
    case 1
    then show ?thesis by (simp add: well_formed_Cons_iff sequence_lengths(2))
  next
    case 2
    then show ?thesis by (simp add: well_formed_Cons_iff sequence_lengths(3) continuation_is_tail conj_assoc)
  next
    case 3
    then show ?thesis unfolding 3 well_formed_Cons_iff utf8_rfc3629.simps utf8_unchecked.simps
      by (auto simp: sequence_lengths(4) continuation_is_tail utf8_tail_def word_le_nat_alt word_less_nat_alt)
  next
    case 4
    then show ?thesis unfolding 4 well_formed_Cons_iff utf8_rfc3629.simps utf8_unchecked.simps
      by (auto simp: sequence_lengths(5) continuation_is_tail utf8_tail_def word_le_nat_alt word_less_nat_alt)
  next
    case 5
    then show ?thesis using sequence_lengths(1) [of a] by (auto simp: well_formed_Cons_iff)
  qed
qed

text \<open>The grammar is the image of the encoder on scalar values.\<close>

lemma unat_byte: "n < 256 \<Longrightarrow> unat (of_nat n :: byte) = n"
  by (simp add: unat_of_nat)

lemma tail_byte: "n < 64 \<Longrightarrow> utf8_tail (of_nat (0x80 + n))"
  by (simp add: utf8_tail_def word_le_nat_alt unat_byte del: of_nat_add)

lemma scalar_in_grammar:
  assumes "utf8_scalar cp"
  shows "utf8_rfc3629 (utf8_encode cp)"
proof -
  consider "cp < 0x80" | "0x80 \<le> cp" "cp < 0x800" | "0x800 \<le> cp" "cp < 0x10000" "\<not> (0xD800 \<le> cp \<and> cp < 0xE000)"
    | "0x10000 \<le> cp" "cp < 0x110000"
    using assms unfolding utf8_scalar_def by linarith
  then show ?thesis
  proof cases
    case 1
    then show ?thesis by (simp add: utf8_encode_def word_le_nat_alt unat_byte)
  next
    case 2
    then have "2 \<le> cp div 64" "cp div 64 < 32" by simp_all
    then show ?thesis using 2
      by (simp add: utf8_encode_def word_le_nat_alt unat_byte tail_byte del: of_nat_add)
  next
    case 3
    define p q where "p = cp div 4096" and "q = cp div 64 mod 64"
    define t where "t = cp mod 64"
    have eq: "cp = (p * 64 + q) * 64 + t" "t < 64" and q: "q < 64"
      unfolding p_def q_def t_def split_4096 by simp_all
    have "p < 16" using 3(2) eq(1) by simp
    moreover have "p = 0 \<longrightarrow> 32 \<le> q" "p = 13 \<longrightarrow> q < 32" using 3(1,3) eq q by auto
    ultimately have x: "p < 16" "q < 64" "p = 0 \<longrightarrow> 32 \<le> q" "p = 13 \<longrightarrow> q < 32" using q by auto
    have code: "utf8_encode cp = [of_nat (0xE0 + p), of_nat (0x80 + q), of_nat (0x80 + cp mod 64)]"
      using 3 unfolding utf8_encode_def p_def q_def by simp
    consider "p = 0" | "1 \<le> p" "p \<le> 12" | "p = 13" | "14 \<le> p" by linarith
    then show ?thesis unfolding code using x
      by cases (simp_all add: word_le_nat_alt word_unat_eq_iff unat_byte tail_byte del: of_nat_add)
  next
    case 4
    define p q where "p = cp div 262144" and "q = cp div 4096 mod 64"
    define r where "r = cp div 64 mod 64"
    define t where "t = cp mod 64"
    have eq: "cp = ((p * 64 + q) * 64 + r) * 64 + t" "t < 64" "r < 64" and q: "q < 64"
      unfolding p_def q_def r_def t_def split_4096 by simp_all
    have "p < 5" using 4(2) eq(1) by simp
    moreover have "p = 0 \<longrightarrow> 16 \<le> q" "p = 4 \<longrightarrow> q < 16" using 4 eq q by auto
    ultimately have x: "p < 5" "q < 64" "p = 0 \<longrightarrow> 16 \<le> q" "p = 4 \<longrightarrow> q < 16" using q by auto
    have code: "utf8_encode cp = [of_nat (0xF0 + p), of_nat (0x80 + q), of_nat (0x80 + cp div 64 mod 64),
        of_nat (0x80 + cp mod 64)]"
      using 4 unfolding utf8_encode_def p_def q_def by simp
    consider "p = 0" | "1 \<le> p" "p \<le> 3" | "p = 4" using x(1) by linarith
    then show ?thesis unfolding code using x
      by cases (simp_all add: word_le_nat_alt word_unat_eq_iff unat_byte tail_byte del: of_nat_add)
  qed
qed

lemma byte_offset: "k + n = unat b \<Longrightarrow> of_nat (k + n) = (b :: byte)"
  by simp

lemma tailE:
  assumes "utf8_tail b"
  obtains n where "n < 64" and "b = of_nat (0x80 + n)"
proof
  have "0x80 \<le> unat b" "unat b \<le> 0xBF" using assms by (simp_all add: utf8_tail_def word_le_nat_alt)
  then show "unat b - 0x80 < 64" "b = of_nat (0x80 + (unat b - 0x80))"
    by (simp_all add: byte_offset [symmetric] del: of_nat_add)
qed

lemma offsetE:
  assumes "of_nat k \<le> (a :: byte)" and "k < 256"
  obtains n where "a = of_nat (k + n)" and "k + n = unat a"
proof
  have "k \<le> unat a" using assms by (simp add: word_le_nat_alt unat_byte)
  then show "a = of_nat (k + (unat a - k))" "k + (unat a - k) = unat a" by simp_all
qed

text \<open>A number from its digits to the base 64.\<close>

lemma digits_64:
  "q < 64 \<Longrightarrow> (p * 64 + q) div 64 = p" "q < 64 \<Longrightarrow> (p * 64 + q) mod 64 = (q :: nat)"
  by simp_all

lemma grammar_encodes:
  assumes "utf8_rfc3629 bs"
  shows "\<exists>cp. utf8_scalar cp \<and> bs = utf8_encode cp"
proof -
  consider a where "bs = [a]" | a b where "bs = [a, b]" | a b c where "bs = [a, b, c]"
    | a b c d where "bs = [a, b, c, d]"
    using assms by (cases bs rule: utf8_rfc3629.cases) auto
  then show ?thesis
  proof cases
    case 1
    then show ?thesis using assms
      by (intro exI [of _ "unat a"]) (simp add: utf8_scalar_def utf8_encode_def word_le_nat_alt)
  next
    case 2
    with assms have g: "0xC2 \<le> a" "a \<le> 0xDF" "utf8_tail b" by simp_all
    from g(3) obtain q where q: "q < 64" "b = of_nat (0x80 + q)" by (rule tailE)
    define p where "p = unat a - 0xC0"
    have p: "2 \<le> p" "p < 32" "a = of_nat (0xC0 + p)"
      using g(1,2) byte_offset [of "0xC0" p a] by (simp_all add: p_def word_le_nat_alt)
    have "utf8_encode (p * 64 + q) = bs"
      unfolding 2 p(3) q(2) utf8_encode_def using p(1,2) q(1) by simp
    then show ?thesis using p(2) q(1) by (intro exI [of _ "p * 64 + q"]) (simp add: utf8_scalar_def)
  next
    case 3
    with assms have t: "utf8_tail c" by simp
    have a: "0xE0 \<le> unat a" "unat a < 0xF0" and tb: "utf8_tail b"
      and e: "unat a = 0xE0 \<longrightarrow> 0xA0 \<le> unat b" "unat a = 0xED \<longrightarrow> unat b \<le> 0x9F"
      using assms 3 by (auto simp: word_le_nat_alt utf8_tail_def)
    from t obtain r where r: "r < 64" "c = of_nat (0x80 + r)" by (rule tailE)
    from tb obtain q where q: "q < 64" "b = of_nat (0x80 + q)" by (rule tailE)
    define p where "p = unat a - 0xE0"
    have p: "p < 16" "a = of_nat (0xE0 + p)" using a byte_offset [of "0xE0" p a] by (simp_all add: p_def)
    have x: "p = 0 \<longrightarrow> 32 \<le> q" "p = 13 \<longrightarrow> q < 32"
      using e q a by (simp_all add: p_def unat_byte del: of_nat_add) presburger+
    define cp where "cp = (p * 64 + q) * 64 + r"
    have d: "cp div 4096 = p" "cp div 64 mod 64 = q" "cp mod 64 = r"
      by (simp_all only: cp_def split_4096 digits_64 [OF r(1)] digits_64 [OF q(1)])
    consider "p = 0" | "1 \<le> p" "p \<le> 12" | "p = 13" | "14 \<le> p" by linarith
    then have range: "0x800 \<le> cp" "cp < 0x10000" "utf8_scalar cp"
      using p(1) q(1) r(1) x unfolding cp_def utf8_scalar_def by (cases; simp)+
    have "utf8_encode cp = bs" unfolding 3 p(2) q(2) r(2) utf8_encode_def d using range(1,2) by simp
    then show ?thesis using range(3) by blast
  next
    case 4
    with assms have t: "utf8_tail c" "utf8_tail d" by simp_all
    have a: "0xF0 \<le> unat a" "unat a < 0xF5" and tb: "utf8_tail b"
      and e: "unat a = 0xF0 \<longrightarrow> 0x90 \<le> unat b" "unat a = 0xF4 \<longrightarrow> unat b \<le> 0x8F"
      using assms 4 by (auto simp: word_le_nat_alt utf8_tail_def)
    from t(2) obtain u where u: "u < 64" "d = of_nat (0x80 + u)" by (rule tailE)
    from t(1) obtain r where r: "r < 64" "c = of_nat (0x80 + r)" by (rule tailE)
    from tb obtain q where q: "q < 64" "b = of_nat (0x80 + q)" by (rule tailE)
    define p where "p = unat a - 0xF0"
    have p: "p < 5" "a = of_nat (0xF0 + p)" using a byte_offset [of "0xF0" p a] by (simp_all add: p_def)
    have x: "p = 0 \<longrightarrow> 16 \<le> q" "p = 4 \<longrightarrow> q < 16"
      using e q a by (simp_all add: p_def unat_byte del: of_nat_add) presburger+
    define cp where "cp = ((p * 64 + q) * 64 + r) * 64 + u"
    have v: "cp div 262144 = p" "cp div 4096 mod 64 = q" "cp div 64 mod 64 = r" "cp mod 64 = u"
      by (simp_all only: cp_def split_4096 digits_64 [OF u(1)] digits_64 [OF r(1)] digits_64 [OF q(1)])
    consider "p = 0" | "1 \<le> p" "p \<le> 3" | "p = 4" using p(1) by linarith
    then have range: "0x10000 \<le> cp" "utf8_scalar cp"
      using q(1) r(1) u(1) x unfolding cp_def utf8_scalar_def by (cases; simp)+
    have "utf8_encode cp = bs" unfolding 4 p(2) q(2) r(2) u(2) utf8_encode_def v using range(1) by simp
    then show ?thesis using range(2) by blast
  qed
qed

lemma grammar_is_image: "utf8_rfc3629 bs \<longleftrightarrow> (\<exists>cp. utf8_scalar cp \<and> bs = utf8_encode cp)"
  using scalar_in_grammar grammar_encodes by blast

lemma unchecked_not_rfc: "utf8_unchecked bs \<Longrightarrow> \<not> utf8_rfc3629 bs"
  by (cases bs rule: utf8_unchecked.cases) (auto simp: word_le_nat_alt word_less_nat_alt)

lemma bom_is_encoded: "UTF8_BOM = utf8_encode 0xFEFF"
  by (simp add: UTF8_BOM_def utf8_encode_def)

end
