(* ===== verification/Json_Text.thy ===== *)
theory Json_Text
  imports Json_Base Utf8
begin

text \<open>
  The text of a token: what \<open>json_detokenizer.c\<close> writes for it and what \<open>json_tokenizer.c\<close> must
  have read to produce it.  Both are proved against \<open>token_bytes\<close>.
\<close>

section \<open>Numbers\<close>

fun digits :: "nat \<Rightarrow> byte list" where
  "digits n = (if n < 10 then [] else digits (n div 10)) @ [chr CHR ''0'' + of_nat (n mod 10)]"

declare digits.simps [simp del]

definition digits_unless_zero :: "nat \<Rightarrow> byte list" where
  "digits_unless_zero n = (if n = 0 then [] else digits n)"

lemma digits_unless_zero_step:
  "d < 10 \<Longrightarrow> 0 < 10 * n + d \<Longrightarrow>
   digits_unless_zero (10 * n + d) = digits_unless_zero n @ [chr CHR ''0'' + of_nat d]"
  by (subst (1) digits_unless_zero_def, subst digits.simps) (auto simp: digits_unless_zero_def)

lemma digits_nonempty [simp]: "digits n \<noteq> []"
  by (subst digits.simps) simp

definition zeroes_text :: "byte \<Rightarrow> byte list" where
  "zeroes_text n = replicate (unat n) (chr CHR ''0'')"

lemma bit_flag: "flag_set flags (push_bit k 1) \<longleftrightarrow> k < 8 \<and> bit flags k"
proof -
  have "flags AND push_bit k 1 = (if k < 8 \<and> bit flags k then push_bit k 1 else 0)"
    by (rule bit_word_eqI) (auto simp: bit_simps)
  moreover have "push_bit k 1 \<noteq> (0 :: byte)" if "k < 8"
  proof -
    have "bit (push_bit k 1 :: byte) k" using that by (simp add: bit_simps)
    then show ?thesis by (metis bit_0_eq bot_apply bot_bool_def)
  qed
  ultimately show ?thesis by (auto simp: flag_set_def)
qed

definition fraction_bytes :: "json_number_token \<Rightarrow> byte list" where
  "fraction_bytes n =
     (if flag_set (number_flags n) JSON_NUMBER_HAS_FRACTION
      then chr CHR ''.'' # zeroes_text (fraction_leading_zeroes n) @ digits_unless_zero (unat (fraction_part n))
      else [])"

definition exponent_sign :: "byte \<Rightarrow> byte list" where
  "exponent_sign flags =
     (if flag_set flags JSON_NUMBER_EXPONENT_HAS_PLUS then chrs ''+''
      else if flag_set flags JSON_NUMBER_EXPONENT_IS_NEGATIVE then chrs ''-'' else [])"

definition exponent_bytes :: "json_number_token \<Rightarrow> byte list" where
  "exponent_bytes n =
     (if flag_set (number_flags n) JSON_NUMBER_HAS_EXPONENT
      then chr (if flag_set (number_flags n) JSON_NUMBER_EXPONENT_UPPERCASE then CHR ''E'' else CHR ''e'') #
        exponent_sign (number_flags n) @ zeroes_text (exponent_leading_zeroes n) @
        digits_unless_zero (unat (exponent_part n))
      else [])"

definition number_bytes :: "json_number_token \<Rightarrow> byte list" where
  "number_bytes n = (if flag_set (number_flags n) JSON_NUMBER_IS_NEGATIVE then chrs ''-'' else []) @
     digits (unat (integer_part n)) @ fraction_bytes n @ exponent_bytes n"

section \<open>Packed bytes\<close>

definition packed_bytes :: "u64 \<Rightarrow> nat \<Rightarrow> byte list" where
  "packed_bytes v n = map (\<lambda>i. ucast (drop_bit (8 * i) v)) [0..<n]"

lemma packed_bytes_0 [simp]: "packed_bytes v 0 = []"
  by (simp add: packed_bytes_def)

lemma length_packed_bytes [simp]: "length (packed_bytes v n) = n"
  by (simp add: packed_bytes_def)

lemma packed_bytes_Suc: "packed_bytes v (Suc n) = ucast v # packed_bytes (drop_bit 8 v) n"
  by (simp add: packed_bytes_def map_upt_Suc drop_bit_drop_bit algebra_simps del: upt_Suc)

lemma pack_byte:
  assumes "take_bit (8 * i) v = v" and "i < 8"
  shows "packed_bytes (v OR push_bit (8 * i) (ucast b)) (Suc i) = packed_bytes v i @ [b]"
    and "take_bit (8 * Suc i) (v OR push_bit (8 * i) (ucast b)) = v OR push_bit (8 * i) (ucast (b :: byte))"
proof -
  have high: "\<not> bit v k" if "8 * i \<le> k" for k
    using arg_cong [OF assms(1), of "\<lambda>w. bit w k"] that by (simp add: bit_take_bit_iff)
  have low: "ucast (drop_bit (8 * j) (v OR push_bit (8 * i) (ucast b))) = (ucast (drop_bit (8 * j) v) :: byte)"
    if "j < i" for j
    by (rule bit_word_eqI) (use that in \<open>auto simp: bit_simps\<close>)
  have top: "ucast (drop_bit (8 * i) (v OR push_bit (8 * i) (ucast b))) = b"
    by (rule bit_word_eqI) (use assms(2) high in \<open>auto simp: bit_simps\<close>)
  show "packed_bytes (v OR push_bit (8 * i) (ucast b)) (Suc i) = packed_bytes v i @ [b]"
    using low top by (simp add: packed_bytes_def)
  have byte_short: "n < 8" if "bit b n" for n using bit_imp_le_length [OF that] by simp
  show "take_bit (8 * Suc i) (v OR push_bit (8 * i) (ucast b)) = v OR push_bit (8 * i) (ucast b)"
    by (rule bit_word_eqI) (use high byte_short in \<open>fastforce simp: bit_simps\<close>)
qed

section \<open>Tokens\<close>

text \<open>The payload is the one the kind has.\<close>

fun shaped :: "json_token_kind \<Rightarrow> token_payload \<Rightarrow> bool" where
  "shaped JSON_TOKEN_INVALID p = False"
| "shaped JSON_TOKEN_WHITESPACE p = (\<exists>b. p = Character b)"
| "shaped JSON_TOKEN_ESCAPE_SEQUENCE p = (\<exists>b. p = Character b)"
| "shaped JSON_TOKEN_UNICODE_CHARACTER p = (\<exists>v n. p = Unicode v n)"
| "shaped JSON_TOKEN_ESCAPED_UNICODE_CHARCODE p = (\<exists>v n. p = Unicode v n)"
| "shaped JSON_TOKEN_NUMBER p = (\<exists>n. p = Number n)"
| "shaped _ p = True"

definition character_of :: "token_payload \<Rightarrow> byte list" where
  "character_of p = (case p of Character b \<Rightarrow> [b] | _ \<Rightarrow> [])"

definition unicode_of :: "token_payload \<Rightarrow> byte list" where
  "unicode_of p = (case p of Unicode v n \<Rightarrow> packed_bytes v (unat n) | _ \<Rightarrow> [])"

definition charcode_of :: "token_payload \<Rightarrow> byte list" where
  "charcode_of p = (case p of Unicode v n \<Rightarrow> packed_bytes v 4 | _ \<Rightarrow> [])"

definition number_of :: "token_payload \<Rightarrow> byte list" where
  "number_of p = (case p of Number n \<Rightarrow> number_bytes n | _ \<Rightarrow> [])"

fun token_text :: "json_token_kind \<Rightarrow> token_payload \<Rightarrow> byte list" where
  "token_text JSON_TOKEN_INVALID p = []"
| "token_text JSON_TOKEN_OBJECT_OPEN p = chrs ''{''"
| "token_text JSON_TOKEN_OBJECT_CLOSE p = chrs ''}''"
| "token_text JSON_TOKEN_ARRAY_OPEN p = chrs ''[''"
| "token_text JSON_TOKEN_ARRAY_CLOSE p = chrs '']''"
| "token_text JSON_TOKEN_TRUE p = chrs ''true''"
| "token_text JSON_TOKEN_FALSE p = chrs ''false''"
| "token_text JSON_TOKEN_NULL p = chrs ''null''"
| "token_text JSON_TOKEN_VALUE_SEPARATOR p = chrs '',''"
| "token_text JSON_TOKEN_STRING_DELIMITER p = [chr (CHR 0x22)]"
| "token_text JSON_TOKEN_KV_SEPARATOR p = chrs '':''"
| "token_text JSON_TOKEN_BOM p = UTF8_BOM"
| "token_text JSON_TOKEN_WHITESPACE p = character_of p"
| "token_text JSON_TOKEN_ESCAPE_SEQUENCE p = chr (CHR 0x5C) # character_of p"
| "token_text JSON_TOKEN_UNICODE_CHARACTER p = unicode_of p"
| "token_text JSON_TOKEN_ESCAPED_UNICODE_CHARCODE p = chr (CHR 0x5C) # chr CHR ''u'' # charcode_of p"
| "token_text JSON_TOKEN_NUMBER p = number_of p"

definition token_bytes :: "json_token \<Rightarrow> byte list" where
  "token_bytes t = token_text (token_kind t) (payload t)"

definition token_shaped :: "json_token \<Rightarrow> bool" where
  "token_shaped t \<longleftrightarrow> shaped (token_kind t) (payload t)"

end
