(* ===== verification/Stacks.thy ===== *)
theory Stacks
  imports Context
begin

text \<open>
  \<open>src/data_structures/fixed_stack.c\<close> and \<open>src/data_structures/stack.c\<close>.  \<open>push\<close> of the code returns
  a slot its caller fills at once; here the value is an argument.  A slot written through \<open>peek\<close>
  is \<open>fstack_update_top\<close>.  The contents are a list, top first.
\<close>

section \<open>The contract of a stack\<close>

datatype 'a stack_op = Push_Op 'a | Pop_Op | Peek_Op

fun run_stack :: "('a \<Rightarrow> 's \<Rightarrow> 's option) \<Rightarrow> ('s \<Rightarrow> ('a \<times> 's) option) \<Rightarrow> ('s \<Rightarrow> 'a option) \<Rightarrow>
    'a stack_op list \<Rightarrow> 's \<Rightarrow> ('a list \<times> 's) option" where
  "run_stack push pop peek [] s = Some ([], s)"
| "run_stack push pop peek (Push_Op x # ops) s = do { s \<leftarrow> push x s; run_stack push pop peek ops s }"
| "run_stack push pop peek (Pop_Op # ops) s = do {
     (x, s) \<leftarrow> pop s;
     (out, s) \<leftarrow> run_stack push pop peek ops s;
     Some (x # out, s)
   }"
| "run_stack push pop peek (Peek_Op # ops) s = do {
     x \<leftarrow> peek s;
     (out, s) \<leftarrow> run_stack push pop peek ops s;
     Some (x # out, s)
   }"

fun run_lifo :: "'a stack_op list \<Rightarrow> 'a list \<Rightarrow> ('a list \<times> 'a list) option" where
  "run_lifo [] xs = Some ([], xs)"
| "run_lifo (Push_Op x # ops) xs = run_lifo ops (x # xs)"
| "run_lifo (Pop_Op # ops) (x # xs) = map_option (\<lambda>(out, ys). (x # out, ys)) (run_lifo ops xs)"
| "run_lifo (Peek_Op # ops) (x # xs) = map_option (\<lambda>(out, ys). (x # out, ys)) (run_lifo ops (x # xs))"
| "run_lifo (_ # ops) [] = None"

locale lifo_stack =
  fixes contents :: "'s \<Rightarrow> 'a list \<Rightarrow> bool"
    and count :: "'s \<Rightarrow> int"
    and push :: "'a \<Rightarrow> 's \<Rightarrow> 's option"
    and pop :: "'s \<Rightarrow> ('a \<times> 's) option"
    and peek :: "'s \<Rightarrow> 'a option"
  assumes count_is_length: "contents s xs \<Longrightarrow> count s = int (length xs)"
    and push_top: "contents s xs \<Longrightarrow> push x s = Some s' \<Longrightarrow> contents s' (x # xs)"
    and pop_top: "contents s (x # xs) \<Longrightarrow> \<exists>s'. pop s = Some (x, s') \<and> contents s' xs"
    and pop_empty: "contents s [] \<Longrightarrow> pop s = None"
    and peek_top: "contents s (x # xs) \<Longrightarrow> peek s = Some x"
    and peek_empty: "contents s [] \<Longrightarrow> peek s = None"
begin

lemma run_refines:
  assumes "contents s xs" and "run_stack push pop peek ops s = Some (out, s')"
  shows "\<exists>ys. run_lifo ops xs = Some (out, ys) \<and> contents s' ys"
  using assms
proof (induction ops arbitrary: s xs out)
  case (Cons op ops)
  show ?case
  proof (cases op)
    case (Push_Op x)
    with Cons.prems obtain s1 where "push x s = Some s1" "run_stack push pop peek ops s1 = Some (out, s')"
      by (auto simp: bind_eq_Some_conv)
    with Cons.IH [OF push_top [OF Cons.prems(1)]] Push_Op show ?thesis by simp
  next
    case Pop_Op
    then obtain x ys where xs: "xs = x # ys" using Cons.prems pop_empty by (cases xs) auto
    from pop_top [of s x ys] Cons.prems(1) xs obtain s1 where
      s1: "pop s = Some (x, s1)" "contents s1 ys" by blast
    with Cons.prems(2) Pop_Op obtain out' where
      "run_stack push pop peek ops s1 = Some (out', s')" "out = x # out'" by (auto simp: bind_eq_Some_conv)
    with Cons.IH [OF s1(2)] Pop_Op xs show ?thesis by auto
  next
    case Peek_Op
    then obtain x ys where xs: "xs = x # ys" using Cons.prems peek_empty by (cases xs) auto
    with peek_top [of s x ys] Cons.prems Peek_Op obtain out' where
      "run_stack push pop peek ops s = Some (out', s')" "out = x # out'" by (auto simp: bind_eq_Some_conv)
    with Cons.IH [OF Cons.prems(1)] Peek_Op xs show ?thesis by auto
  qed
qed simp

end

text \<open>A stack of fixed capacity does what a list that refuses items beyond \<open>n\<close> does.\<close>

fun run_bounded_lifo :: "nat \<Rightarrow> 'a stack_op list \<Rightarrow> 'a list \<Rightarrow> ('a list \<times> 'a list) option" where
  "run_bounded_lifo n [] xs = Some ([], xs)"
| "run_bounded_lifo n (Push_Op x # ops) xs = (if length xs < n then run_bounded_lifo n ops (x # xs) else None)"
| "run_bounded_lifo n (Pop_Op # ops) (x # xs) =
     map_option (\<lambda>(out, ys). (x # out, ys)) (run_bounded_lifo n ops xs)"
| "run_bounded_lifo n (Peek_Op # ops) (x # xs) =
     map_option (\<lambda>(out, ys). (x # out, ys)) (run_bounded_lifo n ops (x # xs))"
| "run_bounded_lifo n (_ # ops) [] = None"

locale bounded_lifo = lifo_stack contents count push pop peek
  for contents :: "'s \<Rightarrow> 'a list \<Rightarrow> bool" and count push pop peek +
  fixes capacity :: nat
  assumes push_room: "contents s xs \<Longrightarrow> length xs < capacity \<Longrightarrow> push x s \<noteq> None"
    and push_full: "contents s xs \<Longrightarrow> \<not> length xs < capacity \<Longrightarrow> push x s = None"
begin

lemma run_bounded:
  assumes "contents s xs"
  shows "case run_bounded_lifo capacity ops xs of
      None \<Rightarrow> run_stack push pop peek ops s = None
    | Some (out, ys) \<Rightarrow> \<exists>s'. run_stack push pop peek ops s = Some (out, s') \<and> contents s' ys"
  using assms
proof (induction ops arbitrary: s xs)
  case (Cons op ops)
  show ?case
  proof (cases op)
    case (Push_Op x)
    show ?thesis
    proof (cases "length xs < capacity")
      case True
      then obtain s1 where s1: "push x s = Some s1" using push_room [OF Cons.prems, of x] by auto
      from Cons.IH [OF push_top [OF Cons.prems s1]] show ?thesis
        using Push_Op True s1 by (auto split: option.splits)
    next
      case False
      then show ?thesis using Push_Op push_full [OF Cons.prems, of x] by simp
    qed
  next
    case Pop_Op
    show ?thesis
    proof (cases xs)
      case Nil
      then show ?thesis using Cons.prems pop_empty [of s] Pop_Op by simp
    next
      case (Cons x ys)
      from pop_top [of s x ys] \<open>contents s xs\<close> Cons obtain s1 where
        s1: "pop s = Some (x, s1)" "contents s1 ys" by blast
      from Cons.IH [OF s1(2)] show ?thesis using Pop_Op Cons s1(1) by (auto split: option.splits)
    qed
  next
    case Peek_Op
    show ?thesis
    proof (cases xs)
      case Nil
      then show ?thesis using Cons.prems peek_empty [of s] Peek_Op by simp
    next
      case (Cons x ys)
      from Cons.IH [OF \<open>contents s xs\<close>] peek_top [of s x ys] \<open>contents s xs\<close> show ?thesis
        using Peek_Op Cons by (auto split: option.splits)
    qed
  qed
qed simp

end

section \<open>The fixed stack\<close>

record 'a fixed_stack =
  fs_values :: "'a cells"
  fs_index :: int
  fs_item_size :: u64
  fs_item_capacity :: int

definition fstack_deinit :: "'a fixed_stack \<Rightarrow> 'a fixed_stack" where
  "fstack_deinit s = \<lparr>fs_values = [], fs_index = 0, fs_item_size = 0, fs_item_capacity = 0\<rparr>"

definition fstack_init :: "ctx \<Rightarrow> u64 \<Rightarrow> int \<Rightarrow> ('a fixed_stack \<times> ctx) option" where
  "fstack_init c item_size item_capacity = do {
     (_, c) \<leftarrow> context_arena_allocate c item_capacity item_size;
     Some (\<lparr>fs_values = uninitialised item_capacity, fs_index = 0, fs_item_size = item_size,
            fs_item_capacity = item_capacity\<rparr>, c)
   }"

definition fstack_reset :: "'a fixed_stack \<Rightarrow> 'a fixed_stack" where
  "fstack_reset s = s\<lparr>fs_index := 0\<rparr>"

definition fstack_push :: "'a \<Rightarrow> 'a fixed_stack \<Rightarrow> 'a fixed_stack option" where
  "fstack_push x s = do {
     check (fs_index s < fs_item_capacity s);
     vs \<leftarrow> cell_put (fs_values s) (fs_index s) x;
     Some (s\<lparr>fs_values := vs, fs_index := fs_index s + 1\<rparr>)
   }"

definition fstack_peek :: "'a fixed_stack \<Rightarrow> 'a option" where
  "fstack_peek s = do {
     check (fs_index s > 0);
     cell_at (fs_values s) (fs_index s - 1)
   }"

definition fstack_update_top :: "'a fixed_stack \<Rightarrow> 'a \<Rightarrow> 'a fixed_stack option" where
  "fstack_update_top s x = do {
     check (fs_index s > 0);
     vs \<leftarrow> cell_put (fs_values s) (fs_index s - 1) x;
     Some (s\<lparr>fs_values := vs\<rparr>)
   }"

definition fstack_pop :: "'a fixed_stack \<Rightarrow> ('a \<times> 'a fixed_stack) option" where
  "fstack_pop s = do {
     check (fs_index s > 0);
     x \<leftarrow> cell_at (fs_values s) (fs_index s - 1);
     Some (x, s\<lparr>fs_index := fs_index s - 1\<rparr>)
   }"

definition fstack_get_count :: "'a fixed_stack \<Rightarrow> int" where
  "fstack_get_count s = fs_index s"

definition fstack_get_capacity :: "'a fixed_stack \<Rightarrow> int" where
  "fstack_get_capacity s = fs_item_capacity s"

definition fstack_repr :: "nat \<Rightarrow> 'a fixed_stack \<Rightarrow> 'a list \<Rightarrow> bool" where
  "fstack_repr n s xs \<longleftrightarrow> length (fs_values s) = n \<and> fs_item_capacity s = int n \<and>
     fs_index s = int (length xs) \<and> length xs \<le> n \<and>
     (\<forall>i<length xs. fs_values s ! i = Some (rev xs ! i))"

lemma fstack_count [repr_simps]: "fstack_repr n s xs \<Longrightarrow> fstack_get_count s = int (length xs)"
  and fstack_capacity [repr_simps]: "fstack_repr n s xs \<Longrightarrow> fstack_get_capacity s = int n"
  by (simp_all add: fstack_repr_def fstack_get_count_def fstack_get_capacity_def)

lemma fstack_push_repr:
  assumes "fstack_repr n s xs" and "length xs < n"
  shows "\<exists>s'. fstack_push x s = Some s' \<and> fstack_repr n s' (x # xs)"
  using assms by (auto simp: fstack_repr_def fstack_push_def cell_put_nat nth_append nth_list_update)

lemma fstack_push_full: "fstack_repr n s xs \<Longrightarrow> length xs = n \<Longrightarrow> fstack_push x s = None"
  by (simp add: fstack_repr_def fstack_push_def)

lemma fstack_top: "fstack_repr n s (x # xs) \<Longrightarrow> cell_at (fs_values s) (fs_index s - 1) = Some x"
  by (simp add: fstack_repr_def cell_at_nat nth_append)

lemma fstack_peek_repr [repr_simps]: "fstack_repr n s (x # xs) \<Longrightarrow> fstack_peek s = Some x"
  using fstack_top [of n s x xs] by (simp add: fstack_peek_def fstack_repr_def)

lemma fstack_pop_repr:
  assumes "fstack_repr n s (x # xs)"
  shows "\<exists>s'. fstack_pop s = Some (x, s') \<and> fstack_repr n s' xs"
proof -
  have "fs_values s ! i = Some (rev xs ! i)" if "i < length xs" for i
    using assms that by (auto simp: fstack_repr_def nth_append dest: spec [of _ i])
  then show ?thesis using fstack_top [OF assms] assms by (auto simp: fstack_pop_def fstack_repr_def)
qed

lemma fstack_update_top_repr:
  assumes "fstack_repr n s (x # xs)"
  shows "\<exists>s'. fstack_update_top s y = Some s' \<and> fstack_repr n s' (y # xs)"
  using assms by (auto simp: fstack_repr_def fstack_update_top_def cell_put_nat nth_append nth_list_update)

lemma fstack_empty: "fstack_repr n s [] \<Longrightarrow> fstack_pop s = None \<and> fstack_peek s = None"
  by (simp add: fstack_repr_def fstack_pop_def fstack_peek_def)

lemma fstack_reset_repr: "fstack_repr n s xs \<Longrightarrow> fstack_repr n (fstack_reset s) []"
  by (simp add: fstack_repr_def fstack_reset_def)

lemma fstack_init_repr:
  assumes "n * m < arena_free c"
  shows "\<exists>s c'. fstack_init c (of_nat m) (int n) = Some (s, c') \<and> fstack_repr n s [] \<and>
     arena_free c' = arena_free c - n * m \<and> ctx_error c' = ctx_error c"
  using arena_allocate_room [OF assms] by (auto simp: fstack_init_def fstack_repr_def uninitialised_def)

interpretation fs: bounded_lifo "fstack_repr n" fstack_get_count fstack_push fstack_pop fstack_peek n for n
proof unfold_locales
  fix s s' :: "'a fixed_stack" and xs x
  assume a: "fstack_repr n s xs" "fstack_push x s = Some s'"
  then have "length xs < n" by (auto simp: fstack_repr_def fstack_push_def split: if_splits)
  from fstack_push_repr [OF a(1) this, of x] a(2) show "fstack_repr n s' (x # xs)" by simp
next
  fix s :: "'a fixed_stack" and xs x
  assume "fstack_repr n s xs" "length xs < n"
  from fstack_push_repr [OF this, of x] show "fstack_push x s \<noteq> None" by auto
next
  fix s :: "'a fixed_stack" and xs x
  assume a: "fstack_repr n s xs" "\<not> length xs < n"
  then have "length xs = n" by (simp add: fstack_repr_def)
  from fstack_push_full [OF a(1) this] show "fstack_push x s = None" .
qed (auto simp: repr_simps fstack_empty fstack_pop_repr)

section \<open>The growing stack\<close>

record 'a stack =
  st_value_size :: u64
  st_values :: "'a cells"
  st_length :: int
  st_count :: int

definition stack_deinit :: "'a stack \<Rightarrow> 'a stack" where
  "stack_deinit s = \<lparr>st_value_size = 0, st_values = [], st_length = 0, st_count = 0\<rparr>"

definition stack_init :: "ctx \<Rightarrow> u64 \<Rightarrow> bool \<times> 'a stack \<times> ctx" where
  "stack_init c value_size =
     (let s = \<lparr>st_value_size = value_size, st_values = [], st_length = 16, st_count = 0\<rparr>;
          (block, c) = context_allocate c 16 value_size
      in case block of
           None \<Rightarrow> (False, stack_deinit s, c)
         | Some _ \<Rightarrow> (True, s\<lparr>st_values := uninitialised 16\<rparr>, c))"

text \<open>\<open>realloc\<close> keeps the old cells; the pointer it is given is not modelled.\<close>

definition stack_maybe_grow :: "'a stack \<Rightarrow> ctx \<Rightarrow> bool \<times> 'a stack \<times> ctx" where
  "stack_maybe_grow s c =
     (if st_count s < st_length s then (True, s, c)
      else let new_length = st_length s * 2;
               (ok, c) = context_reallocate c 0 (word_of_int new_length) (st_value_size s)
           in if \<not> ok then (False, s, c)
              else (True, s\<lparr>st_values := st_values s @ uninitialised (new_length - st_length s),
                            st_length := new_length\<rparr>, c))"

definition stack_peek :: "'a stack \<Rightarrow> 'a option" where
  "stack_peek s = cell_at (st_values s) (st_count s - 1)"

definition stack_push :: "'a \<Rightarrow> 'a stack \<Rightarrow> ctx \<Rightarrow> (bool \<times> 'a stack \<times> ctx) option" where
  "stack_push x s c = do {
     let s = s\<lparr>st_count := st_count s + 1\<rparr>;
     let (ok, s, c) = stack_maybe_grow s c;
     if \<not> ok then Some (False, s\<lparr>st_count := st_count s - 1\<rparr>, c)
     else do {
       vs \<leftarrow> cell_put (st_values s) (st_count s - 1) x;
       Some (True, s\<lparr>st_values := vs\<rparr>, c)
     }
   }"

definition stack_pop :: "'a stack \<Rightarrow> ('a \<times> 'a stack) option" where
  "stack_pop s = do {
     let s = s\<lparr>st_count := st_count s - 1\<rparr>;
     x \<leftarrow> cell_at (st_values s) (st_count s);
     Some (x, s)
   }"

definition stack_get_count :: "'a stack \<Rightarrow> int" where
  "stack_get_count s = st_count s"

definition stack_repr :: "'a stack \<Rightarrow> 'a list \<Rightarrow> bool" where
  "stack_repr s xs \<longleftrightarrow> st_length s = int (length (st_values s)) \<and> st_count s = int (length xs) \<and>
     length xs < length (st_values s) \<and> (\<forall>i<length xs. st_values s ! i = Some (rev xs ! i))"

lemma stack_init_repr: "stack_init c n = (ok, s, c') \<Longrightarrow> ok \<Longrightarrow> stack_repr s []"
  by (auto simp: stack_init_def Let_def stack_repr_def uninitialised_def split: option.splits prod.splits)

lemma stack_push_repr:
  assumes "stack_repr s xs"
  shows "\<exists>ok s' c'. stack_push x s c = Some (ok, s', c') \<and> stack_repr s' (if ok then x # xs else xs) \<and>
     (\<not> ok \<longrightarrow> s' = s \<and> context_is_errored c')"
proof (cases "Suc (length xs) < length (st_values s)")
  case True
  then show ?thesis using assms
    by (auto simp: stack_push_def stack_maybe_grow_def stack_repr_def cell_put_nat nth_append nth_list_update)
next
  case False
  then have full: "length (st_values s) = Suc (length xs)" using assms by (simp add: stack_repr_def)
  define k where "k = 2 * int (Suc (length xs))"
  obtain ok c' where r: "context_reallocate c 0 (word_of_int k) (st_value_size s) = (ok, c')" by fastforce
  show ?thesis
  proof (cases ok)
    case False
    have "context_is_errored c'"
      using r False by (auto simp: context_reallocate_def Let_def split: if_splits)
    then show ?thesis using r False assms full
      by (intro exI [of _ False] exI [of _ s] exI [of _ c'])
         (simp add: stack_push_def stack_maybe_grow_def stack_repr_def k_def mult.commute)
  next
    case True
    have "nat (k - int (Suc (length xs))) = Suc (length xs)" by (simp add: k_def)
    then show ?thesis using r True assms full
      by (auto simp: stack_push_def stack_maybe_grow_def stack_repr_def k_def mult.commute cell_put_nat
          uninitialised_def nth_append nth_list_update)
  qed
qed

lemma stack_pop_repr:
  assumes "stack_repr s (x # xs)"
  shows "\<exists>s'. stack_pop s = Some (x, s') \<and> stack_repr s' xs"
proof -
  have "st_values s ! i = Some (rev xs ! i)" if "i < length xs" for i
    using assms that by (auto simp: stack_repr_def nth_append dest: spec [of _ i])
  moreover have "st_values s ! length xs = Some x" using assms by (auto simp: stack_repr_def nth_append)
  ultimately show ?thesis using assms by (auto simp: stack_pop_def stack_repr_def cell_at_nat)
qed

definition stack_push_step :: "'a \<Rightarrow> 'a stack \<times> ctx \<Rightarrow> ('a stack \<times> ctx) option" where
  "stack_push_step x sc = do {
     (ok, s, c) \<leftarrow> stack_push x (fst sc) (snd sc);
     check ok;
     Some (s, c)
   }"

definition stack_pop_step :: "'a stack \<times> ctx \<Rightarrow> ('a \<times> 'a stack \<times> ctx) option" where
  "stack_pop_step sc = do { (x, s) \<leftarrow> stack_pop (fst sc); Some (x, s, snd sc) }"

interpretation gs: lifo_stack "\<lambda>sc. stack_repr (fst sc)" "\<lambda>sc. stack_get_count (fst sc)"
  stack_push_step stack_pop_step "\<lambda>sc. stack_peek (fst sc)"
proof unfold_locales
  fix sc sc' :: "'a stack \<times> ctx" and x xs
  assume a: "stack_repr (fst sc) xs"
  show "stack_push_step x sc = Some sc' \<Longrightarrow> stack_repr (fst sc') (x # xs)"
    using stack_push_repr [OF a, of x "snd sc"] by (auto simp: stack_push_step_def split: if_splits)
  show "stack_get_count (fst sc) = int (length xs)" using a by (simp add: stack_repr_def stack_get_count_def)
next
  fix sc :: "'a stack \<times> ctx" and x xs
  assume a: "stack_repr (fst sc) (x # xs)"
  then show "\<exists>sc'. stack_pop_step sc = Some (x, sc') \<and> stack_repr (fst sc') xs"
    using stack_pop_repr [OF a] by (auto simp: stack_pop_step_def)
  show "stack_peek (fst sc) = Some x" using a by (auto simp: stack_repr_def stack_peek_def cell_at_nat nth_append)
next
  fix sc :: "'a stack \<times> ctx"
  assume a: "stack_repr (fst sc) []"
  have n: "cell_at cs (-1) = None" for cs :: "'a cells" by (simp add: cell_at_def at_def in_range_def)
  show "stack_pop_step sc = None" "stack_peek (fst sc) = None"
    using a n by (simp_all add: stack_repr_def stack_pop_step_def stack_pop_def stack_peek_def)
qed

text \<open>The growing stack behaves as a list while no allocation is refused; a refused push changes nothing.\<close>

lemma growing_stack_refines_list:
  assumes "stack_repr s xs"
  shows "(run_stack stack_push_step stack_pop_step (\<lambda>sc. stack_peek (fst sc)) ops (s, c) = Some (out, sc') \<longrightarrow>
       (\<exists>ys. run_lifo ops xs = Some (out, ys) \<and> stack_repr (fst sc') ys)) \<and>
     (stack_push x s c = Some (False, s', c') \<longrightarrow> s' = s \<and> context_is_errored c') \<and>
     stack_push x s c \<noteq> None"
  using gs.run_refines [of "(s, c)" xs ops out sc'] stack_push_repr [OF assms, of x c] assms by auto

end
