(* ===== verification/Json_State_Machine.thy ===== *)
theory Json_State_Machine
  imports Json_Base Stacks
begin

text \<open>
  \<open>src/json/json_state_machine.c\<close>: a stack of states decides which token kinds may come next.
  \<open>jsm_next\<close> is the same machine on a plain list; the concrete machine refines it, its assertion
  never fails, and what it accepts is the grammar of \<open>Json_Grammar\<close> up to the nesting the
  stack allows.
\<close>

record json_state_machine =
  state_stack :: "json_state fixed_stack"

section \<open>Operations\<close>

definition jsm_deinit :: "json_state_machine \<Rightarrow> json_state_machine" where
  "jsm_deinit m = \<lparr>state_stack = fstack_deinit (state_stack m)\<rparr>"

definition jsm_reset :: "json_state_machine \<Rightarrow> json_state_machine option" where
  "jsm_reset m = do {
     let s = fstack_reset (state_stack m);
     s \<leftarrow> fstack_push JSON_STATE_ROOT s;
     s \<leftarrow> fstack_push JSON_STATE_START s;
     Some \<lparr>state_stack = s\<rparr>
   }"

definition jsm_init :: "ctx \<Rightarrow> (json_state_machine \<times> ctx) option" where
  "jsm_init c = do {
     (s, c) \<leftarrow> fstack_init c 1 (int JSON_MAX_STATE_STACK_LENGTH);
     m \<leftarrow> jsm_reset \<lparr>state_stack = s\<rparr>;
     Some (m, c)
   }"

definition jsm_get_current_state :: "json_state_machine \<Rightarrow> json_state option" where
  "jsm_get_current_state m = fstack_peek (state_stack m)"

definition jsm_replace_top_state :: "json_state_machine \<Rightarrow> json_state \<Rightarrow> json_state_machine option" where
  "jsm_replace_top_state m state = do {
     s \<leftarrow> fstack_update_top (state_stack m) state;
     Some \<lparr>state_stack = s\<rparr>
   }"

definition jsm_push_state :: "json_state_machine \<Rightarrow> json_state \<Rightarrow> (bool \<times> json_state_machine) option" where
  "jsm_push_state m state =
     (if fstack_get_count (state_stack m) = fstack_get_capacity (state_stack m) then Some (False, m)
      else do {
        s \<leftarrow> fstack_push state (state_stack m);
        Some (True, \<lparr>state_stack = s\<rparr>)
      })"

definition jsm_push_value_state ::
  "json_state_machine \<Rightarrow> json_state \<Rightarrow> (bool \<times> json_state_machine) option" where
  "jsm_push_value_state m state = do {
     top \<leftarrow> fstack_peek (state_stack m);
     m \<leftarrow> (if top = JSON_STATE_VALUE then do {
             (_, s) \<leftarrow> fstack_pop (state_stack m);
             Some \<lparr>state_stack = s\<rparr>
           } else Some m);
     jsm_push_state m state
   }"

definition jsm_try_update_stack_top_after_reading_value ::
  "json_state_machine \<Rightarrow> json_state_machine option" where
  "jsm_try_update_stack_top_after_reading_value m = do {
     base_state \<leftarrow> jsm_get_current_state m;
     if base_state = JSON_STATE_ARRAY_START then jsm_replace_top_state m JSON_STATE_ARRAY_CONTINUE
     else if base_state = JSON_STATE_OBJECT_START then jsm_replace_top_state m JSON_STATE_OBJECT_CONTINUE
     else Some m
   }"

definition jsm_pop_state_after_reading_value :: "json_state_machine \<Rightarrow> json_state_machine option" where
  "jsm_pop_state_after_reading_value m = do {
     (_, s) \<leftarrow> fstack_pop (state_stack m);
     jsm_try_update_stack_top_after_reading_value \<lparr>state_stack = s\<rparr>
   }"

definition accepting :: "json_state_machine option \<Rightarrow> (bool \<times> json_state_machine) option" where
  "accepting r = do { m \<leftarrow> r; Some (True, m) }"

definition jsm_try_start_value ::
  "json_state_machine \<Rightarrow> json_token_kind \<Rightarrow> (bool \<times> json_state_machine) option" where
  "jsm_try_start_value m kind = (case kind of
       JSON_TOKEN_STRING_DELIMITER \<Rightarrow> jsm_push_value_state m JSON_STATE_STRING
     | JSON_TOKEN_OBJECT_OPEN \<Rightarrow> jsm_push_value_state m JSON_STATE_OBJECT_START
     | JSON_TOKEN_ARRAY_OPEN \<Rightarrow> jsm_push_value_state m JSON_STATE_ARRAY_START
     | JSON_TOKEN_WHITESPACE \<Rightarrow> Some (True, m)
     | k \<Rightarrow>
         if k = JSON_TOKEN_NUMBER \<or> k = JSON_TOKEN_TRUE \<or> k = JSON_TOKEN_FALSE \<or> k = JSON_TOKEN_NULL
         then do {
           top \<leftarrow> jsm_get_current_state m;
           m \<leftarrow> (if top = JSON_STATE_VALUE then do {
                   (_, s) \<leftarrow> fstack_pop (state_stack m);
                   Some \<lparr>state_stack = s\<rparr>
                 } else Some m);
           accepting (jsm_try_update_stack_top_after_reading_value m)
         }
         else Some (False, m))"

partial_function (option) jsm_process_token ::
  "json_state_machine \<Rightarrow> json_token_kind \<Rightarrow> (bool \<times> json_state_machine) option" where
  "jsm_process_token m kind = do {
     state \<leftarrow> jsm_get_current_state m;
     (case state of
        JSON_STATE_START \<Rightarrow>
          (if kind = JSON_TOKEN_BOM then accepting (jsm_replace_top_state m JSON_STATE_VALUE)
           else do {
             m \<leftarrow> jsm_replace_top_state m JSON_STATE_VALUE;
             jsm_process_token m kind
           })
      | JSON_STATE_VALUE \<Rightarrow> jsm_try_start_value m kind
      | JSON_STATE_STRING \<Rightarrow>
          (if kind = JSON_TOKEN_STRING_DELIMITER then accepting (jsm_pop_state_after_reading_value m)
           else Some (kind = JSON_TOKEN_UNICODE_CHARACTER \<or> kind = JSON_TOKEN_ESCAPE_SEQUENCE \<or>
                      kind = JSON_TOKEN_ESCAPED_UNICODE_CHARCODE, m))
      | JSON_STATE_OBJECT_KEY \<Rightarrow>
          (if kind = JSON_TOKEN_STRING_DELIMITER
           then accepting (jsm_replace_top_state m JSON_STATE_OBJECT_KV_SEPARATOR)
           else Some (kind = JSON_TOKEN_UNICODE_CHARACTER \<or> kind = JSON_TOKEN_ESCAPE_SEQUENCE \<or>
                      kind = JSON_TOKEN_ESCAPED_UNICODE_CHARCODE, m))
      | JSON_STATE_ARRAY_START \<Rightarrow>
          (if kind = JSON_TOKEN_ARRAY_CLOSE then accepting (jsm_pop_state_after_reading_value m)
           else jsm_try_start_value m kind)
      | JSON_STATE_ARRAY_CONTINUE \<Rightarrow>
          (if kind = JSON_TOKEN_ARRAY_CLOSE then accepting (jsm_pop_state_after_reading_value m)
           else if kind = JSON_TOKEN_VALUE_SEPARATOR then jsm_push_state m JSON_STATE_VALUE
           else Some (kind = JSON_TOKEN_WHITESPACE, m))
      | JSON_STATE_OBJECT_START \<Rightarrow>
          (if kind = JSON_TOKEN_OBJECT_CLOSE then accepting (jsm_pop_state_after_reading_value m)
           else if kind = JSON_TOKEN_STRING_DELIMITER then jsm_push_state m JSON_STATE_OBJECT_KEY
           else Some (kind = JSON_TOKEN_WHITESPACE, m))
      | JSON_STATE_OBJECT_CONTINUE \<Rightarrow>
          (if kind = JSON_TOKEN_OBJECT_CLOSE then accepting (jsm_pop_state_after_reading_value m)
           else if kind = JSON_TOKEN_VALUE_SEPARATOR then do {
             (is_state_updated, m) \<leftarrow> jsm_push_state m JSON_STATE_OBJECT_KEY_START;
             check is_state_updated;
             Some (is_state_updated, m)
           }
           else Some (kind = JSON_TOKEN_WHITESPACE, m))
      | JSON_STATE_OBJECT_KEY_START \<Rightarrow>
          (if kind = JSON_TOKEN_STRING_DELIMITER
           then accepting (jsm_replace_top_state m JSON_STATE_OBJECT_KEY)
           else Some (kind = JSON_TOKEN_WHITESPACE, m))
      | JSON_STATE_OBJECT_KV_SEPARATOR \<Rightarrow>
          (if kind = JSON_TOKEN_KV_SEPARATOR
           then accepting (jsm_replace_top_state m JSON_STATE_VALUE)
           else Some (kind = JSON_TOKEN_WHITESPACE, m))
      | JSON_STATE_ROOT \<Rightarrow> Some (kind = JSON_TOKEN_WHITESPACE, m))
   }"

section \<open>The machine on lists\<close>

fun after_value :: "json_state list \<Rightarrow> json_state list" where
  "after_value (JSON_STATE_ARRAY_START # r) = JSON_STATE_ARRAY_CONTINUE # r"
| "after_value (JSON_STATE_OBJECT_START # r) = JSON_STATE_OBJECT_CONTINUE # r"
| "after_value r = r"

fun drop_value :: "json_state list \<Rightarrow> json_state list" where
  "drop_value (JSON_STATE_VALUE # r) = r"
| "drop_value r = r"

definition push_within :: "nat \<Rightarrow> json_state \<Rightarrow> json_state list \<Rightarrow> json_state list option" where
  "push_within n s st = (if length st < n then Some (s # st) else None)"

definition scalar_kind :: "json_token_kind \<Rightarrow> bool" where
  "scalar_kind k \<longleftrightarrow> k = JSON_TOKEN_NUMBER \<or> k = JSON_TOKEN_TRUE \<or> k = JSON_TOKEN_FALSE \<or> k = JSON_TOKEN_NULL"

definition char_kind :: "json_token_kind \<Rightarrow> bool" where
  "char_kind k \<longleftrightarrow> k = JSON_TOKEN_UNICODE_CHARACTER \<or> k = JSON_TOKEN_ESCAPE_SEQUENCE \<or>
     k = JSON_TOKEN_ESCAPED_UNICODE_CHARCODE"

definition start_value :: "nat \<Rightarrow> json_state list \<Rightarrow> json_token_kind \<Rightarrow> json_state list option" where
  "start_value n st k =
     (if k = JSON_TOKEN_STRING_DELIMITER then push_within n JSON_STATE_STRING (drop_value st)
      else if k = JSON_TOKEN_OBJECT_OPEN then push_within n JSON_STATE_OBJECT_START (drop_value st)
      else if k = JSON_TOKEN_ARRAY_OPEN then push_within n JSON_STATE_ARRAY_START (drop_value st)
      else if k = JSON_TOKEN_WHITESPACE then Some st
      else if scalar_kind k then Some (after_value (drop_value st))
      else None)"

definition or_space :: "json_state list \<Rightarrow> json_token_kind \<Rightarrow> json_state list option" where
  "or_space st k = (if k = JSON_TOKEN_WHITESPACE then Some st else None)"

fun jsm_next :: "nat \<Rightarrow> json_state list \<Rightarrow> json_token_kind \<Rightarrow> json_state list option" where
  "jsm_next n (JSON_STATE_START # r) k =
     (if k = JSON_TOKEN_BOM then Some (JSON_STATE_VALUE # r) else start_value n (JSON_STATE_VALUE # r) k)"
| "jsm_next n (JSON_STATE_VALUE # r) k = start_value n (JSON_STATE_VALUE # r) k"
| "jsm_next n (JSON_STATE_STRING # r) k =
     (if k = JSON_TOKEN_STRING_DELIMITER then Some (after_value r)
      else if char_kind k then Some (JSON_STATE_STRING # r) else None)"
| "jsm_next n (JSON_STATE_OBJECT_KEY # r) k =
     (if k = JSON_TOKEN_STRING_DELIMITER then Some (JSON_STATE_OBJECT_KV_SEPARATOR # r)
      else if char_kind k then Some (JSON_STATE_OBJECT_KEY # r) else None)"
| "jsm_next n (JSON_STATE_ARRAY_START # r) k =
     (if k = JSON_TOKEN_ARRAY_CLOSE then Some (after_value r)
      else start_value n (JSON_STATE_ARRAY_START # r) k)"
| "jsm_next n (JSON_STATE_ARRAY_CONTINUE # r) k =
     (if k = JSON_TOKEN_ARRAY_CLOSE then Some (after_value r)
      else if k = JSON_TOKEN_VALUE_SEPARATOR
      then push_within n JSON_STATE_VALUE (JSON_STATE_ARRAY_CONTINUE # r)
      else or_space (JSON_STATE_ARRAY_CONTINUE # r) k)"
| "jsm_next n (JSON_STATE_OBJECT_START # r) k =
     (if k = JSON_TOKEN_OBJECT_CLOSE then Some (after_value r)
      else if k = JSON_TOKEN_STRING_DELIMITER
      then push_within n JSON_STATE_OBJECT_KEY (JSON_STATE_OBJECT_START # r)
      else or_space (JSON_STATE_OBJECT_START # r) k)"
| "jsm_next n (JSON_STATE_OBJECT_CONTINUE # r) k =
     (if k = JSON_TOKEN_OBJECT_CLOSE then Some (after_value r)
      else if k = JSON_TOKEN_VALUE_SEPARATOR
      then push_within n JSON_STATE_OBJECT_KEY_START (JSON_STATE_OBJECT_CONTINUE # r)
      else or_space (JSON_STATE_OBJECT_CONTINUE # r) k)"
| "jsm_next n (JSON_STATE_OBJECT_KEY_START # r) k =
     (if k = JSON_TOKEN_STRING_DELIMITER then Some (JSON_STATE_OBJECT_KEY # r)
      else or_space (JSON_STATE_OBJECT_KEY_START # r) k)"
| "jsm_next n (JSON_STATE_OBJECT_KV_SEPARATOR # r) k =
     (if k = JSON_TOKEN_KV_SEPARATOR then Some (JSON_STATE_VALUE # r)
      else or_space (JSON_STATE_OBJECT_KV_SEPARATOR # r) k)"
| "jsm_next n (JSON_STATE_ROOT # r) k = or_space (JSON_STATE_ROOT # r) k"
| "jsm_next n [] k = None"

text \<open>What a refused token leaves: everything, except that the start state has become \<open>VALUE\<close>.\<close>

fun rejected :: "json_state list \<Rightarrow> json_state list" where
  "rejected (JSON_STATE_START # r) = JSON_STATE_VALUE # r"
| "rejected st = st"

section \<open>Well-formed stacks\<close>

text \<open>
  Under the top lie only containers, and \<open>ROOT\<close> at the very bottom.  A container that has
  reached \<open>OBJECT_CONTINUE\<close> once had a key above it, so there is room for another.
\<close>

fun containers :: "json_state list \<Rightarrow> bool" where
  "containers [s] \<longleftrightarrow> s = JSON_STATE_ROOT"
| "containers (s # r) \<longleftrightarrow> s \<in> {JSON_STATE_ARRAY_START, JSON_STATE_ARRAY_CONTINUE,
     JSON_STATE_OBJECT_START, JSON_STATE_OBJECT_CONTINUE} \<and> containers r"
| "containers [] \<longleftrightarrow> False"

fun room_for_keys :: "nat \<Rightarrow> json_state list \<Rightarrow> bool" where
  "room_for_keys n [] \<longleftrightarrow> True"
| "room_for_keys n (s # r) \<longleftrightarrow> (s = JSON_STATE_OBJECT_CONTINUE \<longrightarrow> Suc (length r) < n) \<and> room_for_keys n r"

fun top_ok :: "json_state \<Rightarrow> json_state list \<Rightarrow> bool" where
  "top_ok JSON_STATE_ROOT r \<longleftrightarrow> r = []"
| "top_ok JSON_STATE_START r \<longleftrightarrow> r = [JSON_STATE_ROOT]"
| "top_ok JSON_STATE_OBJECT_KEY r \<longleftrightarrow> containers r \<and> hd r \<in> {JSON_STATE_OBJECT_START, JSON_STATE_OBJECT_CONTINUE}"
| "top_ok JSON_STATE_OBJECT_KEY_START r \<longleftrightarrow> containers r \<and> hd r \<in> {JSON_STATE_OBJECT_START, JSON_STATE_OBJECT_CONTINUE}"
| "top_ok JSON_STATE_OBJECT_KV_SEPARATOR r \<longleftrightarrow> containers r \<and> hd r \<in> {JSON_STATE_OBJECT_START, JSON_STATE_OBJECT_CONTINUE}"
| "top_ok s r \<longleftrightarrow> containers r"

fun jsm_inv :: "nat \<Rightarrow> json_state list \<Rightarrow> bool" where
  "jsm_inv n (s # r) \<longleftrightarrow> Suc (length r) \<le> n \<and> room_for_keys n (s # r) \<and> top_ok s r"
| "jsm_inv n [] \<longleftrightarrow> False"

definition jsm_repr :: "nat \<Rightarrow> json_state_machine \<Rightarrow> json_state list \<Rightarrow> bool" where
  "jsm_repr n m st \<longleftrightarrow> fstack_repr n (state_stack m) st"

lemma containers_Cons: "containers (s # r) \<longleftrightarrow> (r = [] \<and> s = JSON_STATE_ROOT \<or>
   s \<in> {JSON_STATE_ARRAY_START, JSON_STATE_ARRAY_CONTINUE, JSON_STATE_OBJECT_START,
        JSON_STATE_OBJECT_CONTINUE} \<and> containers r)"
  by (cases r) auto

lemma containers_nonempty: "containers st \<Longrightarrow> st \<noteq> []"
  by auto

lemma length_after_value [simp]: "length (after_value r) = length r"
  by (cases r rule: after_value.cases) simp_all

lemma containers_after_value: "containers r \<Longrightarrow> containers (after_value r)"
  by (cases r rule: after_value.cases) (auto simp: containers_Cons)

lemma room_after_value: "room_for_keys n r \<Longrightarrow> Suc (length r) \<le> n \<Longrightarrow> room_for_keys n (after_value r)"
  by (cases r rule: after_value.cases) auto

lemma inv_containers: "containers r \<Longrightarrow> room_for_keys n r \<Longrightarrow> length r \<le> n \<Longrightarrow> jsm_inv n r"
  by (cases r) (auto simp: containers_Cons)

lemma inv_after_value:
  "containers r \<Longrightarrow> room_for_keys n r \<Longrightarrow> Suc (length r) \<le> n \<Longrightarrow> jsm_inv n (after_value r)"
  by (rule inv_containers) (simp_all add: containers_after_value room_after_value)

lemma inv_init: "2 \<le> n \<Longrightarrow> jsm_inv n [JSON_STATE_START, JSON_STATE_ROOT]"
  by simp

lemma start_value_inv:
  assumes "start_value n st k = Some st'" and "jsm_inv n st"
    and "st = JSON_STATE_VALUE # r \<or> st = JSON_STATE_ARRAY_START # r"
  shows "jsm_inv n st'"
proof -
  have c: "containers r" "room_for_keys n r" "Suc (length r) \<le> n" using assms(2,3) by auto
  from assms c show ?thesis using inv_after_value [OF c]
    by (auto simp: start_value_def push_within_def containers_Cons split: if_splits)
qed

lemma jsm_next_inv:
  assumes "jsm_inv n st" and "jsm_next n st k = Some st'"
  shows "jsm_inv n st'"
proof -
  obtain s r where st: "st = s # r" using assms(1) by (cases st) auto
  have c: "jsm_inv n (after_value r)" if "containers r"
    using inv_after_value that assms(1) by (simp add: st)
  show ?thesis
  proof (cases s)
    case JSON_STATE_START
    then show ?thesis using assms start_value_inv [of n "JSON_STATE_VALUE # r" k st' r]
      by (auto simp: st split: if_splits)
  next
    case JSON_STATE_VALUE
    then show ?thesis using assms start_value_inv [of n st k st' r] by (simp add: st)
  next
    case JSON_STATE_ARRAY_START
    then show ?thesis using assms c start_value_inv [of n st k st' r] by (auto simp: st split: if_splits)
  qed (use assms c in \<open>auto simp: st or_space_def push_within_def containers_Cons split: if_splits\<close>)
qed

lemma rejected_inv: "jsm_inv n st \<Longrightarrow> jsm_inv n (rejected st)"
  by (cases st rule: rejected.cases) auto

section \<open>The machine refines its list version\<close>

text \<open>The outcome of a step on lists: accepted with the new stack, or refused.\<close>

definition outcome :: "nat \<Rightarrow> (bool \<times> json_state_machine) option \<Rightarrow> json_state list option \<Rightarrow>
    json_state list \<Rightarrow> bool" where
  "outcome n r next old \<longleftrightarrow> (\<exists>m'. r = Some (next \<noteq> None, m') \<and>
     jsm_repr n m' (case next of Some st' \<Rightarrow> st' | None \<Rightarrow> old))"

lemma outcome_accepted: "r = Some m' \<Longrightarrow> jsm_repr n m' st' \<Longrightarrow> outcome n (accepting r) (Some st') old"
  by (simp add: outcome_def accepting_def)

lemma jsm_current: "jsm_repr n m (s # r) \<Longrightarrow> jsm_get_current_state m = Some s"
  by (simp add: jsm_get_current_state_def jsm_repr_def repr_simps)

lemma jsm_replace:
  assumes "jsm_repr n m (s # r)"
  obtains m' where "jsm_replace_top_state m t = Some m'" and "jsm_repr n m' (t # r)"
  using fstack_update_top_repr [of n "state_stack m" s r t] assms
  by (auto simp: jsm_repr_def jsm_replace_top_state_def)

lemma jsm_pop:
  assumes "jsm_repr n m (s # r)"
  obtains fs where "fstack_pop (state_stack m) = Some (s, fs)" and "jsm_repr n \<lparr>state_stack = fs\<rparr> r"
  using fstack_pop_repr [of n "state_stack m" s r] assms by (auto simp: jsm_repr_def)

lemma jsm_push_outcome:
  assumes "jsm_repr n m st"
  shows "outcome n (jsm_push_state m s) (push_within n s st) st"
proof (cases "length st < n")
  case True
  from fstack_push_repr [of n "state_stack m" st s] assms True show ?thesis
    by (auto simp: jsm_repr_def jsm_push_state_def push_within_def outcome_def repr_simps)
next
  case False
  then have "length st = n" using assms by (auto simp: jsm_repr_def fstack_repr_def)
  then show ?thesis using assms
    by (auto simp: jsm_repr_def jsm_push_state_def push_within_def outcome_def repr_simps)
qed

lemma jsm_after_value:
  assumes "jsm_repr n m r" and "r \<noteq> []"
  obtains m' where "jsm_try_update_stack_top_after_reading_value m = Some m'"
    and "jsm_repr n m' (after_value r)"
proof -
  obtain s q where r: "r = s # q" using assms(2) by (cases r) auto
  note cur = jsm_current [OF assms(1) [unfolded r]]
  show thesis
  proof (cases s)
    case JSON_STATE_ARRAY_START
    from jsm_replace [OF assms(1) [unfolded r]] obtain m' where
      "jsm_replace_top_state m JSON_STATE_ARRAY_CONTINUE = Some m'"
      "jsm_repr n m' (JSON_STATE_ARRAY_CONTINUE # q)" by blast
    with that r cur JSON_STATE_ARRAY_START show thesis
      by (simp add: jsm_try_update_stack_top_after_reading_value_def)
  next
    case JSON_STATE_OBJECT_START
    from jsm_replace [OF assms(1) [unfolded r]] obtain m' where
      "jsm_replace_top_state m JSON_STATE_OBJECT_CONTINUE = Some m'"
      "jsm_repr n m' (JSON_STATE_OBJECT_CONTINUE # q)" by blast
    with that r cur JSON_STATE_OBJECT_START show thesis
      by (simp add: jsm_try_update_stack_top_after_reading_value_def)
  qed (use assms(1) r cur that in \<open>auto simp: jsm_try_update_stack_top_after_reading_value_def\<close>)
qed

lemma jsm_pop_after_value:
  assumes "jsm_repr n m (s # r)" and "r \<noteq> []"
  obtains m' where "jsm_pop_state_after_reading_value m = Some m'" and "jsm_repr n m' (after_value r)"
proof -
  from jsm_pop [OF assms(1)] obtain fs where
    p: "fstack_pop (state_stack m) = Some (s, fs)" "jsm_repr n \<lparr>state_stack = fs\<rparr> r" by blast
  from jsm_after_value [OF p(2) assms(2)] obtain m' where
    "jsm_try_update_stack_top_after_reading_value \<lparr>state_stack = fs\<rparr> = Some m'"
    "jsm_repr n m' (after_value r)" by blast
  with that p(1) show thesis by (simp add: jsm_pop_state_after_reading_value_def)
qed

lemma jsm_push_value_outcome:
  assumes "jsm_repr n m st" and "st = JSON_STATE_VALUE # r \<or> st = JSON_STATE_ARRAY_START # r"
  shows "outcome n (jsm_push_value_state m s) (push_within n s (drop_value st)) st"
  using assms(2)
proof
  assume st: "st = JSON_STATE_VALUE # r"
  from jsm_pop assms(1) st obtain fs where
    p: "fstack_pop (state_stack m) = Some (JSON_STATE_VALUE, fs)" "jsm_repr n \<lparr>state_stack = fs\<rparr> r" by metis
  have "length r < n" using assms(1) st by (simp add: jsm_repr_def fstack_repr_def)
  with jsm_push_outcome [OF p(2), of s] jsm_current [OF assms(1) [unfolded st]] p(1) show ?thesis
    by (simp add: jsm_push_value_state_def st outcome_def push_within_def jsm_get_current_state_def)
next
  assume st: "st = JSON_STATE_ARRAY_START # r"
  with jsm_push_outcome [OF assms(1), of s] jsm_current [OF assms(1) [unfolded st]] show ?thesis
    by (simp add: jsm_push_value_state_def jsm_get_current_state_def)
qed

lemma jsm_start_value_outcome:
  assumes "jsm_repr n m st" and "st = JSON_STATE_VALUE # r \<or> st = JSON_STATE_ARRAY_START # r" and "r \<noteq> []"
  shows "outcome n (jsm_try_start_value m k) (start_value n st k) st"
proof -
  note push = jsm_push_value_outcome [OF assms(1,2)]
  have same: "outcome n (Some (True, m)) (Some st) st" "outcome n (Some (False, m)) None st"
    using assms(1) by (simp_all add: outcome_def)
  show ?thesis
  proof (cases "scalar_kind k")
    case True
    have "\<exists>m'. jsm_try_start_value m k = Some (True, m') \<and> jsm_repr n m' (after_value (drop_value st))"
    proof (cases "hd st = JSON_STATE_VALUE")
      case value_top: True
      then have st: "st = JSON_STATE_VALUE # r" using assms(2) by auto
      from jsm_pop_after_value [OF assms(1) [unfolded st] assms(3)] obtain m' where
        "jsm_pop_state_after_reading_value m = Some m'" "jsm_repr n m' (after_value r)" by blast
      with True jsm_current [OF assms(1) [unfolded st]] st show ?thesis
        by (auto simp: jsm_try_start_value_def scalar_kind_def accepting_def
            jsm_pop_state_after_reading_value_def bind_eq_Some_conv)
    next
      case False
      then have st: "st = JSON_STATE_ARRAY_START # r" using assms(2) by auto
      from jsm_after_value [OF assms(1)] st obtain m' where
        "jsm_try_update_stack_top_after_reading_value m = Some m'" "jsm_repr n m' (after_value st)" by blast
      with True jsm_current [OF assms(1) [unfolded st]] st show ?thesis
        by (auto simp: jsm_try_start_value_def scalar_kind_def accepting_def)
    qed
    moreover have "start_value n st k = Some (after_value (drop_value st))"
      using True by (auto simp: start_value_def scalar_kind_def)
    ultimately show ?thesis by (auto simp: outcome_def)
  next
    case False
    then show ?thesis using push same
      by (cases k) (simp_all add: jsm_try_start_value_def start_value_def scalar_kind_def)
  qed
qed

lemma containers_pop: "jsm_inv n (s # r) \<Longrightarrow> s \<noteq> JSON_STATE_ROOT \<Longrightarrow> r \<noteq> []"
  by (cases s) auto

lemma jsm_process_refines:
  assumes "jsm_repr n m st" and "jsm_inv n st"
  shows "outcome n (jsm_process_token m k) (jsm_next n st k) (rejected st)"
proof -
  obtain s r where st: "st = s # r" using assms(2) by (cases st) auto
  note repr = assms(1) [unfolded st]
  note cur = jsm_current [OF repr]
  note unfold = jsm_process_token.simps [of m k]
  have r: "s \<noteq> JSON_STATE_ROOT \<Longrightarrow> r \<noteq> []" using containers_pop assms(2) by (simp add: st)
  have pop: "outcome n (accepting (jsm_pop_state_after_reading_value m)) (Some (after_value r)) st"
    if "s \<noteq> JSON_STATE_ROOT"
    using jsm_pop_after_value [OF repr r [OF that]] outcome_accepted by metis
  have replace: "outcome n (accepting (jsm_replace_top_state m t)) (Some (t # r)) st" for t
    using jsm_replace [OF repr] outcome_accepted by metis
  have same: "outcome n (Some (True, m)) (Some st) st" "outcome n (Some (False, m)) None st"
    using assms(1) by (simp_all add: outcome_def)
  show ?thesis
  proof (cases s)
    case JSON_STATE_START
    have q: "r \<noteq> []" using r JSON_STATE_START by simp
    from jsm_replace [OF repr] obtain m1 where m1: "jsm_replace_top_state m JSON_STATE_VALUE = Some m1"
      "jsm_repr n m1 (JSON_STATE_VALUE # r)" by blast
    from jsm_start_value_outcome [OF m1(2) _ q, of k]
    have v: "outcome n (jsm_process_token m1 k) (start_value n (JSON_STATE_VALUE # r) k) (JSON_STATE_VALUE # r)"
      using jsm_current [OF m1(2)] by (subst jsm_process_token.simps) simp
    show ?thesis
    proof (cases "k = JSON_TOKEN_BOM")
      case True
      with m1 cur unfold JSON_STATE_START show ?thesis by (simp add: st outcome_def accepting_def)
    next
      case False
      with m1(1) v cur unfold JSON_STATE_START show ?thesis by (simp add: st)
    qed
  next
    case JSON_STATE_VALUE
    from jsm_start_value_outcome [OF assms(1), of r k] r JSON_STATE_VALUE cur unfold
    show ?thesis by (simp add: st)
  next
    case JSON_STATE_ARRAY_START
    from jsm_start_value_outcome [OF assms(1), of r k] r pop JSON_STATE_ARRAY_START cur unfold
    show ?thesis by (simp add: st)
  next
    case JSON_STATE_STRING
    with pop same cur unfold show ?thesis by (simp add: st char_kind_def)
  next
    case JSON_STATE_OBJECT_KEY
    with replace same cur unfold show ?thesis by (simp add: st char_kind_def)
  next
    case JSON_STATE_ARRAY_CONTINUE
    with pop same jsm_push_outcome [OF assms(1)] cur unfold show ?thesis by (simp add: st or_space_def)
  next
    case JSON_STATE_OBJECT_START
    with pop same jsm_push_outcome [OF assms(1)] cur unfold show ?thesis by (simp add: st or_space_def)
  next
    case JSON_STATE_OBJECT_CONTINUE
    have room: "length st < n" using assms(2) JSON_STATE_OBJECT_CONTINUE by (simp add: st)
    then have "push_within n JSON_STATE_OBJECT_KEY_START st = Some (JSON_STATE_OBJECT_KEY_START # st)"
      by (simp add: push_within_def)
    with jsm_push_outcome [OF assms(1), of JSON_STATE_OBJECT_KEY_START] obtain m' where
      "jsm_push_state m JSON_STATE_OBJECT_KEY_START = Some (True, m')"
      "jsm_repr n m' (JSON_STATE_OBJECT_KEY_START # st)" by (auto simp: outcome_def)
    with pop same room cur unfold JSON_STATE_OBJECT_CONTINUE show ?thesis
      by (simp add: st or_space_def push_within_def outcome_def)
  next
    case JSON_STATE_OBJECT_KEY_START
    with replace same cur unfold show ?thesis by (simp add: st or_space_def)
  next
    case JSON_STATE_OBJECT_KV_SEPARATOR
    with replace same cur unfold show ?thesis by (simp add: st or_space_def)
  next
    case JSON_STATE_ROOT
    with same cur unfold show ?thesis by (simp add: st or_space_def)
  qed
qed

lemma jsm_reset_repr:
  assumes "jsm_repr n m st" and "2 \<le> n"
  shows "\<exists>m'. jsm_reset m = Some m' \<and> jsm_repr n m' [JSON_STATE_START, JSON_STATE_ROOT]"
proof -
  have "fstack_repr n (fstack_reset (state_stack m)) []"
    using assms(1) fstack_reset_repr by (simp add: jsm_repr_def)
  from fstack_push_repr [OF this, of JSON_STATE_ROOT] assms(2) obtain s1 where
    s1: "fstack_push JSON_STATE_ROOT (fstack_reset (state_stack m)) = Some s1"
      "fstack_repr n s1 [JSON_STATE_ROOT]" by auto
  from fstack_push_repr [OF s1(2), of JSON_STATE_START] assms(2) s1(1) show ?thesis
    by (auto simp: jsm_reset_def jsm_repr_def)
qed

lemma jsm_init_repr:
  assumes "600 < arena_free c"
  shows "\<exists>m c'. jsm_init c = Some (m, c') \<and> jsm_repr 512 m [JSON_STATE_START, JSON_STATE_ROOT] \<and>
     arena_free c \<le> arena_free c' + 512 \<and> ctx_error c' = ctx_error c"
proof -
  from fstack_init_repr [of 512 1 c] assms obtain s :: "json_state fixed_stack" and c' where
    s: "fstack_init c 1 512 = Some (s, c')" "fstack_repr 512 s []"
      "arena_free c' = arena_free c - 512" "ctx_error c' = ctx_error c" by auto
  from jsm_reset_repr [of 512 "\<lparr>state_stack = s\<rparr>" "[]"] s(2) obtain m where
    "jsm_reset \<lparr>state_stack = s\<rparr> = Some m" "jsm_repr 512 m [JSON_STATE_START, JSON_STATE_ROOT]"
    by (auto simp: jsm_repr_def)
  with s assms show ?thesis by (auto simp: jsm_init_def JSON_MAX_STATE_STACK_LENGTH_def)
qed

end
