(* ===== verification/Json_Tokenizer.thy ===== *)
theory Json_Tokenizer
  imports Json_Text Json_State_Machine Reader
begin

text \<open>
  \<open>src/json/json_tokenizer.c\<close>.  The tokenizer holds its reader.  A token that cannot be parsed is
  \<open>INVALID_JSON_TOKEN\<close>; the theorems show that then no byte is consumed, and that otherwise the
  bytes consumed are exactly \<open>token_bytes\<close> of the token.
\<close>

record json_tokenizer =
  tok_jsm :: json_state_machine
  tok_reader :: reader

record jtok_uint_reading_result =
  uint_value :: u64
  uint_zeroes :: byte

section \<open>Life cycle\<close>

definition json_tokenizer_deinit :: "json_tokenizer \<Rightarrow> json_tokenizer" where
  "json_tokenizer_deinit t = \<lparr>tok_jsm = jsm_deinit (tok_jsm t), tok_reader = reader_zero\<rparr>"

definition json_tokenizer_reset :: "json_tokenizer \<Rightarrow> json_tokenizer option" where
  "json_tokenizer_reset t = do { m \<leftarrow> jsm_reset (tok_jsm t); Some (t\<lparr>tok_jsm := m\<rparr>) }"

definition json_tokenizer_init :: "ctx \<Rightarrow> reader \<Rightarrow> (json_tokenizer \<times> ctx) option" where
  "json_tokenizer_init c r = do {
     (m, c) \<leftarrow> jsm_init c;
     t \<leftarrow> json_tokenizer_reset \<lparr>tok_jsm = m, tok_reader = r\<rparr>;
     Some (t, c)
   }"

section \<open>The reader of the tokenizer\<close>

definition jtok_peek :: "json_tokenizer \<Rightarrow> ctx \<Rightarrow> (byte \<times> json_tokenizer \<times> ctx) option" where
  "jtok_peek t c = do {
     (b, r, c) \<leftarrow> reader_peek_byte (tok_reader t) c;
     Some (b, t\<lparr>tok_reader := r\<rparr>, c)
   }"

definition jtok_read :: "json_tokenizer \<Rightarrow> ctx \<Rightarrow> (byte \<times> json_tokenizer \<times> ctx) option" where
  "jtok_read t c = do {
     (b, r, c) \<leftarrow> reader_read_byte (tok_reader t) c;
     Some (b, t\<lparr>tok_reader := r\<rparr>, c)
   }"

definition jtok_available :: "json_tokenizer \<Rightarrow> int option" where
  "jtok_available t = reader_get_bytes_available (tok_reader t)"

text \<open>Restore the snapshot and give up.\<close>

definition jtok_reject ::
  "json_tokenizer \<Rightarrow> ctx \<Rightarrow> reader_snapshot \<Rightarrow> (json_token \<times> json_tokenizer \<times> ctx) option" where
  "jtok_reject t c snapshot = do {
     r \<leftarrow> reader_restore_snapshot (tok_reader t) snapshot;
     Some (INVALID_JSON_TOKEN, t\<lparr>tok_reader := r\<rparr>, c)
   }"

section \<open>Helpers\<close>

definition TENTH_OF_MAX_UINT64 :: u64 where "TENTH_OF_MAX_UINT64 = (-1) div 10"

definition jtok_uint64_will_overflow :: "u64 \<Rightarrow> byte \<Rightarrow> bool" where
  "jtok_uint64_will_overflow v addition \<longleftrightarrow> v \<ge> TENTH_OF_MAX_UINT64 - ucast addition"

definition jtok_is_hex :: "byte \<Rightarrow> bool" where
  "jtok_is_hex x \<longleftrightarrow> chr CHR ''0'' \<le> x \<and> x \<le> chr CHR ''9'' \<or> chr CHR ''a'' \<le> x \<and> x \<le> chr CHR ''f'' \<or>
     chr CHR ''A'' \<le> x \<and> x \<le> chr CHR ''F''"

definition jtok_yield_singlebyte_token ::
  "json_tokenizer \<Rightarrow> ctx \<Rightarrow> json_token \<Rightarrow> (json_token \<times> json_tokenizer \<times> ctx) option" where
  "jtok_yield_singlebyte_token t c token = do {
     (accepted, m) \<leftarrow> jsm_process_token (tok_jsm t) (token_kind token);
     let t = t\<lparr>tok_jsm := m\<rparr>;
     if \<not> accepted then Some (INVALID_JSON_TOKEN, t, c)
     else do {
       (_, t, c) \<leftarrow> jtok_read t c;
       Some (token, t, c)
     }
   }"

definition jtok_yield_multibyte_token ::
  "json_tokenizer \<Rightarrow> ctx \<Rightarrow> json_token \<Rightarrow> reader_snapshot \<Rightarrow> (json_token \<times> json_tokenizer \<times> ctx) option" where
  "jtok_yield_multibyte_token t c token snapshot = do {
     (accepted, m) \<leftarrow> jsm_process_token (tok_jsm t) (token_kind token);
     let t = t\<lparr>tok_jsm := m\<rparr>;
     if \<not> accepted then jtok_reject t c snapshot else Some (token, t, c)
   }"

section \<open>Strings\<close>

text \<open>
  The two loops that pack bytes into a number, with \<open>n\<close> rounds left; \<open>None\<close> inside the result is
  the exit on a byte that does not belong.
\<close>

primrec jtok_hex_loop ::
  "nat \<Rightarrow> nat \<Rightarrow> u64 \<Rightarrow> json_tokenizer \<Rightarrow> ctx \<Rightarrow> (u64 option \<times> json_tokenizer \<times> ctx) option" where
  "jtok_hex_loop 0 i v t c = Some (Some v, t, c)"
| "jtok_hex_loop (Suc n) i v t c = do {
     (next_char, t, c) \<leftarrow> jtok_read t c;
     if \<not> jtok_is_hex next_char then Some (None, t, c)
     else jtok_hex_loop n (Suc i) (v OR push_bit (push_bit 3 i) (ucast next_char)) t c
   }"

primrec jtok_unicode_loop ::
  "nat \<Rightarrow> nat \<Rightarrow> u64 \<Rightarrow> json_tokenizer \<Rightarrow> ctx \<Rightarrow> (u64 option \<times> json_tokenizer \<times> ctx) option" where
  "jtok_unicode_loop 0 i v t c = Some (Some v, t, c)"
| "jtok_unicode_loop (Suc n) i v t c = do {
     (next_byte, t, c) \<leftarrow> jtok_read t c;
     if \<not> utf8_is_valid_continuation_byte next_byte then Some (None, t, c)
     else jtok_unicode_loop n (Suc i) (v OR push_bit (push_bit 3 i) (ucast next_byte)) t c
   }"

definition jtok_parse_escape ::
  "json_tokenizer \<Rightarrow> ctx \<Rightarrow> (json_token \<times> json_tokenizer \<times> ctx) option" where
  "jtok_parse_escape t c = do {
     n \<leftarrow> jtok_available t;
     if n < 2 then Some (INVALID_JSON_TOKEN, t, c)
     else do {
       let snapshot = reader_take_snapshot (tok_reader t);
       (_, t, c) \<leftarrow> jtok_read t c;
       (next_char, t, c) \<leftarrow> jtok_read t c;
       if next_char \<in> set JTOK_ESCAPE_SEQ_CHARS
       then jtok_yield_multibyte_token t c
              \<lparr>token_kind = JSON_TOKEN_ESCAPE_SEQUENCE, payload = Character next_char\<rparr> snapshot
       else if next_char = chr CHR ''u'' then do {
         n \<leftarrow> jtok_available t;
         if n < int JSON_HEX_CHARACTERS_IN_ESCAPED_UNICODE_CODEPOINT then jtok_reject t c snapshot
         else do {
           (v, t, c) \<leftarrow> jtok_hex_loop JSON_HEX_CHARACTERS_IN_ESCAPED_UNICODE_CODEPOINT 0 0 t c;
           (case v of
              None \<Rightarrow> jtok_reject t c snapshot
            | Some v \<Rightarrow> jtok_yield_multibyte_token t c
                \<lparr>token_kind = JSON_TOKEN_ESCAPED_UNICODE_CHARCODE,
                 payload = Unicode v (of_nat JSON_HEX_CHARACTERS_IN_ESCAPED_UNICODE_CODEPOINT)\<rparr> snapshot)
         }
       }
       else jtok_reject t c snapshot
     }
   }"

definition jtok_parse_unicode ::
  "json_tokenizer \<Rightarrow> ctx \<Rightarrow> byte \<Rightarrow> (json_token \<times> json_tokenizer \<times> ctx) option" where
  "jtok_parse_unicode t c first_byte = do {
     let utf8_length = utf8_get_sequence_length_by_first_byte first_byte;
     n \<leftarrow> jtok_available t;
     if utf8_length = 0 \<or> n < utf8_length then Some (INVALID_JSON_TOKEN, t, c)
     else if utf8_length = 1 \<and> first_byte \<le> 0x1F then Some (INVALID_JSON_TOKEN, t, c)
     else do {
       let snapshot = reader_take_snapshot (tok_reader t);
       (_, t, c) \<leftarrow> jtok_read t c;
       (v, t, c) \<leftarrow> jtok_unicode_loop (nat (utf8_length - 1)) 1 (ucast first_byte) t c;
       (case v of
          None \<Rightarrow> jtok_reject t c snapshot
        | Some v \<Rightarrow> jtok_yield_multibyte_token t c
            \<lparr>token_kind = JSON_TOKEN_UNICODE_CHARACTER, payload = Unicode v (word_of_int utf8_length)\<rparr> snapshot)
     }
   }"

definition jtok_parse_string_token ::
  "json_tokenizer \<Rightarrow> ctx \<Rightarrow> (json_token \<times> json_tokenizer \<times> ctx) option" where
  "jtok_parse_string_token t c = do {
     (first_byte, t, c) \<leftarrow> jtok_peek t c;
     if first_byte = chr (CHR 0x22)
     then jtok_yield_singlebyte_token t c (simple_token JSON_TOKEN_STRING_DELIMITER)
     else if first_byte = chr (CHR 0x5C) then jtok_parse_escape t c
     else jtok_parse_unicode t c first_byte
   }"

section \<open>Fixed words\<close>

primrec jtok_match_loop ::
  "nat \<Rightarrow> int \<Rightarrow> byte list \<Rightarrow> json_tokenizer \<Rightarrow> ctx \<Rightarrow> (bool \<times> json_tokenizer \<times> ctx) option" where
  "jtok_match_loop 0 i expected_bytes t c = Some (True, t, c)"
| "jtok_match_loop (Suc n) i expected_bytes t c = do {
     (b, t, c) \<leftarrow> jtok_read t c;
     expected \<leftarrow> at expected_bytes i;
     if b \<noteq> expected then Some (False, t, c)
     else jtok_match_loop n (i + 1) expected_bytes t c
   }"

definition jtok_parse_fixed_token ::
  "json_tokenizer \<Rightarrow> ctx \<Rightarrow> json_token_kind \<Rightarrow> byte list \<Rightarrow> int \<Rightarrow> (json_token \<times> json_tokenizer \<times> ctx) option" where
  "jtok_parse_fixed_token t c kind expected_bytes expected_byte_length = do {
     n \<leftarrow> jtok_available t;
     if n < expected_byte_length then Some (INVALID_JSON_TOKEN, t, c)
     else do {
       let snapshot = reader_take_snapshot (tok_reader t);
       (_, t, c) \<leftarrow> jtok_read t c;
       (matched, t, c) \<leftarrow> jtok_match_loop (nat (expected_byte_length - 1)) 1 expected_bytes t c;
       if \<not> matched then jtok_reject t c snapshot
       else jtok_yield_multibyte_token t c (simple_token kind) snapshot
     }
   }"

section \<open>Numbers\<close>

definition jtok_uint_is_invalid :: "jtok_uint_reading_result \<Rightarrow> bool" where
  "jtok_uint_is_invalid res \<longleftrightarrow> uint_value res = 0 \<and> uint_zeroes res = 0"

definition uint_failed :: jtok_uint_reading_result where
  "uint_failed = \<lparr>uint_value = 0, uint_zeroes = 0\<rparr>"

partial_function (option) jtok_read_uint_loop ::
  "byte \<Rightarrow> u64 \<Rightarrow> json_tokenizer \<Rightarrow> ctx \<Rightarrow> (jtok_uint_reading_result \<times> json_tokenizer \<times> ctx) option" where
  "jtok_read_uint_loop leading_zeroes v t c = do {
     n \<leftarrow> jtok_available t;
     if \<not> n > 0 then Some (\<lparr>uint_value = v, uint_zeroes = leading_zeroes\<rparr>, t, c)
     else do {
       (next_byte, t, c) \<leftarrow> jtok_peek t c;
       if next_byte < chr CHR ''0'' \<or> next_byte > chr CHR ''9''
       then Some (\<lparr>uint_value = v, uint_zeroes = leading_zeroes\<rparr>, t, c)
       else if next_byte = chr CHR ''0'' \<and> v = 0 then do {
         let leading_zeroes = leading_zeroes + 1;
         if unat leading_zeroes \<ge> JSON_MAX_NUMBER_LEADING_ZEROES then Some (uint_failed, t, c)
         else do {
           (_, t, c) \<leftarrow> jtok_read t c;
           jtok_read_uint_loop leading_zeroes v t c
         }
       }
       else do {
         let digit = next_byte - chr CHR ''0'';
         if jtok_uint64_will_overflow v digit then Some (uint_failed, t, c)
         else do {
           let v = v * 10 + ucast digit;
           (_, t, c) \<leftarrow> jtok_read t c;
           jtok_read_uint_loop leading_zeroes v t c
         }
       }
     }
   }"

definition jtok_read_uint ::
  "json_tokenizer \<Rightarrow> ctx \<Rightarrow> (jtok_uint_reading_result \<times> json_tokenizer \<times> ctx) option" where
  "jtok_read_uint t c = jtok_read_uint_loop 0 0 t c"

text \<open>
  The parts of \<open>_jtok_parse_number\<close>: each extends the number, or is \<open>None\<close> where the code restores
  the snapshot and gives up.
\<close>

type_synonym jtok_part = "(json_number_token option \<times> json_tokenizer \<times> ctx) option"

definition jtok_then ::
  "jtok_part \<Rightarrow> (json_number_token \<Rightarrow> json_tokenizer \<Rightarrow> ctx \<Rightarrow> jtok_part) \<Rightarrow> jtok_part" where
  "jtok_then r f = do {
     (number, t, c) \<leftarrow> r;
     (case number of None \<Rightarrow> Some (None, t, c) | Some number \<Rightarrow> f number t c)
   }"

definition raise_flag :: "byte \<Rightarrow> json_number_token \<Rightarrow> json_number_token" where
  "raise_flag flag number = number\<lparr>number_flags := number_flags number OR flag\<rparr>"

definition jtok_number_sign :: "json_tokenizer \<Rightarrow> ctx \<Rightarrow> jtok_part" where
  "jtok_number_sign t c = do {
     let number = zero_number;
     (b, t, c) \<leftarrow> jtok_peek t c;
     if b = chr CHR ''-'' then do {
       n \<leftarrow> jtok_available t;
       if n < 2 then Some (None, t, c)
       else do {
         let number = raise_flag JSON_NUMBER_IS_NEGATIVE number;
         (_, t, c) \<leftarrow> jtok_read t c;
         Some (Some number, t, c)
       }
     } else Some (Some number, t, c)
   }"

definition jtok_number_integer :: "json_number_token \<Rightarrow> json_tokenizer \<Rightarrow> ctx \<Rightarrow> jtok_part" where
  "jtok_number_integer number t c = do {
     (int_part, t, c) \<leftarrow> jtok_read_uint t c;
     if jtok_uint_is_invalid int_part \<or> uint_zeroes int_part > 1 \<or>
        (uint_zeroes int_part > 0 \<and> uint_value int_part > 0)
     then Some (None, t, c)
     else if uint_zeroes int_part > 0
     then Some (Some (raise_flag JSON_NUMBER_INTEGER_PART_IS_ZERO number), t, c)
     else Some (Some (number\<lparr>integer_part := uint_value int_part\<rparr>), t, c)
   }"

definition jtok_number_fraction :: "json_number_token \<Rightarrow> json_tokenizer \<Rightarrow> ctx \<Rightarrow> jtok_part" where
  "jtok_number_fraction number t c = do {
     n \<leftarrow> jtok_available t;
     (dot, t, c) \<leftarrow> (if n \<ge> 1 then do {
                        (b, t, c) \<leftarrow> jtok_peek t c;
                        Some (b = chr CHR ''.'', t, c)
                      } else Some (False, t, c));
     if \<not> dot then Some (Some number, t, c)
     else do {
       n \<leftarrow> jtok_available t;
       if n < 2 then Some (None, t, c)
       else do {
         let number = raise_flag JSON_NUMBER_HAS_FRACTION number;
         (_, t, c) \<leftarrow> jtok_read t c;
         (frac_part, t, c) \<leftarrow> jtok_read_uint t c;
         if jtok_uint_is_invalid frac_part then Some (None, t, c)
         else Some (Some (number\<lparr>fraction_part := uint_value frac_part,
                                 fraction_leading_zeroes := uint_zeroes frac_part\<rparr>), t, c)
       }
     }
   }"

definition jtok_number_exponent_sign :: "json_number_token \<Rightarrow> json_tokenizer \<Rightarrow> ctx \<Rightarrow> jtok_part" where
  "jtok_number_exponent_sign number t c = do {
     (next_byte, t, c) \<leftarrow> jtok_peek t c;
     if next_byte = chr CHR ''-'' \<or> next_byte = chr CHR ''+'' then do {
       n \<leftarrow> jtok_available t;
       if n < 2 then Some (None, t, c)
       else do {
         let number = raise_flag (if next_byte = chr CHR ''-'' then JSON_NUMBER_EXPONENT_IS_NEGATIVE
                                  else JSON_NUMBER_EXPONENT_HAS_PLUS) number;
         (_, t, c) \<leftarrow> jtok_read t c;
         Some (Some number, t, c)
       }
     } else Some (Some number, t, c)
   }"

definition jtok_number_exponent_value :: "json_number_token \<Rightarrow> json_tokenizer \<Rightarrow> ctx \<Rightarrow> jtok_part" where
  "jtok_number_exponent_value number t c = do {
     (expo_part, t, c) \<leftarrow> jtok_read_uint t c;
     if jtok_uint_is_invalid expo_part \<or> uint_value expo_part > 65535 then Some (None, t, c)
     else Some (Some (number\<lparr>exponent_part := ucast (uint_value expo_part),
                             exponent_leading_zeroes := uint_zeroes expo_part\<rparr>), t, c)
   }"

definition jtok_number_exponent :: "json_number_token \<Rightarrow> json_tokenizer \<Rightarrow> ctx \<Rightarrow> jtok_part" where
  "jtok_number_exponent number t c = do {
     n \<leftarrow> jtok_available t;
     if \<not> n \<ge> 1 then Some (Some number, t, c)
     else do {
       (next_byte, t, c) \<leftarrow> jtok_peek t c;
       if \<not> (next_byte = chr CHR ''e'' \<or> next_byte = chr CHR ''E'') then Some (Some number, t, c)
       else do {
         n \<leftarrow> jtok_available t;
         if n < 2 then Some (None, t, c)
         else do {
           let number = raise_flag JSON_NUMBER_HAS_EXPONENT number;
           let number = (if next_byte = chr CHR ''E'' then raise_flag JSON_NUMBER_EXPONENT_UPPERCASE number
                         else number);
           (_, t, c) \<leftarrow> jtok_read t c;
           jtok_then (jtok_number_exponent_sign number t c) jtok_number_exponent_value
         }
       }
     }
   }"

definition jtok_parse_number ::
  "json_tokenizer \<Rightarrow> ctx \<Rightarrow> (json_token \<times> json_tokenizer \<times> ctx) option" where
  "jtok_parse_number t c = do {
     let snapshot = reader_take_snapshot (tok_reader t);
     (number, t, c) \<leftarrow> jtok_then (jtok_then (jtok_then (jtok_number_sign t c)
        jtok_number_integer) jtok_number_fraction) jtok_number_exponent;
     (case number of
        None \<Rightarrow> jtok_reject t c snapshot
      | Some number \<Rightarrow> jtok_yield_multibyte_token t c
          \<lparr>token_kind = JSON_TOKEN_NUMBER, payload = Number number\<rparr> snapshot)
   }"

section \<open>Everything else\<close>

definition jtok_detect_nonstring_token_start :: "byte \<Rightarrow> json_token_kind" where
  "jtok_detect_nonstring_token_start b =
     (if b = chr CHR ''{'' then JSON_TOKEN_OBJECT_OPEN
      else if b = chr CHR ''}'' then JSON_TOKEN_OBJECT_CLOSE
      else if b = chr CHR ''['' then JSON_TOKEN_ARRAY_OPEN
      else if b = chr CHR '']'' then JSON_TOKEN_ARRAY_CLOSE
      else if b = chr CHR ''t'' then JSON_TOKEN_TRUE
      else if b = chr CHR ''f'' then JSON_TOKEN_FALSE
      else if b = chr CHR ''n'' then JSON_TOKEN_NULL
      else if b = chr CHR '','' then JSON_TOKEN_VALUE_SEPARATOR
      else if b = chr CHR '':'' then JSON_TOKEN_KV_SEPARATOR
      else if b = 0x20 \<or> b = 0x0A \<or> b = 0x0D \<or> b = 0x09 then JSON_TOKEN_WHITESPACE
      else if b = chr (CHR 0x22) then JSON_TOKEN_STRING_DELIMITER
      else if b \<ge> chr CHR ''0'' \<and> b \<le> chr CHR ''9'' \<or> b = chr CHR ''-'' then JSON_TOKEN_NUMBER
      else if b = UTF8_BOM ! 0 then JSON_TOKEN_BOM
      else JSON_TOKEN_INVALID)"

definition jtok_parse_nonstring_token ::
  "json_tokenizer \<Rightarrow> ctx \<Rightarrow> (json_token \<times> json_tokenizer \<times> ctx) option" where
  "jtok_parse_nonstring_token t c = do {
     (b, t, c) \<leftarrow> jtok_peek t c;
     let kind = jtok_detect_nonstring_token_start b;
     (case kind of
        JSON_TOKEN_INVALID \<Rightarrow> Some (INVALID_JSON_TOKEN, t, c)
      | JSON_TOKEN_TRUE \<Rightarrow> jtok_parse_fixed_token t c kind JTOK_TRUE_BYTES (int (length JTOK_TRUE_BYTES))
      | JSON_TOKEN_FALSE \<Rightarrow> jtok_parse_fixed_token t c kind JTOK_FALSE_BYTES (int (length JTOK_FALSE_BYTES))
      | JSON_TOKEN_NULL \<Rightarrow> jtok_parse_fixed_token t c kind JTOK_NULL_BYTES (int (length JTOK_NULL_BYTES))
      | JSON_TOKEN_BOM \<Rightarrow> jtok_parse_fixed_token t c kind UTF8_BOM (int (length UTF8_BOM))
      | JSON_TOKEN_NUMBER \<Rightarrow> jtok_parse_number t c
      | JSON_TOKEN_WHITESPACE \<Rightarrow>
          jtok_yield_singlebyte_token t c \<lparr>token_kind = JSON_TOKEN_WHITESPACE, payload = Character b\<rparr>
      | _ \<Rightarrow> jtok_yield_singlebyte_token t c \<lparr>token_kind = kind, payload = Character b\<rparr>)
   }"

definition json_tokenizer_get_current_state :: "json_tokenizer \<Rightarrow> json_state option" where
  "json_tokenizer_get_current_state t = jsm_get_current_state (tok_jsm t)"

definition json_tokenizer_parse_next ::
  "json_tokenizer \<Rightarrow> ctx \<Rightarrow> (json_token \<times> json_tokenizer \<times> ctx) option" where
  "json_tokenizer_parse_next t c = do {
     n \<leftarrow> jtok_available t;
     check (n > 0);
     state \<leftarrow> json_tokenizer_get_current_state t;
     if json_is_string_state state then jtok_parse_string_token t c
     else jtok_parse_nonstring_token t c
   }"

definition json_tokenizer_is_done :: "json_tokenizer \<Rightarrow> bool option" where
  "json_tokenizer_is_done t = map_option (\<lambda>s. s = JSON_STATE_ROOT) (json_tokenizer_get_current_state t)"

end
