(* ===== verification/Json_Lexing.thy ===== *)
theory Json_Lexing
  imports Json_Tokenizer
begin

text \<open>
  What \<open>json_tokenizer_parse_next\<close> does, for bytes in the last buffer of the reader: it never
  aborts; a token it returns has exactly the consumed bytes as its text and a kind the state
  machine took; otherwise nothing is consumed.
\<close>

section \<open>Tokens the tokenizer makes\<close>

definition number_ok :: "json_number_token \<Rightarrow> bool" where
  "number_ok n \<longleftrightarrow>
     (bit (number_flags n) 0 \<longrightarrow> integer_part n = 0) \<and>
     (\<not> bit (number_flags n) 2 \<longrightarrow> fraction_part n = 0 \<and> fraction_leading_zeroes n = 0) \<and>
     (\<not> bit (number_flags n) 3 \<longrightarrow> exponent_part n = 0 \<and> exponent_leading_zeroes n = 0) \<and>
     unat (fraction_leading_zeroes n) < 80 \<and> unat (exponent_leading_zeroes n) < 80 \<and>
     \<not> bit (number_flags n) 7"

fun payload_ok :: "json_token_kind \<Rightarrow> token_payload \<Rightarrow> bool" where
  "payload_ok JSON_TOKEN_INVALID p = False"
| "payload_ok JSON_TOKEN_WHITESPACE p = (\<exists>b. p = Character b \<and> b \<in> set JTOK_WHITESPACE_CHARS)"
| "payload_ok JSON_TOKEN_ESCAPE_SEQUENCE p = (\<exists>b. p = Character b \<and> b \<in> set JTOK_ESCAPE_SEQ_CHARS)"
| "payload_ok JSON_TOKEN_UNICODE_CHARACTER p = (\<exists>v n. p = Unicode v n \<and> 1 \<le> n \<and> n \<le> 4)"
| "payload_ok JSON_TOKEN_ESCAPED_UNICODE_CHARCODE p = (\<exists>v. p = Unicode v 4)"
| "payload_ok JSON_TOKEN_NUMBER p = (\<exists>n. p = Number n \<and> number_ok n)"
| "payload_ok _ p = True"

definition token_ok :: "json_token \<Rightarrow> bool" where
  "token_ok t \<longleftrightarrow> payload_ok (token_kind t) (payload t)"

lemma token_ok_shaped: "token_ok t \<Longrightarrow> token_shaped t"
  by (cases "token_kind t") (auto simp: token_ok_def token_shaped_def)

section \<open>The tokenizer in its place\<close>

definition tok_at :: "nat \<Rightarrow> json_tokenizer \<Rightarrow> json_state list \<Rightarrow> buffer list \<Rightarrow> buffer \<Rightarrow> byte list \<Rightarrow> bool" where
  "tok_at n t st ex cur bytes \<longleftrightarrow> jsm_repr n (tok_jsm t) st \<and> last_at (tok_reader t) ex cur bytes"

definition tok_skip :: "json_tokenizer \<Rightarrow> json_tokenizer" where
  "tok_skip t = t\<lparr>tok_reader := advance (tok_reader t)\<rparr>"

named_theorems tok_simps \<open>reading inside the last buffer\<close>

lemma tok_peek [tok_simps]: "tok_at n t st ex cur (v # bytes) \<Longrightarrow> jtok_peek t c = Some (v, t, c)"
  by (auto simp: tok_at_def jtok_peek_def last_at_peek)

lemma tok_read [tok_simps]: "tok_at n t st ex cur (v # bytes) \<Longrightarrow> jtok_read t c = Some (v, tok_skip t, c)"
  by (auto simp: tok_at_def jtok_read_def last_at_read(1) tok_skip_def)

lemma tok_skip: "tok_at n t st ex cur (v # bytes) \<Longrightarrow> tok_at n (tok_skip t) st ex cur bytes"
  by (auto simp: tok_at_def tok_skip_def last_at_read(2))

lemma tok_available [tok_simps]: "tok_at n t st ex cur bytes \<Longrightarrow> jtok_available t = Some (int (length bytes))"
  by (auto simp: tok_at_def jtok_available_def last_at_available)

definition tok_rest :: "nat \<Rightarrow> json_tokenizer \<Rightarrow> json_state list \<Rightarrow> buffer list \<Rightarrow> buffer \<Rightarrow> bool" where
  "tok_rest n t st ex cur \<longleftrightarrow> (\<exists>rest. tok_at n t st ex cur rest)"

section \<open>Outcomes\<close>

definition lexed :: "nat \<Rightarrow> json_state list \<Rightarrow> buffer list \<Rightarrow> buffer \<Rightarrow> byte list \<Rightarrow> ctx \<Rightarrow>
    (json_token \<times> json_tokenizer \<times> ctx) option \<Rightarrow> bool" where
  "lexed n st ex cur bytes c r \<longleftrightarrow> (\<exists>tok t. r = Some (tok, t, c) \<and>
     (if token_kind tok = JSON_TOKEN_INVALID
      then tok = INVALID_JSON_TOKEN \<and> (\<exists>st'\<in>{st, rejected st}. tok_at n t st' ex cur bytes)
      else token_ok tok \<and> (\<exists>st' rest. jsm_next n st (token_kind tok) = Some st' \<and>
             tok_at n t st' ex cur rest \<and> bytes = token_bytes tok @ rest)))"

lemma invalid_kind [simp]: "token_kind INVALID_JSON_TOKEN = JSON_TOKEN_INVALID"
  by (simp add: INVALID_JSON_TOKEN_def simple_token_def)

lemma lexed_invalid: "tok_at n t st ex cur bytes \<Longrightarrow> lexed n st ex cur bytes c (Some (INVALID_JSON_TOKEN, t, c))"
  by (auto simp: lexed_def)

lemma lexed_refused:
  "tok_at n t (rejected st) ex cur bytes \<Longrightarrow> lexed n st ex cur bytes c (Some (INVALID_JSON_TOKEN, t, c))"
  by (auto simp: lexed_def)

lemma lexed_accepted:
  "tok_at n t st' ex cur rest \<Longrightarrow> jsm_next n st (token_kind tok) = Some st' \<Longrightarrow> token_ok tok \<Longrightarrow>
   bytes = token_bytes tok @ rest \<Longrightarrow> lexed n st ex cur bytes c (Some (tok, t, c))"
  by (auto simp: lexed_def token_ok_def)

lemma reject_restores:
  assumes "tok_at n t st ex cur bytes" and "tok_at n t' st' ex cur rest"
  shows "\<exists>t''. jtok_reject t' c (reader_take_snapshot (tok_reader t)) = Some (INVALID_JSON_TOKEN, t'', c) \<and>
     tok_at n t'' st' ex cur bytes"
  using assms last_at_restore [of "tok_reader t" ex cur bytes "tok_reader t'" rest]
  by (simp add: tok_at_def jtok_reject_def)

lemma lexed_reject:
  assumes "tok_at n t st ex cur bytes" and "tok_at n t' st ex cur rest"
  shows "lexed n st ex cur bytes c (jtok_reject t' c (reader_take_snapshot (tok_reader t)))"
  using reject_restores [OF assms, of c] lexed_invalid by auto

lemma process_cases:
  assumes "tok_at n t st ex cur bytes" and "jsm_inv n st"
  obtains (accepted) m st' where "jsm_process_token (tok_jsm t) k = Some (True, m)" "jsm_next n st k = Some st'"
      "tok_at n (t\<lparr>tok_jsm := m\<rparr>) st' ex cur bytes"
    | (refused) m where "jsm_process_token (tok_jsm t) k = Some (False, m)"
      "tok_at n (t\<lparr>tok_jsm := m\<rparr>) (rejected st) ex cur bytes"
  using jsm_process_refines [of n "tok_jsm t" st k] assms
  by (cases "jsm_next n st k") (auto simp: outcome_def tok_at_def)

lemma lexed_multibyte:
  assumes "tok_at n t0 st ex cur bytes" and "tok_at n t st ex cur rest" and "jsm_inv n st"
    and "bytes = token_bytes tok @ rest" and "token_ok tok"
  shows "lexed n st ex cur bytes c (jtok_yield_multibyte_token t c tok (reader_take_snapshot (tok_reader t0)))"
proof -
  from assms(2,3) show ?thesis
  proof (cases rule: process_cases [where k = "token_kind tok"])
    case (accepted m st')
    with assms(4,5) show ?thesis by (simp add: jtok_yield_multibyte_token_def lexed_accepted)
  next
    case (refused m)
    from reject_restores [OF assms(1) refused(2), of c] refused(1) show ?thesis
      by (auto simp: jtok_yield_multibyte_token_def lexed_refused)
  qed
qed

lemma lexed_singlebyte:
  assumes "tok_at n t st ex cur (b # rest)" and "jsm_inv n st"
    and "token_bytes tok = [b]" and "token_ok tok"
  shows "lexed n st ex cur (b # rest) c (jtok_yield_singlebyte_token t c tok)"
proof -
  from assms(1,2) show ?thesis
  proof (cases rule: process_cases [where k = "token_kind tok"])
    case (accepted m st')
    with assms(3,4) tok_skip [OF accepted(3)] show ?thesis
      by (simp add: jtok_yield_singlebyte_token_def lexed_accepted tok_read [OF accepted(3)])
  next
    case (refused m)
    then show ?thesis by (simp add: jtok_yield_singlebyte_token_def lexed_refused)
  qed
qed

section \<open>Strings\<close>

text \<open>Both packing loops are this one, with their own test.\<close>

primrec collect ::
  "(byte \<Rightarrow> bool) \<Rightarrow> nat \<Rightarrow> nat \<Rightarrow> u64 \<Rightarrow> json_tokenizer \<Rightarrow> ctx \<Rightarrow> (u64 option \<times> json_tokenizer \<times> ctx) option" where
  "collect ok 0 i v t c = Some (Some v, t, c)"
| "collect ok (Suc n) i v t c = do {
     (b, t, c) \<leftarrow> jtok_read t c;
     if \<not> ok b then Some (None, t, c)
     else collect ok n (Suc i) (v OR push_bit (8 * i) (ucast b)) t c
   }"

lemma push_bit_3: "push_bit 3 (i :: nat) = 8 * i"
  by (simp add: push_bit_eq_mult)

lemma loops_collect:
  "jtok_hex_loop n i v t c = collect jtok_is_hex n i v t c"
  "jtok_unicode_loop n i v t c = collect utf8_is_valid_continuation_byte n i v t c"
proof (induction n arbitrary: i v t c)
  case (Suc n)
  { case 1 show ?case using Suc by (cases "jtok_read t c") (auto simp: push_bit_3) }
  { case 2 show ?case using Suc by (cases "jtok_read t c") (auto simp: push_bit_3) }
qed simp_all

lemma collect_correct:
  "tok_at n t st ex cur bytes \<Longrightarrow> k \<le> length bytes \<Longrightarrow> i + k \<le> 8 \<Longrightarrow> take_bit (8 * i) v = v \<Longrightarrow>
   \<exists>r t' rest. collect ok k i v t c = Some (r, t', c) \<and> tok_at n t' st ex cur rest \<and>
     (\<forall>w. r = Some w \<longrightarrow> packed_bytes v i @ bytes = packed_bytes w (i + k) @ rest)"
proof (induction k arbitrary: i v t bytes)
  case (Suc k)
  then obtain b bs where bytes: "bytes = b # bs" by (cases bytes) auto
  note at = Suc.prems(1) [unfolded bytes]
  show ?case
  proof (cases "ok b")
    case True
    note p = pack_byte [OF Suc.prems(4), of b]
    from Suc.IH [OF tok_skip [OF at], of "Suc i" "v OR push_bit (8 * i) (ucast b)"] Suc.prems(2,3) p bytes
    obtain r t' rest where
      r: "collect ok k (Suc i) (v OR push_bit (8 * i) (ucast b)) (tok_skip t) c = Some (r, t', c)"
      "tok_at n t' st ex cur rest"
      "\<forall>w. r = Some w \<longrightarrow> (packed_bytes v i @ [b]) @ bs = packed_bytes w (Suc i + k) @ rest" by auto
    then show ?thesis using True at bytes by (auto simp: tok_simps)
  next
    case False
    then show ?thesis using tok_skip [OF at] by (auto simp: tok_read [OF at])
  qed
qed auto

lemma parse_escape_lexed:
  assumes "tok_at n t st ex cur (chr (CHR 0x5C) # bs)" and "jsm_inv n st"
  shows "lexed n st ex cur (chr (CHR 0x5C) # bs) c (jtok_parse_escape t c)"
proof (cases bs)
  case Nil
  then show ?thesis using assms(1) by (simp add: jtok_parse_escape_def tok_simps lexed_invalid)
next
  case (Cons x ys)
  define t2 where "t2 = tok_skip (tok_skip t)"
  note at0 = assms(1) [unfolded Cons]
  note at1 = tok_skip [OF at0]
  have at2: "tok_at n t2 st ex cur ys" using tok_skip [OF at1] by (simp add: t2_def)
  note go = jtok_parse_escape_def tok_available [OF at0] tok_read [OF at0] tok_read [OF at1] t2_def [symmetric]
    tok_available [OF at2]
  have reject: "lexed n st ex cur (chr (CHR 0x5C) # bs) c (jtok_reject t' c (reader_take_snapshot (tok_reader t)))"
    if "tok_at n t' st ex cur rest" for t' rest using lexed_reject [OF at0 that] Cons by simp
  consider (escape) "x \<in> set JTOK_ESCAPE_SEQ_CHARS" | (code) "x \<notin> set JTOK_ESCAPE_SEQ_CHARS" "x = chr CHR ''u''"
    | (none) "x \<notin> set JTOK_ESCAPE_SEQ_CHARS" "x \<noteq> chr CHR ''u''" by blast
  then show ?thesis
  proof cases
    case escape
    then show ?thesis unfolding Cons
      by (simp add: go) (rule lexed_multibyte [OF at0 at2 assms(2)],
          simp_all add: token_bytes_def character_of_def token_ok_def)
  next
    case code
    show ?thesis
    proof (cases "length ys < 4")
      case True
      then show ?thesis using code reject [OF at2] at0 at2
        by (simp add: go JSON_HEX_CHARACTERS_IN_ESCAPED_UNICODE_CODEPOINT_def)
    next
      case False
      from collect_correct [OF at2, of 4 0 0 jtok_is_hex c] False obtain r t' rest where
        r: "collect jtok_is_hex 4 0 0 t2 c = Some (r, t', c)" "tok_at n t' st ex cur rest"
          "\<forall>w. r = Some w \<longrightarrow> ys = packed_bytes w 4 @ rest" by auto
      show ?thesis
      proof (cases r)
        case None
        then show ?thesis using code False reject [OF r(2)] r(1)
          by (simp add: go JSON_HEX_CHARACTERS_IN_ESCAPED_UNICODE_CODEPOINT_def loops_collect)
      next
        case (Some w)
        let ?tok = "\<lparr>token_kind = JSON_TOKEN_ESCAPED_UNICODE_CHARCODE, payload = Unicode w 4\<rparr>"
        have "lexed n st ex cur (chr (CHR 0x5C) # bs) c
            (jtok_yield_multibyte_token t' c ?tok (reader_take_snapshot (tok_reader t)))"
          by (rule lexed_multibyte [OF assms(1) r(2) assms(2)])
            (use r(3) Some code Cons in \<open>simp_all add: token_bytes_def charcode_of_def token_ok_def\<close>)
        then show ?thesis using code False Some r(1)
          by (simp add: go JSON_HEX_CHARACTERS_IN_ESCAPED_UNICODE_CODEPOINT_def loops_collect)
      qed
    qed
  next
    case none
    then show ?thesis using reject [OF at2] by (simp add: go)
  qed
qed

lemma sequence_length_bounds:
  "0 \<le> utf8_get_sequence_length_by_first_byte b" "utf8_get_sequence_length_by_first_byte b \<le> 4"
  by (simp_all add: utf8_get_sequence_length_by_first_byte_def)

lemma packed_one: "packed_bytes (ucast (b :: byte)) 1 = [b]"
  by (simp add: packed_bytes_def) (rule bit_word_eqI, auto simp: bit_simps)

lemma take_bit_byte: "take_bit 8 (ucast (b :: byte) :: u64) = ucast b"
  by (rule bit_word_eqI) (auto simp: bit_simps dest: bit_imp_le_length)

lemma parse_unicode_lexed:
  assumes "tok_at n t st ex cur (b # bs)" and "jsm_inv n st"
  shows "lexed n st ex cur (b # bs) c (jtok_parse_unicode t c b)"
proof (cases "utf8_get_sequence_length_by_first_byte b = 0 \<or>
    int (Suc (length bs)) < utf8_get_sequence_length_by_first_byte b \<or>
    utf8_get_sequence_length_by_first_byte b = 1 \<and> b \<le> 0x1F")
  case True
  then show ?thesis using assms(1) by (auto simp: jtok_parse_unicode_def tok_simps Let_def lexed_invalid)
next
  case False
  define k where "k = nat (utf8_get_sequence_length_by_first_byte b - 1)"
  have k: "utf8_get_sequence_length_by_first_byte b = int (Suc k)" "k \<le> length bs" "k < 4"
    using False sequence_length_bounds [of b] by (auto simp: k_def)
  note at = tok_skip [OF assms(1)]
  from collect_correct [OF at k(2), of 1 "ucast b" utf8_is_valid_continuation_byte c] k(3) obtain r t' rest where
    r: "collect utf8_is_valid_continuation_byte k 1 (ucast b) (tok_skip t) c = Some (r, t', c)"
      "tok_at n t' st ex cur rest" "\<forall>w. r = Some w \<longrightarrow> b # bs = packed_bytes w (Suc k) @ rest"
    by (auto simp: take_bit_byte packed_one [simplified])
  have kn: "nat (int (Suc k) - 1) = k" by simp
  have go: "jtok_parse_unicode t c b = (case r of
      None \<Rightarrow> jtok_reject t' c (reader_take_snapshot (tok_reader t))
    | Some v \<Rightarrow> jtok_yield_multibyte_token t' c \<lparr>token_kind = JSON_TOKEN_UNICODE_CHARACTER,
        payload = Unicode v (word_of_int (int (Suc k)))\<rparr> (reader_take_snapshot (tok_reader t)))"
    using False k(1) r(1) assms(1)
    by (auto simp: jtok_parse_unicode_def tok_simps Let_def loops_collect kn simp del: of_nat_Suc)
  show ?thesis
  proof (cases r)
    case None
    then show ?thesis using lexed_reject [OF assms(1) r(2)] by (simp add: go)
  next
    case (Some w)
    have u: "unat (word_of_int (int (Suc k)) :: byte) = Suc k"
      using k(3) by (simp add: unat_of_nat del: of_nat_Suc)
    have "1 \<le> (word_of_int (int (Suc k)) :: byte)" "(word_of_int (int (Suc k)) :: byte) \<le> 4"
      using k(3) u by (simp_all add: word_le_nat_alt del: of_nat_Suc)
    then show ?thesis unfolding go Some option.case
      by (intro lexed_multibyte [OF assms(1) r(2) assms(2)])
        (use r(3) Some u in \<open>simp_all add: token_bytes_def unicode_of_def token_ok_def\<close>)
  qed
qed

lemma parse_string_lexed:
  assumes "tok_at n t st ex cur (b # bs)" and "jsm_inv n st"
  shows "lexed n st ex cur (b # bs) c (jtok_parse_string_token t c)"
proof -
  have one: "lexed n st ex cur (b # bs) c (jtok_yield_singlebyte_token t c (simple_token JSON_TOKEN_STRING_DELIMITER))"
    if "b = chr (CHR 0x22)"
    using lexed_singlebyte [OF assms] that by (simp add: simple_token_def token_bytes_def token_ok_def)
  show ?thesis
    using one parse_unicode_lexed [OF assms, of c] parse_escape_lexed [OF _ assms(2), of t ex cur bs c] assms(1)
    by (auto simp: jtok_parse_string_token_def tok_simps)
qed

section \<open>Fixed words\<close>

lemma match_loop_correct:
  "tok_at n t st ex cur bytes \<Longrightarrow> i + k = length word \<Longrightarrow> k \<le> length bytes \<Longrightarrow>
   \<exists>ok t' rest. jtok_match_loop k (int i) word t c = Some (ok, t', c) \<and> tok_at n t' st ex cur rest \<and>
     (ok \<longrightarrow> bytes = drop i word @ rest)"
proof (induction k arbitrary: i t bytes)
  case (Suc k)
  then obtain b bs where bytes: "bytes = b # bs" by (cases bytes) auto
  note at = Suc.prems(1) [unfolded bytes]
  have i: "i < length word" using Suc.prems(2) by simp
  show ?case
  proof (cases "b = word ! i")
    case True
    from Suc.IH [OF tok_skip [OF at], of "Suc i"] Suc.prems(2,3) bytes obtain ok t' rest where
      "jtok_match_loop k (int (Suc i)) word (tok_skip t) c = Some (ok, t', c)" "tok_at n t' st ex cur rest"
      "ok \<longrightarrow> bs = drop (Suc i) word @ rest" by auto
    then show ?thesis using True i at bytes
      by (auto simp: tok_read [OF at] Cons_nth_drop_Suc [symmetric] add.commute)
  next
    case False
    then show ?thesis using i tok_skip [OF at] by (auto simp: tok_read [OF at])
  qed
qed auto

lemma fixed_token_lexed:
  assumes "tok_at n t st ex cur (b # bs)" and "jsm_inv n st" and "word = b # word'"
    and "token_bytes (simple_token k) = word" and "token_ok (simple_token k)"
  shows "lexed n st ex cur (b # bs) c (jtok_parse_fixed_token t c k word (int (length word)))"
proof (cases "length bs < length word'")
  case True
  then show ?thesis using assms(1,3) by (simp add: jtok_parse_fixed_token_def tok_simps lexed_invalid)
next
  case False
  from match_loop_correct [OF tok_skip [OF assms(1)], of 1 "length word'" word c] False assms(3) obtain ok t' rest where
    r: "jtok_match_loop (length word') 1 word (tok_skip t) c = Some (ok, t', c)" "tok_at n t' st ex cur rest"
      "ok \<longrightarrow> bs = word' @ rest" by auto
  have go: "jtok_parse_fixed_token t c k word (int (length word)) =
      (if \<not> ok then jtok_reject t' c (reader_take_snapshot (tok_reader t))
       else jtok_yield_multibyte_token t' c (simple_token k) (reader_take_snapshot (tok_reader t)))"
    using False assms(1,3) r(1) by (simp add: jtok_parse_fixed_token_def tok_simps)
  show ?thesis unfolding go
    using lexed_reject [OF assms(1) r(2)] lexed_multibyte [OF assms(1) r(2) assms(2) _ assms(5)] r(3) assms(3,4)
    by auto
qed

section \<open>Numbers\<close>

definition uint_text :: "u64 \<Rightarrow> byte \<Rightarrow> byte list" where
  "uint_text v z = zeroes_text z @ digits_unless_zero (unat v)"

lemma uint_text_zero [simp]: "uint_text 0 0 = []"
  by (simp add: uint_text_def zeroes_text_def digits_unless_zero_def)

lemma chr_digits: "chr CHR ''0'' = 48" "chr CHR ''9'' = 57"
  by (simp_all add: chr_def)

lemma digit_byte:
  assumes "\<not> (b < chr CHR ''0'' \<or> b > chr CHR ''9'')"
  shows "unat (b - chr CHR ''0'') < 10" and "chr CHR ''0'' + of_nat (unat (b - chr CHR ''0'')) = b"
    and "b - chr CHR ''0'' = 0 \<longleftrightarrow> b = chr CHR ''0''"
proof -
  have "48 \<le> b" "b \<le> 57" using assms by (auto simp: chr_digits not_less)
  then have "unat (b - 48) = unat b - 48" "unat b \<le> 57" by (simp_all add: unat_sub word_le_nat_alt)
  then show "unat (b - chr CHR ''0'') < 10" by (simp add: chr_digits)
qed simp_all

lemma uint_text_zeroes: "unat z < 80 \<Longrightarrow> uint_text 0 (z + 1) = uint_text 0 z @ [chr CHR ''0'']"
proof -
  assume "unat z < 80"
  then have "unat (z + 1) = Suc (unat z)" by (simp add: unat_word_ariths)
  then show ?thesis by (simp add: uint_text_def zeroes_text_def digits_unless_zero_def replicate_append_same)
qed

lemma uint_text_digit:
  assumes "unat d < 10" and "v \<noteq> 0 \<or> d \<noteq> 0" and "\<not> jtok_uint64_will_overflow v d"
  shows "uint_text (v * 10 + ucast d) z = uint_text v z @ [chr CHR ''0'' + of_nat (unat d)]"
proof -
  have d: "unat (ucast d :: u64) = unat d"
    by (simp add: unsigned_ucast_eq take_bit_nat_eq_self_iff less_le_trans [OF unsigned_less])
  have T: "unat TENTH_OF_MAX_UINT64 = 1844674407370955161" by (simp add: TENTH_OF_MAX_UINT64_def unat_div)
  have le: "ucast d \<le> TENTH_OF_MAX_UINT64" using assms(1) by (simp add: word_le_nat_alt d T)
  have "unat v < 1844674407370955161 - unat d"
    using assms(3) le by (simp add: jtok_uint64_will_overflow_def not_le word_less_nat_alt unat_sub d T)
  then have "unat v * 10 + unat d < 18446744073709551616" using assms(1) by linarith
  then have small: "unat v * 10 + unat d < 2 ^ 64" "unat v * 10 < 2 ^ 64" by simp_all
  from small(2) have "unat (v * 10) = unat v * 10" using unat_mult_lem [of v 10] by simp
  then have "unat (v * 10 + ucast d) = 10 * unat v + unat d"
    using small(1) unat_add_lem [of "v * 10" "ucast d"] by (simp add: d)
  moreover have "unat v \<noteq> 0 \<or> unat d \<noteq> 0" using assms(2) by (simp add: unat_eq_0)
  then have "0 < 10 * unat v + unat d" by linarith
  ultimately show ?thesis using digits_unless_zero_step [OF assms(1), of "unat v"] by (simp add: uint_text_def)
qed

lemma read_uint_loop_correct:
  "tok_at n t st ex cur bytes \<Longrightarrow> unat z < 80 \<Longrightarrow>
   \<exists>res t' rest. jtok_read_uint_loop z v t c = Some (res, t', c) \<and> tok_at n t' st ex cur rest \<and>
     (jtok_uint_is_invalid res \<or> unat (uint_zeroes res) < 80 \<and>
        uint_text v z @ bytes = uint_text (uint_value res) (uint_zeroes res) @ rest)"
proof (induction bytes arbitrary: z v t)
  case Nil
  then show ?case by (subst jtok_read_uint_loop.simps) (auto simp: tok_simps)
next
  case (Cons b bs)
  note at = Cons.prems(1)
  note go = jtok_read_uint_loop.simps [of z v t c]
  note IH = Cons.IH [OF tok_skip [OF at]]
  have failed: "jtok_uint_is_invalid uint_failed" by (simp add: jtok_uint_is_invalid_def uint_failed_def)
  consider (stop) "b < chr CHR ''0'' \<or> b > chr CHR ''9''"
    | (zero) "\<not> (b < chr CHR ''0'' \<or> b > chr CHR ''9'')" "b = chr CHR ''0''" "v = 0"
    | (digit) "\<not> (b < chr CHR ''0'' \<or> b > chr CHR ''9'')" "\<not> (b = chr CHR ''0'' \<and> v = 0)" by blast
  then show ?case
  proof cases
    case stop
    then show ?thesis using at Cons.prems(2) by (subst go) (auto simp: tok_simps)
  next
    case zero
    show ?thesis
    proof (cases "unat (z + 1) < 80")
      case True
      from IH [of "z + 1" 0] True obtain res t' rest where
        "jtok_read_uint_loop (z + 1) 0 (tok_skip t) c = Some (res, t', c)" "tok_at n t' st ex cur rest"
        "jtok_uint_is_invalid res \<or> unat (uint_zeroes res) < 80 \<and>
           uint_text 0 (z + 1) @ bs = uint_text (uint_value res) (uint_zeroes res) @ rest" by blast
      then show ?thesis using zero True at uint_text_zeroes [OF Cons.prems(2)]
        by (subst go) (auto simp: tok_simps JSON_MAX_NUMBER_LEADING_ZEROES_def Let_def)
    next
      case False
      then show ?thesis using zero at failed
        by (subst go) (auto simp: tok_simps JSON_MAX_NUMBER_LEADING_ZEROES_def Let_def)
    qed
  next
    case digit
    define d where "d = b - chr CHR ''0''"
    note db = digit_byte [OF digit(1), folded d_def]
    show ?thesis
    proof (cases "jtok_uint64_will_overflow v d")
      case True
      then show ?thesis using digit at failed by (subst go) (auto simp: tok_simps d_def Let_def)
    next
      case False
      have "v \<noteq> 0 \<or> d \<noteq> 0" using digit(2) db(3) by auto
      from uint_text_digit [OF db(1) this False, of z] db(2)
      have u: "uint_text (v * 10 + ucast d) z = uint_text v z @ [b]" by simp
      from IH [OF Cons.prems(2), of "v * 10 + ucast d"] obtain res t' rest where
        "jtok_read_uint_loop z (v * 10 + ucast d) (tok_skip t) c = Some (res, t', c)" "tok_at n t' st ex cur rest"
        "jtok_uint_is_invalid res \<or> unat (uint_zeroes res) < 80 \<and>
           uint_text (v * 10 + ucast d) z @ bs = uint_text (uint_value res) (uint_zeroes res) @ rest" by blast
      then show ?thesis using digit False at u
        by (subst go) (auto simp: tok_simps d_def Let_def)
    qed
  qed
qed

lemma read_uint_correct:
  assumes "tok_at n t st ex cur bytes"
  shows "\<exists>res t' rest. jtok_read_uint t c = Some (res, t', c) \<and> tok_at n t' st ex cur rest \<and>
     (\<not> jtok_uint_is_invalid res \<longrightarrow> unat (uint_zeroes res) < 80 \<and>
        bytes = uint_text (uint_value res) (uint_zeroes res) @ rest)"
  using read_uint_loop_correct [OF assms, of 0 0 c] by (auto simp: jtok_read_uint_def)

text \<open>A part of a number: it stops at a byte it leaves unread, or has read \<open>str\<close> for its result.\<close>

definition part :: "nat \<Rightarrow> json_state list \<Rightarrow> buffer list \<Rightarrow> buffer \<Rightarrow> byte list \<Rightarrow> ctx \<Rightarrow> jtok_part \<Rightarrow>
    (json_number_token \<Rightarrow> byte list \<Rightarrow> bool) \<Rightarrow> bool" where
  "part n st ex cur bytes c r P \<longleftrightarrow> (\<exists>x t rest. r = Some (x, t, c) \<and> tok_at n t st ex cur rest \<and>
     (\<forall>y. x = Some y \<longrightarrow> (\<exists>str. bytes = str @ rest \<and> P y str)))"

lemma part_fail: "tok_at n t st ex cur rest \<Longrightarrow> part n st ex cur bytes c (Some (None, t, c)) P"
  by (auto simp: part_def)

lemma part_ok:
  "tok_at n t st ex cur rest \<Longrightarrow> bytes = str @ rest \<Longrightarrow> P y str \<Longrightarrow> part n st ex cur bytes c (Some (Some y, t, c)) P"
  by (auto simp: part_def)

lemma part_then:
  assumes "part n st ex cur bytes c r P"
    and "\<And>y str t rest. bytes = str @ rest \<Longrightarrow> tok_at n t st ex cur rest \<Longrightarrow> P y str \<Longrightarrow>
      part n st ex cur rest c (f y t c) (\<lambda>z str'. Q z (str @ str'))"
  shows "part n st ex cur bytes c (jtok_then r f) Q"
proof -
  from assms(1) obtain x t rest where r: "r = Some (x, t, c)" "tok_at n t st ex cur rest"
    "\<forall>y. x = Some y \<longrightarrow> (\<exists>str. bytes = str @ rest \<and> P y str)" by (auto simp: part_def)
  show ?thesis
  proof (cases x)
    case None
    then show ?thesis using r part_fail by (simp add: jtok_then_def)
  next
    case (Some y)
    with r(3) obtain str where b: "bytes = str @ rest" "P y str" by blast
    from assms(2) [OF b(1) r(2) b(2)] obtain z t' rest' where
      f: "f y t c = Some (z, t', c)" "tok_at n t' st ex cur rest'"
      "\<forall>y. z = Some y \<longrightarrow> (\<exists>str'. rest = str' @ rest' \<and> Q y (str @ str'))" unfolding part_def by blast
    have "bytes = (str @ str') @ rest'" if "rest = str' @ rest'" for str' using that b(1) by simp
    with f(3) have q: "\<forall>y. z = Some y \<longrightarrow> (\<exists>str. bytes = str @ rest' \<and> Q y str)" by blast
    have "jtok_then r f = Some (z, t', c)" using f(1) r(1) Some by (simp add: jtok_then_def)
    then show ?thesis unfolding part_def by (intro exI conjI) (assumption | rule f(2) q)+
  qed
qed

lemma flag_bits:
  "flag_set f JSON_NUMBER_INTEGER_PART_IS_ZERO \<longleftrightarrow> bit f 0" "flag_set f JSON_NUMBER_IS_NEGATIVE \<longleftrightarrow> bit f 1"
  "flag_set f JSON_NUMBER_HAS_FRACTION \<longleftrightarrow> bit f 2" "flag_set f JSON_NUMBER_HAS_EXPONENT \<longleftrightarrow> bit f 3"
  "flag_set f JSON_NUMBER_EXPONENT_UPPERCASE \<longleftrightarrow> bit f 4"
  "flag_set f JSON_NUMBER_EXPONENT_IS_NEGATIVE \<longleftrightarrow> bit f 5"
  "flag_set f JSON_NUMBER_EXPONENT_HAS_PLUS \<longleftrightarrow> bit f 6"
  by (simp_all only: json_number_flag_defs bit_flag) simp_all

lemma bit_raised: "k < 8 \<Longrightarrow> bit (f OR push_bit k 1 :: byte) j \<longleftrightarrow> bit f j \<or> j = k"
  by (auto simp: bit_simps)

lemma raised_bits:
  "bit (f OR JSON_NUMBER_INTEGER_PART_IS_ZERO) j \<longleftrightarrow> bit f j \<or> j = 0"
  "bit (f OR JSON_NUMBER_IS_NEGATIVE) j \<longleftrightarrow> bit f j \<or> j = 1"
  "bit (f OR JSON_NUMBER_HAS_FRACTION) j \<longleftrightarrow> bit f j \<or> j = 2"
  "bit (f OR JSON_NUMBER_HAS_EXPONENT) j \<longleftrightarrow> bit f j \<or> j = 3"
  "bit (f OR JSON_NUMBER_EXPONENT_UPPERCASE) j \<longleftrightarrow> bit f j \<or> j = 4"
  "bit (f OR JSON_NUMBER_EXPONENT_IS_NEGATIVE) j \<longleftrightarrow> bit f j \<or> j = 5"
  "bit (f OR JSON_NUMBER_EXPONENT_HAS_PLUS) j \<longleftrightarrow> bit f j \<or> j = 6"
  unfolding json_number_flag_defs by (rule bit_raised, simp)+

lemmas own_bits [simp] = raised_bits [of 0, simplified]

lemma raise_flag_fields [simp]:
  "number_flags (raise_flag f y) = number_flags y OR f" "integer_part (raise_flag f y) = integer_part y"
  "fraction_part (raise_flag f y) = fraction_part y" "exponent_part (raise_flag f y) = exponent_part y"
  "fraction_leading_zeroes (raise_flag f y) = fraction_leading_zeroes y"
  "exponent_leading_zeroes (raise_flag f y) = exponent_leading_zeroes y"
  by (simp_all add: raise_flag_def)

text \<open>\<open>stage k y\<close>: the flags from bit \<open>k\<close> on are still to be decided.\<close>

definition stage :: "nat \<Rightarrow> json_number_token \<Rightarrow> bool" where
  "stage k y \<longleftrightarrow> number_ok y \<and> (\<forall>j\<ge>k. \<not> bit (number_flags y) j)"

definition sign_bytes :: "json_number_token \<Rightarrow> byte list" where
  "sign_bytes y = (if bit (number_flags y) 1 then chrs ''-'' else [])"

definition signed_zero :: "json_number_token \<Rightarrow> byte list \<Rightarrow> bool" where
  "signed_zero y str \<longleftrightarrow> (y = zero_number \<or> y = raise_flag JSON_NUMBER_IS_NEGATIVE zero_number) \<and> str = sign_bytes y"

lemma number_sign_part:
  assumes "tok_at n t st ex cur (b # bs)"
  shows "part n st ex cur (b # bs) c (jtok_number_sign t c) signed_zero"
proof (cases "b = chr CHR ''-''")
  case True
  note skip = tok_skip [OF assms]
  show ?thesis
  proof (cases bs)
    case Nil
    then show ?thesis using True assms by (auto simp: jtok_number_sign_def tok_simps intro: part_fail)
  next
    case (Cons v vs)
    have "part n st ex cur (b # bs) c (Some (Some (raise_flag JSON_NUMBER_IS_NEGATIVE zero_number), tok_skip t, c)) signed_zero"
      by (rule part_ok [OF skip, of _ "[b]"])
        (simp_all add: signed_zero_def sign_bytes_def raised_bits True chrs_def)
    then show ?thesis using True assms Cons by (simp add: jtok_number_sign_def tok_simps)
  qed
next
  case False
  then have "part n st ex cur (b # bs) c (Some (Some zero_number, t, c)) signed_zero"
    by (intro part_ok [OF assms, of _ "[]"]) (simp_all add: signed_zero_def sign_bytes_def zero_number_def)
  then show ?thesis using False assms by (simp add: jtok_number_sign_def tok_simps)
qed

lemma number_integer_part:
  assumes "tok_at n t st ex cur bytes" and "signed_zero y pre"
  shows "part n st ex cur bytes c (jtok_number_integer y t c) (\<lambda>z str. stage 2 z \<and> number_bytes z = pre @ str)"
proof -
  from read_uint_correct [OF assms(1), of c] obtain res t' rest where r: "jtok_read_uint t c = Some (res, t', c)" "tok_at n t' st ex cur rest"
    "\<not> jtok_uint_is_invalid res \<longrightarrow> unat (uint_zeroes res) < 80 \<and>
       bytes = uint_text (uint_value res) (uint_zeroes res) @ rest" by blast
  let ?bad = "jtok_uint_is_invalid res \<or> uint_zeroes res > 1 \<or> uint_zeroes res > 0 \<and> uint_value res > 0"
  show ?thesis
  proof (cases ?bad)
    case True
    then show ?thesis using r(1,2) by (simp add: jtok_number_integer_def part_fail)
  next
    case False
    have z: "uint_zeroes res = 0 \<and> uint_value res \<noteq> 0 \<or> uint_zeroes res = 1 \<and> uint_value res = 0"
    proof -
      have "uint_zeroes res \<le> 1" using False by (simp add: not_less)
      then have "unat (uint_zeroes res) \<le> 1" by (simp add: word_le_nat_alt)
      then have "unat (uint_zeroes res) = 0 \<or> unat (uint_zeroes res) = 1" by linarith
      then have "uint_zeroes res = 0 \<or> uint_zeroes res = 1" by (auto simp: word_unat_eq_iff)
      then show ?thesis using False by (auto simp: jtok_uint_is_invalid_def word_gt_0)
    qed
    define z' where "z' = (if uint_zeroes res > 0 then raise_flag JSON_NUMBER_INTEGER_PART_IS_ZERO y
      else y\<lparr>integer_part := uint_value res\<rparr>)"
    have y: "number_bytes z' = pre @ digits (unat (uint_value res))" "stage 2 z'"
      using z assms(2)
      by (auto simp: z'_def signed_zero_def number_bytes_def fraction_bytes_def exponent_bytes_def flag_bits
          raised_bits sign_bytes_def zero_number_def stage_def number_ok_def)
    have "uint_text (uint_value res) (uint_zeroes res) = digits (unat (uint_value res))"
      using z by (auto simp: uint_text_def zeroes_text_def digits_unless_zero_def unat_eq_0 digits.simps [of 0])
    with r(3) False have "bytes = digits (unat (uint_value res)) @ rest" by simp
    from part_ok [OF r(2) this, of "\<lambda>z str. stage 2 z \<and> number_bytes z = pre @ str" z'] y
    show ?thesis using r(1) False by (auto simp: jtok_number_integer_def z'_def)
  qed
qed

lemma number_fraction_part:
  assumes "tok_at n t st ex cur bytes" and "stage 2 y"
  shows "part n st ex cur bytes c (jtok_number_fraction y t c)
     (\<lambda>z str. stage 3 z \<and> number_bytes z = number_bytes y @ str)"
proof -
  let ?P = "\<lambda>z str. stage 3 z \<and> number_bytes z = number_bytes y @ str"
  have keep: "part n st ex cur bytes c (Some (Some y, t, c)) ?P"
    by (rule part_ok [OF assms(1), of _ "[]"]) (use assms(2) in \<open>auto simp: stage_def\<close>)
  have off: "\<not> bit (number_flags y) 2" "\<not> bit (number_flags y) 3" using assms(2) by (simp_all add: stage_def)
  show ?thesis
  proof (cases bytes)
    case Nil
    then show ?thesis using assms(1) keep by (simp add: jtok_number_fraction_def tok_simps)
  next
    case (Cons b bs)
    note at = assms(1) [unfolded Cons]
    show ?thesis
    proof (cases "b = chr CHR ''.'' \<and> bs \<noteq> []")
      case False
      then show ?thesis using at keep Cons
        by (auto simp: jtok_number_fraction_def tok_simps intro: part_fail)
    next
      case True
      from read_uint_correct [OF tok_skip [OF at], of c] obtain res t' rest where
        r: "jtok_read_uint (tok_skip t) c = Some (res, t', c)" "tok_at n t' st ex cur rest"
        "\<not> jtok_uint_is_invalid res \<longrightarrow> unat (uint_zeroes res) < 80 \<and>
           bs = uint_text (uint_value res) (uint_zeroes res) @ rest" by blast
      define z where "z = (raise_flag JSON_NUMBER_HAS_FRACTION y)\<lparr>fraction_part := uint_value res,
        fraction_leading_zeroes := uint_zeroes res\<rparr>"
      have go: "jtok_number_fraction y t c =
          (if jtok_uint_is_invalid res then Some (None, t', c) else Some (Some z, t', c))"
        using True at Cons r(1) by (cases bs) (auto simp: jtok_number_fraction_def tok_simps z_def)
      show ?thesis
      proof (cases "jtok_uint_is_invalid res")
        case True
        then show ?thesis using r(2) go by (simp add: part_fail)
      next
        case valid: False
        have "number_bytes z = number_bytes y @ b # uint_text (uint_value res) (uint_zeroes res)"
          using off True
          by (simp add: z_def number_bytes_def fraction_bytes_def exponent_bytes_def flag_bits raised_bits uint_text_def)
        moreover have "stage 3 z"
          using assms(2) mp [OF r(3) valid] by (auto simp: stage_def number_ok_def z_def raised_bits)
        ultimately show ?thesis using go valid mp [OF r(3) valid] Cons part_ok [OF r(2)] by (auto simp: part_def r(2))
      qed
    qed
  qed
qed

text \<open>An exponent whose digits are still missing.\<close>

definition open_exponent :: "json_number_token \<Rightarrow> bool" where
  "open_exponent y \<longleftrightarrow> number_ok y \<and> bit (number_flags y) 3 \<and> exponent_part y = 0 \<and> exponent_leading_zeroes y = 0"

lemma number_exponent_value_part:
  assumes "tok_at n t st ex cur bytes" and "open_exponent y"
  shows "part n st ex cur bytes c (jtok_number_exponent_value y t c)
     (\<lambda>z str. number_ok z \<and> number_bytes z = number_bytes y @ str)"
proof -
  let ?P = "\<lambda>z str. number_ok z \<and> number_bytes z = number_bytes y @ str"
  from read_uint_correct [OF assms(1), of c] obtain res t' rest where
    r: "jtok_read_uint t c = Some (res, t', c)" "tok_at n t' st ex cur rest"
    "\<not> jtok_uint_is_invalid res \<longrightarrow> unat (uint_zeroes res) < 80 \<and>
       bytes = uint_text (uint_value res) (uint_zeroes res) @ rest" by blast
  show ?thesis
  proof (cases "jtok_uint_is_invalid res \<or> uint_value res > 65535")
    case True
    then show ?thesis using r(1,2) by (simp add: jtok_number_exponent_value_def part_fail)
  next
    case False
    define z where "z = y\<lparr>exponent_part := ucast (uint_value res), exponent_leading_zeroes := uint_zeroes res\<rparr>"
    have "unat (uint_value res) < 65536" using False by (simp add: not_less word_le_nat_alt)
    then have "unat (ucast (uint_value res) :: u16) = unat (uint_value res)"
      by (simp add: unsigned_ucast_eq take_bit_nat_eq_self_iff)
    then have "number_bytes z = number_bytes y @ uint_text (uint_value res) (uint_zeroes res)" "number_ok z"
      using assms(2) r(3) False
      by (auto simp: z_def open_exponent_def number_bytes_def fraction_bytes_def exponent_bytes_def flag_bits
          uint_text_def zeroes_text_def digits_unless_zero_def number_ok_def)
    then have "part n st ex cur bytes c (Some (Some z, t', c)) ?P"
      using r(3) False by (intro part_ok [OF r(2), of _ "uint_text (uint_value res) (uint_zeroes res)"]) simp_all
    then show ?thesis using r(1) False by (simp add: jtok_number_exponent_value_def z_def)
  qed
qed

lemma number_exponent_sign_part:
  assumes "tok_at n t st ex cur (b # bs)" and "open_exponent y"
    and "\<not> bit (number_flags y) 5" and "\<not> bit (number_flags y) 6"
  shows "part n st ex cur (b # bs) c (jtok_number_exponent_sign y t c)
     (\<lambda>z str. open_exponent z \<and> number_bytes z = number_bytes y @ str)"
proof -
  let ?P = "\<lambda>z str. open_exponent z \<and> number_bytes z = number_bytes y @ str"
  have keep: "part n st ex cur (b # bs) c (Some (Some y, t, c)) ?P"
    by (rule part_ok [OF assms(1), of _ "[]"]) (use assms(2) in simp_all)
  show ?thesis
  proof (cases "(b = chr CHR ''-'' \<or> b = chr CHR ''+'') \<and> bs \<noteq> []")
    case False
    then show ?thesis using keep assms(1)
      by (auto simp: jtok_number_exponent_sign_def tok_simps intro: part_fail)
  next
    case True
    define z where "z = raise_flag (if b = chr CHR ''-'' then JSON_NUMBER_EXPONENT_IS_NEGATIVE
      else JSON_NUMBER_EXPONENT_HAS_PLUS) y"
    have "number_bytes z = number_bytes y @ [b]" "open_exponent z"
      using assms(2,3,4) True
      by (auto simp: z_def open_exponent_def number_bytes_def fraction_bytes_def exponent_bytes_def flag_bits
          exponent_sign_def raised_bits chrs_def zeroes_text_def digits_unless_zero_def number_ok_def)
    then have "part n st ex cur (b # bs) c (Some (Some z, tok_skip t, c)) ?P"
      by (intro part_ok [OF tok_skip [OF assms(1)], of _ "[b]"]) simp_all
    then show ?thesis using True assms(1)
      by (cases bs) (auto simp: jtok_number_exponent_sign_def tok_simps z_def)
  qed
qed

lemma number_exponent_part:
  assumes "tok_at n t st ex cur bytes" and "stage 3 y"
  shows "part n st ex cur bytes c (jtok_number_exponent y t c)
     (\<lambda>z str. number_ok z \<and> number_bytes z = number_bytes y @ str)"
proof -
  let ?P = "\<lambda>z str. number_ok z \<and> number_bytes z = number_bytes y @ str"
  have keep: "part n st ex cur bytes c (Some (Some y, t, c)) ?P"
    by (rule part_ok [OF assms(1), of _ "[]"]) (use assms(2) in \<open>simp_all add: stage_def\<close>)
  show ?thesis
  proof (cases bytes)
    case Nil
    then show ?thesis using assms(1) keep by (simp add: jtok_number_exponent_def tok_simps)
  next
    case (Cons b bs)
    note at = assms(1) [unfolded Cons]
    show ?thesis
    proof (cases "(b = chr CHR ''e'' \<or> b = chr CHR ''E'') \<and> bs \<noteq> []")
      case False
      then show ?thesis using at keep Cons
        by (auto simp: jtok_number_exponent_def tok_simps intro: part_fail)
    next
      case True
      then obtain v vs where bs: "bs = v # vs" by (cases bs) auto
      note at1 = tok_skip [OF at [unfolded bs]]
      define y0 where "y0 = raise_flag JSON_NUMBER_HAS_EXPONENT y"
      define y1 where "y1 = (if b = chr CHR ''E'' then raise_flag JSON_NUMBER_EXPONENT_UPPERCASE y0 else y0)"
      have y1: "open_exponent y1" "\<not> bit (number_flags y1) 5" "\<not> bit (number_flags y1) 6"
        "number_bytes y1 = number_bytes y @ [b]"
        using assms(2) True
        by (auto simp: y1_def y0_def stage_def open_exponent_def number_ok_def number_bytes_def fraction_bytes_def
            exponent_bytes_def flag_bits raised_bits exponent_sign_def zeroes_text_def digits_unless_zero_def chr_def)
      have "part n st ex cur (v # vs) c
          (jtok_then (jtok_number_exponent_sign y1 (tok_skip t) c) jtok_number_exponent_value)
          (\<lambda>z str. ?P z (b # str))"
      proof (rule part_then [OF number_exponent_sign_part [OF at1 y1(1-3)]])
        fix z str t rest
        assume z: "tok_at n t st ex cur rest" "open_exponent z \<and> number_bytes z = number_bytes y1 @ str"
        with number_exponent_value_part [OF z(1), of z c] y1(4)
        show "part n st ex cur rest c (jtok_number_exponent_value z t c) (\<lambda>z str'. ?P z (b # str @ str'))"
          by simp
      qed
      then have "part n st ex cur bytes c
          (jtok_then (jtok_number_exponent_sign y1 (tok_skip t) c) jtok_number_exponent_value) ?P"
        unfolding part_def Cons bs by fastforce
      then show ?thesis using True at bs Cons
        by (auto simp: jtok_number_exponent_def tok_simps y1_def y0_def Let_def)
    qed
  qed
qed

lemma parse_number_lexed:
  assumes "tok_at n t st ex cur (b # bs)" and "jsm_inv n st"
  shows "lexed n st ex cur (b # bs) c (jtok_parse_number t c)"
proof -
  have "part n st ex cur (b # bs) c (jtok_then (jtok_then (jtok_then (jtok_number_sign t c)
        jtok_number_integer) jtok_number_fraction) jtok_number_exponent)
      (\<lambda>z str. number_ok z \<and> number_bytes z = str)"
  proof (rule part_then [OF part_then [OF part_then [OF number_sign_part [OF assms(1)]]]])
    show "part n st ex cur rest c (jtok_number_integer y t c) (\<lambda>z str'. stage 2 z \<and> number_bytes z = str @ str')"
      if "tok_at n t st ex cur rest" "signed_zero y str" for y str t rest
      using that by (rule number_integer_part)
    show "part n st ex cur rest c (jtok_number_fraction y t c) (\<lambda>z str'. stage 3 z \<and> number_bytes z = str @ str')"
      if "tok_at n t st ex cur rest" "stage 2 y \<and> number_bytes y = str" for y str t rest
      using number_fraction_part [of n t st ex cur rest y c] that by simp
    show "part n st ex cur rest c (jtok_number_exponent y t c) (\<lambda>z str'. number_ok z \<and> number_bytes z = str @ str')"
      if "tok_at n t st ex cur rest" "stage 3 y \<and> number_bytes y = str" for y str t rest
      using number_exponent_part [of n t st ex cur rest y c] that by simp
  qed
  then obtain x t' rest where p: "jtok_then (jtok_then (jtok_then (jtok_number_sign t c)
        jtok_number_integer) jtok_number_fraction) jtok_number_exponent = Some (x, t', c)"
      "tok_at n t' st ex cur rest"
      "\<forall>y. x = Some y \<longrightarrow> (\<exists>str. b # bs = str @ rest \<and> number_ok y \<and> number_bytes y = str)"
    unfolding part_def by blast
  show ?thesis
  proof (cases x)
    case None
    then show ?thesis using p(1) lexed_reject [OF assms(1) p(2)] by (simp add: jtok_parse_number_def)
  next
    case (Some y)
    then have "lexed n st ex cur (b # bs) c (jtok_yield_multibyte_token t' c
        \<lparr>token_kind = JSON_TOKEN_NUMBER, payload = Number y\<rparr> (reader_take_snapshot (tok_reader t)))"
      using p(3) by (intro lexed_multibyte [OF assms(1) p(2) assms(2)])
        (auto simp: token_bytes_def number_of_def token_ok_def)
    then show ?thesis using p(1) Some by (simp add: jtok_parse_number_def)
  qed
qed

section \<open>Any token\<close>

lemma parse_nonstring_lexed:
  assumes "tok_at n t st ex cur (b # bs)" and "jsm_inv n st"
  shows "lexed n st ex cur (b # bs) c (jtok_parse_nonstring_token t c)"
proof -
  define k where "k = jtok_detect_nonstring_token_start b"
  have go: "jtok_parse_nonstring_token t c = (case k of
        JSON_TOKEN_INVALID \<Rightarrow> Some (INVALID_JSON_TOKEN, t, c)
      | JSON_TOKEN_TRUE \<Rightarrow> jtok_parse_fixed_token t c k JTOK_TRUE_BYTES (int (length JTOK_TRUE_BYTES))
      | JSON_TOKEN_FALSE \<Rightarrow> jtok_parse_fixed_token t c k JTOK_FALSE_BYTES (int (length JTOK_FALSE_BYTES))
      | JSON_TOKEN_NULL \<Rightarrow> jtok_parse_fixed_token t c k JTOK_NULL_BYTES (int (length JTOK_NULL_BYTES))
      | JSON_TOKEN_BOM \<Rightarrow> jtok_parse_fixed_token t c k UTF8_BOM (int (length UTF8_BOM))
      | JSON_TOKEN_NUMBER \<Rightarrow> jtok_parse_number t c
      | JSON_TOKEN_WHITESPACE \<Rightarrow>
          jtok_yield_singlebyte_token t c \<lparr>token_kind = JSON_TOKEN_WHITESPACE, payload = Character b\<rparr>
      | _ \<Rightarrow> jtok_yield_singlebyte_token t c \<lparr>token_kind = k, payload = Character b\<rparr>)"
    unfolding jtok_parse_nonstring_token_def k_def by (simp add: tok_peek [OF assms(1)] Let_def)
  note word = fixed_token_lexed [OF assms, of _ _ k c]
  note one = lexed_singlebyte [OF assms, of "\<lparr>token_kind = k, payload = Character b\<rparr>" c]
  have defs: "jtok_detect_nonstring_token_start b = k" by (simp add: k_def)
  note detect = defs [unfolded jtok_detect_nonstring_token_start_def]
  show ?thesis
  proof (cases k)
    case JSON_TOKEN_TRUE
    then show ?thesis using word [of JTOK_TRUE_BYTES "tl JTOK_TRUE_BYTES"] detect
      by (auto simp: go simple_token_def token_bytes_def token_ok_def JTOK_TRUE_BYTES_def chrs_def split: if_splits)
  next
    case JSON_TOKEN_FALSE
    then show ?thesis using word [of JTOK_FALSE_BYTES "tl JTOK_FALSE_BYTES"] detect
      by (auto simp: go simple_token_def token_bytes_def token_ok_def JTOK_FALSE_BYTES_def chrs_def split: if_splits)
  next
    case JSON_TOKEN_NULL
    then show ?thesis using word [of JTOK_NULL_BYTES "tl JTOK_NULL_BYTES"] detect
      by (auto simp: go simple_token_def token_bytes_def token_ok_def JTOK_NULL_BYTES_def chrs_def split: if_splits)
  next
    case JSON_TOKEN_BOM
    then show ?thesis using word [of UTF8_BOM "tl UTF8_BOM"] detect
      by (auto simp: go simple_token_def token_bytes_def token_ok_def UTF8_BOM_def split: if_splits)
  next
    case JSON_TOKEN_NUMBER
    then show ?thesis using parse_number_lexed [OF assms, of c] by (simp add: go)
  next
    case JSON_TOKEN_INVALID
    then show ?thesis using lexed_invalid [OF assms(1), of c] by (simp add: go)
  next
    case JSON_TOKEN_WHITESPACE
    have "b \<in> set JTOK_WHITESPACE_CHARS"
      using detect JSON_TOKEN_WHITESPACE by (auto simp: JTOK_WHITESPACE_CHARS_def split: if_splits)
    then show ?thesis using one JSON_TOKEN_WHITESPACE
      by (simp add: go token_bytes_def character_of_def token_ok_def)
  qed (use one detect in \<open>auto simp: go token_bytes_def token_ok_def chrs_def split: if_splits\<close>)
qed

definition lexed_somewhere :: "nat \<Rightarrow> json_state list \<Rightarrow> byte list \<Rightarrow> ctx \<Rightarrow>
    (json_token \<times> json_tokenizer \<times> ctx) option \<Rightarrow> bool" where
  "lexed_somewhere n st bytes c r \<longleftrightarrow> (\<exists>tok t. r = Some (tok, t, c) \<and>
     (if token_kind tok = JSON_TOKEN_INVALID
      then tok = INVALID_JSON_TOKEN \<and> at_last (tok_reader t) bytes \<and>
        (\<exists>st'\<in>{st, rejected st}. jsm_repr n (tok_jsm t) st')
      else token_ok tok \<and> (\<exists>st' rest. jsm_next n st (token_kind tok) = Some st' \<and>
             jsm_repr n (tok_jsm t) st' \<and> at_last (tok_reader t) rest \<and> bytes = token_bytes tok @ rest)))"

lemma lexed_somewhere: "lexed n st ex cur bytes c r \<Longrightarrow> lexed_somewhere n st bytes c r"
  unfolding lexed_def lexed_somewhere_def tok_at_def by (fastforce dest: last_at_at_last)

lemma parse_next_lexed:
  assumes "jsm_repr n (tok_jsm t) st" and "jsm_inv n st" and "at_last (tok_reader t) (b # bs)"
  shows "lexed_somewhere n st (b # bs) c (json_tokenizer_parse_next t c)"
proof -
  from at_last_peek [OF assms(3), of c] obtain r' ex cur where
    p: "reader_peek_byte (tok_reader t) c = Some (b, r', c)" "last_at r' ex cur (b # bs)" by blast
  define t' where "t' = t\<lparr>tok_reader := r'\<rparr>"
  have at: "tok_at n t' st ex cur (b # bs)" using assms(1) p(2) by (simp add: tok_at_def t'_def)
  have peek: "jtok_peek t c = Some (b, t', c)" "jtok_peek t' c = Some (b, t', c)"
    using p(1) tok_peek [OF at] by (simp_all add: jtok_peek_def t'_def)
  have same: "jtok_parse_string_token t c = jtok_parse_string_token t' c"
    "jtok_parse_nonstring_token t c = jtok_parse_nonstring_token t' c"
    by (simp_all only: jtok_parse_string_token_def jtok_parse_nonstring_token_def peek)
  obtain s r where st: "st = s # r" using assms(2) by (cases st) auto
  have "json_tokenizer_get_current_state t = Some s"
    using jsm_current assms(1) by (simp add: json_tokenizer_get_current_state_def st)
  moreover have "jtok_available t = Some (int (Suc (length bs)))"
    using reader_bytes_available [OF at_last_bytes [OF assms(3)]] by (simp add: jtok_available_def)
  ultimately have "json_tokenizer_parse_next t c =
      (if json_is_string_state s then jtok_parse_string_token t' c else jtok_parse_nonstring_token t' c)"
    by (simp add: json_tokenizer_parse_next_def same)
  then show ?thesis
    using lexed_somewhere [OF parse_string_lexed [OF at assms(2), of c]]
      lexed_somewhere [OF parse_nonstring_lexed [OF at assms(2), of c]] by simp
qed

lemma parse_next_cases:
  assumes "jsm_repr n (tok_jsm t) st" and "jsm_inv n st" and "at_last (tok_reader t) (b # bs)"
  obtains (invalid) t' st' where "json_tokenizer_parse_next t c = Some (INVALID_JSON_TOKEN, t', c)"
      "at_last (tok_reader t') (b # bs)" "st' = st \<or> st' = rejected st" "jsm_repr n (tok_jsm t') st'"
    | (token) tok t' st' rest where "json_tokenizer_parse_next t c = Some (tok, t', c)"
      "token_ok tok" "jsm_next n st (token_kind tok) = Some st'" "jsm_repr n (tok_jsm t') st'"
      "at_last (tok_reader t') rest" "b # bs = token_bytes tok @ rest"
proof -
  from parse_next_lexed [OF assms, of c] obtain tok t' where
    p: "json_tokenizer_parse_next t c = Some (tok, t', c)"
      "if token_kind tok = JSON_TOKEN_INVALID
       then tok = INVALID_JSON_TOKEN \<and> at_last (tok_reader t') (b # bs) \<and>
         (\<exists>st'\<in>{st, rejected st}. jsm_repr n (tok_jsm t') st')
       else token_ok tok \<and> (\<exists>st' rest. jsm_next n st (token_kind tok) = Some st' \<and>
         jsm_repr n (tok_jsm t') st' \<and> at_last (tok_reader t') rest \<and> b # bs = token_bytes tok @ rest)"
    unfolding lexed_somewhere_def by blast
  show thesis
  proof (cases "token_kind tok = JSON_TOKEN_INVALID")
    case True
    with p(2) obtain st' where "tok = INVALID_JSON_TOKEN" "at_last (tok_reader t') (b # bs)"
      "st' = st \<or> st' = rejected st" "jsm_repr n (tok_jsm t') st'" by auto
    with p(1) invalid show thesis by blast
  next
    case False
    with p(2) obtain st' rest where "token_ok tok" "jsm_next n st (token_kind tok) = Some st'"
      "jsm_repr n (tok_jsm t') st'" "at_last (tok_reader t') rest" "b # bs = token_bytes tok @ rest" by auto
    with p(1) token show thesis by blast
  qed
qed

lemma token_ok_valid: "token_ok tok \<Longrightarrow> token_kind tok \<noteq> JSON_TOKEN_INVALID"
  by (auto simp: token_ok_def)

lemma json_tokenizer_init_correct:
  assumes "600 < arena_free c"
  shows "\<exists>t c'. json_tokenizer_init c r = Some (t, c') \<and> tok_reader t = r \<and>
     jsm_repr 512 (tok_jsm t) [JSON_STATE_START, JSON_STATE_ROOT] \<and>
     arena_free c \<le> arena_free c' + 512 \<and> ctx_error c' = ctx_error c"
proof -
  from jsm_init_repr [OF assms] obtain m c' where
    i: "jsm_init c = Some (m, c')" "jsm_repr 512 m [JSON_STATE_START, JSON_STATE_ROOT]"
      "arena_free c \<le> arena_free c' + 512" "ctx_error c' = ctx_error c" by blast
  from jsm_reset_repr [OF i(2)] i(1,3,4) show ?thesis
    by (auto simp: json_tokenizer_init_def json_tokenizer_reset_def)
qed

end
