(* ===== verification/Json_Compression_Base.thy ===== *)
theory Json_Compression_Base
  imports String_Base Json_Lexing
begin

text \<open>
  \<open>src/json/json_compression_base.c\<close>: the tables the JSON compressor and decompressor share, one
  table of token kinds per parser state, one for white space, and those of the parts of a number.
  \<open>json_model\<close> is what they stand for.
\<close>

record json_compression_base =
  jtables :: "ftable list"
  whitespaces :: ftable
  escape_sequences :: ftable
  current_state :: json_state
  number_int_tables :: uint_freq_tables
  number_frac_zero_tables :: uint_freq_tables
  number_frac_tables :: uint_freq_tables
  number_expo_zero_tables :: uint_freq_tables
  number_expo_tables :: uint_freq_tables
  number_flag_tables :: uint_freq_tables

section \<open>Operations\<close>

definition json_compression_base_deinit :: "json_compression_base \<Rightarrow> json_compression_base" where
  "json_compression_base_deinit b =
     \<lparr>jtables = map ftable_deinit (jtables b), whitespaces = ftable_deinit (whitespaces b),
      escape_sequences = ftable_deinit (escape_sequences b), current_state = JSON_STATE_ROOT,
      number_int_tables = uint_freq_tables_deinit (number_int_tables b),
      number_frac_zero_tables = uint_freq_tables_deinit (number_frac_zero_tables b),
      number_frac_tables = uint_freq_tables_deinit (number_frac_tables b),
      number_expo_zero_tables = uint_freq_tables_deinit (number_expo_zero_tables b),
      number_expo_tables = uint_freq_tables_deinit (number_expo_tables b),
      number_flag_tables = uint_freq_tables_deinit (number_flag_tables b)\<rparr>"

definition json_compression_base_reset :: "json_compression_base \<Rightarrow> json_compression_base" where
  "json_compression_base_reset b = b\<lparr>current_state := JSON_STATE_START\<rparr>"

text \<open>The loop over the states, with \<open>k\<close> tables to go.\<close>

primrec json_tables_init_loop :: "nat \<Rightarrow> ctx \<Rightarrow> (ftable list \<times> ctx) option" where
  "json_tables_init_loop 0 c = Some ([], c)"
| "json_tables_init_loop (Suc k) c = do {
     (t, c) \<leftarrow> ftable_init c (int JSON_TOKEN_MAX + 1) (FTABLE_INIT_ONE OR FTABLE_INCLUDE_EOF);
     (ts, c) \<leftarrow> json_tables_init_loop k c;
     Some (t # ts, c)
   }"

definition json_compression_base_init :: "ctx \<Rightarrow> (json_compression_base \<times> ctx) option" where
  "json_compression_base_init c = do {
     (ts, c) \<leftarrow> json_tables_init_loop (Suc JSON_STATE_MAX) c;
     (ws, c) \<leftarrow> ftable_init c (int (length JTOK_WHITESPACE_CHARS)) (FTABLE_INIT_ONE OR FTABLE_EXCLUDE_EOF);
     (es, c) \<leftarrow> ftable_init c (int (length JTOK_ESCAPE_SEQ_CHARS)) (FTABLE_INIT_ONE OR FTABLE_EXCLUDE_EOF);
     (ip, c) \<leftarrow> uint_freq_tables_init c (-1);
     (fp, c) \<leftarrow> uint_freq_tables_init c 65535;
     (fz, c) \<leftarrow> uint_freq_tables_init c (of_nat JSON_MAX_NUMBER_LEADING_ZEROES);
     (ep, c) \<leftarrow> uint_freq_tables_init c 65535;
     (ez, c) \<leftarrow> uint_freq_tables_init c (of_nat JSON_MAX_NUMBER_LEADING_ZEROES);
     (fl, c) \<leftarrow> uint_freq_tables_init c JSON_NUMBER_FLAGS_MAX;
     Some (json_compression_base_reset
       \<lparr>jtables = ts, whitespaces = ws, escape_sequences = es, current_state = JSON_STATE_ROOT,
        number_int_tables = ip, number_frac_zero_tables = fz, number_frac_tables = fp,
        number_expo_zero_tables = ez, number_expo_tables = ep, number_flag_tables = fl\<rparr>, c)
   }"

definition json_compression_base_get_current_ftable :: "json_compression_base \<Rightarrow> ftable option" where
  "json_compression_base_get_current_ftable b = at (jtables b) (int (state_code (current_state b)))"

text \<open>Storing through the pointer that \<open>get_current_ftable\<close> returns.\<close>

definition set_current_ftable :: "json_compression_base \<Rightarrow> ftable \<Rightarrow> json_compression_base" where
  "set_current_ftable b t = b\<lparr>jtables := (jtables b)[state_code (current_state b) := t]\<rparr>"

definition json_compression_get_whitespace_char_by_symbol :: "int \<Rightarrow> byte option" where
  "json_compression_get_whitespace_char_by_symbol s = at JTOK_WHITESPACE_CHARS s"

text \<open>\<open>k\<close> rounds of the loop to go, from index \<open>i\<close> on.\<close>

primrec whitespace_symbol_loop :: "nat \<Rightarrow> int \<Rightarrow> byte \<Rightarrow> int option" where
  "whitespace_symbol_loop 0 i b = Some (int (length JTOK_WHITESPACE_CHARS) - 1)"
| "whitespace_symbol_loop (Suc k) i b = do {
     w \<leftarrow> at JTOK_WHITESPACE_CHARS i;
     if b = w then Some i else whitespace_symbol_loop k (i + 1) b
   }"

definition json_compression_get_symbol_by_whitespace_char :: "byte \<Rightarrow> int option" where
  "json_compression_get_symbol_by_whitespace_char b =
     whitespace_symbol_loop (length JTOK_WHITESPACE_CHARS - 1) 0 b"

text \<open>On the four characters themselves the two functions are inverse.\<close>

lemma whitespace_symbols:
  assumes "b \<in> set JTOK_WHITESPACE_CHARS"
  obtains s where "json_compression_get_symbol_by_whitespace_char b = Some (int s)" and "s < 4"
    and "json_compression_get_whitespace_char_by_symbol (int s) = Some b"
proof -
  have "\<exists>s. json_compression_get_symbol_by_whitespace_char b = Some (int s) \<and> s < 4 \<and>
      json_compression_get_whitespace_char_by_symbol (int s) = Some b"
    using assms
    by (auto simp: JTOK_WHITESPACE_CHARS_def json_compression_get_symbol_by_whitespace_char_def at_def
        in_range_def json_compression_get_whitespace_char_by_symbol_def numeral_3_eq_3
        intro: exI [of _ 0] exI [of _ 1] exI [of _ 2] exI [of _ 3])
  then show thesis using that by blast
qed

end
