(* ===== verification/Json_Codec.thy ===== *)
theory Json_Codec
  imports Json_Compression_Base
begin

text \<open>
  How one token travels: its kind as a symbol of the table of the current state, then the symbol
  of a white-space character, or the parts of a number that its flags announce.  The writing side
  is the \<open>switch\<close> of \<open>_json_compressor_write_nonstring_token\<close>, the reading side the one of
  \<open>_json_decompressor_read_nonstring\<close>.
\<close>

section \<open>Operations\<close>

definition write_number ::
  "json_compression_base \<Rightarrow> acod_encoder \<Rightarrow> ctx \<Rightarrow> json_number_token \<Rightarrow>
   (json_compression_base \<times> acod_encoder \<times> ctx) option" where
  "write_number b e c n = do {
     (t, e, c) \<leftarrow> uint_writer_write (number_flag_tables b) e c (ucast (number_flags n));
     let b = b\<lparr>number_flag_tables := t\<rparr>;
     (b, e, c) \<leftarrow> (if \<not> flag_set (number_flags n) JSON_NUMBER_INTEGER_PART_IS_ZERO then do {
         (t, e, c) \<leftarrow> uint_writer_write (number_int_tables b) e c (integer_part n);
         Some (b\<lparr>number_int_tables := t\<rparr>, e, c)
       } else Some (b, e, c));
     (b, e, c) \<leftarrow> (if flag_set (number_flags n) JSON_NUMBER_HAS_FRACTION then do {
         (t, e, c) \<leftarrow> uint_writer_write (number_frac_zero_tables b) e c (ucast (fraction_leading_zeroes n));
         (u, e, c) \<leftarrow> uint_writer_write (number_frac_tables b) e c (fraction_part n);
         Some (b\<lparr>number_frac_zero_tables := t, number_frac_tables := u\<rparr>, e, c)
       } else Some (b, e, c));
     (if flag_set (number_flags n) JSON_NUMBER_HAS_EXPONENT then do {
         (t, e, c) \<leftarrow> uint_writer_write (number_expo_zero_tables b) e c (ucast (exponent_leading_zeroes n));
         (u, e, c) \<leftarrow> uint_writer_write (number_expo_tables b) e c (ucast (exponent_part n));
         Some (b\<lparr>number_expo_zero_tables := t, number_expo_tables := u\<rparr>, e, c)
       } else Some (b, e, c))
   }"

definition read_number ::
  "json_compression_base \<Rightarrow> acod_decoder \<Rightarrow> ctx \<Rightarrow>
   (json_number_token \<times> json_compression_base \<times> acod_decoder \<times> ctx) option" where
  "read_number b d c = do {
     (v, t, d, c) \<leftarrow> uint_reader_read (number_flag_tables b) d c;
     let b = b\<lparr>number_flag_tables := t\<rparr>;
     let n = zero_number\<lparr>number_flags := ucast v\<rparr>;
     (n, b, d, c) \<leftarrow> (if \<not> flag_set (number_flags n) JSON_NUMBER_INTEGER_PART_IS_ZERO then do {
         (v, t, d, c) \<leftarrow> uint_reader_read (number_int_tables b) d c;
         Some (n\<lparr>integer_part := v\<rparr>, b\<lparr>number_int_tables := t\<rparr>, d, c)
       } else Some (n, b, d, c));
     (n, b, d, c) \<leftarrow> (if flag_set (number_flags n) JSON_NUMBER_HAS_FRACTION then do {
         (z, t, d, c) \<leftarrow> uint_reader_read (number_frac_zero_tables b) d c;
         (v, u, d, c) \<leftarrow> uint_reader_read (number_frac_tables b) d c;
         Some (n\<lparr>fraction_leading_zeroes := ucast z, fraction_part := v\<rparr>,
               b\<lparr>number_frac_zero_tables := t, number_frac_tables := u\<rparr>, d, c)
       } else Some (n, b, d, c));
     (if flag_set (number_flags n) JSON_NUMBER_HAS_EXPONENT then do {
         (z, t, d, c) \<leftarrow> uint_reader_read (number_expo_zero_tables b) d c;
         (v, u, d, c) \<leftarrow> uint_reader_read (number_expo_tables b) d c;
         Some (n\<lparr>exponent_leading_zeroes := ucast z, exponent_part := ucast v\<rparr>,
               b\<lparr>number_expo_zero_tables := t, number_expo_tables := u\<rparr>, d, c)
       } else Some (n, b, d, c))
   }"

definition write_payload ::
  "json_compression_base \<Rightarrow> acod_encoder \<Rightarrow> ctx \<Rightarrow> json_token \<Rightarrow>
   (json_compression_base \<times> acod_encoder \<times> ctx) option" where
  "write_payload b e c tok =
     (if token_kind tok = JSON_TOKEN_WHITESPACE then do {
        x \<leftarrow> payload_character (payload tok);
        s \<leftarrow> json_compression_get_symbol_by_whitespace_char x;
        (e, c) \<leftarrow> acod_encoder_write e c (whitespaces b) s;
        t \<leftarrow> ftable_increment (whitespaces b) s;
        Some (b\<lparr>whitespaces := t\<rparr>, e, c)
      }
      else if token_kind tok = JSON_TOKEN_NUMBER then do {
        n \<leftarrow> payload_number (payload tok);
        write_number b e c n
      }
      else Some (b, e, c))"

definition read_payload ::
  "json_token_kind \<Rightarrow> json_compression_base \<Rightarrow> acod_decoder \<Rightarrow> ctx \<Rightarrow>
   (json_token \<times> json_compression_base \<times> acod_decoder \<times> ctx) option" where
  "read_payload kind b d c =
     (if kind = JSON_TOKEN_WHITESPACE then do {
        (s, d, c) \<leftarrow> acod_decoder_read d c (whitespaces b);
        t \<leftarrow> ftable_increment (whitespaces b) s;
        x \<leftarrow> json_compression_get_whitespace_char_by_symbol s;
        Some (\<lparr>token_kind = kind, payload = Character x\<rparr>, b\<lparr>whitespaces := t\<rparr>, d, c)
      }
      else if kind = JSON_TOKEN_NUMBER then do {
        (n, b, d, c) \<leftarrow> read_number b d c;
        Some (\<lparr>token_kind = kind, payload = Number n\<rparr>, b, d, c)
      }
      else Some (simple_token kind, b, d, c))"

section \<open>The models of the tables\<close>

text \<open>
  The tables of the six fields of a number in the order they are written, and the fields with
  their presence; a field left out is zero on both sides.
\<close>

definition number_tables :: "json_compression_base \<Rightarrow> uint_freq_tables list" where
  "number_tables b = [number_flag_tables b, number_int_tables b, number_frac_zero_tables b,
     number_frac_tables b, number_expo_zero_tables b, number_expo_tables b]"

definition set_number_tables :: "json_compression_base \<Rightarrow> uint_freq_tables list \<Rightarrow> json_compression_base" where
  "set_number_tables b ts = b\<lparr>number_flag_tables := ts ! 0, number_int_tables := ts ! 1,
     number_frac_zero_tables := ts ! 2, number_frac_tables := ts ! 3,
     number_expo_zero_tables := ts ! 4, number_expo_tables := ts ! 5\<rparr>"

definition has_int :: "byte \<Rightarrow> bool" where
  "has_int f \<longleftrightarrow> \<not> flag_set f JSON_NUMBER_INTEGER_PART_IS_ZERO"
definition has_frac :: "byte \<Rightarrow> bool" where
  "has_frac f \<longleftrightarrow> flag_set f JSON_NUMBER_HAS_FRACTION"
definition has_expo :: "byte \<Rightarrow> bool" where
  "has_expo f \<longleftrightarrow> flag_set f JSON_NUMBER_HAS_EXPONENT"

type_synonym field = "bool \<times> u64"

definition number_fields :: "json_number_token \<Rightarrow> field list" where
  "number_fields n = (let f = number_flags n in
     [(True, ucast f), (has_int f, integer_part n), (has_frac f, ucast (fraction_leading_zeroes n)),
      (has_frac f, fraction_part n), (has_expo f, ucast (exponent_leading_zeroes n)),
      (has_expo f, ucast (exponent_part n))])"

record json_model =
  m_kinds :: "nat list list"
  m_space :: "nat list"
  m_numbers :: "uint_model list"

definition json_repr :: "json_compression_base \<Rightarrow> json_model \<Rightarrow> bool" where
  "json_repr b m \<longleftrightarrow> list_all2 ftable_repr (jtables b) (m_kinds m) \<and> length (m_kinds m) = 11 \<and>
     ftable_repr (whitespaces b) (m_space m) \<and> list_all2 uint_repr (number_tables b) (m_numbers m)"

section \<open>Fields\<close>

fun field_script :: "field \<Rightarrow> uint_model \<Rightarrow> script" where
  "field_script (present, v) m = (if present then uint_script m v else [])"

fun field_adapt :: "field \<Rightarrow> uint_model \<Rightarrow> uint_model" where
  "field_adapt (present, v) m = (if present then uint_adapt m v else m)"

fun write_field :: "field \<Rightarrow> uint_freq_tables \<Rightarrow> acod_encoder \<Rightarrow> ctx \<Rightarrow> (uint_freq_tables \<times> acod_encoder \<times> ctx) option" where
  "write_field (present, v) t e c = (if present then uint_writer_write t e c v else Some (t, e, c))"

definition read_field :: "bool \<Rightarrow> uint_freq_tables \<Rightarrow> acod_decoder \<Rightarrow> ctx \<Rightarrow> (u64 \<times> uint_freq_tables \<times> acod_decoder \<times> ctx) option" where
  "read_field present t d c = (if present then uint_reader_read t d c else Some (0, t, d, c))"

primrec write_fields :: "field list \<Rightarrow> uint_freq_tables list \<Rightarrow> acod_encoder \<Rightarrow> ctx \<Rightarrow>
    (uint_freq_tables list \<times> acod_encoder \<times> ctx) option" where
  "write_fields [] ts e c = Some ([], e, c)"
| "write_fields (p # ps) ts e c = do {
     (t, e, c) \<leftarrow> write_field p (hd ts) e c;
     (us, e, c) \<leftarrow> write_fields ps (tl ts) e c;
     Some (t # us, e, c)
   }"

primrec read_fields :: "bool list \<Rightarrow> uint_freq_tables list \<Rightarrow> acod_decoder \<Rightarrow> ctx \<Rightarrow>
    (u64 list \<times> uint_freq_tables list \<times> acod_decoder \<times> ctx) option" where
  "read_fields [] ts d c = Some ([], [], d, c)"
| "read_fields (p # ps) ts d c = do {
     (v, t, d, c) \<leftarrow> read_field p (hd ts) d c;
     (vs, us, d, c) \<leftarrow> read_fields ps (tl ts) d c;
     Some (v # vs, t # us, d, c)
   }"

primrec fields_script :: "field list \<Rightarrow> uint_model list \<Rightarrow> script" where
  "fields_script [] ms = []"
| "fields_script (p # ps) ms = field_script p (hd ms) @ fields_script ps (tl ms)"

primrec fields_adapt :: "field list \<Rightarrow> uint_model list \<Rightarrow> uint_model list" where
  "fields_adapt [] ms = []"
| "fields_adapt (p # ps) ms = field_adapt p (hd ms) # fields_adapt ps (tl ms)"

lemma write_fields_correct:
  assumes "list_all2 uint_repr ts ms" and "length ps = length ms" and "encoder_holds M e c pre"
    and "\<forall>q\<in>set (fields_script ps ms). codable q" and "length pre + length (fields_script ps ms) < 2 ^ 56"
  shows "\<exists>us e' c'. write_fields ps ts e c = Some (us, e', c') \<and>
     list_all2 uint_repr us (fields_adapt ps ms) \<and> encoder_holds M e' c' (pre @ fields_script ps ms)"
  using assms
proof (induction ps arbitrary: ts ms e c pre)
  case (Cons p ps)
  obtain present v where p: "p = (present, v)" by (cases p)
  obtain m ms' t ts' where ms: "ms = m # ms'" "ts = t # ts'" "uint_repr t m" "list_all2 uint_repr ts' ms'"
    using Cons.prems(1,2) by (cases ms; cases ts) auto
  have "\<exists>u e1 c1. write_field p t e c = Some (u, e1, c1) \<and> uint_repr u (field_adapt p m) \<and>
      encoder_holds M e1 c1 (pre @ field_script p m)"
    using ui.encode_holds [OF ms(3) _ Cons.prems(3), of v] Cons.prems(3-5) ms(3)
    by (cases present) (auto simp: p ms uint_ok_def)
  then obtain u e1 c1 where w: "write_field p t e c = Some (u, e1, c1)" "uint_repr u (field_adapt p m)"
    "encoder_holds M e1 c1 (pre @ field_script p m)" by blast
  from Cons.IH [OF ms(4) _ w(3)] Cons.prems(2,4,5) w(1,2) show ?case by (auto simp: ms)
qed simp

lemma read_fields_correct:
  assumes "list_all2 uint_repr ts ms" and "length ps = length ms"
    and "\<forall>(present, v)\<in>set ps. \<not> present \<longrightarrow> v = 0"
    and "\<forall>q\<in>set (fields_script ps ms). codable q" and "decoder_ready d (fields_script ps ms @ rest)"
  shows "\<exists>us d'. read_fields (map fst ps) ts d c = Some (map snd ps, us, d', c) \<and>
     list_all2 uint_repr us (fields_adapt ps ms) \<and> decoder_ready d' rest"
  using assms
proof (induction ps arbitrary: ts ms d)
  case (Cons p ps)
  obtain present v where p: "p = (present, v)" by (cases p)
  obtain m ms' t ts' where ms: "ms = m # ms'" "ts = t # ts'" "uint_repr t m" "list_all2 uint_repr ts' ms'"
    using Cons.prems(1,2) by (cases ms; cases ts) auto
  have "\<exists>u d1. read_field present t d c = Some (v, u, d1, c) \<and> uint_repr u (field_adapt p m) \<and>
      decoder_ready d1 (fields_script ps ms' @ rest)"
    using ui.decode_ready [OF ms(3), of v d "fields_script ps ms' @ rest" c] Cons.prems(3-5) ms(3)
    by (cases present) (auto simp: p ms uint_ok_def read_field_def)
  then obtain u d1 where w: "read_field present t d c = Some (v, u, d1, c)" "uint_repr u (field_adapt p m)"
    "decoder_ready d1 (fields_script ps ms' @ rest)" by blast
  from Cons.IH [OF ms(4) _ _ _ w(3)] Cons.prems(2-4) w(1,2) show ?case by (auto simp: ms p)
qed simp

text \<open>A number is written and read field by field.\<close>

lemma write_number_fields:
  "write_number b e c n = do {
     (ts, e, c) \<leftarrow> write_fields (number_fields n) (number_tables b) e c;
     Some (set_number_tables b ts, e, c)
   }"
  by (cases b; cases "has_int (number_flags n)"; cases "has_frac (number_flags n)";
      cases "has_expo (number_flags n)")
    (simp_all add: write_number_def number_fields_def number_tables_def set_number_tables_def Let_def
      has_int_def has_frac_def has_expo_def case_prod_unfold)

definition number_from :: "u64 list \<Rightarrow> json_number_token" where
  "number_from vs = \<lparr>integer_part = vs ! 1, fraction_part = vs ! 3, exponent_part = ucast (vs ! 5),
     number_flags = ucast (vs ! 0), fraction_leading_zeroes = ucast (vs ! 2),
     exponent_leading_zeroes = ucast (vs ! 4)\<rparr>"

lemma read_number_fields:
  "read_number b d c = do {
     (v, t, d, c) \<leftarrow> uint_reader_read (number_flag_tables b) d c;
     let f = ucast v;
     (vs, ts, d, c) \<leftarrow> read_fields [has_int f, has_frac f, has_frac f, has_expo f, has_expo f]
       (tl (number_tables b)) d c;
     Some (number_from (v # vs), set_number_tables b (t # ts), d, c)
   }"
proof (cases "uint_reader_read (number_flag_tables b) d c")
  case None
  then show ?thesis by (simp add: read_number_def)
next
  case (Some r)
  obtain v t d1 c1 where r: "r = (v, t, d1, c1)" by (cases r)
  show ?thesis
    by (cases b; cases "has_int (ucast v)"; cases "has_frac (ucast v)"; cases "has_expo (ucast v)"; use Some in
        \<open>simp add: r read_number_def read_field_def number_tables_def set_number_tables_def Let_def
           has_int_def has_frac_def has_expo_def zero_number_def number_from_def case_prod_unfold\<close>)
qed

lemma ucast_back [simp]: "ucast (ucast (x :: byte) :: u64) = x" "ucast (ucast (y :: u16) :: u64) = y"
  by (rule bit_word_eqI; auto simp: bit_simps)+

lemma number_from_fields [simp]: "number_from (map snd (number_fields n)) = n"
  by (simp add: number_from_def number_fields_def Let_def)

section \<open>Payloads\<close>

definition number_script :: "json_model \<Rightarrow> json_number_token \<Rightarrow> script" where
  "number_script m n = fields_script (number_fields n) (m_numbers m)"

definition number_adapt :: "json_model \<Rightarrow> json_number_token \<Rightarrow> json_model" where
  "number_adapt m n = m\<lparr>m_numbers := fields_adapt (number_fields n) (m_numbers m)\<rparr>"

lemma number_tables_set [simp]: "length ts = 6 \<Longrightarrow> number_tables (set_number_tables b ts) = ts"
  by (auto simp: number_tables_def set_number_tables_def numeral_eq_Suc length_Suc_conv)

lemma set_number_tables_other [simp]:
  "jtables (set_number_tables b ts) = jtables b" "whitespaces (set_number_tables b ts) = whitespaces b"
  "current_state (set_number_tables b ts) = current_state b"
  by (simp_all add: set_number_tables_def)

lemma length_fields_adapt [simp]: "length (fields_adapt ps ms) = length ps"
  by (induction ps arbitrary: ms) simp_all

lemma length_number [simp]: "length (number_fields n) = 6" "length (number_tables b) = 6"
  by (simp_all add: number_fields_def number_tables_def Let_def)

lemma has_flags: "has_int f \<longleftrightarrow> \<not> bit f 0" "has_frac f \<longleftrightarrow> bit f 2" "has_expo f \<longleftrightarrow> bit f 3"
  using bit_flag [of f 0] bit_flag [of f 2] bit_flag [of f 3]
  by (simp_all add: has_int_def has_frac_def has_expo_def json_number_flag_defs)

lemma write_number_correct:
  assumes "json_repr b m" and "encoder_holds M e c pre"
    and "\<forall>q\<in>set (number_script m n). codable q" and "length pre + length (number_script m n) < 2 ^ 56"
  shows "\<exists>b' e' c'. write_number b e c n = Some (b', e', c') \<and> json_repr b' (number_adapt m n) \<and>
     current_state b' = current_state b \<and> encoder_holds M e' c' (pre @ number_script m n)"
proof -
  have r: "list_all2 uint_repr (number_tables b) (m_numbers m)" "length (number_fields n) = length (m_numbers m)"
    using assms(1) by (auto simp: json_repr_def dest: list_all2_lengthD)
  from write_fields_correct [OF r assms(2)] assms(3,4) obtain us e' c' where
    w: "write_fields (number_fields n) (number_tables b) e c = Some (us, e', c')"
      "list_all2 uint_repr us (fields_adapt (number_fields n) (m_numbers m))"
      "encoder_holds M e' c' (pre @ number_script m n)" by (auto simp: number_script_def)
  have "length us = 6" using list_all2_lengthD [OF w(2)] by simp
  with w assms(1) show ?thesis by (simp add: write_number_fields number_adapt_def json_repr_def)
qed

lemma read_number_correct:
  assumes "json_repr b m" and "number_ok n" and "decoder_ready d (number_script m n @ rest)"
    and "\<forall>q\<in>set (number_script m n). codable q"
  shows "\<exists>b' d'. read_number b d c = Some (n, b', d', c) \<and> json_repr b' (number_adapt m n) \<and>
     current_state b' = current_state b \<and> decoder_ready d' rest"
proof -
  have r: "list_all2 uint_repr (number_tables b) (m_numbers m)" "length (number_fields n) = length (m_numbers m)"
    using assms(1) by (auto simp: json_repr_def dest: list_all2_lengthD)
  have "\<forall>(present, v)\<in>set (number_fields n). \<not> present \<longrightarrow> v = 0"
    using assms(2) by (simp add: number_fields_def Let_def number_ok_def has_flags)
  from read_fields_correct [OF r this, of d rest c] assms(3,4) obtain us d' where
    w: "read_fields (map fst (number_fields n)) (number_tables b) d c =
        Some (map snd (number_fields n), us, d', c)"
      "list_all2 uint_repr us (fields_adapt (number_fields n) (m_numbers m))" "decoder_ready d' rest"
    unfolding number_script_def by blast
  have six: "length us = 6" using list_all2_lengthD [OF w(2)] by simp
  let ?ps = "(let f = number_flags n in [has_int f, has_frac f, has_frac f, has_expo f, has_expo f])"
  obtain vs where fields: "map fst (number_fields n) = True # ?ps"
    "map snd (number_fields n) = ucast (number_flags n) # vs" by (simp add: number_fields_def Let_def)
  have hd_tables: "hd (number_tables b) = number_flag_tables b" by (simp add: number_tables_def)
  have "read_number b d c = Some (number_from (map snd (number_fields n)), set_number_tables b us, d', c)"
    using w(1) unfolding fields read_fields.simps(2) [of True ?ps]
    by (auto simp: read_number_fields Let_def read_field_def hd_tables simp del: read_fields.simps
        split: Option.bind_splits)
  with w(2,3) six assms(1) show ?thesis by (simp add: number_adapt_def json_repr_def)
qed

text \<open>
  \<open>base_at s b m\<close>: the tables are those of \<open>m\<close> and the current state is \<open>s\<close>.  \<open>bare\<close> drops a
  payload that does not travel.
\<close>

definition base_at :: "json_state \<Rightarrow> json_compression_base \<Rightarrow> json_model \<Rightarrow> bool" where
  "base_at s b m \<longleftrightarrow> json_repr b m \<and> current_state b = s"

definition bare :: "json_token \<Rightarrow> json_token" where
  "bare tok = (if token_kind tok = JSON_TOKEN_WHITESPACE \<or> token_kind tok = JSON_TOKEN_NUMBER then tok
     else simple_token (token_kind tok))"

definition space_symbol :: "byte \<Rightarrow> nat" where
  "space_symbol x = nat (the (json_compression_get_symbol_by_whitespace_char x))"

definition payload_script :: "json_model \<Rightarrow> json_token \<Rightarrow> script" where
  "payload_script m tok =
     (if token_kind tok = JSON_TOKEN_WHITESPACE
      then (case payload tok of Character x \<Rightarrow> [(m_space m, space_symbol x)] | _ \<Rightarrow> [])
      else if token_kind tok = JSON_TOKEN_NUMBER
      then (case payload tok of Number n \<Rightarrow> number_script m n | _ \<Rightarrow> [])
      else [])"

definition payload_adapt :: "json_model \<Rightarrow> json_token \<Rightarrow> json_model" where
  "payload_adapt m tok =
     (if token_kind tok = JSON_TOKEN_WHITESPACE
      then (case payload tok of Character x \<Rightarrow> m\<lparr>m_space := bump (m_space m) (space_symbol x)\<rparr> | _ \<Rightarrow> m)
      else if token_kind tok = JSON_TOKEN_NUMBER
      then (case payload tok of Number n \<Rightarrow> number_adapt m n | _ \<Rightarrow> m)
      else m)"

definition payload_accepted :: "json_token_kind \<Rightarrow> json_model \<Rightarrow> json_token \<Rightarrow> bool" where
  "payload_accepted kind m tok \<longleftrightarrow> token_kind tok = kind \<and> token_ok tok \<and> bare tok = tok \<and>
     (\<forall>p\<in>set (payload_script m tok). codable p)"

lemma token_kind_bare [simp]: "token_kind (bare tok) = token_kind tok"
  by (simp add: bare_def simple_token_def)

lemma bare_bare [simp]: "bare (bare tok) = bare tok"
  by (simp add: bare_def simple_token_def)

lemma bare_ok: "token_ok tok \<Longrightarrow> \<not> char_kind (token_kind tok) \<Longrightarrow> token_ok (bare tok)"
  by (cases "token_kind tok") (auto simp: bare_def token_ok_def simple_token_def char_kind_def)

lemma token_bytes_bare: "\<not> char_kind (token_kind tok) \<Longrightarrow> token_bytes (bare tok) = token_bytes tok"
  by (cases "token_kind tok") (simp_all add: bare_def token_bytes_def simple_token_def char_kind_def)

lemma write_payload_bare: "write_payload b e c (bare tok) = write_payload b e c tok"
  by (simp add: write_payload_def bare_def simple_token_def)

lemma space_symbol:
  assumes "x \<in> set JTOK_WHITESPACE_CHARS"
  shows "json_compression_get_symbol_by_whitespace_char x = Some (int (space_symbol x))"
    and "space_symbol x < 4" and "json_compression_get_whitespace_char_by_symbol (int (space_symbol x)) = Some x"
proof -
  from whitespace_symbols [OF assms] obtain s where
    "json_compression_get_symbol_by_whitespace_char x = Some (int s)" "s < 4"
    "json_compression_get_whitespace_char_by_symbol (int s) = Some x" .
  then show "json_compression_get_symbol_by_whitespace_char x = Some (int (space_symbol x))"
    "space_symbol x < 4" "json_compression_get_whitespace_char_by_symbol (int (space_symbol x)) = Some x"
    by (simp_all add: space_symbol_def)
qed

lemma write_payload_correct:
  assumes "base_at s b m" and "payload_accepted k m tok" and "encoder_holds M e c pre"
    and "length pre + length (payload_script m tok) < 2 ^ 56"
  shows "\<exists>b' e' c'. write_payload b e c tok = Some (b', e', c') \<and> base_at s b' (payload_adapt m tok) \<and>
     encoder_holds M e' c' (pre @ payload_script m tok)"
proof (cases "token_kind tok = JSON_TOKEN_WHITESPACE")
  case True
  then obtain x where x: "payload tok = Character x" "x \<in> set JTOK_WHITESPACE_CHARS"
    using assms(2) by (auto simp: payload_accepted_def token_ok_def)
  have r: "ftable_repr (whitespaces b) (m_space m)" using assms(1) by (simp add: base_at_def json_repr_def)
  have cod: "codable (m_space m, space_symbol x)"
    using assms(2) True x by (simp add: payload_accepted_def payload_script_def)
  have "length pre + 1 < 2 ^ 56" using assms(4) True x by (simp add: payload_script_def)
  from encode_symbol_correct [OF r cod assms(3) this] obtain t e' c' where
    "encode_symbol (whitespaces b) e c (int (space_symbol x)) = Some (t, e', c')"
    "ftable_repr t (bump (m_space m) (space_symbol x))"
    "encoder_holds M e' c' (pre @ [(m_space m, space_symbol x)])" by blast
  then show ?thesis using True x space_symbol [OF x(2)] assms(1)
    by (auto simp: write_payload_def payload_script_def payload_adapt_def base_at_def json_repr_def
        number_tables_def encode_symbol_def split: Option.bind_splits)
next
  case False
  then consider (number) n where "token_kind tok = JSON_TOKEN_NUMBER" "payload tok = Number n" "number_ok n"
    | (other) "token_kind tok \<noteq> JSON_TOKEN_NUMBER"
    using assms(2) by (cases "token_kind tok = JSON_TOKEN_NUMBER") (auto simp: payload_accepted_def token_ok_def)
  then show ?thesis
  proof cases
    case number
    with write_number_correct [of b m M e c pre n] assms show ?thesis
      by (auto simp: write_payload_def payload_script_def payload_adapt_def base_at_def payload_accepted_def)
  next
    case other
    with assms False show ?thesis by (simp add: write_payload_def payload_script_def payload_adapt_def)
  qed
qed

lemma read_payload_correct:
  assumes "base_at s b m" and "payload_accepted k m tok" and "decoder_ready d (payload_script m tok @ rest)"
  shows "\<exists>b' d'. read_payload k b d c = Some (tok, b', d', c) \<and> base_at s b' (payload_adapt m tok) \<and>
     decoder_ready d' rest"
proof -
  have k: "token_kind tok = k" and bare: "bare tok = tok" and ok: "token_ok tok"
    using assms(2) by (simp_all add: payload_accepted_def)
  have tok: "tok = \<lparr>token_kind = k, payload = payload tok\<rparr>" using k by (cases tok) simp
  consider (space) x where "k = JSON_TOKEN_WHITESPACE" "payload tok = Character x" "x \<in> set JTOK_WHITESPACE_CHARS"
    | (number) n where "k = JSON_TOKEN_NUMBER" "payload tok = Number n" "number_ok n"
    | (other) "k \<noteq> JSON_TOKEN_WHITESPACE" "k \<noteq> JSON_TOKEN_NUMBER"
    using ok k by (cases "k = JSON_TOKEN_NUMBER"; cases "k = JSON_TOKEN_WHITESPACE") (auto simp: token_ok_def)
  then show ?thesis
  proof cases
    case space
    have r: "ftable_repr (whitespaces b) (m_space m)" using assms(1) by (simp add: base_at_def json_repr_def)
    have "decoder_ready d ((m_space m, space_symbol x) # rest)"
      using assms(3) space k by (simp add: payload_script_def)
    from decode_symbol_correct [OF r this, of c] obtain t d' where
      "decode_symbol (whitespaces b) d c = Some (int (space_symbol x), t, d', c)"
      "ftable_repr t (bump (m_space m) (space_symbol x))" "decoder_ready d' rest" by blast
    then show ?thesis using space space_symbol [OF space(3)] assms(1) k tok
      by (auto simp: read_payload_def payload_adapt_def base_at_def json_repr_def
          number_tables_def decode_symbol_def split: Option.bind_splits)
  next
    case number
    with read_number_correct [of b m n d rest c] assms k tok show ?thesis
      by (auto simp: read_payload_def payload_script_def payload_adapt_def base_at_def payload_accepted_def)
  next
    case other
    then have "simple_token k = tok" using bare k by (simp add: bare_def)
    with assms other k show ?thesis by (simp add: read_payload_def payload_script_def payload_adapt_def)
  qed
qed

interpretation pl: symbol_codec write_payload "read_payload k" "base_at s" payload_script payload_adapt
    "payload_accepted k" for k s
  using write_payload_correct read_payload_correct by unfold_locales (auto simp: payload_accepted_def)

section \<open>Kinds\<close>

definition kinds_of :: "json_model \<Rightarrow> json_state \<Rightarrow> nat list" where
  "kinds_of m s = m_kinds m ! state_code s"

definition kind_adapt :: "json_model \<Rightarrow> json_state \<Rightarrow> json_token_kind \<Rightarrow> json_model" where
  "kind_adapt m s k = m\<lparr>m_kinds := (m_kinds m)[state_code s := bump (kinds_of m s) (kind_code k)]\<rparr>"

lemma current_ftable:
  assumes "base_at s b m"
  obtains t where "json_compression_base_get_current_ftable b = Some t" and "ftable_repr t (kinds_of m s)"
  using assms that
  by (auto simp: base_at_def json_repr_def json_compression_base_get_current_ftable_def kinds_of_def
      list_all2_conv_all_nth)

lemma base_at_kind:
  assumes "base_at s b m" and "ftable_repr t (bump (kinds_of m s) (kind_code k))"
  shows "base_at s (set_current_ftable b t) (kind_adapt m s k)"
  using assms
  by (auto simp: base_at_def json_repr_def set_current_ftable_def kind_adapt_def number_tables_def
      intro: list_all2_update_cong)

lemma base_at_state: "base_at s b m \<Longrightarrow> base_at s' (b\<lparr>current_state := s'\<rparr>) m"
  by (simp add: base_at_def json_repr_def number_tables_def)

lemma json_eof_symbol: "ftable_repr t fs \<Longrightarrow> length fs = 18 \<Longrightarrow> ftable_get_eof_symbol t = 17"
  using ftable_limit [of t fs] by (simp add: ftable_get_eof_symbol_def)

section \<open>Room in the tables\<close>

definition number_limits :: "nat list" where
  "number_limits = [3, 17, 3, 5, 3, 5]"

definition uint_room :: "nat \<Rightarrow> uint_model \<Rightarrow> nat \<Rightarrow> bool" where
  "uint_room k u g \<longleftrightarrow> uint_roomy u k \<and> uint_limit u = g"

definition json_roomy :: "json_model \<Rightarrow> nat \<Rightarrow> bool" where
  "json_roomy m k \<longleftrightarrow> length (m_kinds m) = 11 \<and> (\<forall>fs\<in>set (m_kinds m). roomy fs k \<and> length fs = 18) \<and>
     roomy (m_space m) k \<and> length (m_space m) = 4 \<and> list_all2 (uint_room k) (m_numbers m) number_limits"

text \<open>The fractions the tables can hold.\<close>

definition small_fraction :: "json_token \<Rightarrow> bool" where
  "small_fraction tok \<longleftrightarrow> (case payload tok of Number n \<Rightarrow> unat (fraction_part n) < 2 ^ 16 | _ \<Rightarrow> True)"

lemma fields_room:
  assumes "list_all2 (uint_room (Suc k)) ms gs"
    and "list_all2 (\<lambda>(present, v) g. present \<longrightarrow> group_count v < g) ps gs"
  shows "(\<forall>q\<in>set (fields_script ps ms). codable q) \<and> list_all2 (uint_room k) (fields_adapt ps ms) gs"
  using assms(2,1)
proof (induction ps gs arbitrary: ms rule: list_all2_induct)
  case (Cons p ps g gs)
  obtain present v where p: "p = (present, v)" by (cases p)
  obtain u us where ms: "ms = u # us" "uint_room (Suc k) u g" "list_all2 (uint_room (Suc k)) us gs"
    using Cons.prems by (cases ms) auto
  have "(\<forall>q\<in>set (field_script p u). codable q) \<and> uint_room k (field_adapt p u) g"
    using uint_roomy_step [of u k v] uint_roomy_less [of u "Suc k" k] ms(2) Cons.hyps(1)
    by (auto simp: p uint_room_def uint_ok_def)
  with Cons.IH [OF ms(3)] show ?case by (auto simp: ms)
qed simp

lemma number_fits:
  assumes "number_ok n" and "unat (fraction_part n) < 2 ^ 16"
  shows "list_all2 (\<lambda>(present, v) g. present \<longrightarrow> group_count v < g) (number_fields n) number_limits"
proof -
  have byte: "group_count (ucast (x :: byte)) < 3" for x
  proof -
    have "unat (ucast x :: u64) < 2 ^ (4 * 2)"
      using unsigned_less [of x, where 'a = nat] by (simp add: unsigned_ucast_eq take_bit_nat_eq_self)
    from group_count_le [OF this] show ?thesis by simp
  qed
  have half: "group_count v < 5" if "unat v < 2 ^ 16" for v
    using group_count_le [of v 4] that by simp
  have "unat (ucast (y :: u16) :: u64) < 2 ^ 16" for y
    using unsigned_less [of y, where 'a = nat] by (simp add: unsigned_ucast_eq take_bit_nat_eq_self)
  then have expo: "group_count (ucast (y :: u16)) < 5" for y by (rule half)
  have "group_count v < 17" for v using group_count_bounds [of v] by simp
  then show ?thesis using byte half [OF assms(2)] expo
    by (simp add: number_fields_def number_limits_def Let_def)
qed

lemma uint_room_less: "uint_room n u g \<Longrightarrow> k \<le> n \<Longrightarrow> uint_room k u g"
  by (auto simp: uint_room_def elim: uint_roomy_less)

lemma json_roomy_less:
  assumes "json_roomy m n" and "k \<le> n"
  shows "json_roomy m k"
proof -
  have "list_all2 (uint_room k) (m_numbers m) number_limits"
    using assms by (auto simp: json_roomy_def elim!: list_all2_mono dest: uint_room_less)
  with assms show ?thesis by (auto simp: json_roomy_def dest: roomy_less)
qed

lemma json_roomy_kind:
  assumes "json_roomy m (Suc k)"
  shows "codable (kinds_of m s, kind_code x)" and "length (kinds_of m s) = 18"
    and "json_roomy (kind_adapt m s x) k"
proof -
  have "kinds_of m s \<in> set (m_kinds m)" using assms by (auto simp: json_roomy_def kinds_of_def)
  then have r: "roomy (kinds_of m s) (Suc k)" "length (kinds_of m s) = 18"
    using assms by (auto simp: json_roomy_def)
  have x: "kind_code x < length (kinds_of m s)" using kind_code_less [of x] r(2) by (simp del: kind_code_less)
  show "codable (kinds_of m s, kind_code x)" by (rule roomy_codable [OF r(1) x])
  show "length (kinds_of m s) = 18" by (rule r(2))
  show "json_roomy (kind_adapt m s x) k"
    using json_roomy_less [OF assms, of k] roomy_bump [OF r(1) x] r(2)
    by (auto simp: json_roomy_def kind_adapt_def dest!: subsetD [OF set_update_subset_insert])
qed

lemma json_roomy_payload:
  assumes "json_roomy m (Suc k)" and "token_ok tok" and "\<not> char_kind (token_kind tok)" and "small_fraction tok"
  shows "payload_accepted (token_kind tok) m (bare tok)" and "json_roomy (payload_adapt m (bare tok)) k"
proof -
  consider (space) x where "token_kind tok = JSON_TOKEN_WHITESPACE" "payload tok = Character x" "x \<in> set JTOK_WHITESPACE_CHARS"
    | (number) n where "token_kind tok = JSON_TOKEN_NUMBER" "payload tok = Number n" "number_ok n"
    | (other) "token_kind tok \<noteq> JSON_TOKEN_WHITESPACE" "token_kind tok \<noteq> JSON_TOKEN_NUMBER"
    using assms(2) by (cases "token_kind tok = JSON_TOKEN_NUMBER"; cases "token_kind tok = JSON_TOKEN_WHITESPACE")
      (auto simp: token_ok_def)
  then have "(\<forall>p\<in>set (payload_script m (bare tok)). codable p) \<and> json_roomy (payload_adapt m (bare tok)) k"
  proof cases
    case space
    have r: "roomy (m_space m) (Suc k)" "space_symbol x < length (m_space m)"
      using assms(1) space_symbol(2) [OF space(3)] by (simp_all add: json_roomy_def)
    with space json_roomy_less [OF assms(1), of k] roomy_codable [OF r] roomy_bump [OF r] show ?thesis
      by (simp add: bare_def payload_script_def payload_adapt_def json_roomy_def)
  next
    case number
    have "list_all2 (uint_room (Suc k)) (m_numbers m) number_limits" using assms(1) by (simp add: json_roomy_def)
    from fields_room [OF this number_fits [OF number(3)]] assms(4) number json_roomy_less [OF assms(1), of k]
    show ?thesis
      by (simp add: small_fraction_def bare_def payload_script_def payload_adapt_def json_roomy_def
          number_script_def number_adapt_def)
  next
    case other
    with json_roomy_less [OF assms(1), of k] show ?thesis
      by (simp add: bare_def payload_script_def payload_adapt_def simple_token_def)
  qed
  then show "payload_accepted (token_kind tok) m (bare tok)" "json_roomy (payload_adapt m (bare tok)) k"
    using bare_ok [OF assms(2,3)] by (simp_all add: payload_accepted_def)
qed

lemma length_payload_script: "length (payload_script m tok) \<le> 102"
proof -
  have f: "length (fields_script ps ms) \<le> 17 * length ps" for ps ms
  proof (induction ps arbitrary: ms)
    case (Cons p ps)
    obtain present v where "p = (present, v)" by (cases p)
    then have "length (field_script p (hd ms)) \<le> 17" using length_uint_script by auto
    with Cons.IH [of "tl ms"] show ?case by simp
  qed simp
  have "length (number_script m n) \<le> 102" for n using f [of "number_fields n"] by (simp add: number_script_def)
  then show ?thesis by (simp add: payload_script_def split: token_payload.split)
qed

section \<open>Fresh tables\<close>

definition json_fresh :: json_model where
  "json_fresh = \<lparr>m_kinds = replicate 11 (replicate 18 1), m_space = replicate 4 1,
     m_numbers = [uint_fresh JSON_NUMBER_FLAGS_MAX, uint_fresh (-1), uint_fresh 80, uint_fresh 65535,
       uint_fresh 80, uint_fresh 65535]\<rparr>"

lemma msb_index_between:
  assumes "2 ^ k \<le> unat v" and "unat v < 2 ^ Suc k"
  shows "most_significant_bit_index v = int k"
proof -
  have "v \<noteq> 0" using assms(1) by auto
  then obtain j where j: "most_significant_bit_index v = int j" "2 ^ j \<le> unat v" "unat v < 2 ^ Suc j"
    by (rule msb_index_nonzero)
  have "(2 :: nat) ^ j < 2 ^ Suc k" "(2 :: nat) ^ k < 2 ^ Suc j"
    using le_less_trans [OF j(2) assms(2)] le_less_trans [OF assms(1) j(3)] by simp_all
  then have "j < Suc k" "k < Suc j" by (simp_all only: power_strict_increasing_iff)
  then show ?thesis using j(1) by simp
qed

lemma json_uint_symbols: "uint_symbols JSON_NUMBER_FLAGS_MAX = 3" "uint_symbols (-1) = 17"
  "uint_symbols 80 = 3" "uint_symbols 65535 = 5"
proof -
  have m: "JSON_NUMBER_FLAGS_MAX = 127" by (simp add: JSON_NUMBER_FLAGS_MAX_def)
  show "uint_symbols JSON_NUMBER_FLAGS_MAX = 3" "uint_symbols (-1) = 17"
    "uint_symbols 80 = 3" "uint_symbols 65535 = 5"
    using msb_index_between [of 6 127] msb_index_between [of 63 "-1"] msb_index_between [of 6 80]
      msb_index_between [of 15 65535] by (simp_all add: m uint_symbols_def unsigned_minus_1_eq_mask mask_eq_exp_minus_1)
qed

lemma json_roomy_fresh: "n \<le> 2 ^ 28 \<Longrightarrow> json_roomy json_fresh n"
  using uint_roomy_fresh [of n]
  by (simp add: json_roomy_def json_fresh_def roomy_def sum_list_replicate number_limits_def uint_room_def
      json_uint_symbols)

lemma json_tables_init_correct:
  assumes "296 * k < arena_free c"
  shows "\<exists>ts c'. json_tables_init_loop k c = Some (ts, c') \<and>
     list_all2 ftable_repr ts (replicate k (replicate 18 1)) \<and>
     arena_free c \<le> arena_free c' + 296 * k \<and> ctx_error c' = ctx_error c"
  using assms
proof (induction k arbitrary: c)
  case (Suc k)
  let ?flags = "FTABLE_INIT_ONE OR FTABLE_INCLUDE_EOF"
  have freqs: "init_frequencies 17 ?flags = replicate 18 1"
    by (simp add: init_frequencies_def ftable_get_init_value_def ftable_get_eof_length_padding_def
        FTABLE_INIT_ONE_def FTABLE_INCLUDE_EOF_def push_bit_eq_mult numeral_eq_Suc)
  from ftable_init_correct [of 17 c ?flags] Suc.prems obtain t c1 where
    t: "ftable_init c 17 ?flags = Some (t, c1)" "ftable_repr t (replicate 18 1)"
      "arena_free c \<le> arena_free c1 + 296" "ctx_error c1 = ctx_error c" unfolding freqs by auto
  have "296 * k < arena_free c1" using Suc.prems t(3) by simp
  from Suc.IH [OF this] t show ?case by (auto simp: JSON_TOKEN_MAX_def)
qed simp

lemma json_compression_base_init_correct:
  assumes "10000 < arena_free c"
  shows "\<exists>b c'. json_compression_base_init c = Some (b, c') \<and> base_at JSON_STATE_START b json_fresh \<and>
     arena_free c \<le> arena_free c' + 9000 \<and> ctx_error c' = ctx_error c"
proof -
  let ?flags = "FTABLE_INIT_ONE OR FTABLE_EXCLUDE_EOF"
  from json_tables_init_correct [of 11 c] assms obtain ts c1 where
    ts: "json_tables_init_loop 11 c = Some (ts, c1)"
      "list_all2 ftable_repr ts (replicate 11 (replicate 18 1))"
      "arena_free c \<le> arena_free c1 + 3256" "ctx_error c1 = ctx_error c" by auto
  from ftable_init_correct [of 4 c1 ?flags] assms ts(3) obtain ws c2 where
    ws: "ftable_init c1 4 ?flags = Some (ws, c2)" "ftable_repr ws (replicate 4 1)"
      "arena_free c1 \<le> arena_free c2 + 88" "ctx_error c2 = ctx_error c1"
    unfolding init_frequencies_plain by auto
  from ftable_init_correct [of 8 c2 ?flags] assms ts(3) ws(3) obtain es c3 where
    es: "ftable_init c2 8 ?flags = Some (es, c3)"
      "arena_free c2 \<le> arena_free c3 + 152" "ctx_error c3 = ctx_error c2" by auto
  from uint_freq_tables_init_correct [of c3 "-1"] assms ts(3) ws(3) es(2) obtain ip c4 where
    ip: "uint_freq_tables_init c3 (-1) = Some (ip, c4)" "uint_repr ip (uint_fresh (-1))"
      "arena_free c3 \<le> arena_free c4 + 860" "ctx_error c4 = ctx_error c3" by auto
  from uint_freq_tables_init_correct [of c4 65535] assms ts(3) ws(3) es(2) ip(3) obtain fp c5 where
    fp: "uint_freq_tables_init c4 65535 = Some (fp, c5)" "uint_repr fp (uint_fresh 65535)"
      "arena_free c4 \<le> arena_free c5 + 860" "ctx_error c5 = ctx_error c4" by auto
  from uint_freq_tables_init_correct [of c5 80] assms ts(3) ws(3) es(2) ip(3) fp(3) obtain fz c6 where
    fz: "uint_freq_tables_init c5 80 = Some (fz, c6)" "uint_repr fz (uint_fresh 80)"
      "arena_free c5 \<le> arena_free c6 + 860" "ctx_error c6 = ctx_error c5" by auto
  from uint_freq_tables_init_correct [of c6 65535] assms ts(3) ws(3) es(2) ip(3) fp(3) fz(3) obtain ep c7 where
    ep: "uint_freq_tables_init c6 65535 = Some (ep, c7)" "uint_repr ep (uint_fresh 65535)"
      "arena_free c6 \<le> arena_free c7 + 860" "ctx_error c7 = ctx_error c6" by auto
  from uint_freq_tables_init_correct [of c7 80] assms ts(3) ws(3) es(2) ip(3) fp(3) fz(3) ep(3) obtain ez c8 where
    ez: "uint_freq_tables_init c7 80 = Some (ez, c8)" "uint_repr ez (uint_fresh 80)"
      "arena_free c7 \<le> arena_free c8 + 860" "ctx_error c8 = ctx_error c7" by auto
  from uint_freq_tables_init_correct [of c8 JSON_NUMBER_FLAGS_MAX] assms ts(3) ws(3) es(2) ip(3) fp(3) fz(3) ep(3) ez(3)
  obtain fl c9 where
    fl: "uint_freq_tables_init c8 JSON_NUMBER_FLAGS_MAX = Some (fl, c9)" "uint_repr fl (uint_fresh JSON_NUMBER_FLAGS_MAX)"
      "arena_free c8 \<le> arena_free c9 + 860" "ctx_error c9 = ctx_error c8" by auto
  note runs = ts(1) ws(1) es(1) ip(1) fp(1) fz(1) ep(1) ez(1) fl(1)
  have "json_compression_base_init c = Some (\<lparr>jtables = ts, whitespaces = ws, escape_sequences = es,
      current_state = JSON_STATE_START, number_int_tables = ip, number_frac_zero_tables = fz,
      number_frac_tables = fp, number_expo_zero_tables = ez, number_expo_tables = ep, number_flag_tables = fl\<rparr>, c9)"
    using runs by (simp add: json_compression_base_init_def JSON_STATE_MAX_def JTOK_WHITESPACE_CHARS_def
        JTOK_ESCAPE_SEQ_CHARS_def JSON_MAX_NUMBER_LEADING_ZEROES_def json_compression_base_reset_def
        del: json_tables_init_loop.simps)
  moreover have "arena_free c \<le> arena_free c9 + 9000" using ts(3) ws(3) es(2) ip(3) fp(3) fz(3) ep(3) ez(3) fl(3) by simp
  ultimately show ?thesis
    using ts(2,4) ws(2,4) es(3) ip(2,4) fp(2,4) fz(2,4) ep(2,4) ez(2,4) fl(2,4)
    by (simp add: base_at_def json_repr_def json_fresh_def number_tables_def)
qed

end
