(* ===== verification/Json_Stream.thy ===== *)
theory Json_Stream
  imports Json_Codec
begin

text \<open>
  What a compressed JSON text is, apart from the two programs that write and read it: the tables
  and the parser stack at some point of the stream (\<open>json_place\<close>), and the scripts that lead from
  one place to another together with the text they stand for (\<open>coded\<close>, \<open>finished\<close>).
\<close>

record json_place =
  p_tables :: json_model
  p_strings :: string_model
  p_history :: "byte list"
  p_stack :: "json_state list"

definition p_state :: "json_place \<Rightarrow> json_state" where
  "p_state y = hd (p_stack y)"

definition p_kinds :: "json_place \<Rightarrow> nat list" where
  "p_kinds y = kinds_of (p_tables y) (p_state y)"

definition in_string :: "json_place \<Rightarrow> bool" where
  "in_string y \<longleftrightarrow> json_is_string_state (p_state y)"

definition quote_byte :: byte where
  "quote_byte = chr (CHR 0x22)"

text \<open>A kind the table of the current state can code.\<close>

definition kind_fits :: "json_place \<Rightarrow> nat \<Rightarrow> bool" where
  "kind_fits y s \<longleftrightarrow> codable (p_kinds y, s) \<and> length (p_kinds y) = 18"

definition after_token :: "json_place \<Rightarrow> json_token \<Rightarrow> json_state list \<Rightarrow> json_place" where
  "after_token y tok st =
     y\<lparr>p_tables := payload_adapt (kind_adapt (p_tables y) (p_state y) (token_kind tok)) tok, p_stack := st\<rparr>"

definition token_script :: "json_place \<Rightarrow> json_token \<Rightarrow> script" where
  "token_script y tok = (p_kinds y, kind_code (token_kind tok)) #
     payload_script (kind_adapt (p_tables y) (p_state y) (token_kind tok)) tok"

definition after_string :: "json_place \<Rightarrow> item list \<Rightarrow> json_state list \<Rightarrow> json_place" where
  "after_string y its st =
     y\<lparr>p_tables := kind_adapt (p_tables y) (p_state y) JSON_TOKEN_STRING_DELIMITER,
       p_strings := it.adapt_list (p_strings y) (its @ [End_Of_String]),
       p_history := p_history y @ expand (p_history y) its, p_stack := st\<rparr>"

definition string_script :: "json_place \<Rightarrow> item list \<Rightarrow> script" where
  "string_script y its = it.list_script (p_strings y) (its @ [End_Of_String])"

definition items_fit :: "json_place \<Rightarrow> item list \<Rightarrow> bool" where
  "items_fit y its \<longleftrightarrow> it.accepts_list (p_strings y) (its @ [End_Of_String]) \<and> End_Of_String \<notin> set its \<and>
     (\<forall>i\<in>set its. item_fits i) \<and> length its \<le> length (expand (p_history y) its)"

section \<open>Scripts and their text\<close>

inductive coded :: "json_place \<Rightarrow> script \<Rightarrow> byte list \<Rightarrow> json_place \<Rightarrow> bool" for x where
  coded_nothing: "coded x [] [] x"
| coded_token: "coded x script bytes y \<Longrightarrow> \<not> in_string y \<Longrightarrow>
    jsm_next 512 (p_stack y) (token_kind tok) = Some st \<Longrightarrow> kind_fits y (kind_code (token_kind tok)) \<Longrightarrow>
    payload_accepted (token_kind tok) (kind_adapt (p_tables y) (p_state y) (token_kind tok)) tok \<Longrightarrow>
    small_fraction tok \<Longrightarrow>
    coded x (script @ token_script y tok) (bytes @ token_bytes tok) (after_token y tok st)"
| coded_string: "coded x script bytes y \<Longrightarrow> in_string y \<Longrightarrow>
    jsm_next 512 (p_stack y) JSON_TOKEN_STRING_DELIMITER = Some st \<Longrightarrow>
    kind_fits y (kind_code JSON_TOKEN_STRING_DELIMITER) \<Longrightarrow> items_fit y its \<Longrightarrow>
    coded x (script @ string_script y its @ [(p_kinds y, kind_code JSON_TOKEN_STRING_DELIMITER)])
      (bytes @ expand (p_history y) its @ [quote_byte]) (after_string y its st)"

definition json_eof :: nat where
  "json_eof = Suc JSON_TOKEN_MAX"

inductive finished :: "json_place \<Rightarrow> script \<Rightarrow> byte list \<Rightarrow> bool" for x where
  finished_outside: "coded x script bytes y \<Longrightarrow> \<not> in_string y \<Longrightarrow> kind_fits y json_eof \<Longrightarrow>
    finished x (script @ [(p_kinds y, json_eof)]) bytes"
| finished_inside: "coded x script bytes y \<Longrightarrow> in_string y \<Longrightarrow> kind_fits y json_eof \<Longrightarrow> items_fit y its \<Longrightarrow>
    finished x (script @ string_script y its @ [(p_kinds y, json_eof)]) (bytes @ expand (p_history y) its)"

lemma string_script_codable: "items_fit y its \<Longrightarrow> p \<in> set (string_script y its) \<Longrightarrow> codable p"
  unfolding items_fit_def string_script_def using it.list_script_codable by blast

lemma coded_codable: "coded x script bytes y \<Longrightarrow> p \<in> set script \<Longrightarrow> codable p"
  by (induction rule: coded.induct)
    (auto simp: token_script_def kind_fits_def payload_accepted_def dest: string_script_codable)

lemma finished_codable: "finished x script bytes \<Longrightarrow> \<forall>p\<in>set script. codable p"
  by (induction rule: finished.induct)
    (auto simp: kind_fits_def dest: string_script_codable coded_codable)

text \<open>Where every stream begins.\<close>

definition json_start :: json_place where
  "json_start = \<lparr>p_tables = json_fresh, p_strings = string_fresh, p_history = zeroes,
     p_stack = [JSON_STATE_START, JSON_STATE_ROOT]\<rparr>"

lemma json_start_outside: "p_state json_start = JSON_STATE_START" "\<not> in_string json_start"
  by (simp_all add: in_string_def p_state_def json_start_def json_is_string_state_def)

section \<open>Room\<close>

text \<open>Every byte of text uses up at most two units of room in the tables of a place.\<close>

definition place_roomy :: "json_place \<Rightarrow> nat \<Rightarrow> bool" where
  "place_roomy y k \<longleftrightarrow> json_roomy (p_tables y) (2 * k) \<and> string_roomy (p_strings y) k"

lemma place_roomy_less: "place_roomy y n \<Longrightarrow> k \<le> n \<Longrightarrow> place_roomy y k"
  by (auto simp: place_roomy_def elim: json_roomy_less string_roomy_less)

lemma token_bytes_nonempty: "token_ok tok \<Longrightarrow> token_bytes tok \<noteq> []"
proof -
  have "packed_bytes v (unat n) \<noteq> []" if "1 \<le> n" for v and n :: byte
    using that length_packed_bytes [of v "unat n"] by (metis length_0_conv not_one_le_zero unat_eq_zero word_le_nat_alt unsigned_1)
  then show "token_ok tok \<Longrightarrow> token_bytes tok \<noteq> []"
    by (cases "token_kind tok") (auto simp: token_ok_def token_bytes_def chrs_def character_of_def unicode_of_def
        number_of_def number_bytes_def UTF8_BOM_def)
qed

lemma after_token_roomy:
  assumes "place_roomy y (Suc k)" and "token_ok tok" and "\<not> char_kind (token_kind tok)" and "bare tok = tok"
    and "small_fraction tok"
  shows "kind_fits y (kind_code (token_kind tok))"
    and "payload_accepted (token_kind tok) (kind_adapt (p_tables y) (p_state y) (token_kind tok)) tok"
    and "place_roomy (after_token y tok st) k"
proof -
  have r: "json_roomy (p_tables y) (Suc (Suc (2 * k)))" "string_roomy (p_strings y) (Suc k)"
    using assms(1) by (simp_all add: place_roomy_def)
  note kind = json_roomy_kind [OF r(1)]
  note pay = json_roomy_payload [OF kind(3) assms(2,3,5), of "p_state y" "token_kind tok"]
  show "kind_fits y (kind_code (token_kind tok))" using kind(1,2) by (simp add: kind_fits_def p_kinds_def)
  show "payload_accepted (token_kind tok) (kind_adapt (p_tables y) (p_state y) (token_kind tok)) tok"
    using pay(1) by (simp add: assms(4))
  show "place_roomy (after_token y tok st) k"
    using pay(2) string_roomy_less [OF r(2), of k] by (simp add: place_roomy_def after_token_def assms(4))
qed

lemma after_string_roomy:
  assumes "place_roomy y (Suc k)" and "items_fit y its" and "length (expand (p_history y) its) \<le> k"
  shows "kind_fits y (kind_code JSON_TOKEN_STRING_DELIMITER)"
    and "place_roomy (after_string y its st) (k - length (expand (p_history y) its))"
proof -
  define L where "L = length (expand (p_history y) its)"
  have r: "json_roomy (p_tables y) (Suc (Suc (2 * k)))" "string_roomy (p_strings y) (Suc k)"
    using assms(1) by (simp_all add: place_roomy_def)
  note kind = json_roomy_kind [OF r(1)]
  show "kind_fits y (kind_code JSON_TOKEN_STRING_DELIMITER)"
    using kind(1) [of "p_state y" JSON_TOKEN_STRING_DELIMITER] kind(2) by (simp add: kind_fits_def p_kinds_def)
  have its: "length its \<le> L" "\<forall>i\<in>set (its @ [End_Of_String]). item_fits i"
    using assms(2) by (auto simp: items_fit_def L_def item_fits_def)
  have "string_roomy (p_strings y) (length (its @ [End_Of_String]) + (k - L))"
    using string_roomy_less [OF r(2), of "length (its @ [End_Of_String]) + (k - L)"] its(1) assms(3)
    by (simp add: L_def)
  from string_roomy_list [OF this its(2)] json_roomy_less [OF kind(3), of "2 * (k - L)" "p_state y" JSON_TOKEN_STRING_DELIMITER]
  show "place_roomy (after_string y its st) (k - length (expand (p_history y) its))"
    by (simp add: place_roomy_def after_string_def L_def)
qed

lemma place_roomy_eof:
  assumes "place_roomy y (Suc k)"
  shows "kind_fits y json_eof"
proof -
  have "json_roomy (p_tables y) (Suc (Suc (2 * k)))" using assms by (simp add: place_roomy_def)
  then have r: "roomy (p_kinds y) (Suc (Suc (2 * k)))" "length (p_kinds y) = 18"
    by (auto simp: json_roomy_def p_kinds_def kinds_of_def)
  have "json_eof < length (p_kinds y)" by (simp add: r(2) json_eof_def JSON_TOKEN_MAX_def)
  from roomy_codable [OF r(1) this] r(2) show ?thesis by (simp add: kind_fits_def)
qed

lemma string_state_hd: "json_is_string_state (hd st) \<longleftrightarrow> hd st = JSON_STATE_STRING \<or> hd st = JSON_STATE_OBJECT_KEY"
  by (simp add: json_is_string_state_def)

lemma chars_in_strings:
  assumes "jsm_next n st k = Some st'"
  shows "char_kind k \<Longrightarrow> json_is_string_state (hd st)"
    and "json_is_string_state (hd st) \<Longrightarrow> k \<noteq> JSON_TOKEN_STRING_DELIMITER \<Longrightarrow> char_kind k \<and> st' = st"
  using assms
  by (cases "(n, st, k)" rule: jsm_next.cases;
      auto simp: char_kind_def start_value_def or_space_def scalar_kind_def json_is_string_state_def split: if_splits)+

lemma outside_strings:
  "jsm_next n (p_stack y) k = Some st \<Longrightarrow> \<not> in_string y \<Longrightarrow> \<not> char_kind k"
  using chars_in_strings(1) by (auto simp: in_string_def p_state_def)

lemma coded_roomy:
  assumes "coded x script bytes y" and "place_roomy x K" and "length bytes \<le> K"
  shows "place_roomy y (K - length bytes) \<and> length script \<le> 140 * length bytes"
  using assms(1,3)
proof (induction rule: coded.induct)
  case coded_nothing
  then show ?case using assms(2) by simp
next
  case (coded_token script bytes y tok st)
  have ok: "token_ok tok" "bare tok = tok" using coded_token.hyps(5) by (simp_all add: payload_accepted_def)
  have long: "0 < length (token_bytes tok)" using token_bytes_nonempty [OF ok(1)] by simp
  define k where "k = K - length bytes - 1"
  have "length bytes + length (token_bytes tok) \<le> K" using coded_token.prems by simp
  then have Suc: "K - length bytes = Suc k" using long unfolding k_def by arith
  have IH: "place_roomy y (Suc k)" "length script \<le> 140 * length bytes"
    using coded_token.IH coded_token.prems Suc by simp_all
  have "place_roomy (after_token y tok st) k"
    by (rule after_token_roomy(3) [OF IH(1) ok(1) outside_strings [OF coded_token.hyps(3,2)] ok(2) coded_token.hyps(6)])
  moreover have "K - length (bytes @ token_bytes tok) \<le> k" using long unfolding k_def length_append by arith
  ultimately have "place_roomy (after_token y tok st) (K - length (bytes @ token_bytes tok))"
    by (rule place_roomy_less)
  moreover have "length (token_script y tok) \<le> 140 * length (token_bytes tok)"
  proof -
    have "length (token_script y tok) \<le> 103"
      using length_payload_script by (simp add: token_script_def)
    also have "\<dots> \<le> 140 * length (token_bytes tok)" using long by arith
    finally show ?thesis .
  qed
  ultimately show ?case using IH(2) by simp
next
  case (coded_string script bytes y st its)
  define k where "k = K - length bytes - 1"
  define L where "L = length (expand (p_history y) its)"
  have Suc: "K - length bytes = Suc k" and L: "L \<le> k" using coded_string.prems by (simp_all add: k_def L_def)
  have IH: "place_roomy y (Suc k)" "length script \<le> 140 * length bytes"
    using coded_string.IH coded_string.prems Suc by simp_all
  have "place_roomy (after_string y its st) (k - L)"
    using after_string_roomy(2) [OF IH(1) coded_string.hyps(5)] L by (simp add: L_def)
  moreover have "K - length (bytes @ expand (p_history y) its @ [quote_byte]) = k - L"
    by (simp add: k_def L_def)
  moreover have "length (string_script y its) \<le> 35 * (L + 1)"
    using string_script_length [of "p_strings y" "its @ [End_Of_String]"] coded_string.hyps(5)
    by (simp add: string_script_def items_fit_def L_def)
  ultimately show ?case using IH(2) by (simp add: L_def)
qed

section \<open>Fractions\<close>

text \<open>The fractions of a text: after a point, the run of digits is a number the tables can hold.\<close>

definition is_digit :: "byte \<Rightarrow> bool" where
  "is_digit b \<longleftrightarrow> chr CHR ''0'' \<le> b \<and> b \<le> chr CHR ''9''"

definition decimal_value :: "byte list \<Rightarrow> nat" where
  "decimal_value bs = foldl (\<lambda>n b. 10 * n + (unat b - 48)) 0 bs"

primrec short_fractions :: "byte list \<Rightarrow> bool" where
  "short_fractions [] \<longleftrightarrow> True"
| "short_fractions (b # bs) \<longleftrightarrow>
     (b = chr CHR ''.'' \<longrightarrow> decimal_value (takeWhile is_digit bs) < 2 ^ 16) \<and> short_fractions bs"

lemma decimal_value_grows: "foldl (\<lambda>n b. 10 * n + (unat b - 48)) a bs \<ge> (a :: nat)" for bs :: "byte list"
proof (induction bs arbitrary: a)
  case (Cons b bs)
  show ?case using Cons.IH [of "10 * a + (unat b - 48)"] by simp
qed simp

lemma decimal_value_append: "decimal_value xs \<le> decimal_value (xs @ ys)"
  by (simp add: decimal_value_def decimal_value_grows)

lemma decimal_value_digits:
  "foldl (\<lambda>n b. 10 * n + (unat b - 48)) 0 (digits n) = n \<and> (\<forall>b\<in>set (digits n). is_digit b)"
proof (induction n rule: digits.induct)
  case (1 n)
  have "chr CHR ''0'' + of_nat (n mod 10) = (of_nat (48 + n mod 10) :: byte)" by (simp add: chr_def)
  moreover have "unat (of_nat (48 + n mod 10) :: byte) = 48 + n mod 10"
    by (simp only: unat_of_nat) simp
  ultimately have d: "unat (chr CHR ''0'' + of_nat (n mod 10)) = 48 + n mod 10" by simp
  then have "is_digit (chr CHR ''0'' + of_nat (n mod 10))"
    by (simp add: is_digit_def word_le_nat_alt chr_def)
  then show ?case using 1 d by (subst (1 2) digits.simps) (auto simp: decimal_value_def)
qed

lemma decimal_value_fraction:
  "decimal_value (zeroes_text z @ digits_unless_zero n) = n \<and>
   (\<forall>b\<in>set (zeroes_text z @ digits_unless_zero n). is_digit b)"
proof -
  have "foldl (\<lambda>n b. 10 * n + (unat b - 48)) 0 (replicate k (chr CHR ''0'')) = (0 :: nat)" for k
    by (induction k) (simp_all add: chr_def)
  moreover have "is_digit (chr CHR ''0'')" by (simp add: is_digit_def chr_def)
  ultimately show ?thesis using decimal_value_digits [of n]
    by (auto simp: decimal_value_def zeroes_text_def digits_unless_zero_def)
qed

lemma short_fractions_append: "short_fractions (xs @ ys) \<Longrightarrow> short_fractions ys"
  by (induction xs) simp_all

lemma short_fractions_token:
  assumes "short_fractions (token_bytes tok @ rest)" and "token_ok tok" and "\<not> char_kind (token_kind tok)"
  shows "small_fraction (bare tok)"
proof (cases "token_kind tok = JSON_TOKEN_NUMBER")
  case True
  with assms(2) obtain n where n: "payload tok = Number n" "number_ok n" by (auto simp: token_ok_def)
  have "unat (fraction_part n) < 2 ^ 16"
  proof (cases "flag_set (number_flags n) JSON_NUMBER_HAS_FRACTION")
    case False
    then show ?thesis using n(2) has_flags(2) [of "number_flags n"] by (simp add: number_ok_def has_frac_def)
  next
    case frac: True
    let ?ds = "zeroes_text (fraction_leading_zeroes n) @ digits_unless_zero (unat (fraction_part n))"
    define pre where "pre = (if flag_set (number_flags n) JSON_NUMBER_IS_NEGATIVE then chrs ''-'' else []) @
      digits (unat (integer_part n))"
    define post where "post = exponent_bytes n @ rest"
    have "token_bytes tok @ rest = pre @ chr CHR ''.'' # ?ds @ post"
      unfolding pre_def post_def using True n frac by (auto simp: token_bytes_def number_of_def number_bytes_def fraction_bytes_def)
    with assms(1) have "short_fractions (chr CHR ''.'' # ?ds @ post)" by (metis short_fractions_append)
    then have "decimal_value (takeWhile is_digit (?ds @ post)) < 2 ^ 16" by simp
    moreover have "takeWhile is_digit (?ds @ post) = ?ds @ takeWhile is_digit post"
      using decimal_value_fraction by (intro takeWhile_append2) blast
    moreover have "unat (fraction_part n) \<le> decimal_value (?ds @ takeWhile is_digit post)"
      using decimal_value_append [of ?ds] decimal_value_fraction by metis
    ultimately show ?thesis by simp
  qed
  then show ?thesis using True n by (simp add: small_fraction_def bare_def)
next
  case False
  with assms(2,3) show ?thesis
    by (cases "token_kind tok") (auto simp: small_fraction_def bare_def simple_token_def token_ok_def)
qed

end
