(* ===== verification/Json_Compressor.thy ===== *)
theory Json_Compressor
  imports Json_Stream String_Compressor
begin

text \<open>
  \<open>src/json/json_compressor.c\<close>.  The encoder and the string compressor it points to are shared
  with the client, so they are passed and returned with the context.  \<open>compressing\<close> is the
  invariant: what has been written so far stands for the bytes consumed so far, up to the bytes
  that still wait in the string compressor.
\<close>

record json_compressor =
  jc_base :: json_compression_base
  jc_tokenizer :: json_tokenizer

section \<open>Operations\<close>

definition json_compressor_deinit :: "json_compressor \<Rightarrow> json_compressor" where
  "json_compressor_deinit j = \<lparr>jc_base = json_compression_base_deinit (jc_base j),
     jc_tokenizer = json_tokenizer_deinit (jc_tokenizer j)\<rparr>"

definition json_compressor_init :: "ctx \<Rightarrow> reader \<Rightarrow> (json_compressor \<times> ctx) option" where
  "json_compressor_init c r = do {
     (b, c) \<leftarrow> json_compression_base_init c;
     (t, c) \<leftarrow> json_tokenizer_init c r;
     Some (\<lparr>jc_base = b, jc_tokenizer = t\<rparr>, c)
   }"

definition json_compressor_reset :: "json_compressor \<Rightarrow> json_compressor option" where
  "json_compressor_reset j = do {
     t \<leftarrow> json_tokenizer_reset (jc_tokenizer j);
     Some \<lparr>jc_base = json_compression_base_reset (jc_base j), jc_tokenizer = t\<rparr>
   }"

text \<open>The loop that hands the packed bytes of a character on, lowest first.\<close>

primrec write_packed_loop :: "nat \<Rightarrow> u64 \<Rightarrow> string_compressor \<Rightarrow> acod_encoder \<Rightarrow> ctx \<Rightarrow>
    (string_compressor \<times> acod_encoder \<times> ctx) option" where
  "write_packed_loop 0 v s e c = Some (s, e, c)"
| "write_packed_loop (Suc n) v s e c = do {
     (s, e, c) \<leftarrow> strcomp_write s e c (ucast (v AND 0xFF));
     write_packed_loop n (drop_bit 8 v) s e c
   }"

definition json_compressor_write_string_token ::
  "string_compressor \<Rightarrow> acod_encoder \<Rightarrow> ctx \<Rightarrow> json_token \<Rightarrow> (string_compressor \<times> acod_encoder \<times> ctx) option" where
  "json_compressor_write_string_token s e c tok = (case token_kind tok of
       JSON_TOKEN_UNICODE_CHARACTER \<Rightarrow> do {
         (v, n) \<leftarrow> payload_unicode (payload tok);
         write_packed_loop (unat n) v s e c
       }
     | JSON_TOKEN_ESCAPE_SEQUENCE \<Rightarrow> do {
         x \<leftarrow> payload_character (payload tok);
         (s, e, c) \<leftarrow> strcomp_write s e c (chr (CHR 0x5C));
         strcomp_write s e c x
       }
     | JSON_TOKEN_ESCAPED_UNICODE_CHARCODE \<Rightarrow> do {
         (v, n) \<leftarrow> payload_unicode (payload tok);
         (s, e, c) \<leftarrow> strcomp_write s e c (chr (CHR 0x5C));
         (s, e, c) \<leftarrow> strcomp_write s e c (chr CHR ''u'');
         write_packed_loop (unat n) v s e c
       }
     | _ \<Rightarrow> strcomp_flush s e c)"

definition json_compressor_write_nonstring_token ::
  "json_compressor \<Rightarrow> acod_encoder \<Rightarrow> ctx \<Rightarrow> json_token \<Rightarrow> (json_compressor \<times> acod_encoder \<times> ctx) option" where
  "json_compressor_write_nonstring_token j e c tok = do {
     t \<leftarrow> json_compression_base_get_current_ftable (jc_base j);
     (e, c) \<leftarrow> acod_encoder_write e c t (int (kind_code (token_kind tok)));
     t \<leftarrow> ftable_increment t (int (kind_code (token_kind tok)));
     state \<leftarrow> json_tokenizer_get_current_state (jc_tokenizer j);
     let b = (set_current_ftable (jc_base j) t)\<lparr>current_state := state\<rparr>;
     (b, e, c) \<leftarrow> write_payload b e c tok;
     Some (j\<lparr>jc_base := b\<rparr>, e, c)
   }"

definition json_compressor_finalize ::
  "json_compressor \<Rightarrow> string_compressor \<Rightarrow> acod_encoder \<Rightarrow> ctx \<Rightarrow>
   (json_compressor \<times> string_compressor \<times> acod_encoder \<times> ctx) option" where
  "json_compressor_finalize j s e c = do {
     (s, e, c) \<leftarrow> (if json_is_string_state (current_state (jc_base j)) then strcomp_flush s e c
                   else Some (s, e, c));
     t \<leftarrow> json_compression_base_get_current_ftable (jc_base j);
     (e, c) \<leftarrow> acod_encoder_write e c t (ftable_get_eof_symbol t);
     j \<leftarrow> json_compressor_reset j;
     Some (j, s, e, c)
   }"

definition json_compressor_process_next_token ::
  "json_compressor \<Rightarrow> string_compressor \<Rightarrow> acod_encoder \<Rightarrow> ctx \<Rightarrow>
   (bool \<times> json_compressor \<times> string_compressor \<times> acod_encoder \<times> ctx) option" where
  "json_compressor_process_next_token j s e c = do {
     (tok, t, c) \<leftarrow> json_tokenizer_parse_next (jc_tokenizer j) c;
     let j = j\<lparr>jc_tokenizer := t\<rparr>;
     if token_kind tok = JSON_TOKEN_INVALID then Some (False, j, s, e, c)
     else if \<not> json_is_string_state (current_state (jc_base j)) then do {
       (j, e, c) \<leftarrow> json_compressor_write_nonstring_token j e c tok;
       Some (True, j, s, e, c)
     } else do {
       (s, e, c) \<leftarrow> json_compressor_write_string_token s e c tok;
       (j, e, c) \<leftarrow> (if token_kind tok = JSON_TOKEN_STRING_DELIMITER
                     then json_compressor_write_nonstring_token j e c tok
                     else Some (j, e, c));
       Some (True, j, s, e, c)
     }
   }"

text \<open>A client's loop: tokens until the input is used up or one is refused.\<close>

partial_function (option) json_compress_loop ::
  "json_compressor \<Rightarrow> string_compressor \<Rightarrow> acod_encoder \<Rightarrow> ctx \<Rightarrow>
   (json_compressor \<times> string_compressor \<times> acod_encoder \<times> ctx) option" where
  "json_compress_loop j s e c = do {
     n \<leftarrow> jtok_available (jc_tokenizer j);
     if n > 0 then do {
       (ok, j, s, e, c) \<leftarrow> json_compressor_process_next_token j s e c;
       if ok then json_compress_loop j s e c else Some (j, s, e, c)
     } else Some (j, s, e, c)
   }"

section \<open>Strings\<close>

lemma write_packed_loop_all: "write_packed_loop n v s e c = strcomp_write_all s e c (packed_bytes v n)"
proof (induction n arbitrary: v s e c)
  case (Suc n)
  have "v AND 0xFF = take_bit 8 v" by (simp add: take_bit_eq_mask mask_eq_exp_minus_1)
  then have low: "ucast (v AND 0xFF) = (ucast v :: byte)"
    by (auto simp: bit_simps intro!: bit_word_eqI)
  show ?case by (simp add: packed_bytes_Suc low Suc.IH)
qed simp

lemma write_string_token_chars:
  assumes "token_ok tok" and "char_kind (token_kind tok)"
  shows "json_compressor_write_string_token s e c tok = strcomp_write_all s e c (token_bytes tok)"
proof -
  have packed: "write_packed_loop n v = (\<lambda>s e c. strcomp_write_all s e c (packed_bytes v n))" for n v
    by (intro ext write_packed_loop_all)
  from assms consider (unicode) v n where "token_kind tok = JSON_TOKEN_UNICODE_CHARACTER" "payload tok = Unicode v n"
    | (escape) x where "token_kind tok = JSON_TOKEN_ESCAPE_SEQUENCE" "payload tok = Character x"
    | (charcode) v where "token_kind tok = JSON_TOKEN_ESCAPED_UNICODE_CHARCODE" "payload tok = Unicode v 4"
    by (auto simp: token_ok_def char_kind_def)
  then show ?thesis
    by cases (simp_all add: json_compressor_write_string_token_def packed token_bytes_def
        unicode_of_def character_of_def charcode_of_def)
qed

section \<open>The invariant\<close>

definition compressing ::
  "(nat \<Rightarrow> u64 \<Rightarrow> byte list option) \<Rightarrow> json_place \<Rightarrow> json_place \<Rightarrow> json_compressor \<Rightarrow> string_compressor \<Rightarrow>
   acod_encoder \<Rightarrow> ctx \<Rightarrow> byte list \<Rightarrow> bool" where
  "compressing M x y j s e c bytes \<longleftrightarrow> (\<exists>script past its pending. coded x script past y \<and>
     base_at (p_state y) (jc_base j) (p_tables y) \<and>
     compressor_holds M (p_strings y) (p_history y) script s e c its pending \<and> length pending < 4095 \<and>
     (\<not> in_string y \<longrightarrow> its = [] \<and> pending = []) \<and> bytes = past @ expand (p_history y) its @ pending)"

definition parsing :: "json_place \<Rightarrow> json_compressor \<Rightarrow> bool" where
  "parsing y j \<longleftrightarrow> jsm_repr 512 (tok_jsm (jc_tokenizer j)) (p_stack y) \<and> jsm_inv 512 (p_stack y)"

text \<open>There is room for \<open>K\<close> bytes in all.\<close>

definition stream_room :: "json_place \<Rightarrow> nat \<Rightarrow> bool" where
  "stream_room x K \<longleftrightarrow> place_roomy x K \<and> K \<le> 2 ^ 28"

lemma coded_room:
  assumes "coded x script past y" and "stream_room x K" and "length past \<le> K"
  shows "place_roomy y (K - length past)" and "string_room (p_strings y) script (K - length past)"
    and "length script \<le> 140 * 2 ^ 28"
proof -
  have r: "place_roomy y (K - length past)" "length script \<le> 140 * length past"
    using coded_roomy [OF assms(1) _ assms(3)] assms(2) by (simp_all add: stream_room_def)
  have "K \<le> 2 ^ 28" using assms(2) by (simp add: stream_room_def)
  then have K: "length past \<le> 2 ^ 28" "K - length past \<le> 2 ^ 28" using assms(3) by linarith+
  show "place_roomy y (K - length past)" by (rule r(1))
  show "length script \<le> 140 * 2 ^ 28" using r(2) K(1) by simp
  then have "length script + 35 * (K - length past) \<le> 140 * 2 ^ 28 + 35 * 2 ^ 28" using K(2) by simp
  also have "(140 * 2 ^ 28 + 35 * 2 ^ 28 :: nat) < 2 ^ 56" by simp
  finally show "string_room (p_strings y) script (K - length past)"
    using r(1) by (simp add: string_room_def place_roomy_def)
qed

text \<open>The kind and the payload of one token under the table of the current state.\<close>

lemma write_nonstring_correct:
  assumes "base_at (p_state y) (jc_base j) (p_tables y)" and "kind_fits y (kind_code (token_kind tok))"
    and "payload_accepted (token_kind tok) (kind_adapt (p_tables y) (p_state y) (token_kind tok)) (bare tok)"
    and "encoder_holds M e c pre" and "length pre \<le> 2 ^ 50"
    and "json_tokenizer_get_current_state (jc_tokenizer j) = Some s'"
  shows "\<exists>b' e' c'. json_compressor_write_nonstring_token j e c tok = Some (j\<lparr>jc_base := b'\<rparr>, e', c') \<and>
     base_at s' b' (p_tables (after_token y (bare tok) st)) \<and>
     encoder_holds M e' c' (pre @ token_script y (bare tok))"
proof -
  from assms(1) obtain t where t: "json_compression_base_get_current_ftable (jc_base j) = Some t"
    "ftable_repr t (p_kinds y)" unfolding p_kinds_def by (rule current_ftable)
  have "length pre + 1 < 2 ^ 56" using assms(5) by simp
  from encode_symbol_correct [OF t(2) _ assms(4) this, of "kind_code (token_kind tok)"] assms(2)
  obtain u e1 c1 where u: "encode_symbol t e c (int (kind_code (token_kind tok))) = Some (u, e1, c1)"
    "ftable_repr u (bump (p_kinds y) (kind_code (token_kind tok)))"
    "encoder_holds M e1 c1 (pre @ [(p_kinds y, kind_code (token_kind tok))])" by (auto simp: kind_fits_def)
  have "base_at s' ((set_current_ftable (jc_base j) u)\<lparr>current_state := s'\<rparr>)
      (kind_adapt (p_tables y) (p_state y) (token_kind tok))"
    using base_at_kind [OF assms(1)] u(2) by (auto simp: p_kinds_def intro: base_at_state)
  from write_payload_correct [OF this assms(3) u(3)]
    length_payload_script [of "kind_adapt (p_tables y) (p_state y) (token_kind tok)" "bare tok"] assms(5)
  obtain b' e' c' where "write_payload ((set_current_ftable (jc_base j) u)\<lparr>current_state := s'\<rparr>) e1 c1 tok =
      Some (b', e', c')" "base_at s' b' (p_tables (after_token y (bare tok) st))"
    "encoder_holds M e' c' (pre @ token_script y (bare tok))"
    by (auto simp: write_payload_bare after_token_def token_script_def)
  then show ?thesis using t(1) u(1) assms(6)
    by (auto simp: json_compressor_write_nonstring_token_def encode_symbol_def split: Option.bind_splits)
qed

section \<open>Tokens keep the invariant\<close>

lemma compressing_chars:
  assumes "compressing M x y j s e c bytes" and "in_string y" and "stream_room x K"
    and "length (bytes @ cs) < K"
  shows "\<exists>s' e' c'. strcomp_write_all s e c cs = Some (s', e', c') \<and> compressing M x y j s' e' c' (bytes @ cs)"
proof -
  from assms(1) obtain script past its pending where
    h: "coded x script past y" "base_at (p_state y) (jc_base j) (p_tables y)"
      "compressor_holds M (p_strings y) (p_history y) script s e c its pending" "length pending < 4095"
      "bytes = past @ expand (p_history y) its @ pending" by (auto simp: compressing_def)
  have "length past \<le> K" using assms(4) h(5) by simp
  note room = coded_room [OF h(1) assms(3) this]
  have "length (expand (p_history y) its @ pending @ cs) < K - length past" using assms(4) h(5) by simp
  from strcomp_write_all_correct [OF h(3,4) this room(2)] h(1,2,5) assms(2) show ?thesis
    unfolding compressing_def by fastforce
qed

lemma compressing_token:
  assumes "compressing M x y j s e c bytes" and "\<not> in_string y" and "stream_room x K"
    and "length bytes < K" and "token_ok tok" and small: "small_fraction (bare tok)"
    and "jsm_next 512 (p_stack y) (token_kind tok) = Some st"
    and "json_tokenizer_get_current_state (jc_tokenizer j) = Some (hd st)"
  shows "\<exists>b' e' c'. json_compressor_write_nonstring_token j e c tok = Some (j\<lparr>jc_base := b'\<rparr>, e', c') \<and>
     compressing M x (after_token y (bare tok) st) (j\<lparr>jc_base := b'\<rparr>) s e' c' (bytes @ token_bytes tok)"
proof -
  from assms(1,2) obtain script where
    h: "coded x script bytes y" "base_at (p_state y) (jc_base j) (p_tables y)"
      "compressor_holds M (p_strings y) (p_history y) script s e c [] []" by (auto simp: compressing_def)
  have "length bytes \<le> K" using assms(4) by simp
  note room = coded_room [OF h(1) assms(3) this]
  have "place_roomy y (Suc (K - length bytes - 1))" using room(1) assms(4) by (simp add: Suc_diff_Suc)
  note outside = outside_strings [OF assms(7,2)]
  note bare = bare_ok [OF assms(5) outside] bare_bare token_kind_bare
  note fit = after_token_roomy [OF \<open>place_roomy y (Suc _)\<close> bare(1) _ bare(2) small, unfolded bare(3), OF outside]
  have enc: "encoder_holds M e c script" using h(3) by (simp add: compressor_holds_def)
  have "length script \<le> 2 ^ 50" using room(3) by simp
  from write_nonstring_correct [OF h(2) fit(1,2) enc this assms(8), of st] obtain b' e' c' where
    w: "json_compressor_write_nonstring_token j e c tok = Some (j\<lparr>jc_base := b'\<rparr>, e', c')"
      "base_at (hd st) b' (p_tables (after_token y (bare tok) st))"
      "encoder_holds M e' c' (script @ token_script y (bare tok))" by blast
  have "coded x (script @ token_script y (bare tok)) (bytes @ token_bytes (bare tok)) (after_token y (bare tok) st)"
    using coded_token [OF h(1) assms(2) _ _ _ small] assms(7) fit(1,2) by simp
  with w(2,3) h(3) token_bytes_bare [OF outside]
  have "compressing M x (after_token y (bare tok) st) (j\<lparr>jc_base := b'\<rparr>) s e' c' (bytes @ token_bytes tok)"
    unfolding compressing_def
    by (intro exI [of _ "script @ token_script y (bare tok)"] exI [of _ "bytes @ token_bytes tok"]
        exI [of _ "[]"] conjI) (auto simp: p_state_def after_token_def compressor_holds_def)
  with w(1) show ?thesis by blast
qed

text \<open>The end of a string: what waits is flushed, the end mark and the delimiter follow.\<close>

lemma compressing_flush:
  assumes "compressing M x y j s e c bytes" and "in_string y" and "stream_room x K" and "length bytes < K"
  shows "\<exists>s' e' c' script past its. strcomp_flush s e c = Some (s', e', c') \<and> coded x script past y \<and>
     bytes = past @ expand (p_history y) its \<and> items_fit y its \<and>
     base_at (p_state y) (jc_base j) (p_tables y) \<and>
     compressor_holds M (it.adapt_list (p_strings y) (its @ [End_Of_String]))
       (p_history y @ expand (p_history y) its) (script @ string_script y its) s' e' c' [] []"
proof -
  from assms(1) obtain script past its pending where
    h: "coded x script past y" "base_at (p_state y) (jc_base j) (p_tables y)"
      "compressor_holds M (p_strings y) (p_history y) script s e c its pending"
      "bytes = past @ expand (p_history y) its @ pending" by (auto simp: compressing_def)
  have "length past \<le> K" using assms(4) h(4) by simp
  note room = coded_room [OF h(1) assms(3) this]
  have small: "length (expand (p_history y) its @ pending) < K - length past" using assms(4) h(4) by simp
  from strcomp_flush_correct [OF h(3) small room(2)] obtain s' e' c' its' where
    f: "strcomp_flush s e c = Some (s', e', c')" "expand (p_history y) its' = expand (p_history y) its @ pending"
      "\<forall>i\<in>set its'. item_fits i" "End_Of_String \<notin> set its'" "length its' \<le> length (expand (p_history y) its')"
      "compressor_holds M (it.adapt_list (p_strings y) (its' @ [End_Of_String]))
         (p_history y @ expand (p_history y) its') (script @ string_script y its') s' e' c' [] []"
    by (auto simp: string_script_def)
  have "string_roomy (p_strings y) (length (its' @ [End_Of_String]))"
    using string_roomy_less [of "p_strings y" "K - length past"] room(2) small f(2,5)
    by (simp add: string_room_def)
  moreover have "\<forall>i\<in>set (its' @ [End_Of_String]). item_fits i" using f(3) by (auto simp: item_fits_def)
  ultimately have "it.accepts_list (p_strings y) (its' @ [End_Of_String])" by (rule string_roomy_accepts)
  with f(3-5) have "items_fit y its'" by (simp add: items_fit_def)
  moreover have "bytes = past @ expand (p_history y) its'" using f(2) h(4) by simp
  ultimately show ?thesis using f(1,6) h(1,2) by blast
qed

lemma compressing_delimiter:
  assumes "compressing M x y j s e c bytes" and "in_string y" and "stream_room x K" and "Suc (length bytes) < K"
    and "token_kind tok = JSON_TOKEN_STRING_DELIMITER"
    and "jsm_next 512 (p_stack y) JSON_TOKEN_STRING_DELIMITER = Some st"
    and "json_tokenizer_get_current_state (jc_tokenizer j) = Some (hd st)"
  shows "\<exists>s' e1 c1 b' e' c' y'. strcomp_flush s e c = Some (s', e1, c1) \<and>
     json_compressor_write_nonstring_token j e1 c1 tok = Some (j\<lparr>jc_base := b'\<rparr>, e', c') \<and>
     compressing M x y' (j\<lparr>jc_base := b'\<rparr>) s' e' c' (bytes @ token_bytes tok) \<and> p_stack y' = st"
proof -
  have "length bytes < K" using assms(4) by simp
  from compressing_flush [OF assms(1-3) this] obtain s' e1 c1 script past its where
    f: "strcomp_flush s e c = Some (s', e1, c1)" "coded x script past y"
      "bytes = past @ expand (p_history y) its" "items_fit y its" "base_at (p_state y) (jc_base j) (p_tables y)"
      "compressor_holds M (it.adapt_list (p_strings y) (its @ [End_Of_String]))
         (p_history y @ expand (p_history y) its) (script @ string_script y its) s' e1 c1 [] []" by blast
  have "length past \<le> K" using assms(4) f(3) by simp
  note room = coded_room [OF f(2) assms(3) this]
  define k where "k = K - length past - 1"
  have "place_roomy y (Suc k)" "length (expand (p_history y) its) \<le> k"
    using room(1) assms(4) f(3) by (simp_all add: k_def Suc_diff_Suc)
  from after_string_roomy(1) [OF this(1) f(4) this(2)]
  have fits: "kind_fits y (kind_code (token_kind tok))" by (simp only: assms(5))
  let ?tok = "simple_token JSON_TOKEN_STRING_DELIMITER"
  have bare: "bare tok = ?tok" using assms(5) by (simp add: bare_def)
  have script: "token_script y ?tok = [(p_kinds y, kind_code JSON_TOKEN_STRING_DELIMITER)]"
    and tables: "p_tables (after_token y ?tok st) = p_tables (after_string y its st)"
    and bytes: "token_bytes tok = [quote_byte]"
    using assms(5) by (simp_all add: token_script_def payload_script_def after_token_def after_string_def
        payload_adapt_def simple_token_def token_bytes_def quote_byte_def)
  have acc: "payload_accepted (token_kind tok) (kind_adapt (p_tables y) (p_state y) (token_kind tok)) (bare tok)"
    using assms(5) by (simp add: bare payload_accepted_def payload_script_def simple_token_def token_ok_def bare_def)
  have enc: "encoder_holds M e1 c1 (script @ string_script y its)" using f(6) by (simp add: compressor_holds_def)
  have "length (string_script y its) \<le> 35 * K"
    using string_script_length [of "p_strings y" "its @ [End_Of_String]"] f(3,4) assms(4)
    by (simp add: items_fit_def string_script_def)
  then have "length (script @ string_script y its) \<le> 2 ^ 50"
    using room(3) assms(3) by (simp add: stream_room_def)
  from write_nonstring_correct [OF f(5) fits acc enc this assms(7), of st] obtain b' e' c' where
    w: "json_compressor_write_nonstring_token j e1 c1 tok = Some (j\<lparr>jc_base := b'\<rparr>, e', c')"
      "base_at (hd st) b' (p_tables (after_string y its st))"
      "encoder_holds M e' c' (script @ string_script y its @ [(p_kinds y, kind_code JSON_TOKEN_STRING_DELIMITER)])"
    unfolding bare script tables by auto
  have "coded x (script @ string_script y its @ [(p_kinds y, kind_code JSON_TOKEN_STRING_DELIMITER)])
      (past @ expand (p_history y) its @ [quote_byte]) (after_string y its st)"
    using coded_string [OF f(2) assms(2,6) _ f(4)] fits by (simp only: assms(5))
  with w(2,3) f(3,6) have "compressing M x (after_string y its st) (j\<lparr>jc_base := b'\<rparr>) s' e' c' (bytes @ token_bytes tok)"
    unfolding compressing_def bytes
    by (intro exI [of _ "script @ string_script y its @ [(p_kinds y, kind_code JSON_TOKEN_STRING_DELIMITER)]"]
        exI [of _ "past @ expand (p_history y) its @ [quote_byte]"] exI [of _ "[]"] conjI)
      (auto simp: p_state_def after_string_def compressor_holds_def)
  moreover have "p_stack (after_string y its st) = st" by (simp add: after_string_def)
  ultimately show ?thesis using f(1) w(1) by blast
qed

section \<open>Steps and runs\<close>

text \<open>
  With the parser at \<open>st\<close> and the bytes \<open>token_bytes tok @ rest\<close> before it, the tokenizer answers \<open>tok\<close>
  and is left at \<open>st'\<close> before \<open>rest\<close>.
\<close>

definition tokenizes :: "json_state list \<Rightarrow> json_token \<Rightarrow> byte list \<Rightarrow> json_state list \<Rightarrow> bool" where
  "tokenizes st tok rest st' \<longleftrightarrow> token_ok tok \<and> jsm_next 512 st (token_kind tok) = Some st' \<and>
     (\<exists>t c t'. jsm_repr 512 (tok_jsm t) st \<and> at_last (tok_reader t) (token_bytes tok @ rest) \<and>
        json_tokenizer_parse_next t c = Some (tok, t', c) \<and>
        jsm_repr 512 (tok_jsm t') st' \<and> at_last (tok_reader t') rest)"

text \<open>
  From \<open>st0\<close>, the tokenizer answers tokens one after the other; their bytes are \<open>taken\<close>, and it is left
  at \<open>st\<close> before \<open>rest\<close>.
\<close>

inductive lexes :: "json_state list \<Rightarrow> byte list \<Rightarrow> json_state list \<Rightarrow> byte list \<Rightarrow> bool" for st0 where
  lexes_nothing: "lexes st0 [] st0 rest"
| lexes_token: "lexes st0 taken st (token_bytes tok @ rest) \<Longrightarrow> tokenizes st tok rest st' \<Longrightarrow>
    lexes st0 (taken @ token_bytes tok) st' rest"

text \<open>The tokenizer refuses to go on with the bytes \<open>rest\<close>.\<close>

definition refuses :: "json_state list \<Rightarrow> byte list \<Rightarrow> bool" where
  "refuses st rest \<longleftrightarrow> (\<exists>t c t'. jsm_repr 512 (tok_jsm t) st \<and> at_last (tok_reader t) rest \<and>
     json_tokenizer_parse_next t c = Some (INVALID_JSON_TOKEN, t', c))"

lemma process_next_token_cases:
  assumes "compressing M x y j s e c bytes" and "parsing y j"
    and "at_last (tok_reader (jc_tokenizer j)) (b # bs)"
    and "stream_room x K" and "length (bytes @ b # bs) < K" and "short_fractions (b # bs)"
  obtains (refused) j' where "json_compressor_process_next_token j s e c = Some (False, j', s, e, c)"
      "compressing M x y j' s e c bytes" "refuses (p_stack y) (b # bs)"
      "\<exists>st. jsm_repr 512 (tok_jsm (jc_tokenizer j')) st"
    | (taken) y' j' s' e' c' tok rest where
      "json_compressor_process_next_token j s e c = Some (True, j', s', e', c')"
      "compressing M x y' j' s' e' c' (bytes @ token_bytes tok)" "parsing y' j'"
      "at_last (tok_reader (jc_tokenizer j')) rest" "b # bs = token_bytes tok @ rest" "token_ok tok"
      "tokenizes (p_stack y) tok rest (p_stack y')"
proof -
  have p: "jsm_repr 512 (tok_jsm (jc_tokenizer j)) (p_stack y)" "jsm_inv 512 (p_stack y)"
    using assms(2) by (simp_all add: parsing_def)
  have cur: "current_state (jc_base j) = p_state y" using assms(1) by (auto simp: compressing_def base_at_def)
  from p assms(3) show thesis
  proof (cases rule: parse_next_cases [where c = c])
    case (invalid t' st')
    let ?j = "j\<lparr>jc_tokenizer := t'\<rparr>"
    have "compressing M x y ?j s e c bytes" using assms(1) by (simp add: compressing_def)
    moreover have "refuses (p_stack y) (b # bs)" using p(1) assms(3) invalid(1) by (auto simp: refuses_def)
    moreover have "json_compressor_process_next_token j s e c = Some (False, ?j, s, e, c)"
      using invalid(1) by (simp add: json_compressor_process_next_token_def INVALID_JSON_TOKEN_def simple_token_def)
    ultimately show thesis using refused invalid(4) by auto
  next
    case (token tok t' st' rest)
    let ?j = "j\<lparr>jc_tokenizer := t'\<rparr>"
    have c: "compressing M x y ?j s e c bytes" using assms(1) by (simp add: compressing_def)
    have inv: "jsm_inv 512 st'" by (rule jsm_next_inv [OF p(2) token(3)])
    obtain u r where st': "st' = u # r" using inv by (cases st') auto
    have top: "json_tokenizer_get_current_state (jc_tokenizer ?j) = Some (hd st')"
      using jsm_current token(4) by (simp add: json_tokenizer_get_current_state_def st')
    have valid: "token_kind tok \<noteq> JSON_TOKEN_INVALID" by (rule token_ok_valid [OF token(2)])
    have len: "length (bytes @ token_bytes tok) < K" "length bytes < K"
      using assms(5) unfolding token(6) by simp_all
    have long: "0 < length (token_bytes tok)" using token_bytes_nonempty [OF token(2)] by simp
    have lex: "tokenizes (p_stack y) tok rest st'"
      unfolding tokenizes_def using token p(1) assms(3) by (metis token(6))
    have step: thesis if "json_compressor_process_next_token j s e c = Some (True, j', s', e', c')"
      "compressing M x y' j' s' e' c' (bytes @ token_bytes tok)" "jc_tokenizer j' = t'" "p_stack y' = st'"
      for y' j' s' e' c'
      using that taken [of j' s' e' c' y' tok rest] token inv lex by (simp add: parsing_def)
    show thesis
    proof (cases "in_string y")
      case False
      have small: "small_fraction (bare tok)"
        using short_fractions_token [of tok rest] assms(6) token(2,6) outside_strings [OF token(3) False] by simp
      from compressing_token [OF c False assms(4) len(2) token(2) small token(3) top] obtain b' e' c' where
        "json_compressor_write_nonstring_token ?j e c tok = Some (?j\<lparr>jc_base := b'\<rparr>, e', c')"
        "compressing M x (after_token y (bare tok) st') (?j\<lparr>jc_base := b'\<rparr>) s e' c' (bytes @ token_bytes tok)"
        by blast
      with step show thesis using token(1) valid False cur
        by (auto simp: json_compressor_process_next_token_def in_string_def after_token_def)
    next
      case inside: True
      show thesis
      proof (cases "token_kind tok = JSON_TOKEN_STRING_DELIMITER")
        case True
        have "Suc (length bytes) < K" using len(1) long unfolding length_append by linarith
        from compressing_delimiter [OF c inside assms(4) this True token(3) [unfolded True] top]
        obtain s' e1 c1 b' e' c' y' where d: "strcomp_flush s e c = Some (s', e1, c1)"
          "json_compressor_write_nonstring_token ?j e1 c1 tok = Some (?j\<lparr>jc_base := b'\<rparr>, e', c')"
          "compressing M x y' (?j\<lparr>jc_base := b'\<rparr>) s' e' c' (bytes @ token_bytes tok)" "p_stack y' = st'" by blast
        show thesis
          by (rule step [OF _ d(3) _ d(4)]) (use d(1,2) token(1) inside cur True in
            \<open>simp_all add: json_compressor_process_next_token_def in_string_def
              json_compressor_write_string_token_def\<close>)
      next
        case False
        have ch: "char_kind (token_kind tok)" and same: "st' = p_stack y"
          using chars_in_strings(2) [OF token(3)] inside False by (simp_all add: in_string_def p_state_def)
        from compressing_chars [OF c inside assms(4) len(1)] obtain s' e' c' where
          d: "strcomp_write_all s e c (token_bytes tok) = Some (s', e', c')"
            "compressing M x y ?j s' e' c' (bytes @ token_bytes tok)" by blast
        show thesis
          by (rule step [OF _ d(2)]) (use d(1) token(1) inside cur False valid same in
            \<open>simp_all add: json_compressor_process_next_token_def in_string_def
              write_string_token_chars [OF token(2) ch]\<close>)
      qed
    qed
  qed
qed

lemma json_compress_loop_correct:
  assumes "compressing M x y j s e c bytes" and "parsing y j" and "lexes (p_stack x) bytes (p_stack y) input"
    and "at_last (tok_reader (jc_tokenizer j)) input"
    and "stream_room x K" and "length (bytes @ input) < K" and "short_fractions input"
  shows "\<exists>y' j' s' e' c' taken rest. json_compress_loop j s e c = Some (j', s', e', c') \<and>
     compressing M x y' j' s' e' c' (bytes @ taken) \<and> (\<exists>st. jsm_repr 512 (tok_jsm (jc_tokenizer j')) st) \<and>
     input = taken @ rest \<and> lexes (p_stack x) (bytes @ taken) (p_stack y') rest \<and>
     (rest = [] \<or> refuses (p_stack y') rest)"
  using assms(1-4,6,7)
proof (induction "length input" arbitrary: y j s e c bytes input rule: less_induct)
  case less
  have avail: "jtok_available (jc_tokenizer j) = Some (int (length input))"
    using reader_bytes_available [OF at_last_bytes [OF less.prems(4)]] by (simp add: jtok_available_def)
  show ?case
  proof (cases input)
    case Nil
    then have "json_compress_loop j s e c = Some (j, s, e, c)"
      using avail by (subst json_compress_loop.simps) simp
    then show ?thesis using less.prems Nil by (auto simp: parsing_def)
  next
    case (Cons b bs)
    note input = less.prems(4-6) [unfolded Cons]
    from less.prems(1,2) input(1) assms(5) input(2,3) show ?thesis
    proof (cases rule: process_next_token_cases)
      case (refused j')
      then have "json_compress_loop j s e c = Some (j', s, e, c)"
        using avail Cons by (subst json_compress_loop.simps) simp
      then show ?thesis using refused(2-4) less.prems(3) Cons
        by (intro exI [of _ y] exI [of _ j'] exI [of _ s] exI [of _ e] exI [of _ c] exI [of _ "[]"]
            exI [of _ input]) simp
    next
      case (taken y' j' s' e' c' tok rest)
      have eq: "input = token_bytes tok @ rest" using taken(5) Cons by simp
      have shorter: "length rest < length input" using token_bytes_nonempty [OF taken(6)] by (simp add: eq)
      have long: "length ((bytes @ token_bytes tok) @ rest) < K" "short_fractions rest"
        using less.prems(5,6) short_fractions_append by (auto simp: eq)
      have "lexes (p_stack x) (bytes @ token_bytes tok) (p_stack y') rest"
        using less.prems(3) taken(7) unfolding eq by (rule lexes_token)
      from less.hyps [OF shorter taken(2,3) this taken(4)] long
      obtain y2 j2 s2 e2 c2 taken2 rest2 where
        r: "json_compress_loop j' s' e' c' = Some (j2, s2, e2, c2)"
          "compressing M x y2 j2 s2 e2 c2 ((bytes @ token_bytes tok) @ taken2)"
          "\<exists>st. jsm_repr 512 (tok_jsm (jc_tokenizer j2)) st" "rest = taken2 @ rest2"
          "lexes (p_stack x) ((bytes @ token_bytes tok) @ taken2) (p_stack y2) rest2"
          "rest2 = [] \<or> refuses (p_stack y2) rest2" by blast
      have "json_compress_loop j s e c = Some (j2, s2, e2, c2)"
        using avail Cons taken(1) r(1) by (subst json_compress_loop.simps) simp
      then show ?thesis using r(2-6)
        by (intro exI [of _ y2] exI [of _ j2] exI [of _ s2] exI [of _ e2] exI [of _ c2]
            exI [of _ "token_bytes tok @ taken2"] exI [of _ rest2]) (simp add: eq)
    qed
  qed
qed

section \<open>The end of the stream\<close>

lemma write_eof:
  assumes "base_at (p_state y) b (p_tables y)" and "kind_fits y json_eof" and "encoder_holds M e c pre"
    and "length pre \<le> 2 ^ 50"
  obtains t e' c' where "json_compression_base_get_current_ftable b = Some t"
    and "acod_encoder_write e c t (ftable_get_eof_symbol t) = Some (e', c')"
    and "encoder_holds M e' c' (pre @ [(p_kinds y, json_eof)])"
proof -
  from assms(1) obtain t where t: "json_compression_base_get_current_ftable b = Some t"
    "ftable_repr t (p_kinds y)" unfolding p_kinds_def by (rule current_ftable)
  have eof: "ftable_get_eof_symbol t = int json_eof"
    using json_eof_symbol [OF t(2)] assms(2) by (simp add: kind_fits_def json_eof_def JSON_TOKEN_MAX_def)
  have "length pre < 2 ^ 58" using assms(4) by simp
  from encoder_write_correct [OF assms(3) t(2) _ this, of json_eof] assms(2) obtain e' c' where
    w: "acod_encoder_write e c t (ftable_get_eof_symbol t) = Some (e', c')"
      "encoder_holds M e' c' (pre @ [(p_kinds y, json_eof)])" by (auto simp: eof kind_fits_def)
  show thesis by (rule that [OF t(1) w])
qed

lemma json_compressor_reset_total:
  assumes "jsm_repr 512 (tok_jsm (jc_tokenizer j)) st"
  obtains j' where "json_compressor_reset j = Some j'"
    and "jsm_repr 512 (tok_jsm (jc_tokenizer j')) [JSON_STATE_START, JSON_STATE_ROOT]"
    and "current_state (jc_base j') = JSON_STATE_START"
  using jsm_reset_repr [OF assms] that
  by (auto simp: json_compressor_reset_def json_tokenizer_reset_def json_compression_base_reset_def)

lemma json_compressor_finalize_correct:
  assumes "compressing M x y j s e c bytes" and "jsm_repr 512 (tok_jsm (jc_tokenizer j)) st"
    and "stream_room x K" and "length bytes < K"
  shows "\<exists>j' s' e' c' script. json_compressor_finalize j s e c = Some (j', s', e', c') \<and>
     finished x script bytes \<and> encoder_holds M e' c' script \<and> length script < 2 ^ 56"
proof -
  have cur: "current_state (jc_base j) = p_state y" using assms(1) by (auto simp: compressing_def base_at_def)
  from json_compressor_reset_total [OF assms(2)] obtain j' where j': "json_compressor_reset j = Some j'" by blast
  have eof: "kind_fits y json_eof" if "coded x script past y" "length past < K" for script past
    using coded_room(1) [OF that(1) assms(3)] that(2) place_roomy_eof [of y "K - length past - 1"]
    by (simp add: Suc_diff_Suc)
  show ?thesis
  proof (cases "in_string y")
    case False
    with assms(1) obtain script where h: "coded x script bytes y"
      "base_at (p_state y) (jc_base j) (p_tables y)" "encoder_holds M e c script"
      by (auto simp: compressing_def compressor_holds_def)
    have "length script \<le> 2 ^ 50" using coded_room(3) [OF h(1) assms(3)] assms(4) by simp
    with write_eof [OF h(2) eof [OF h(1) assms(4)] h(3)] obtain t e' c' where
      w: "json_compression_base_get_current_ftable (jc_base j) = Some t"
        "acod_encoder_write e c t (ftable_get_eof_symbol t) = Some (e', c')"
        "encoder_holds M e' c' (script @ [(p_kinds y, json_eof)])" by metis
    have "json_compressor_finalize j s e c = Some (j', s, e', c')"
      using w(1,2) j' False cur by (simp add: json_compressor_finalize_def in_string_def)
    with w(3) finished_outside [OF h(1) False eof [OF h(1) assms(4)]] \<open>length script \<le> 2 ^ 50\<close>
    show ?thesis by fastforce
  next
    case True
    from compressing_flush [OF assms(1) True assms(3,4)] obtain s1 e1 c1 script past its where
      f: "strcomp_flush s e c = Some (s1, e1, c1)" "coded x script past y"
        "bytes = past @ expand (p_history y) its" "items_fit y its" "base_at (p_state y) (jc_base j) (p_tables y)"
        "encoder_holds M e1 c1 (script @ string_script y its)" by (auto simp: compressor_holds_def)
    have past: "length past < K" using f(3) assms(4) by simp
    have "length (string_script y its) \<le> 35 * K"
      using string_script_length [of "p_strings y" "its @ [End_Of_String]"] f(3,4) assms(4)
      by (simp add: items_fit_def string_script_def)
    then have len: "length (script @ string_script y its) \<le> 2 ^ 50"
      using coded_room(3) [OF f(2) assms(3)] past assms(3) by (simp add: stream_room_def)
    from write_eof [OF f(5) eof [OF f(2) past] f(6) len] obtain t e' c' where
      w: "json_compression_base_get_current_ftable (jc_base j) = Some t"
        "acod_encoder_write e1 c1 t (ftable_get_eof_symbol t) = Some (e', c')"
        "encoder_holds M e' c' (script @ string_script y its @ [(p_kinds y, json_eof)])" by auto
    have "json_compressor_finalize j s e c = Some (j', s1, e', c')"
      using w(1,2) j' True cur f(1) by (simp add: json_compressor_finalize_def in_string_def)
    with w(3) finished_inside [OF f(2) True eof [OF f(2) past] f(4)] f(3) len show ?thesis by fastforce
  qed
qed

text \<open>A new compressor stands at the start of a stream.\<close>

lemma json_start_room: "K \<le> 2 ^ 27 \<Longrightarrow> stream_room json_start K"
  using json_roomy_fresh [of "2 * K"] string_roomy_fresh [of K]
  by (simp add: stream_room_def place_roomy_def json_start_def)

lemma json_compressor_init_correct:
  assumes "20000 < arena_free c0"
  shows "\<exists>j c'. json_compressor_init c0 r = Some (j, c') \<and> tok_reader (jc_tokenizer j) = r \<and>
     parsing json_start j \<and> ctx_error c' = ctx_error c0 \<and> arena_free c0 \<le> arena_free c' + 10000 \<and>
     (\<forall>s e c. compressor_holds M string_fresh zeroes [] s e c [] [] \<longrightarrow>
        compressing M json_start json_start j s e c [])"
proof -
  from json_compression_base_init_correct [of c0] assms obtain b c1 where
    b: "json_compression_base_init c0 = Some (b, c1)" "base_at JSON_STATE_START b json_fresh"
      "arena_free c0 \<le> arena_free c1 + 9000" "ctx_error c1 = ctx_error c0" by auto
  from json_tokenizer_init_correct [of c1 r] assms b(3) obtain t :: json_tokenizer and c2 where
    t: "json_tokenizer_init c1 r = Some (t, c2)" "tok_reader t = r"
      "jsm_repr 512 (tok_jsm t) [JSON_STATE_START, JSON_STATE_ROOT]"
      "arena_free c1 \<le> arena_free c2 + 512" "ctx_error c2 = ctx_error c1" by auto
  have "compressing M json_start json_start \<lparr>jc_base = b, jc_tokenizer = t\<rparr> s e c []"
    if "compressor_holds M string_fresh zeroes [] s e c [] []" for s e c
    unfolding compressing_def
    by (intro exI [of _ "[]"] exI [of _ "[] :: byte list"] exI [of _ "[] :: item list"])
      (use b(2) that coded_nothing in \<open>simp add: json_start_outside\<close>; simp add: json_start_def coded_nothing)
  then show ?thesis using b t by (auto simp: json_compressor_init_def parsing_def json_start_def)
qed

end
