(* ===== verification/Json_Detokenizer.thy ===== *)
theory Json_Detokenizer
  imports Json_Text Writer
begin

text \<open>
  \<open>src/json/json_detokenizer.c\<close>: a token is written byte by byte; the result is the number of
  bytes.  It writes \<open>token_bytes\<close> of the token.
\<close>

section \<open>Operations\<close>

lemma div_10_smaller: "v div 10 \<noteq> 0 \<Longrightarrow> unat (v div 10) < unat (v :: u64)"
  by (cases "v = 0") (auto simp: unat_div unat_gt_0)

function jdet_write_uint :: "writer \<Rightarrow> ctx \<Rightarrow> u64 \<Rightarrow> (int \<times> writer \<times> ctx) option" where
  "jdet_write_uint w c v =
     (let digit = v mod 10; rest = v div 10
      in do {
        (result, w, c) \<leftarrow> (if rest \<noteq> 0 then do {
                              (n, w, c) \<leftarrow> jdet_write_uint w c rest;
                              Some (1 + n, w, c)
                            } else Some (1, w, c));
        (w, c) \<leftarrow> writer_write_byte w c (chr CHR ''0'' + ucast digit);
        Some (result, w, c)
      })"
  by pat_completeness auto

termination
  by (relation "measure (\<lambda>(w, c, v). unat v)") (simp_all add: div_10_smaller)

declare jdet_write_uint.simps [simp del]

primrec jdet_zeroes_loop :: "nat \<Rightarrow> writer \<Rightarrow> ctx \<Rightarrow> (writer \<times> ctx) option" where
  "jdet_zeroes_loop 0 w c = Some (w, c)"
| "jdet_zeroes_loop (Suc n) w c = do { (w, c) \<leftarrow> writer_write_byte w c (chr CHR ''0''); jdet_zeroes_loop n w c }"

primrec jdet_unicode_loop :: "nat \<Rightarrow> writer \<Rightarrow> ctx \<Rightarrow> u64 \<Rightarrow> (writer \<times> ctx) option" where
  "jdet_unicode_loop 0 w c characters = Some (w, c)"
| "jdet_unicode_loop (Suc n) w c characters = do {
     (w, c) \<leftarrow> writer_write_byte w c (ucast (characters AND 0xFF));
     jdet_unicode_loop n w c (drop_bit 8 characters)
   }"

text \<open>One byte, then a result; a byte under a condition; zeroes and an optional number.\<close>

definition jdet_byte :: "writer \<Rightarrow> ctx \<Rightarrow> char \<Rightarrow> (int \<times> writer \<times> ctx) option" where
  "jdet_byte w c x = do { (w, c) \<leftarrow> writer_write_byte w c (chr x); Some (1, w, c) }"

definition jdet_bytes :: "writer \<Rightarrow> ctx \<Rightarrow> byte list \<Rightarrow> (int \<times> writer \<times> ctx) option" where
  "jdet_bytes w c bs = do { (w, c) \<leftarrow> writer_write_bytes w c bs; Some (int (length bs), w, c) }"

definition jdet_zeroes_and_uint :: "writer \<Rightarrow> ctx \<Rightarrow> int \<Rightarrow> byte \<Rightarrow> u64 \<Rightarrow> (int \<times> writer \<times> ctx) option" where
  "jdet_zeroes_and_uint w c result zeroes v = do {
     (w, c) \<leftarrow> jdet_zeroes_loop (unat zeroes) w c;
     let result = result + int (unat zeroes);
     if v \<noteq> 0 then do {
       (n, w, c) \<leftarrow> jdet_write_uint w c v;
       Some (result + n, w, c)
     } else Some (result, w, c)
   }"

definition jdet_write_fraction :: "writer \<Rightarrow> ctx \<Rightarrow> int \<Rightarrow> json_number_token \<Rightarrow> (int \<times> writer \<times> ctx) option" where
  "jdet_write_fraction w c result number =
     (if flag_set (number_flags number) JSON_NUMBER_HAS_FRACTION then do {
        (w, c) \<leftarrow> writer_write_byte w c (chr CHR ''.'');
        jdet_zeroes_and_uint w c (result + 1) (fraction_leading_zeroes number) (fraction_part number)
      } else Some (result, w, c))"

definition jdet_write_exponent :: "writer \<Rightarrow> ctx \<Rightarrow> int \<Rightarrow> json_number_token \<Rightarrow> (int \<times> writer \<times> ctx) option" where
  "jdet_write_exponent w c result number =
     (let flags = number_flags number
      in if flag_set flags JSON_NUMBER_HAS_EXPONENT then do {
        (w, c) \<leftarrow> writer_write_byte w c
           (chr (if flag_set flags JSON_NUMBER_EXPONENT_UPPERCASE then CHR ''E'' else CHR ''e''));
        (result, w, c) \<leftarrow>
          (if flag_set flags (JSON_NUMBER_EXPONENT_HAS_PLUS OR JSON_NUMBER_EXPONENT_IS_NEGATIVE) then do {
             (w, c) \<leftarrow> writer_write_byte w c
                (chr (if flag_set flags JSON_NUMBER_EXPONENT_HAS_PLUS then CHR ''+'' else CHR ''-''));
             Some (result + 2, w, c)
           } else Some (result + 1, w, c));
        jdet_zeroes_and_uint w c result (exponent_leading_zeroes number) (ucast (exponent_part number))
      } else Some (result, w, c))"

definition jdet_write_number :: "writer \<Rightarrow> ctx \<Rightarrow> json_number_token \<Rightarrow> (int \<times> writer \<times> ctx) option" where
  "jdet_write_number w c number = do {
     (result, w, c) \<leftarrow> (if flag_set (number_flags number) JSON_NUMBER_IS_NEGATIVE
                        then jdet_byte w c CHR ''-'' else Some (0, w, c));
     (n, w, c) \<leftarrow> jdet_write_uint w c (integer_part number);
     (result, w, c) \<leftarrow> jdet_write_fraction w c (result + n) number;
     jdet_write_exponent w c result number
   }"

definition json_detokenizer_write :: "writer \<Rightarrow> ctx \<Rightarrow> json_token \<Rightarrow> (int \<times> writer \<times> ctx) option" where
  "json_detokenizer_write w c token = do {
     check (token_kind token \<noteq> JSON_TOKEN_INVALID);
     (case token_kind token of
        JSON_TOKEN_OBJECT_OPEN \<Rightarrow> jdet_byte w c CHR ''{''
      | JSON_TOKEN_OBJECT_CLOSE \<Rightarrow> jdet_byte w c CHR ''}''
      | JSON_TOKEN_ARRAY_OPEN \<Rightarrow> jdet_byte w c CHR ''[''
      | JSON_TOKEN_ARRAY_CLOSE \<Rightarrow> jdet_byte w c CHR '']''
      | JSON_TOKEN_BOM \<Rightarrow> jdet_bytes w c UTF8_BOM
      | JSON_TOKEN_TRUE \<Rightarrow> jdet_bytes w c JTOK_TRUE_BYTES
      | JSON_TOKEN_FALSE \<Rightarrow> jdet_bytes w c JTOK_FALSE_BYTES
      | JSON_TOKEN_NULL \<Rightarrow> jdet_bytes w c JTOK_NULL_BYTES
      | JSON_TOKEN_VALUE_SEPARATOR \<Rightarrow> jdet_byte w c CHR '',''
      | JSON_TOKEN_STRING_DELIMITER \<Rightarrow> jdet_byte w c (CHR 0x22)
      | JSON_TOKEN_KV_SEPARATOR \<Rightarrow> jdet_byte w c CHR '':''
      | JSON_TOKEN_WHITESPACE \<Rightarrow> do {
          x \<leftarrow> payload_character (payload token);
          (w, c) \<leftarrow> writer_write_byte w c x;
          Some (1, w, c)
        }
      | JSON_TOKEN_ESCAPE_SEQUENCE \<Rightarrow> do {
          x \<leftarrow> payload_character (payload token);
          (w, c) \<leftarrow> writer_write_byte w c (chr (CHR 0x5C));
          (w, c) \<leftarrow> writer_write_byte w c x;
          Some (2, w, c)
        }
      | JSON_TOKEN_UNICODE_CHARACTER \<Rightarrow> do {
          (characters, n) \<leftarrow> payload_unicode (payload token);
          (w, c) \<leftarrow> jdet_unicode_loop (unat n) w c characters;
          Some (int (unat n), w, c)
        }
      | JSON_TOKEN_ESCAPED_UNICODE_CHARCODE \<Rightarrow> do {
          (characters, n) \<leftarrow> payload_unicode (payload token);
          (w, c) \<leftarrow> writer_write_byte w c (chr (CHR 0x5C));
          (w, c) \<leftarrow> writer_write_byte w c (chr CHR ''u'');
          (w, c) \<leftarrow> writer_write_byte w c (ucast (drop_bit 0 characters AND 0xFF));
          (w, c) \<leftarrow> writer_write_byte w c (ucast (drop_bit 8 characters AND 0xFF));
          (w, c) \<leftarrow> writer_write_byte w c (ucast (drop_bit 16 characters AND 0xFF));
          (w, c) \<leftarrow> writer_write_byte w c (ucast (drop_bit 24 characters AND 0xFF));
          Some (6, w, c)
        }
      | _ \<Rightarrow> do {
          number \<leftarrow> payload_number (payload token);
          jdet_write_number w c number
        })
   }"

section \<open>It writes the token's bytes\<close>

text \<open>\<open>wrote M r bytes text n\<close>: the run \<open>r\<close> appended \<open>text\<close> to \<open>bytes\<close> and answered \<open>n\<close>.\<close>

definition wrote :: "(nat \<Rightarrow> u64 \<Rightarrow> byte list option) \<Rightarrow> (int \<times> writer \<times> ctx) option \<Rightarrow> byte list \<Rightarrow> int \<Rightarrow> bool" where
  "wrote M r bytes n \<longleftrightarrow> (\<exists>w c. r = Some (n, w, c) \<and> bytes_offered M w c bytes)"

lemma wroteE:
  assumes "wrote M r bytes n"
  obtains w c where "r = Some (n, w, c)" and "bytes_offered M w c bytes"
  using assms by (auto simp: wrote_def)

lemma wrote_byte:
  assumes "bytes_offered M w c bytes"
    and "\<And>w c. bytes_offered M w c (bytes @ [v]) \<Longrightarrow> wrote M (f w c) text n"
  shows "wrote M (do { (w, c) \<leftarrow> writer_write_byte w c v; f w c }) text n"
  using bytes_offered_write [OF assms(1), of v] assms(2) by auto

lemma wrote_bind:
  assumes "wrote M r bytes n" and "\<And>w c. bytes_offered M w c bytes \<Longrightarrow> wrote M (f n w c) text m"
  shows "wrote M (do { (n, w, c) \<leftarrow> r; f n w c }) text m"
  using assms(1) by (rule wroteE) (simp add: assms(2))

lemma wrote_return: "bytes_offered M w c bytes \<Longrightarrow> wrote M (Some (n, w, c)) bytes n"
  by (simp add: wrote_def)

lemma wrote_uint:
  "bytes_offered M w c bytes \<Longrightarrow>
   wrote M (jdet_write_uint w c v) (bytes @ digits (unat v)) (int (length (digits (unat v))))"
proof (induction v arbitrary: w c bytes rule: measure_induct_rule [where f = unat])
  case (less v)
  define d where "d = chr CHR ''0'' + (ucast (v mod 10) :: byte)"
  have "unat (v mod 10) = unat v mod 10" by (simp add: unat_mod)
  then have "ucast (v mod 10) = (of_nat (unat v mod 10) :: byte)" by (metis of_nat_unat)
  moreover have rest: "unat v div 10 = unat (v div 10)" by (simp add: unat_div)
  moreover have "v div 10 = 0 \<longleftrightarrow> unat v < 10"
    using rest by (metis unat_eq_0 div_eq_0_iff zero_neq_numeral)
  ultimately have d: "digits (unat v) = (if v div 10 = 0 then [] else digits (unat (v div 10))) @ [d]"
    by (subst digits.simps) (simp add: d_def)
  have last: "wrote M (do { (w, c) \<leftarrow> writer_write_byte w c d; Some (k, w, c) }) (bytes @ [d]) k"
    if "bytes_offered M w c bytes" for w c bytes k
    using that by (intro wrote_byte wrote_return)
  show ?case
  proof (cases "v div 10 = 0")
    case True
    with last [OF less.prems, of 1] d show ?thesis
      by (subst jdet_write_uint.simps) (simp add: d_def)
  next
    case False
    from less.IH [OF div_10_smaller [OF False] less.prems] obtain w1 c1 where
      r: "jdet_write_uint w c (v div 10) = Some (int (length (digits (unat (v div 10)))), w1, c1)"
      "bytes_offered M w1 c1 (bytes @ digits (unat (v div 10)))" by (rule wroteE)
    from last [OF r(2), of "1 + int (length (digits (unat (v div 10))))"] r(1) False d show ?thesis
      by (subst jdet_write_uint.simps) (simp add: d_def add.commute)
  qed
qed

lemma zeroes_loop_writes: "jdet_zeroes_loop n w c = writer_write_bytes w c (replicate n (chr CHR ''0''))"
  by (induction n arbitrary: w c) simp_all

lemma low_byte: "(ucast (v AND 0xFF) :: byte) = ucast (v :: u64)"
proof -
  have "v AND 0xFF = take_bit 8 v" by (simp add: take_bit_eq_mask mask_eq_exp_minus_1)
  then show ?thesis by (simp only:) (rule bit_word_eqI, auto simp: bit_simps)
qed

lemma unicode_loop_writes: "jdet_unicode_loop n w c v = writer_write_bytes w c (packed_bytes v n)"
proof (induction n arbitrary: w c v)
  case (Suc n)
  from Suc show ?case by (simp add: packed_bytes_Suc low_byte)
qed simp

lemma wrote_bytes:
  assumes "bytes_offered M w c bytes"
    and "\<And>w c. bytes_offered M w c (bytes @ vs) \<Longrightarrow> wrote M (f w c) text n"
  shows "wrote M (do { (w, c) \<leftarrow> writer_write_bytes w c vs; f w c }) text n"
  using bytes_offered_writes [OF assms(1), of vs] assms(2) by auto

lemma wrote_zeroes_and_uint:
  assumes "bytes_offered M w c bytes"
  shows "wrote M (jdet_zeroes_and_uint w c k z v) (bytes @ zeroes_text z @ digits_unless_zero (unat v))
     (k + int (length (zeroes_text z @ digits_unless_zero (unat v))))"
  unfolding jdet_zeroes_and_uint_def zeroes_loop_writes Let_def
proof (rule wrote_bytes [OF assms])
  fix w c assume o: "bytes_offered M w c (bytes @ replicate (unat z) (chr CHR ''0''))"
  then obtain w1 c1 where
    "jdet_write_uint w c v = Some (int (length (digits (unat v))), w1, c1)"
    "bytes_offered M w1 c1 ((bytes @ replicate (unat z) (chr CHR ''0'')) @ digits (unat v))"
    by (rule wroteE [OF wrote_uint])
  with o show "wrote M (if v \<noteq> 0 then do { (n, w, c) \<leftarrow> jdet_write_uint w c v; Some (k + int (unat z) + n, w, c) }
      else Some (k + int (unat z), w, c)) (bytes @ zeroes_text z @ digits_unless_zero (unat v))
      (k + int (length (zeroes_text z @ digits_unless_zero (unat v))))"
    by (auto simp: wrote_def zeroes_text_def digits_unless_zero_def unat_eq_0)
qed

lemma wrote_fraction:
  assumes "bytes_offered M w c bytes"
  shows "wrote M (jdet_write_fraction w c k n) (bytes @ fraction_bytes n) (k + int (length (fraction_bytes n)))"
proof (cases "flag_set (number_flags n) JSON_NUMBER_HAS_FRACTION")
  case True
  have "wrote M (do { (w, c) \<leftarrow> writer_write_byte w c (chr CHR ''.'');
      jdet_zeroes_and_uint w c (k + 1) (fraction_leading_zeroes n) (fraction_part n) })
      (bytes @ fraction_bytes n) (k + int (length (fraction_bytes n)))"
  proof (rule wrote_byte [OF assms])
    fix w c assume "bytes_offered M w c (bytes @ [chr CHR ''.''])"
    from wrote_zeroes_and_uint [OF this, of "k + 1" "fraction_leading_zeroes n" "fraction_part n"]
    show "wrote M (jdet_zeroes_and_uint w c (k + 1) (fraction_leading_zeroes n) (fraction_part n))
        (bytes @ fraction_bytes n) (k + int (length (fraction_bytes n)))"
      by (simp add: fraction_bytes_def True add.assoc)
  qed
  then show ?thesis by (simp add: jdet_write_fraction_def True)
qed (use assms in \<open>simp add: jdet_write_fraction_def fraction_bytes_def wrote_return\<close>)

lemma flag_set_or: "flag_set f (a OR b) \<longleftrightarrow> flag_set f a \<or> flag_set f b"
  by (auto simp: flag_set_def bit_eq_iff bit_simps)

lemma wrote_exponent:
  assumes "bytes_offered M w c bytes"
  shows "wrote M (jdet_write_exponent w c k n) (bytes @ exponent_bytes n) (k + int (length (exponent_bytes n)))"
proof (cases "flag_set (number_flags n) JSON_NUMBER_HAS_EXPONENT")
  case True
  let ?f = "number_flags n"
  define e where "e = chr (if flag_set ?f JSON_NUMBER_EXPONENT_UPPERCASE then CHR ''E'' else CHR ''e'')"
  have sign: "wrote M (if flag_set ?f (JSON_NUMBER_EXPONENT_HAS_PLUS OR JSON_NUMBER_EXPONENT_IS_NEGATIVE) then do {
        (w, c) \<leftarrow> writer_write_byte w c
           (chr (if flag_set ?f JSON_NUMBER_EXPONENT_HAS_PLUS then CHR ''+'' else CHR ''-''));
        Some (k + 2, w, c)
      } else Some (k + 1, w, c)) (bytes @ e # exponent_sign ?f) (k + 1 + int (length (exponent_sign ?f)))"
    if "bytes_offered M w c (bytes @ [e])" for w c
    using bytes_offered_write [OF that, of "chr CHR ''+''"] bytes_offered_write [OF that, of "chr CHR ''-''"] that
    by (auto simp: flag_set_or exponent_sign_def chrs_def wrote_def)
  have "wrote M (do { (w, c) \<leftarrow> writer_write_byte w c e;
      (result, w, c) \<leftarrow> (if flag_set ?f (JSON_NUMBER_EXPONENT_HAS_PLUS OR JSON_NUMBER_EXPONENT_IS_NEGATIVE) then do {
        (w, c) \<leftarrow> writer_write_byte w c
           (chr (if flag_set ?f JSON_NUMBER_EXPONENT_HAS_PLUS then CHR ''+'' else CHR ''-''));
        Some (k + 2, w, c)
      } else Some (k + 1, w, c));
      jdet_zeroes_and_uint w c result (exponent_leading_zeroes n) (ucast (exponent_part n)) })
      (bytes @ exponent_bytes n) (k + int (length (exponent_bytes n)))"
  proof (intro wrote_byte [OF assms] wrote_bind [OF sign])
    fix w c assume "bytes_offered M w c (bytes @ e # exponent_sign ?f)"
    moreover have "unat (ucast (exponent_part n) :: u64) = unat (exponent_part n)"
      by (simp add: unsigned_ucast_eq take_bit_nat_eq_self_iff less_le_trans [OF unsigned_less])
    ultimately
    show "wrote M (jdet_zeroes_and_uint w c (k + 1 + int (length (exponent_sign ?f)))
        (exponent_leading_zeroes n) (ucast (exponent_part n)))
        (bytes @ exponent_bytes n) (k + int (length (exponent_bytes n)))"
      using wrote_zeroes_and_uint [of M w c "bytes @ e # exponent_sign ?f" "k + 1 + int (length (exponent_sign ?f))"
          "exponent_leading_zeroes n" "ucast (exponent_part n)"]
      by (simp add: exponent_bytes_def True e_def [symmetric] add.assoc)
  qed
  then show ?thesis by (simp add: jdet_write_exponent_def True e_def Let_def)
qed (use assms in \<open>simp add: jdet_write_exponent_def exponent_bytes_def wrote_return\<close>)

lemma wrote_number:
  assumes "bytes_offered M w c bytes"
  shows "wrote M (jdet_write_number w c n) (bytes @ number_bytes n) (int (length (number_bytes n)))"
proof -
  define s where "s = (if flag_set (number_flags n) JSON_NUMBER_IS_NEGATIVE then chrs ''-'' else [])"
  have "wrote M (if flag_set (number_flags n) JSON_NUMBER_IS_NEGATIVE then jdet_byte w c CHR ''-'' else Some (0, w, c))
      (bytes @ s) (int (length s))"
    using bytes_offered_write [OF assms, of "chr CHR ''-''"] assms
    by (auto simp: jdet_byte_def s_def chrs_def wrote_def)
  then show ?thesis unfolding jdet_write_number_def
  proof (rule wrote_bind)
    fix w c assume "bytes_offered M w c (bytes @ s)"
    from wrote_uint [OF this] show "wrote M (do {
        (m, w, c) \<leftarrow> jdet_write_uint w c (integer_part n);
        (result, w, c) \<leftarrow> jdet_write_fraction w c (int (length s) + m) n;
        jdet_write_exponent w c result n }) (bytes @ number_bytes n) (int (length (number_bytes n)))"
    proof (rule wrote_bind)
      fix w c assume "bytes_offered M w c ((bytes @ s) @ digits (unat (integer_part n)))"
      from wrote_fraction [OF this] show "wrote M (do {
          (result, w, c) \<leftarrow> jdet_write_fraction w c (int (length s) + int (length (digits (unat (integer_part n))))) n;
          jdet_write_exponent w c result n }) (bytes @ number_bytes n) (int (length (number_bytes n)))"
      proof (rule wrote_bind)
        fix w c
        let ?k = "int (length s) + int (length (digits (unat (integer_part n)))) + int (length (fraction_bytes n))"
        assume "bytes_offered M w c (((bytes @ s) @ digits (unat (integer_part n))) @ fraction_bytes n)"
        from wrote_exponent [OF this, of ?k n] show "wrote M (jdet_write_exponent w c ?k n) (bytes @ number_bytes n)
            (int (length (number_bytes n)))" by (simp add: number_bytes_def s_def [symmetric] add.assoc)
      qed
    qed
  qed
qed

lemma wrote_one: "bytes_offered M w c bytes \<Longrightarrow> wrote M (jdet_byte w c x) (bytes @ [chr x]) 1"
  unfolding jdet_byte_def by (intro wrote_byte wrote_return)

lemma wrote_some:
  "bytes_offered M w c bytes \<Longrightarrow> n = int (length vs) \<Longrightarrow> wrote M (jdet_bytes w c vs) (bytes @ vs) n"
  unfolding jdet_bytes_def by (simp, intro wrote_bytes wrote_return)

lemma packed_4: "packed_bytes v 4 = [ucast v, ucast (drop_bit 8 v), ucast (drop_bit 16 v), ucast (drop_bit 24 v)]"
  by (simp add: packed_bytes_def upt_rec)

text \<open>The detokenizer writes exactly the text of the token and answers its length.\<close>

lemma json_detokenizer_writes:
  assumes "bytes_offered M w c bytes" and "token_shaped t"
  shows "wrote M (json_detokenizer_write w c t) (bytes @ token_bytes t) (int (length (token_bytes t)))"
proof (cases "token_kind t")
  case JSON_TOKEN_UNICODE_CHARACTER
  then obtain v n where p: "payload t = Unicode v n" using assms(2) by (auto simp: token_shaped_def)
  have "wrote M (do { (w, c) \<leftarrow> jdet_unicode_loop (unat n) w c v; Some (int (unat n), w, c) })
      (bytes @ packed_bytes v (unat n)) (int (unat n))"
    unfolding unicode_loop_writes by (intro wrote_bytes [OF assms(1)] wrote_return)
  then show ?thesis
    by (simp add: json_detokenizer_write_def JSON_TOKEN_UNICODE_CHARACTER token_bytes_def unicode_of_def p)
next
  case JSON_TOKEN_ESCAPED_UNICODE_CHARCODE
  then obtain v n where p: "payload t = Unicode v n" using assms(2) by (auto simp: token_shaped_def)
  have "wrote M (json_detokenizer_write w c t) (bytes @ chr (CHR 0x5C) # chr CHR ''u'' # packed_bytes v 4) 6"
    unfolding json_detokenizer_write_def JSON_TOKEN_ESCAPED_UNICODE_CHARCODE p packed_4
    by (simp add: low_byte) (rule wrote_byte [OF assms(1)] wrote_byte wrote_return | simp)+
  then show ?thesis by (simp add: JSON_TOKEN_ESCAPED_UNICODE_CHARCODE token_bytes_def charcode_of_def p)
next
  case JSON_TOKEN_WHITESPACE
  then obtain b where p: "payload t = Character b" using assms(2) by (auto simp: token_shaped_def)
  have "wrote M (do { (w, c) \<leftarrow> writer_write_byte w c b; Some (1, w, c) }) (bytes @ [b]) 1"
    by (intro wrote_byte [OF assms(1)] wrote_return)
  then show ?thesis
    by (simp add: json_detokenizer_write_def JSON_TOKEN_WHITESPACE token_bytes_def character_of_def p)
next
  case JSON_TOKEN_ESCAPE_SEQUENCE
  then obtain b where p: "payload t = Character b" using assms(2) by (auto simp: token_shaped_def)
  have "wrote M (do { (w, c) \<leftarrow> writer_write_byte w c (chr (CHR 0x5C)); (w, c) \<leftarrow> writer_write_byte w c b;
      Some (2, w, c) }) (bytes @ [chr (CHR 0x5C), b]) 2"
    by (rule wrote_byte [OF assms(1)] wrote_byte wrote_return | simp)+
  then show ?thesis
    by (simp add: json_detokenizer_write_def JSON_TOKEN_ESCAPE_SEQUENCE token_bytes_def character_of_def p)
next
  case JSON_TOKEN_NUMBER
  then obtain n where p: "payload t = Number n" using assms(2) by (auto simp: token_shaped_def)
  from wrote_number [OF assms(1), of n] show ?thesis
    by (simp add: json_detokenizer_write_def JSON_TOKEN_NUMBER token_bytes_def number_of_def p)
qed (use assms in \<open>simp_all add: json_detokenizer_write_def token_bytes_def token_shaped_def chrs_def
    wrote_one wrote_some JTOK_TRUE_BYTES_def JTOK_FALSE_BYTES_def JTOK_NULL_BYTES_def\<close>)

end
