(* ===== verification/Json_Decompressor.thy ===== *)
theory Json_Decompressor
  imports Json_Stream String_Decompressor Json_Detokenizer
begin

text \<open>
  \<open>src/json/json_decompressor.c\<close>.  The client gives it the decoder, the string decompressor and
  the writer the string decompressor also writes to; the model finds that writer there.  The
  theorems show that it follows a stream of \<open>Json_Stream\<close> to its end and writes its text.
\<close>

record json_decompressor =
  jd_base :: json_compression_base
  jd_jsm :: json_state_machine

section \<open>Operations\<close>

definition json_decompressor_deinit :: "json_decompressor \<Rightarrow> json_decompressor" where
  "json_decompressor_deinit z = \<lparr>jd_base = json_compression_base_deinit (jd_base z), jd_jsm = jsm_deinit (jd_jsm z)\<rparr>"

definition json_decompressor_reset :: "json_decompressor \<Rightarrow> json_decompressor option" where
  "json_decompressor_reset z = do {
     m \<leftarrow> jsm_reset (jd_jsm z);
     Some \<lparr>jd_base = json_compression_base_reset (jd_base z), jd_jsm = m\<rparr>
   }"

definition json_decompressor_init :: "ctx \<Rightarrow> (json_decompressor \<times> ctx) option" where
  "json_decompressor_init c = do {
     (b, c) \<leftarrow> json_compression_base_init c;
     (m, c) \<leftarrow> jsm_init c;
     z \<leftarrow> json_decompressor_reset \<lparr>jd_base = b, jd_jsm = m\<rparr>;
     Some (z, c)
   }"

definition illegal_tokens :: string where
  "illegal_tokens = ''Illegal sequence of JSON tokens discovered when decompressing: ''"

definition json_decompressor_update_jsm ::
  "json_decompressor \<Rightarrow> ctx \<Rightarrow> json_token_kind \<Rightarrow> (bool \<times> json_decompressor \<times> ctx) option" where
  "json_decompressor_update_jsm z c kind = do {
     (ok, m) \<leftarrow> jsm_process_token (jd_jsm z) kind;
     if \<not> ok then Some (False, z\<lparr>jd_jsm := m\<rparr>,
       context_set_error c (illegal_tokens @ ''unexpected '' @ decimal (kind_code kind)))
     else do {
       state \<leftarrow> jsm_get_current_state m;
       Some (True, \<lparr>jd_base = (jd_base z)\<lparr>current_state := state\<rparr>, jd_jsm = m\<rparr>, c)
     }
   }"

text \<open>\<open>json_detokenizer_write\<close> on the shared writer.\<close>

definition write_out :: "string_decompressor \<Rightarrow> ctx \<Rightarrow> json_token \<Rightarrow> (string_decompressor \<times> ctx) option" where
  "write_out s c tok = do {
     (n, w, c) \<leftarrow> json_detokenizer_write (sd_writer s) c tok;
     Some (s\<lparr>sd_writer := w\<rparr>, c)
   }"

type_synonym jd_state = "json_decompressor \<times> string_decompressor \<times> acod_decoder \<times> ctx"

definition json_decompressor_read_string ::
  "json_decompressor \<Rightarrow> string_decompressor \<Rightarrow> acod_decoder \<Rightarrow> ctx \<Rightarrow> (bool \<times> jd_state) option" where
  "json_decompressor_read_string z s d c = do {
     (more, s, d, c) \<leftarrow> strdecomp_read s d c;
     if more then Some (True, z, s, d, c)
     else do {
       t \<leftarrow> json_compression_base_get_current_ftable (jd_base z);
       (sy, d, c) \<leftarrow> acod_decoder_read d c t;
       t \<leftarrow> ftable_increment t sy;
       let z = z\<lparr>jd_base := set_current_ftable (jd_base z) t\<rparr>;
       if sy = ftable_get_eof_symbol t then Some (False, z, s, d, c)
       else do {
         kind \<leftarrow> kind_of_code sy;
         if kind \<noteq> JSON_TOKEN_STRING_DELIMITER
         then Some (False, z, s, d, context_set_error c (illegal_tokens @
           ''expected string delimiter, but got '' @ decimal (kind_code kind) @ '' instead''))
         else do {
           (ok, z, c) \<leftarrow> json_decompressor_update_jsm z c JSON_TOKEN_STRING_DELIMITER;
           check ok;
           (s, c) \<leftarrow> write_out s c (simple_token kind);
           Some (ok, z, s, d, c)
         }
       }
     }
   }"

definition json_decompressor_read_nonstring ::
  "json_decompressor \<Rightarrow> string_decompressor \<Rightarrow> acod_decoder \<Rightarrow> ctx \<Rightarrow> (bool \<times> jd_state) option" where
  "json_decompressor_read_nonstring z s d c = do {
     t \<leftarrow> json_compression_base_get_current_ftable (jd_base z);
     (sy, d, c) \<leftarrow> acod_decoder_read d c t;
     if sy = ftable_get_eof_symbol t then Some (False, z, s, d, c)
     else do {
       t \<leftarrow> ftable_increment t sy;
       kind \<leftarrow> kind_of_code sy;
       (ok, z, c) \<leftarrow> json_decompressor_update_jsm (z\<lparr>jd_base := set_current_ftable (jd_base z) t\<rparr>) c kind;
       if \<not> ok then Some (False, z, s, d, c)
       else do {
         (tok, b, d, c) \<leftarrow> read_payload kind (jd_base z) d c;
         (s, c) \<leftarrow> write_out s c tok;
         Some (True, z\<lparr>jd_base := b\<rparr>, s, d, c)
       }
     }
   }"

definition json_decompressor_process_next_token ::
  "json_decompressor \<Rightarrow> string_decompressor \<Rightarrow> acod_decoder \<Rightarrow> ctx \<Rightarrow> (bool \<times> jd_state) option" where
  "json_decompressor_process_next_token z s d c =
     (if json_is_string_state (current_state (jd_base z)) then json_decompressor_read_string z s d c
      else json_decompressor_read_nonstring z s d c)"

text \<open>A client's loop: tokens until there are no more.\<close>

partial_function (option) json_decompress_loop ::
  "json_decompressor \<Rightarrow> string_decompressor \<Rightarrow> acod_decoder \<Rightarrow> ctx \<Rightarrow> jd_state option" where
  "json_decompress_loop z s d c = do {
     (more, z, s, d, c) \<leftarrow> json_decompressor_process_next_token z s d c;
     if more then json_decompress_loop z s d c else Some (z, s, d, c)
   }"

section \<open>The invariant\<close>

text \<open>At place \<open>y\<close> of a stream, with \<open>script\<close> to come and \<open>bytes\<close> written.\<close>

fun decompressing ::
  "(nat \<Rightarrow> u64 \<Rightarrow> byte list option) \<Rightarrow> json_place \<Rightarrow> jd_state \<Rightarrow> script \<Rightarrow> byte list \<Rightarrow> bool" where
  "decompressing M y (z, s, d, c) script bytes \<longleftrightarrow> base_at (p_state y) (jd_base z) (p_tables y) \<and>
     jsm_repr 512 (jd_jsm z) (p_stack y) \<and> jsm_inv 512 (p_stack y) \<and>
     decompressor_holds M s d c (p_strings y) script (p_history y) bytes"

fun jd_step :: "jd_state \<Rightarrow> jd_state \<Rightarrow> bool" where
  "jd_step (z, s, d, c) r \<longleftrightarrow> json_decompressor_process_next_token z s d c = Some (True, r)"

lemma loop_steps:
  assumes "jd_step\<^sup>*\<^sup>* (z, s, d, c) (z', s', d', c')"
  shows "json_decompress_loop z s d c = json_decompress_loop z' s' d' c'"
  using assms
proof (induction "(z, s, d, c)" arbitrary: z s d c rule: converse_rtranclp_induct)
  case (step r)
  obtain z1 s1 d1 c1 where r: "r = (z1, s1, d1, c1)" by (cases r)
  have "json_decompress_loop z s d c = json_decompress_loop z1 s1 d1 c1"
    using step(1) by (subst json_decompress_loop.simps) (simp add: r)
  also have "\<dots> = json_decompress_loop z' s' d' c'" by (rule step(3) [OF r])
  finally show ?case .
qed simp

section \<open>Tokens\<close>

lemma write_out_correct:
  assumes "bytes_offered M (sd_writer s) c bytes" and "token_ok tok"
  obtains w c' where "write_out s c tok = Some (s\<lparr>sd_writer := w\<rparr>, c')"
    and "bytes_offered M w c' (bytes @ token_bytes tok)"
  using json_detokenizer_writes [OF assms(1) token_ok_shaped [OF assms(2)]]
  by (auto simp: wrote_def write_out_def that)

lemma update_jsm_correct:
  assumes "jsm_repr 512 (jd_jsm z) st" and "jsm_inv 512 st" and "jsm_next 512 st k = Some st'"
  obtains m where "json_decompressor_update_jsm z c k =
      Some (True, \<lparr>jd_base = (jd_base z)\<lparr>current_state := hd st'\<rparr>, jd_jsm = m\<rparr>, c)"
    and "jsm_repr 512 m st'" and "jsm_inv 512 st'"
proof -
  from jsm_process_refines [OF assms(1,2), of k] assms(3) obtain m where
    m: "jsm_process_token (jd_jsm z) k = Some (True, m)" "jsm_repr 512 m st'" by (auto simp: outcome_def)
  have inv: "jsm_inv 512 st'" by (rule jsm_next_inv [OF assms(2,3)])
  then obtain u r where "st' = u # r" by (cases st') auto
  with m jsm_current [of 512 m u r] that inv show thesis
    by (simp add: json_decompressor_update_jsm_def)
qed

lemma read_kind:
  assumes "base_at (p_state y) b (p_tables y)" and "length (p_kinds y) = 18" and "n < 18"
    and "decoder_ready d ((p_kinds y, n) # rest)"
  obtains t u d' where "json_compression_base_get_current_ftable b = Some t"
    and "acod_decoder_read d c t = Some (int n, d', c)" and "ftable_increment t (int n) = Some u"
    and "ftable_repr u (bump (p_kinds y) n)" and "decoder_ready d' rest"
    and "ftable_get_eof_symbol t = 17"
proof -
  from assms(1) obtain t where t: "json_compression_base_get_current_ftable b = Some t"
    "ftable_repr t (p_kinds y)" unfolding p_kinds_def by (rule current_ftable)
  from decode_symbol_correct [OF t(2) assms(4), of c] obtain u d' where
    "acod_decoder_read d c t = Some (int n, d', c)" "ftable_increment t (int n) = Some u"
    "ftable_repr u (bump (p_kinds y) n)" "decoder_ready d' rest"
    by (auto simp: decode_symbol_def split: Option.bind_splits)
  with t json_eof_symbol [OF t(2) assms(2)] that show thesis by blast
qed

lemma token_step:
  assumes "decompressing M y (z, s, d, c) (token_script y tok @ rest) bytes" and "\<not> in_string y"
    and "jsm_next 512 (p_stack y) (token_kind tok) = Some st" and "kind_fits y (kind_code (token_kind tok))"
    and "payload_accepted (token_kind tok) (kind_adapt (p_tables y) (p_state y) (token_kind tok)) tok"
  shows "\<exists>r. jd_step (z, s, d, c) r \<and> decompressing M (after_token y tok st) r rest (bytes @ token_bytes tok)"
proof -
  let ?k = "token_kind tok"
  have h: "base_at (p_state y) (jd_base z) (p_tables y)" "jsm_repr 512 (jd_jsm z) (p_stack y)"
    "jsm_inv 512 (p_stack y)" "string_repr (sd_base s) (p_strings y)"
    "decoder_ready d (token_script y tok @ rest)" "ring_hist (lookback_buffer s) 16 (p_history y)"
    "bytes_offered M (sd_writer s) c bytes" using assms(1) by (simp_all add: decompressor_holds_def)
  have kinds: "length (p_kinds y) = 18" using assms(4) by (simp add: kind_fits_def)
  have small: "kind_code ?k < 18" using kind_code_less [of ?k] by (simp del: kind_code_less)
  have "decoder_ready d ((p_kinds y, kind_code ?k) #
      (payload_script (kind_adapt (p_tables y) (p_state y) ?k) tok @ rest))"
    using h(5) by (simp add: token_script_def)
  from read_kind [OF h(1) kinds small this, of c] obtain t u d1 where
    k: "json_compression_base_get_current_ftable (jd_base z) = Some t"
      "acod_decoder_read d c t = Some (int (kind_code ?k), d1, c)"
      "ftable_increment t (int (kind_code ?k)) = Some u" "ftable_repr u (bump (p_kinds y) (kind_code ?k))"
      "decoder_ready d1 (payload_script (kind_adapt (p_tables y) (p_state y) ?k) tok @ rest)"
      "ftable_get_eof_symbol t = 17" by blast
  have noeof: "int (kind_code ?k) \<noteq> 17" using kind_code_less [of ?k] by (simp del: kind_code_less)
  let ?b = "set_current_ftable (jd_base z) u"
  have b: "base_at (p_state y) ?b (kind_adapt (p_tables y) (p_state y) ?k)"
    using base_at_kind [OF h(1)] k(4) by (simp add: p_kinds_def)
  from update_jsm_correct [of "z\<lparr>jd_base := ?b\<rparr>" "p_stack y" ?k st c] h(2,3) assms(3) obtain m where
    m: "json_decompressor_update_jsm (z\<lparr>jd_base := ?b\<rparr>) c ?k =
        Some (True, \<lparr>jd_base = ?b\<lparr>current_state := hd st\<rparr>, jd_jsm = m\<rparr>, c)"
      "jsm_repr 512 m st" "jsm_inv 512 st" by auto
  from read_payload_correct [OF base_at_state [OF b] assms(5) k(5), of "hd st" c] obtain b' d2 where
    p: "read_payload ?k (?b\<lparr>current_state := hd st\<rparr>) d1 c = Some (tok, b', d2, c)"
      "base_at (hd st) b' (p_tables (after_token y tok st))" "decoder_ready d2 rest"
    by (auto simp: after_token_def)
  have "token_ok tok" using assms(5) by (simp add: payload_accepted_def)
  from write_out_correct [OF h(7) this] obtain w c' where
    w: "write_out s c tok = Some (s\<lparr>sd_writer := w\<rparr>, c')" "bytes_offered M w c' (bytes @ token_bytes tok)" .
  have "\<not> json_is_string_state (current_state (jd_base z))"
    using h(1) assms(2) by (simp add: base_at_def in_string_def)
  then have "jd_step (z, s, d, c) (\<lparr>jd_base = b', jd_jsm = m\<rparr>, s\<lparr>sd_writer := w\<rparr>, d2, c')"
    using k(1-3,6) noeof m(1) p(1) w(1)
    by (simp add: json_decompressor_process_next_token_def json_decompressor_read_nonstring_def)
  moreover have "decompressing M (after_token y tok st)
      (\<lparr>jd_base = b', jd_jsm = m\<rparr>, s\<lparr>sd_writer := w\<rparr>, d2, c') rest (bytes @ token_bytes tok)"
    using p(2,3) m(2,3) h(4,6) w(2)
    by (simp add: decompressor_holds_def p_state_def) (simp add: after_token_def)
  ultimately show ?thesis by blast
qed

section \<open>Strings\<close>

definition after_item :: "json_place \<Rightarrow> item \<Rightarrow> json_place" where
  "after_item y i = y\<lparr>p_strings := item_adapt (p_strings y) i, p_history := p_history y @ item_text (p_history y) i\<rparr>"

lemma after_item_same [simp]:
  "p_state (after_item y i) = p_state y" "in_string (after_item y i) = in_string y"
  "p_kinds (after_item y i) = p_kinds y" "p_stack (after_item y i) = p_stack y"
  "p_tables (after_item y i) = p_tables y" "p_strings (after_item y i) = item_adapt (p_strings y) i"
  "p_history (after_item y i) = p_history y @ item_text (p_history y) i"
  by (simp_all add: after_item_def p_state_def in_string_def p_kinds_def)

lemma item_step:
  assumes "decompressing M y (z, s, d, c) (item_script (p_strings y) i @ rest) bytes" and "in_string y"
    and "item_ok (p_strings y) i" and "i \<noteq> End_Of_String"
  shows "\<exists>r. jd_step (z, s, d, c) r \<and>
     decompressing M (after_item y i) r rest (bytes @ item_text (p_history y) i)"
proof -
  have h: "base_at (p_state y) (jd_base z) (p_tables y)" "jsm_repr 512 (jd_jsm z) (p_stack y)"
    "jsm_inv 512 (p_stack y)"
    "decompressor_holds M s d c (p_strings y) (item_script (p_strings y) i @ rest) (p_history y) bytes"
    using assms(1) by simp_all
  from strdecomp_read_item [OF h(4) assms(3)] assms(4) obtain s' d' c' where
    r: "strdecomp_read s d c = Some (True, s', d', c')"
      "decompressor_holds M s' d' c' (item_adapt (p_strings y) i) rest
         (p_history y @ item_text (p_history y) i) (bytes @ item_text (p_history y) i)" by auto
  have "json_is_string_state (current_state (jd_base z))"
    using h(1) assms(2) by (simp add: base_at_def in_string_def)
  then have "jd_step (z, s, d, c) (z, s', d', c')"
    using r(1) by (simp add: json_decompressor_process_next_token_def json_decompressor_read_string_def)
  moreover have "decompressing M (after_item y i) (z, s', d', c') rest (bytes @ item_text (p_history y) i)"
    using h(1-3) r(2) by simp
  ultimately show ?thesis by blast
qed

text \<open>The items of a string before its end mark.\<close>

definition after_items :: "json_place \<Rightarrow> item list \<Rightarrow> json_place" where
  "after_items y its = y\<lparr>p_strings := it.adapt_list (p_strings y) its,
     p_history := p_history y @ expand (p_history y) its\<rparr>"

lemma after_items_same [simp]:
  "p_state (after_items y its) = p_state y" "in_string (after_items y its) = in_string y"
  "p_kinds (after_items y its) = p_kinds y" "p_stack (after_items y its) = p_stack y"
  "p_tables (after_items y its) = p_tables y" "p_strings (after_items y its) = it.adapt_list (p_strings y) its"
  "p_history (after_items y its) = p_history y @ expand (p_history y) its"
  by (simp_all add: after_items_def p_state_def in_string_def p_kinds_def)

lemma items_steps:
  assumes "decompressing M y \<sigma> (it.list_script (p_strings y) its @ rest) bytes" and "in_string y"
    and "it.accepts_list (p_strings y) its" and "End_Of_String \<notin> set its"
  shows "\<exists>r. jd_step\<^sup>*\<^sup>* \<sigma> r \<and>
     decompressing M (after_items y its) r rest (bytes @ expand (p_history y) its)"
  using assms
proof (induction its arbitrary: y \<sigma> bytes)
  case Nil
  then show ?case by (intro exI [of _ \<sigma>]) (simp add: after_items_def)
next
  case (Cons i its)
  obtain z s d c where \<sigma>: "\<sigma> = (z, s, d, c)" by (cases \<sigma>)
  have "decompressing M y (z, s, d, c)
      (item_script (p_strings y) i @ (it.list_script (item_adapt (p_strings y) i) its @ rest)) bytes"
    using Cons.prems(1) by (simp add: \<sigma>)
  from item_step [OF this Cons.prems(2)] Cons.prems(3,4) obtain r where
    r: "jd_step \<sigma> r" "decompressing M (after_item y i) r
      (it.list_script (p_strings (after_item y i)) its @ rest) (bytes @ item_text (p_history y) i)"
    by (auto simp: \<sigma> simp del: decompressing.simps jd_step.simps split_paired_Ex)
  from Cons.IH [OF r(2)] Cons.prems(2-4) obtain r' where
    "jd_step\<^sup>*\<^sup>* r r'" "decompressing M (after_items (after_item y i) its) r' rest
      ((bytes @ item_text (p_history y) i) @ expand (p_history (after_item y i)) its)"
    by (auto simp del: decompressing.simps split_paired_Ex)
  moreover have "after_items (after_item y i) its = after_items y (i # its)"
    by (simp add: after_items_def after_item_def)
  ultimately show ?case using r(1)
    by (auto simp del: decompressing.simps jd_step.simps split_paired_Ex intro: converse_rtranclp_into_rtranclp)
qed

lemma read_end_mark:
  assumes "decompressor_holds M s d c m (item_script m End_Of_String @ rest) hist bytes"
    and "item_ok m End_Of_String"
  obtains s' d' c' where "strdecomp_read s d c = Some (False, s', d', c')"
    and "decompressor_holds M s' d' c' (item_adapt m End_Of_String) rest hist bytes"
  using strdecomp_read_item [OF assms] by auto

lemma delimiter_step:
  assumes "decompressing M y (z, s, d, c)
      (item_script (p_strings y) End_Of_String @ (p_kinds y, kind_code JSON_TOKEN_STRING_DELIMITER) # rest) bytes"
    and "in_string y" and "item_ok (p_strings y) End_Of_String"
    and "jsm_next 512 (p_stack y) JSON_TOKEN_STRING_DELIMITER = Some st"
    and "kind_fits y (kind_code JSON_TOKEN_STRING_DELIMITER)"
  shows "\<exists>r. jd_step (z, s, d, c) r \<and> decompressing M (after_string y [] st) r rest (bytes @ [quote_byte])"
proof -
  let ?k = JSON_TOKEN_STRING_DELIMITER
  have h: "base_at (p_state y) (jd_base z) (p_tables y)" "jsm_repr 512 (jd_jsm z) (p_stack y)"
    "jsm_inv 512 (p_stack y)"
    "decompressor_holds M s d c (p_strings y)
       (item_script (p_strings y) End_Of_String @ (p_kinds y, kind_code ?k) # rest) (p_history y) bytes"
    using assms(1) by simp_all
  from read_end_mark [OF h(4) assms(3)] obtain s' d1 c1 where
    e: "strdecomp_read s d c = Some (False, s', d1, c1)"
      "decompressor_holds M s' d1 c1 (item_adapt (p_strings y) End_Of_String)
         ((p_kinds y, kind_code ?k) # rest) (p_history y) bytes" .
  have kinds: "length (p_kinds y) = 18" using assms(5) by (simp add: kind_fits_def)
  have ready: "decoder_ready d1 ((p_kinds y, kind_code ?k) # rest)" using e(2) by (simp add: decompressor_holds_def)
  have nine: "kind_code ?k < 18" by simp
  from read_kind [OF h(1) kinds nine ready, of c1] obtain t u d2 where
    k: "json_compression_base_get_current_ftable (jd_base z) = Some t"
      "acod_decoder_read d1 c1 t = Some (int (kind_code ?k), d2, c1)"
      "ftable_increment t (int (kind_code ?k)) = Some u" "ftable_repr u (bump (p_kinds y) (kind_code ?k))"
      "decoder_ready d2 rest" by blast
  have "length (bump (p_kinds y) (kind_code ?k)) = 18" using kinds by simp
  then have eof: "ftable_get_eof_symbol u = 17" by (rule json_eof_symbol [OF k(4)])
  let ?b = "set_current_ftable (jd_base z) u"
  have b: "base_at (p_state y) ?b (kind_adapt (p_tables y) (p_state y) ?k)"
    using base_at_kind [OF h(1)] k(4) by (simp add: p_kinds_def)
  from update_jsm_correct [of "z\<lparr>jd_base := ?b\<rparr>" "p_stack y" ?k st c1] h(2,3) assms(4) obtain m where
    m: "json_decompressor_update_jsm (z\<lparr>jd_base := ?b\<rparr>) c1 ?k =
        Some (True, \<lparr>jd_base = ?b\<lparr>current_state := hd st\<rparr>, jd_jsm = m\<rparr>, c1)"
      "jsm_repr 512 m st" "jsm_inv 512 st" by auto
  have "bytes_offered M (sd_writer s') c1 bytes" "token_ok (simple_token ?k)"
    using e(2) by (simp_all add: decompressor_holds_def token_ok_def simple_token_def)
  from write_out_correct [OF this] obtain w c2 where
    w: "write_out s' c1 (simple_token ?k) = Some (s'\<lparr>sd_writer := w\<rparr>, c2)"
      "bytes_offered M w c2 (bytes @ [quote_byte])"
    by (auto simp: token_bytes_def simple_token_def quote_byte_def)
  have "json_is_string_state (current_state (jd_base z))"
    using h(1) assms(2) by (simp add: base_at_def in_string_def)
  then have "jd_step (z, s, d, c) (\<lparr>jd_base = ?b\<lparr>current_state := hd st\<rparr>, jd_jsm = m\<rparr>, s'\<lparr>sd_writer := w\<rparr>, d2, c2)"
    using e(1) k(1-3) eof m(1) w(1) kind_of_code [of ?k]
    by (simp add: json_decompressor_process_next_token_def json_decompressor_read_string_def)
  moreover have "decompressing M (after_string y [] st)
      (\<lparr>jd_base = ?b\<lparr>current_state := hd st\<rparr>, jd_jsm = m\<rparr>, s'\<lparr>sd_writer := w\<rparr>, d2, c2) rest (bytes @ [quote_byte])"
    using base_at_state [OF b, of "hd st"] m(2,3) k(5) e(2) w(2)
    by (simp add: decompressor_holds_def p_state_def) (simp add: after_string_def p_state_def)
  ultimately show ?thesis by blast
qed

lemma items_end:
  assumes "items_fit y its"
  shows "string_script y its = it.list_script (p_strings y) its @ item_script (p_strings (after_items y its)) End_Of_String"
    and "it.accepts_list (p_strings y) its" and "End_Of_String \<notin> set its"
    and "item_ok (p_strings (after_items y its)) End_Of_String"
    and "after_string (after_items y its) [] st = after_string y its st"
proof -
  have script: "it.list_script m (xs @ [i]) = it.list_script m xs @ item_script (it.adapt_list m xs) i" for m xs i
    by (induction xs arbitrary: m) simp_all
  have adapt: "it.adapt_list m (xs @ [i]) = item_adapt (it.adapt_list m xs) i" for m xs i
    by (induction xs arbitrary: m) simp_all
  have acc: "it.accepts_list m (xs @ [i]) \<longleftrightarrow> it.accepts_list m xs \<and> item_ok (it.adapt_list m xs) i" for m xs i
    by (induction xs arbitrary: m) auto
  show "string_script y its = it.list_script (p_strings y) its @ item_script (p_strings (after_items y its)) End_Of_String"
    by (simp add: string_script_def script)
  show "it.accepts_list (p_strings y) its" "End_Of_String \<notin> set its"
    "item_ok (p_strings (after_items y its)) End_Of_String"
    using assms by (simp_all add: items_fit_def acc)
  show "after_string (after_items y its) [] st = after_string y its st"
    by (simp add: after_string_def adapt after_items_def p_state_def)
qed

section \<open>Whole streams\<close>

lemma coded_steps:
  assumes "coded x script out y" and "decompressing M x \<sigma> (script @ rest) bytes"
  shows "\<exists>r. jd_step\<^sup>*\<^sup>* \<sigma> r \<and> decompressing M y r rest (bytes @ out)"
  using assms
proof (induction arbitrary: rest rule: coded.induct)
  case coded_nothing
  then show ?case by (intro exI [of _ \<sigma>]) simp
next
  case (coded_token script out y tok st)
  from coded_token.IH [of "token_script y tok @ rest"] coded_token.prems obtain r where
    r: "jd_step\<^sup>*\<^sup>* \<sigma> r" "decompressing M y r (token_script y tok @ rest) (bytes @ out)" by auto
  obtain z s d c where rr: "r = (z, s, d, c)" by (cases r)
  from token_step [OF r(2) [unfolded rr] coded_token.hyps(2-5)] r(1) show ?case
    by (auto simp: rr intro: rtranclp.rtrancl_into_rtrancl
        simp del: decompressing.simps jd_step.simps split_paired_Ex)
next
  case (coded_string script out y st its)
  note e = items_end [OF coded_string.hyps(5)]
  let ?rest = "item_script (p_strings (after_items y its)) End_Of_String @
    (p_kinds (after_items y its), kind_code JSON_TOKEN_STRING_DELIMITER) # rest"
  from coded_string.IH [of "it.list_script (p_strings y) its @ ?rest"] coded_string.prems obtain r where
    r: "jd_step\<^sup>*\<^sup>* \<sigma> r" "decompressing M y r (it.list_script (p_strings y) its @ ?rest) (bytes @ out)"
    by (auto simp: e(1))
  from items_steps [OF r(2) coded_string.hyps(2) e(2,3)] obtain z s d c where
    i: "jd_step\<^sup>*\<^sup>* r (z, s, d, c)"
      "decompressing M (after_items y its) (z, s, d, c) ?rest ((bytes @ out) @ expand (p_history y) its)"
    by (metis prod_cases4)
  have fits: "kind_fits (after_items y its) (kind_code JSON_TOKEN_STRING_DELIMITER)"
    using coded_string.hyps(4) by (simp add: kind_fits_def)
  from delimiter_step [OF i(2) _ e(4) _ fits, of st] coded_string.hyps(2,3) obtain r' where
    "jd_step (z, s, d, c) r'"
    "decompressing M (after_string y its st) r' rest (((bytes @ out) @ expand (p_history y) its) @ [quote_byte])"
    by (auto simp: e(5) simp del: decompressing.simps jd_step.simps)
  moreover have "jd_step\<^sup>*\<^sup>* \<sigma> (z, s, d, c)" using r(1) i(1) by (rule rtranclp_trans)
  ultimately show ?case
    by (intro exI [of _ r'] conjI)
      (simp_all del: decompressing.simps jd_step.simps add: rtranclp.rtrancl_into_rtrancl)
qed

lemma eof_step:
  assumes "decompressing M y (z, s, d, c) [(p_kinds y, json_eof)] bytes" and "\<not> in_string y" and "kind_fits y json_eof"
  shows "\<exists>d'. json_decompress_loop z s d c = Some (z, s, d', c)"
proof -
  have h: "base_at (p_state y) (jd_base z) (p_tables y)" "decoder_ready d [(p_kinds y, json_eof)]"
    using assms(1) by (simp_all add: decompressor_holds_def)
  have k: "length (p_kinds y) = 18" "json_eof < 18"
    using assms(3) by (simp_all add: kind_fits_def json_eof_def JSON_TOKEN_MAX_def)
  from read_kind [OF h(1) k h(2), of c] obtain t u d' where
    r: "json_compression_base_get_current_ftable (jd_base z) = Some t"
      "acod_decoder_read d c t = Some (int json_eof, d', c)" "ftable_get_eof_symbol t = 17" by blast
  have "int json_eof = 17" by (simp add: json_eof_def JSON_TOKEN_MAX_def)
  have "\<not> json_is_string_state (current_state (jd_base z))"
    using h(1) assms(2) by (simp add: base_at_def in_string_def)
  with r \<open>int json_eof = 17\<close> show ?thesis
    by (subst json_decompress_loop.simps)
      (simp add: json_decompressor_process_next_token_def json_decompressor_read_nonstring_def)
qed

lemma eof_in_string_step:
  assumes "decompressing M y (z, s, d, c) (item_script (p_strings y) End_Of_String @ [(p_kinds y, json_eof)]) bytes"
    and "in_string y" and "kind_fits y json_eof" and "item_ok (p_strings y) End_Of_String"
  shows "\<exists>z' s' d' c'. json_decompress_loop z s d c = Some (z', s', d', c') \<and>
     bytes_offered M (sd_writer s') c' bytes"
proof -
  have h: "base_at (p_state y) (jd_base z) (p_tables y)"
    "decompressor_holds M s d c (p_strings y) (item_script (p_strings y) End_Of_String @ [(p_kinds y, json_eof)])
       (p_history y) bytes" using assms(1) by simp_all
  from read_end_mark [OF h(2) assms(4)] obtain s' d1 c1 where
    e: "strdecomp_read s d c = Some (False, s', d1, c1)"
      "decompressor_holds M s' d1 c1 (item_adapt (p_strings y) End_Of_String) [(p_kinds y, json_eof)] (p_history y) bytes" .
  have k: "length (p_kinds y) = 18" "json_eof < 18"
    using assms(3) by (simp_all add: kind_fits_def json_eof_def JSON_TOKEN_MAX_def)
  have ready: "decoder_ready d1 [(p_kinds y, json_eof)]" using e(2) by (simp add: decompressor_holds_def)
  from read_kind [OF h(1) k ready, of c1] obtain t u d2 where
    r: "json_compression_base_get_current_ftable (jd_base z) = Some t"
      "acod_decoder_read d1 c1 t = Some (int json_eof, d2, c1)" "ftable_increment t (int json_eof) = Some u"
      "ftable_repr u (bump (p_kinds y) json_eof)" by blast
  have "length (bump (p_kinds y) json_eof) = 18" using k by simp
  then have eof: "ftable_get_eof_symbol u = int json_eof"
    using json_eof_symbol [OF r(4)] by (simp add: json_eof_def JSON_TOKEN_MAX_def)
  have "json_is_string_state (current_state (jd_base z))"
    using h(1) assms(2) by (simp add: base_at_def in_string_def)
  with e r eof have "json_decompress_loop z s d c =
      Some (z\<lparr>jd_base := set_current_ftable (jd_base z) u\<rparr>, s', d2, c1)"
    by (subst json_decompress_loop.simps)
      (simp add: json_decompressor_process_next_token_def json_decompressor_read_string_def)
  with e(2) show ?thesis by (auto simp: decompressor_holds_def)
qed

lemma finished_run:
  assumes "finished x script out" and "decompressing M x (z, s, d, c) script bytes"
  shows "\<exists>z' s' d' c'. json_decompress_loop z s d c = Some (z', s', d', c') \<and>
     bytes_offered M (sd_writer s') c' (bytes @ out)"
  using assms(1)
proof cases
  case (finished_outside script' y)
  from coded_steps [OF finished_outside(2)] assms(2) finished_outside(1) obtain z1 s1 d1 c1 where
    r: "jd_step\<^sup>*\<^sup>* (z, s, d, c) (z1, s1, d1, c1)"
      "decompressing M y (z1, s1, d1, c1) [(p_kinds y, json_eof)] (bytes @ out)" by (metis prod_cases4)
  from eof_step [OF r(2) finished_outside(3,4)] loop_steps [OF r(1)] r(2) show ?thesis
    by (auto simp: decompressor_holds_def)
next
  case (finished_inside script' bytes' y its)
  note e = items_end [OF finished_inside(6)]
  let ?tail = "item_script (p_strings (after_items y its)) End_Of_String @ [(p_kinds (after_items y its), json_eof)]"
  have "decompressing M x (z, s, d, c) (script' @ it.list_script (p_strings y) its @ ?tail) bytes"
    using assms(2) unfolding finished_inside(1) e(1) by (simp del: decompressing.simps)
  from coded_steps [OF finished_inside(3) this] obtain \<sigma> where
    r: "jd_step\<^sup>*\<^sup>* (z, s, d, c) \<sigma>"
      "decompressing M y \<sigma> (it.list_script (p_strings y) its @ ?tail) (bytes @ bytes')" by blast
  from items_steps [OF r(2) finished_inside(4) e(2,3)] obtain z1 s1 d1 c1 where
    i: "jd_step\<^sup>*\<^sup>* \<sigma> (z1, s1, d1, c1)"
      "decompressing M (after_items y its) (z1, s1, d1, c1) ?tail ((bytes @ bytes') @ expand (p_history y) its)"
    by (metis prod_cases4)
  have fits: "in_string (after_items y its)" "kind_fits (after_items y its) json_eof"
    using finished_inside(4,5) by (simp_all add: kind_fits_def)
  from eof_in_string_step [OF i(2) fits e(4)] loop_steps [OF rtranclp_trans [OF r(1) i(1)]] show ?thesis
    by (simp add: finished_inside(2))
qed

section \<open>The beginning\<close>

lemma json_decompressor_init_correct:
  assumes "20000 < arena_free c0"
  shows "\<exists>z c'. json_decompressor_init c0 = Some (z, c') \<and> ctx_error c' = ctx_error c0 \<and>
     arena_free c0 \<le> arena_free c' + 10000 \<and>
     (\<forall>s d c script bytes. decompressor_holds M s d c string_fresh script zeroes bytes \<longrightarrow>
        decompressing M json_start (z, s, d, c) script bytes)"
proof -
  from json_compression_base_init_correct [of c0] assms obtain b c1 where
    b: "json_compression_base_init c0 = Some (b, c1)" "base_at JSON_STATE_START b json_fresh"
      "arena_free c0 \<le> arena_free c1 + 9000" "ctx_error c1 = ctx_error c0" by auto
  from jsm_init_repr [of c1] assms b(3) obtain m :: json_state_machine and c2 where
    m: "jsm_init c1 = Some (m, c2)" "jsm_repr 512 m [JSON_STATE_START, JSON_STATE_ROOT]"
      "arena_free c1 \<le> arena_free c2 + 512" "ctx_error c2 = ctx_error c1" by auto
  from jsm_reset_repr [OF m(2)] obtain m' where
    r: "jsm_reset m = Some m'" "jsm_repr 512 m' [JSON_STATE_START, JSON_STATE_ROOT]" by auto
  have "json_decompressor_init c0 = Some (\<lparr>jd_base = json_compression_base_reset b, jd_jsm = m'\<rparr>, c2)"
    using b(1) m(1) r(1) by (simp add: json_decompressor_init_def json_decompressor_reset_def)
  moreover have "base_at JSON_STATE_START (json_compression_base_reset b) json_fresh"
    using b(2) by (simp add: base_at_def json_compression_base_reset_def json_repr_def number_tables_def)
  ultimately show ?thesis using b(3,4) m(3,4) r(2) by (auto simp: json_start_def p_state_def)
qed

end
