(* ===== verification/Json_Sessions.thy ===== *)
theory Json_Sessions
  imports Sessions Json_Compressor Json_Decompressor
begin

text \<open>
  Whole runs of the JSON compressor and decompressor, as the client of
  \<open>src/test/json/json_compression_test.c\<close> makes them: one input buffer, tokens until the input is
  used up or refused, the end of the stream, and back.
\<close>

section \<open>Sessions\<close>

definition start_reader :: "ctx \<Rightarrow> (reader \<times> ctx) option" where
  "start_reader c = do {
     (ok, r, c) \<leftarrow> reader_init c;
     check ok;
     Some (r, c)
   }"

text \<open>Hand the compressor its input; its tokenizer holds the reader.\<close>

definition feed :: "json_compressor \<Rightarrow> ctx \<Rightarrow> buffer \<Rightarrow> (json_compressor \<times> ctx) option" where
  "feed j c b = do {
     (ok, r, c) \<leftarrow> reader_push_buffer (tok_reader (jc_tokenizer j)) c b;
     check ok;
     Some (j\<lparr>jc_tokenizer := (jc_tokenizer j)\<lparr>tok_reader := r\<rparr>\<rparr>, c)
   }"

definition compress_json ::
  "(nat \<Rightarrow> u64 \<Rightarrow> byte list option) \<Rightarrow> buffer \<Rightarrow> (buffer_or_error \<times> ctx) option" where
  "compress_json M b = do {
     c \<leftarrow> start_context M;
     (r, c) \<leftarrow> start_reader c;
     (j, c) \<leftarrow> json_compressor_init c r;
     (s, c) \<leftarrow> strcomp_init c;
     (w, c) \<leftarrow> start_writer c;
     (j, c) \<leftarrow> feed j c b;
     (j, s, e, c) \<leftarrow> json_compress_loop j s (acod_encoder_init w) c;
     (j, s, e, c) \<leftarrow> json_compressor_finalize j s e c;
     seal e c
   }"

definition decompress_json ::
  "(nat \<Rightarrow> u64 \<Rightarrow> byte list option) \<Rightarrow> buffer \<Rightarrow> (buffer_or_error \<times> ctx) option" where
  "decompress_json M b = do {
     c \<leftarrow> start_context M;
     (z, c) \<leftarrow> json_decompressor_init c;
     (w, c) \<leftarrow> start_writer c;
     (s, c) \<leftarrow> strdecomp_init c w;
     (d, c) \<leftarrow> open_stream c b;
     (z, s, d, c) \<leftarrow> json_decompress_loop z s d c;
     (r, w, c) \<leftarrow> writer_consume_all_buffers (sd_writer s) c;
     Some (r, c)
   }"

section \<open>Structures carved from the arena\<close>

lemma carved_fstack [carved]: "fstack_init c n k = Some (t, c') \<Longrightarrow> same_client c c'"
  by (auto simp: fstack_init_def bind_eq_Some_conv Let_def split: if_splits
      dest!: carved elim: same_client_trans)

lemma carved_jsm [carved]: "jsm_init c = Some (t, c') \<Longrightarrow> same_client c c'"
  by (auto simp: jsm_init_def bind_eq_Some_conv dest!: carved elim: same_client_trans)

lemma carved_tokenizer [carved]: "json_tokenizer_init c r = Some (t, c') \<Longrightarrow> same_client c c'"
  by (auto simp: json_tokenizer_init_def bind_eq_Some_conv dest!: carved elim: same_client_trans)

lemma carved_json_tables [carved]: "json_tables_init_loop k c = Some (ts, c') \<Longrightarrow> same_client c c'"
proof (induction k arbitrary: c ts c')
  case (Suc k)
  then obtain t c1 ts' where "ftable_init c (int JSON_TOKEN_MAX + 1) (FTABLE_INIT_ONE OR FTABLE_INCLUDE_EOF) = Some (t, c1)"
    "json_tables_init_loop k c1 = Some (ts', c')" by (auto simp: bind_eq_Some_conv)
  then show ?case using Suc.IH carved_ftable same_client_trans by blast
qed simp

lemma carved_json_base [carved]: "json_compression_base_init c = Some (t, c') \<Longrightarrow> same_client c c'"
  by (auto simp: json_compression_base_init_def bind_eq_Some_conv simp del: json_tables_init_loop.simps
      dest!: carved elim!: same_client_trans)

lemma carved_json_compressor [carved]: "json_compressor_init c r = Some (t, c') \<Longrightarrow> same_client c c'"
  by (auto simp: json_compressor_init_def bind_eq_Some_conv dest!: carved elim: same_client_trans)

lemma carved_json_decompressor [carved]: "json_decompressor_init c = Some (t, c') \<Longrightarrow> same_client c c'"
  by (auto simp: json_decompressor_init_def bind_eq_Some_conv dest!: carved elim: same_client_trans)

lemma start_reader_correct:
  assumes "ctx_ok M c" and "never_refuses M"
  shows "\<exists>r c'. start_reader c = Some (r, c') \<and> reader_bytes r [] \<and> ctx_ok M c' \<and> arena_free c' = arena_free c"
proof -
  from reader_init_correct [OF assms(1)] obtain ok r c' where
    i: "reader_init c = Some (ok, r, c')" "ctx_ok M c'"
      "if ok then reader_bytes r [] \<and> ctx_error c' = ctx_error c
       else r = reader_zero \<and> context_is_errored c'" by blast
  obtain ok1 q c1 where q: "queue_init c 24 READER_QUEUE_DEFAULT_SHIFT = (ok1, q :: buffer queue, c1)"
    by (metis prod_cases3)
  have "ctx_arena c1 = ctx_arena c" by (rule heap_queue_init [OF q])
  then have "ctx_arena c' = ctx_arena c" using i(1) q
    by (auto simp: reader_init_def Let_def bind_eq_Some_conv split: if_splits)
  with i ctx_ok_no_error [OF i(2) assms(2)] show ?thesis
    by (auto simp: start_reader_def arena_free_def split: if_splits)
qed

section \<open>Compressing\<close>

text \<open>
  \<open>consumed input taken rest\<close>: a tokenizer before \<open>input\<close> answers tokens one after the other whose
  bytes are exactly \<open>taken\<close>, and stops before \<open>rest\<close>: if anything is left, it refuses it.
\<close>

definition consumed :: "byte list \<Rightarrow> byte list \<Rightarrow> byte list \<Rightarrow> bool" where
  "consumed input taken rest \<longleftrightarrow> input = taken @ rest \<and>
     (\<exists>st. lexes [JSON_STATE_START, JSON_STATE_ROOT] taken st rest \<and> (rest = [] \<or> refuses st rest))"

lemma feed_correct:
  assumes "reader_bytes (tok_reader (jc_tokenizer j)) []" and "readable b" and "ctx_ok M c" and "never_refuses M"
    and "parsing y j"
  shows "\<exists>j' c'. feed j c b = Some (j', c') \<and> ctx_ok M c' \<and> parsing y j' \<and> jc_base j' = jc_base j \<and>
     at_last (tok_reader (jc_tokenizer j')) (buffer_bytes b)"
proof -
  from reader_push_last [OF assms(1,2)] assms(3) obtain ok r c' where
    p: "reader_push_buffer (tok_reader (jc_tokenizer j)) c b = Some (ok, r, c')" "ctx_ok M c'"
      "if ok then ctx_error c' = ctx_error c \<and> at_last r (buffer_bytes b) else context_is_errored c'" by blast
  from p(3) ctx_ok_no_error [OF p(2) assms(4)] have "ok" "at_last r (buffer_bytes b)" by (auto split: if_splits)
  with p assms(5) show ?thesis by (simp add: feed_def parsing_def)
qed

lemma compress_json_run:
  assumes "well_behaved M" and "readable b" and "length (buffer_bytes b) < 2 ^ 27 - 2"
    and "short_fractions (buffer_bytes b)"
  shows "\<exists>r c script taken rest. compress_json M b = Some (r, c) \<and> sealed M r c script \<and>
     finished json_start script taken \<and> consumed (buffer_bytes b) taken rest"
proof -
  note nr = well_behavedD [OF assms(1)]
  let ?input = "buffer_bytes b"
  from start_context_correct [OF assms(1)] obtain c0 where c0: "start_context M = Some c0" "ctx_ok M c0"
    "arena_free c0 = 33554432" by blast
  from start_reader_correct [OF c0(2) nr] obtain r c1 where
    r: "start_reader c0 = Some (r, c1)" "reader_bytes r []" "ctx_ok M c1" "arena_free c1 = arena_free c0" by blast
  have "20000 < arena_free c1" using r(4) c0(3) by simp
  from json_compressor_init_correct [OF this, of r M] obtain j c2 where
    j: "json_compressor_init c1 r = Some (j, c2)" "tok_reader (jc_tokenizer j) = r" "parsing json_start j"
      "arena_free c1 \<le> arena_free c2 + 10000"
      "\<And>s e c. compressor_holds M string_fresh zeroes [] s e c [] [] \<Longrightarrow> compressing M json_start json_start j s e c []"
    by blast
  have c2: "ctx_ok M c2" using same_client_ok [OF carved_json_compressor [OF j(1)] r(3)] .
  have room: "1130000 < arena_free c2" using j(4) r(4) c0(3) by simp
  note dummy = strcomp_init_correct [OF room]
  from start_writer_correct [OF c2 nr] obtain w0 c0' where "writer_repr w0 [] []" "ctx_ok M c0'" by blast
  from dummy [OF encoder_init_holds [OF writer_repr_offered [OF this]]] obtain s c3 where
    s: "strcomp_init c2 = Some (s, c3)" by blast
  have "ctx_ok M c3" using same_client_ok [OF carved_strcomp [OF s] c2] .
  from start_writer_correct [OF this nr] obtain w c4 where
    w: "start_writer c3 = Some (w, c4)" "writer_repr w [] []" "ctx_ok M c4" by blast
  from feed_correct [OF _ assms(2) w(3) nr j(3)] j(2) r(2) obtain j' c5 where
    f: "feed j c4 b = Some (j', c5)" "ctx_ok M c5" "parsing json_start j'" "jc_base j' = jc_base j"
      "at_last (tok_reader (jc_tokenizer j')) ?input" by auto
  from dummy [OF encoder_init_holds [OF writer_repr_offered [OF w(2) f(2)]]] s
  have "compressing M json_start json_start j s (acod_encoder_init w) c5 []" using j(5) by auto
  then have h: "compressing M json_start json_start j' s (acod_encoder_init w) c5 []"
    using f(4) by (simp add: compressing_def)
  have K: "stream_room json_start (2 ^ 27)" by (rule json_start_room) simp
  have len: "length ([] @ ?input) < 2 ^ 27" using assms(3) by simp
  from json_compress_loop_correct [OF h f(3) lexes_nothing f(5) K len assms(4)] obtain y j1 s1 e1 c6 taken rest st where
    l: "json_compress_loop j' s (acod_encoder_init w) c5 = Some (j1, s1, e1, c6)"
      "compressing M json_start y j1 s1 e1 c6 taken" "jsm_repr 512 (tok_jsm (jc_tokenizer j1)) st"
      "?input = taken @ rest" "lexes (p_stack json_start) taken (p_stack y) rest"
      "rest = [] \<or> refuses (p_stack y) rest" by auto
  have "length taken < 2 ^ 27" using l(4) len by simp
  from json_compressor_finalize_correct [OF l(2,3) K this] obtain j2 s2 e2 c7 script where
    z: "json_compressor_finalize j1 s1 e1 c6 = Some (j2, s2, e2, c7)" "finished json_start script taken"
      "encoder_holds M e2 c7 script" "length script < 2 ^ 56" by blast
  from seal_seals [OF z(3) finished_codable [OF z(2)] z(4) nr] obtain res c8 where
    "seal e2 c7 = Some (res, c8)" "sealed M res c8 script" by blast
  moreover have "consumed ?input taken rest" using l(4-6) by (auto simp: consumed_def json_start_def)
  ultimately show ?thesis using c0(1) r(1) j(1) s w(1) f(1) l(1) z(1,2) by (auto simp: compress_json_def)
qed

section \<open>Decompressing\<close>

lemma decompress_json_run:
  assumes "well_behaved M'" and "sealed M r c script" and "finished json_start script out"
    and "length out < 2 ^ 59"
  shows "\<exists>r' c'. decompress_json M' (result_buffer r) = Some (r', c') \<and> ctx_ok M' c' \<and> \<not> is_error r' \<and>
     buf_data (result_buffer r') = out \<and> buf_length (result_buffer r') = int (length out)"
proof -
  note nr = well_behavedD [OF assms(1)]
  from start_context_correct [OF assms(1)] obtain c0 where c0: "start_context M' = Some c0" "ctx_ok M' c0"
    "arena_free c0 = 33554432" by blast
  have "20000 < arena_free c0" using c0(3) by simp
  from json_decompressor_init_correct [OF this, of M'] obtain z c1 where
    z: "json_decompressor_init c0 = Some (z, c1)" "arena_free c0 \<le> arena_free c1 + 10000"
      "\<And>s d c script bytes. decompressor_holds M' s d c string_fresh script zeroes bytes \<Longrightarrow>
         decompressing M' json_start (z, s, d, c) script bytes" by blast
  have "ctx_ok M' c1" using same_client_ok [OF carved_json_decompressor [OF z(1)] c0(2)] .
  from start_writer_correct [OF this nr] obtain w c2 where
    w: "start_writer c1 = Some (w, c2)" "writer_repr w [] []" "ctx_ok M' c2" by blast
  have room: "80000 < arena_free c2" using c0(3) z(2) start_writer_room [OF w(1)] by simp
  have off: "bytes_offered M' w c []" if "ctx_ok M' c" for c
    using w(2) that by (rule writer_repr_bytes_offered)
  note dummy = strdecomp_init_correct [OF room off, folded zeroes_def]
  from open_sealed [OF assms(2) w(3) nr] w(3) dummy obtain s c3 where
    s: "strdecomp_init c2 w = Some (s, c3)" by blast
  have "ctx_ok M' c3" using same_client_ok [OF carved_strdecomp [OF s] w(3)] .
  from open_sealed [OF assms(2) this nr] obtain d c4 where
    d: "open_stream c3 (result_buffer r) = Some (d, c4)" "decoder_ready d script" "ctx_ok M' c4" by blast
  from dummy [OF d(3,2)] s have "decompressor_holds M' s d c4 string_fresh script zeroes []" by auto
  from finished_run [OF assms(3) z(3) [OF this]] obtain z' s' d' c5 where
    l: "json_decompress_loop z s d c4 = Some (z', s', d', c5)" "bytes_offered M' (sd_writer s') c5 out" by auto
  have ok: "ctx_ok M' c5" and repr: "writer_repr (sd_writer s') out []"
    using l(2) ctx_ok_no_error [OF _ nr] by (auto simp: bytes_offered_def)
  from consume_bytes [OF repr ok nr assms(4)] obtain r' w' c6 where
    "writer_consume_all_buffers (sd_writer s') c5 = Some (r', w', c6)" "ctx_ok M' c6" "\<not> is_error r'"
    "buf_data (result_buffer r') = out" "buf_length (result_buffer r') = int (length out)" by blast
  with c0(1) z(1) w(1) s d(1) l(1) show ?thesis by (auto simp: decompress_json_def)
qed

section \<open>What the tables cannot hold\<close>

text \<open>
  The table of fraction lengths is made for 16 bits, the field is 64 bits wide: a longer fraction
  runs outside it.
\<close>

lemma write_long_fraction:
  assumes "json_repr b m" and "json_roomy m k" and "has_frac (number_flags n)"
    and "2 ^ 16 \<le> unat (fraction_part n)"
  shows "write_number b e c n = None"
proof -
  have r: "list_all2 uint_repr (number_tables b) (m_numbers m)"
    and lim: "list_all2 (uint_room k) (m_numbers m) number_limits"
    using assms(1,2) by (simp_all add: json_repr_def json_roomy_def)
  have "length (m_numbers m) = 6" using list_all2_lengthD [OF lim] by (simp add: number_limits_def)
  then have u: "uint_repr (number_frac_tables b) (m_numbers m ! 3)" "uint_limit (m_numbers m ! 3) = 5"
    using list_all2_nthD [OF r, of 3] list_all2_nthD [OF lim, of 3]
    by (simp_all add: number_tables_def number_limits_def uint_room_def)
  have "(2 :: nat) ^ 16 < 2 ^ (4 * group_count (fraction_part n))"
    using le_less_trans [OF assms(4) group_count_fits] .
  then have "16 < 4 * group_count (fraction_part n)" by (simp only: power_strict_increasing_iff)
  then have "uint_limit (m_numbers m ! 3) \<le> group_count (fraction_part n)" using u(2) by simp
  from uint_write_too_long [OF u(1) this]
  have none: "uint_writer_write (number_frac_tables b) e c (fraction_part n) = None" for e c .
  show ?thesis
    unfolding write_number_fields number_fields_def number_tables_def Let_def
    using assms(3) by (auto simp: none bind_eq_None_conv)
qed

section \<open>Streams that are not JSON\<close>

lemma decompressor_refuses_kind:
  assumes "decompressing M y (z, s, d, c) ((p_kinds y, kind_code k) # rest) bytes" and "\<not> in_string y"
    and "length (p_kinds y) = 18" and "jsm_next 512 (p_stack y) k = None"
  shows "\<exists>z' d' c'. json_decompressor_process_next_token z s d c = Some (False, z', s, d', c') \<and>
     context_is_errored c' \<and> bytes_offered M (sd_writer s) c bytes"
proof -
  have h: "base_at (p_state y) (jd_base z) (p_tables y)" "jsm_repr 512 (jd_jsm z) (p_stack y)"
    "jsm_inv 512 (p_stack y)" "decoder_ready d ((p_kinds y, kind_code k) # rest)"
    "bytes_offered M (sd_writer s) c bytes" using assms(1) by (simp_all add: decompressor_holds_def)
  have small: "kind_code k < 18" using kind_code_less [of k] by (simp del: kind_code_less)
  from read_kind [OF h(1) assms(3) small h(4), of c] obtain t u d' where
    r: "json_compression_base_get_current_ftable (jd_base z) = Some t"
      "acod_decoder_read d c t = Some (int (kind_code k), d', c)" "ftable_increment t (int (kind_code k)) = Some u"
      "ftable_get_eof_symbol t = 17" by blast
  from jsm_process_refines [OF h(2,3), of k] assms(4) obtain m where
    m: "jsm_process_token (jd_jsm z) k = Some (False, m)" by (auto simp: outcome_def)
  have noeof: "int (kind_code k) \<noteq> 17" using kind_code_less [of k] by (simp del: kind_code_less)
  have "\<not> json_is_string_state (current_state (jd_base z))"
    using h(1) assms(2) by (simp add: base_at_def in_string_def)
  with r m noeof h(5) show ?thesis
    by (simp add: json_decompressor_process_next_token_def json_decompressor_read_nonstring_def
        json_decompressor_update_jsm_def)
qed

section \<open>The end of a stream inside a string\<close>

text \<open>
  The compressor does not count the end mark it writes; the decompressor counts it when it meets
  it inside a string, so tables used on for another stream differ.
\<close>

lemma finalize_keeps_tables:
  "json_compressor_finalize j s e c = Some (j', s', e', c') \<Longrightarrow> jtables (jc_base j') = jtables (jc_base j)"
  by (auto simp: json_compressor_finalize_def json_compressor_reset_def json_compression_base_reset_def
      bind_eq_Some_conv)

lemma string_eof_counted:
  assumes "strdecomp_read s d c = Some (False, s', d1, c1)"
    and "json_compression_base_get_current_ftable (jd_base z) = Some t"
    and "acod_decoder_read d1 c1 t = Some (sy, d2, c2)" and "ftable_increment t sy = Some u"
    and "sy = ftable_get_eof_symbol u"
  shows "json_decompressor_read_string z s d c =
     Some (False, z\<lparr>jd_base := set_current_ftable (jd_base z) u\<rparr>, s', d2, c2)"
  using assms by (simp add: json_decompressor_read_string_def)

section \<open>A decompressor at the start of a given stream\<close>

lemma fresh_decompressing:
  assumes "decoder_ready d script"
  shows "\<exists>z s c. decompressing lavish json_start (z, s, d, c) script []"
proof -
  obtain w c where o: "bytes_offered lavish w c []" using fresh_offered by blast
  from fresh_context obtain c0 where c0: "arena_free c0 = 33554432" by blast
  with strdecomp_init_correct [OF _ o assms, of c0] obtain s where
    s: "decompressor_holds lavish s d c string_fresh script zeroes []" by (auto simp: zeroes_def)
  from json_decompressor_init_correct [of c0 lavish] c0 obtain z where
    "\<forall>s d c script bytes. decompressor_holds lavish s d c string_fresh script zeroes bytes \<longrightarrow>
       decompressing lavish json_start (z, s, d, c) script bytes" by auto
  with s show ?thesis by blast
qed

lemma json_start_kinds: "p_kinds json_start = replicate 18 1"
  by (simp add: p_kinds_def kinds_of_def json_start_def json_fresh_def p_state_def numeral_eq_Suc)

lemma fresh_kind_decoder:
  assumes "n < 18"
  shows "\<exists>d. decoder_ready d [(p_kinds json_start, n)]"
proof -
  from fresh_encoder obtain e c where e: "encoder_holds lavish e c []" by blast
  from fresh_context obtain c0 where "arena_free c0 = 33554432" by blast
  with json_compression_base_init_correct [of c0] obtain b where "base_at JSON_STATE_START b json_fresh" by auto
  then have "base_at (p_state json_start) b (p_tables json_start)" by (simp add: json_start_def p_state_def)
  then obtain t where t: "ftable_repr t (p_kinds json_start)" unfolding p_kinds_def by (rule current_ftable)
  have cod: "codable (p_kinds json_start, n)"
    unfolding json_start_kinds using assms by (simp add: codable_def sum_list_replicate)
  from encoder_write_correct [OF e t cod] obtain e' c' where
    "encoder_holds lavish e' c' [(p_kinds json_start, n)]" by auto
  from fresh_decoder [OF this] cod show ?thesis by simp
qed

text \<open>A decoder before any kinds, each in a fresh table.\<close>

lemma fresh_kinds_decoder:
  assumes "\<forall>n\<in>set ns. n < 18" and "length ns < 2 ^ 56"
  shows "\<exists>d. decoder_ready d (map (\<lambda>n. (replicate 18 1, n)) ns)"
proof -
  let ?kinds = "replicate 18 1 :: nat list"
  from fresh_context obtain c0 where "arena_free c0 = 33554432" by blast
  with json_compression_base_init_correct [of c0] obtain b where "base_at JSON_STATE_START b json_fresh" by auto
  then have "base_at (p_state json_start) b (p_tables json_start)" by (simp add: json_start_def p_state_def)
  then obtain t where t: "ftable_repr t ?kinds"
    unfolding json_start_kinds [symmetric] p_kinds_def by (rule current_ftable)
  have cod: "codable (?kinds, n)" if "n < 18" for n
    using that by (simp add: codable_def sum_list_replicate)
  have "\<exists>e c. encoder_holds lavish e c (map (\<lambda>n. (?kinds, n)) ns)"
    using assms
  proof (induction ns rule: rev_induct)
    case Nil
    then show ?case using fresh_encoder by simp
  next
    case (snoc n ns)
    then obtain e c where e: "encoder_holds lavish e c (map (\<lambda>n. (?kinds, n)) ns)" by auto
    from encoder_write_correct [OF e t cod [of n]] snoc.prems show ?case by auto
  qed
  moreover have "\<forall>p\<in>set (map (\<lambda>n. (?kinds, n)) ns). codable p" using cod assms(1) by auto
  ultimately show ?thesis using fresh_decoder assms(2) by (metis length_map)
qed

text \<open>The document \<open>[]\<close> as a path of the stream.\<close>

lemma coded_fresh_kind:
  assumes "coded x script bytes y" and "\<not> in_string y" and "p_kinds y = replicate 18 1"
    and "jsm_next 512 (p_stack y) k = Some st"
    and "k \<in> {JSON_TOKEN_ARRAY_OPEN, JSON_TOKEN_ARRAY_CLOSE, JSON_TOKEN_OBJECT_OPEN, JSON_TOKEN_OBJECT_CLOSE}"
  shows "coded x (script @ [(replicate 18 1, kind_code k)]) (bytes @ token_bytes (simple_token k))
     (after_token y (simple_token k) st)"
proof -
  have "token_kind (simple_token k) = k" by (simp add: simple_token_def)
  moreover have "kind_fits y (kind_code k)"
    using kind_code_less [of k] assms(3) by (simp add: kind_fits_def codable_def sum_list_replicate del: kind_code_less)
  moreover have "payload_accepted k m (simple_token k)" "payload_script m (simple_token k) = []" for m
    using assms(5) by (cases k; simp add: payload_accepted_def payload_script_def simple_token_def token_ok_def bare_def)+
  moreover have "small_fraction (simple_token k)" by (simp add: small_fraction_def simple_token_def)
  ultimately show ?thesis using coded_token [OF assms(1,2), of "simple_token k" st] assms(3,4)
    by (simp add: token_script_def)
qed

lemma empty_array_coded:
  "\<exists>y. coded json_start (map (\<lambda>n. (replicate 18 1, n))
       [kind_code JSON_TOKEN_ARRAY_OPEN, kind_code JSON_TOKEN_ARRAY_CLOSE]) (chrs ''[]'') y \<and>
     p_stack y = [JSON_STATE_ROOT]"
proof -
  let ?st = "[JSON_STATE_ARRAY_START, JSON_STATE_ROOT]"
  let ?y = "after_token json_start (simple_token JSON_TOKEN_ARRAY_OPEN) ?st"
  have open_next: "jsm_next 512 (p_stack json_start) JSON_TOKEN_ARRAY_OPEN = Some ?st"
    by (simp add: json_start_def start_value_def push_within_def)
  have one: "coded json_start [(replicate 18 1, kind_code JSON_TOKEN_ARRAY_OPEN)]
      (token_bytes (simple_token JSON_TOKEN_ARRAY_OPEN)) ?y"
    using coded_fresh_kind [OF coded_nothing json_start_outside(2) json_start_kinds open_next] by simp
  have st: "p_stack ?y = ?st" "\<not> in_string ?y"
    by (simp_all add: after_token_def in_string_def p_state_def json_is_string_state_def)
  have "p_kinds ?y = replicate 18 1"
    by (simp add: p_kinds_def kinds_of_def kind_adapt_def payload_adapt_def after_token_def simple_token_def
        json_start_def json_fresh_def p_state_def numeral_eq_Suc)
  from coded_fresh_kind [OF one st(2) this, of JSON_TOKEN_ARRAY_CLOSE "[JSON_STATE_ROOT]"] st(1)
  have "coded json_start (map (\<lambda>n. (replicate 18 1, n))
       [kind_code JSON_TOKEN_ARRAY_OPEN, kind_code JSON_TOKEN_ARRAY_CLOSE]) (chrs ''[]'')
     (after_token ?y (simple_token JSON_TOKEN_ARRAY_CLOSE) [JSON_STATE_ROOT])"
    by (simp add: token_bytes_def simple_token_def chrs_def)
  then show ?thesis by (intro exI conjI) (assumption, simp add: after_token_def)
qed

text \<open>A token read and written back is the same bytes.\<close>

lemma tokens_rewrite_their_bytes:
  assumes "jsm_repr n (tok_jsm t) st" and "jsm_inv n st" and "at_last (tok_reader t) (b # bs)"
    and "bytes_offered M w d out"
  shows "\<exists>tok t'. json_tokenizer_parse_next t c = Some (tok, t', c) \<and>
     (token_kind tok = JSON_TOKEN_INVALID \<or>
      (\<exists>k w' d'. json_detokenizer_write w d tok = Some (int k, w', d') \<and>
         bytes_offered M w' d' (out @ take k (b # bs)) \<and> at_last (tok_reader t') (drop k (b # bs))))"
proof -
  from assms(1-3) show ?thesis
  proof (cases rule: parse_next_cases [where c = c])
    case (token tok t' st' rest)
    from json_detokenizer_writes [OF assms(4) token_ok_shaped [OF token(2)]] token(1,5,6) show ?thesis
      by (fastforce simp: wrote_def)
  qed auto
qed

end
