(* ===== verification/Json_Grammar.thy ===== *)
theory Json_Grammar
  imports Json_State_Machine
begin

text \<open>
  The language of the JSON state machine.  \<open>json_value d ks\<close> is the grammar of RFC 8259 on token
  kinds, with at most \<open>d\<close> levels of nesting; between tokens white space is free, so it is dropped
  before comparing.
\<close>

section \<open>The grammar\<close>

inductive json_value :: "nat \<Rightarrow> json_token_kind list \<Rightarrow> bool"
  and json_elements :: "nat \<Rightarrow> json_token_kind list \<Rightarrow> bool"
  and json_members :: "nat \<Rightarrow> json_token_kind list \<Rightarrow> bool" where
  scalar: "scalar_kind k \<Longrightarrow> json_value (Suc d) [k]"
| string: "list_all char_kind cs \<Longrightarrow>
    json_value (Suc d) (JSON_TOKEN_STRING_DELIMITER # cs @ [JSON_TOKEN_STRING_DELIMITER])"
| empty_array: "json_value (Suc d) [JSON_TOKEN_ARRAY_OPEN, JSON_TOKEN_ARRAY_CLOSE]"
| array: "json_elements d xs \<Longrightarrow> json_value (Suc d) (JSON_TOKEN_ARRAY_OPEN # xs @ [JSON_TOKEN_ARRAY_CLOSE])"
| empty_object: "json_value (Suc d) [JSON_TOKEN_OBJECT_OPEN, JSON_TOKEN_OBJECT_CLOSE]"
| object: "json_members d xs \<Longrightarrow> json_value (Suc d) (JSON_TOKEN_OBJECT_OPEN # xs @ [JSON_TOKEN_OBJECT_CLOSE])"
| last_element: "json_value d xs \<Longrightarrow> json_elements d xs"
| more_elements: "json_value d xs \<Longrightarrow> json_elements d ys \<Longrightarrow>
    json_elements d (xs @ JSON_TOKEN_VALUE_SEPARATOR # ys)"
| last_member: "list_all char_kind cs \<Longrightarrow> json_value d xs \<Longrightarrow>
    json_members d (JSON_TOKEN_STRING_DELIMITER # cs @ JSON_TOKEN_STRING_DELIMITER #
      JSON_TOKEN_KV_SEPARATOR # xs)"
| more_members: "list_all char_kind cs \<Longrightarrow> json_value d xs \<Longrightarrow> json_members d ys \<Longrightarrow>
    json_members d (JSON_TOKEN_STRING_DELIMITER # cs @ JSON_TOKEN_STRING_DELIMITER #
      JSON_TOKEN_KV_SEPARATOR # xs @ JSON_TOKEN_VALUE_SEPARATOR # ys)"

inductive json_document :: "nat \<Rightarrow> json_token_kind list \<Rightarrow> bool" where
  plain: "json_value d ks \<Longrightarrow> json_document d ks"
| marked: "json_value d ks \<Longrightarrow> json_document d (JSON_TOKEN_BOM # ks)"

section \<open>Runs\<close>

primrec jsm_run :: "nat \<Rightarrow> json_state list \<Rightarrow> json_token_kind list \<Rightarrow> json_state list option" where
  "jsm_run n st [] = Some st"
| "jsm_run n st (k # ks) = do { st \<leftarrow> jsm_next n st k; jsm_run n st ks }"

lemma jsm_run_append: "jsm_run n st (xs @ ys) = do { st \<leftarrow> jsm_run n st xs; jsm_run n st ys }"
  by (induction xs arbitrary: st) (auto split: Option.bind_splits)

definition solid :: "json_token_kind list \<Rightarrow> json_token_kind list" where
  "solid ks = filter (\<lambda>k. k \<noteq> JSON_TOKEN_WHITESPACE) ks"

lemma solid_simps [simp]:
  "solid [] = []" "solid (k # ks) = (if k = JSON_TOKEN_WHITESPACE then solid ks else k # solid ks)"
  "solid (xs @ ys) = solid xs @ solid ys"
  by (simp_all add: solid_def)

definition finishes :: "nat \<Rightarrow> json_state list \<Rightarrow> json_token_kind list \<Rightarrow> bool" where
  "finishes n st ks \<longleftrightarrow> jsm_run n st ks = Some [JSON_STATE_ROOT]"

lemma finishes_simps [simp]:
  "finishes n st [] \<longleftrightarrow> st = [JSON_STATE_ROOT]"
  "finishes n st (k # ks) \<longleftrightarrow> (\<exists>st'. jsm_next n st k = Some st' \<and> finishes n st' ks)"
  by (auto simp: finishes_def bind_eq_Some_conv)

section \<open>Everything accepted is JSON\<close>

text \<open>A phrase of the language \<open>Q\<close> leads the tokens, and the rest finishes from \<open>st\<close>.\<close>

definition leads :: "nat \<Rightarrow> json_token_kind list \<Rightarrow> (json_token_kind list \<Rightarrow> bool) \<Rightarrow> json_state list \<Rightarrow> bool" where
  "leads n ks Q st \<longleftrightarrow> (\<exists>xs ks'. solid ks = xs @ solid ks' \<and> Q xs \<and> finishes n st ks' \<and> length ks' < length ks)"

lemma leadsI: "solid ks = xs @ solid ks' \<Longrightarrow> Q xs \<Longrightarrow> finishes n st ks' \<Longrightarrow> length ks' < length ks \<Longrightarrow> leads n ks Q st"
  by (auto simp: leads_def)

lemma leads_weaken: "leads n ks Q st \<Longrightarrow> (\<And>xs. Q xs \<Longrightarrow> R (k # xs)) \<Longrightarrow> k \<noteq> JSON_TOKEN_WHITESPACE \<Longrightarrow>
    leads n (k # ks) R st"
  unfolding leads_def by (metis append_Cons length_Cons less_SucI solid_simps(2))

lemma leads_space: "leads n ks Q st \<Longrightarrow> leads n (JSON_TOKEN_WHITESPACE # ks) Q st"
  unfolding leads_def by (metis length_Cons less_SucI solid_simps(2))

lemma chars_solid: "list_all char_kind cs \<Longrightarrow> solid cs = cs"
  by (induction cs) (auto simp: char_kind_def)

definition chars_end :: "json_token_kind list \<Rightarrow> bool" where
  "chars_end xs \<longleftrightarrow> (\<exists>cs. list_all char_kind cs \<and> xs = cs @ [JSON_TOKEN_STRING_DELIMITER])"

lemma string_leads:
  "finishes n (s # r) ks \<Longrightarrow> s = JSON_STATE_STRING \<and> t = after_value r \<or>
     s = JSON_STATE_OBJECT_KEY \<and> t = JSON_STATE_OBJECT_KV_SEPARATOR # r \<Longrightarrow> leads n ks chars_end t"
proof (induction ks)
  case (Cons k ks)
  show ?case
  proof (cases "k = JSON_TOKEN_STRING_DELIMITER")
    case True
    with Cons.prems have "finishes n t ks" by auto
    with True show ?thesis by (intro leadsI [of _ "[k]" ks]) (auto simp: chars_end_def)
  next
    case False
    with Cons.prems have k: "char_kind k" "finishes n (s # r) ks" by (auto split: if_splits)
    show ?thesis
    proof (rule leads_weaken [OF Cons.IH [OF k(2) Cons.prems(2)]])
      fix xs assume "chars_end xs"
      then obtain cs where "list_all char_kind cs" "xs = cs @ [JSON_TOKEN_STRING_DELIMITER]"
        by (auto simp: chars_end_def)
      with k(1) show "chars_end (k # xs)" by (auto simp: chars_end_def intro!: exI [of _ "k # cs"])
    qed (use k(1) in \<open>auto simp: char_kind_def\<close>)
  qed
qed auto

lemma separator_leads:
  "finishes n (JSON_STATE_OBJECT_KV_SEPARATOR # r) ks \<Longrightarrow>
     leads n ks (\<lambda>xs. xs = [JSON_TOKEN_KV_SEPARATOR]) (JSON_STATE_VALUE # r)"
proof (induction ks)
  case (Cons k ks)
  show ?case
  proof (cases "k = JSON_TOKEN_WHITESPACE")
    case True
    with Cons show ?thesis by (auto simp: or_space_def intro: leads_space)
  next
    case False
    with Cons.prems show ?thesis
      by (intro leadsI [of _ "[k]" ks]) (auto simp: or_space_def split: if_splits)
  qed
qed auto

lemma key_start_leads:
  "finishes n (JSON_STATE_OBJECT_KEY_START # r) ks \<Longrightarrow>
     leads n ks (\<lambda>xs. xs = [JSON_TOKEN_STRING_DELIMITER]) (JSON_STATE_OBJECT_KEY # r)"
proof (induction ks)
  case (Cons k ks)
  show ?case
  proof (cases "k = JSON_TOKEN_WHITESPACE")
    case True
    with Cons show ?thesis by (auto simp: or_space_def intro: leads_space)
  next
    case False
    with Cons.prems show ?thesis
      by (intro leadsI [of _ "[k]" ks]) (auto simp: or_space_def split: if_splits)
  qed
qed auto

text \<open>What follows the opening bracket, and what follows a complete element or member.\<close>

definition array_body :: "nat \<Rightarrow> json_token_kind list \<Rightarrow> bool" where
  "array_body d xs \<longleftrightarrow> xs = [JSON_TOKEN_ARRAY_CLOSE] \<or>
     (\<exists>ys. json_elements d ys \<and> xs = ys @ [JSON_TOKEN_ARRAY_CLOSE])"

definition array_tail :: "nat \<Rightarrow> json_token_kind list \<Rightarrow> bool" where
  "array_tail d xs \<longleftrightarrow> xs = [JSON_TOKEN_ARRAY_CLOSE] \<or>
     (\<exists>ys. json_elements d ys \<and> xs = JSON_TOKEN_VALUE_SEPARATOR # ys @ [JSON_TOKEN_ARRAY_CLOSE])"

definition object_body :: "nat \<Rightarrow> json_token_kind list \<Rightarrow> bool" where
  "object_body d xs \<longleftrightarrow> xs = [JSON_TOKEN_OBJECT_CLOSE] \<or>
     (\<exists>ys. json_members d ys \<and> xs = ys @ [JSON_TOKEN_OBJECT_CLOSE])"

definition object_tail :: "nat \<Rightarrow> json_token_kind list \<Rightarrow> bool" where
  "object_tail d xs \<longleftrightarrow> xs = [JSON_TOKEN_OBJECT_CLOSE] \<or>
     (\<exists>ys. json_members d ys \<and> xs = JSON_TOKEN_VALUE_SEPARATOR # ys @ [JSON_TOKEN_OBJECT_CLOSE])"

lemma value_array: "array_body d xs \<Longrightarrow> json_value (Suc d) (JSON_TOKEN_ARRAY_OPEN # xs)"
  by (auto simp: array_body_def intro: json_value_json_elements_json_members.intros)

lemma value_object: "object_body d xs \<Longrightarrow> json_value (Suc d) (JSON_TOKEN_OBJECT_OPEN # xs)"
  by (auto simp: object_body_def intro: json_value_json_elements_json_members.intros)

lemma elements_tail: "json_value d xs \<Longrightarrow> array_tail d ys \<Longrightarrow> array_body d (xs @ ys)"
  unfolding array_body_def array_tail_def
  by (metis append_Cons append_assoc last_element more_elements)

lemma members_tail:
  assumes "chars_end ks" and "json_value d xs" and "object_tail d ys"
  shows "object_body d (JSON_TOKEN_STRING_DELIMITER # ks @ JSON_TOKEN_KV_SEPARATOR # xs @ ys)"
proof -
  from assms(1) obtain cs where cs: "list_all char_kind cs" "ks = cs @ [JSON_TOKEN_STRING_DELIMITER]"
    by (auto simp: chars_end_def)
  from assms(3) show ?thesis unfolding object_tail_def
  proof
    assume "ys = [JSON_TOKEN_OBJECT_CLOSE]"
    with last_member [OF cs(1) assms(2)] cs(2) show ?thesis
      unfolding object_body_def by (intro disjI2 exI conjI) (assumption, simp)
  next
    assume "\<exists>zs. json_members d zs \<and> ys = JSON_TOKEN_VALUE_SEPARATOR # zs @ [JSON_TOKEN_OBJECT_CLOSE]"
    then obtain zs where zs: "json_members d zs"
      "ys = JSON_TOKEN_VALUE_SEPARATOR # zs @ [JSON_TOKEN_OBJECT_CLOSE]" by blast
    with more_members [OF cs(1) assms(2) zs(1)] cs(2) show ?thesis
      unfolding object_body_def by (intro disjI2 exI conjI) (assumption, simp)
  qed
qed

lemma tail_array: "json_value d xs \<Longrightarrow> array_tail d ys \<Longrightarrow> array_tail d (JSON_TOKEN_VALUE_SEPARATOR # xs @ ys)"
  unfolding array_tail_def by (metis append_Cons append_assoc last_element more_elements)

lemma tail_object:
  "chars_end ks \<Longrightarrow> json_value d xs \<Longrightarrow> object_tail d ys \<Longrightarrow>
   object_tail d (JSON_TOKEN_VALUE_SEPARATOR # JSON_TOKEN_STRING_DELIMITER # ks @ JSON_TOKEN_KV_SEPARATOR # xs @ ys)"
  using members_tail [of ks d xs ys] by (auto simp: object_body_def object_tail_def)

lemma leads_trans:
  assumes "leads n ks Q st" and "\<And>ks'. length ks' < length ks \<Longrightarrow> finishes n st ks' \<Longrightarrow> leads n ks' R st'"
    and "\<And>xs ys. Q xs \<Longrightarrow> R ys \<Longrightarrow> S (xs @ ys)"
  shows "leads n ks S st'"
proof -
  from assms(1) obtain xs ks1 where 1: "solid ks = xs @ solid ks1" "Q xs" "finishes n st ks1"
    "length ks1 < length ks" by (auto simp: leads_def)
  from assms(2) [OF 1(4,3)] obtain ys ks2 where 2: "solid ks1 = ys @ solid ks2" "R ys" "finishes n st' ks2"
    "length ks2 < length ks1" by (auto simp: leads_def)
  show ?thesis by (rule leadsI [of _ "xs @ ys" ks2]) (use 1 2 assms(3) in auto)
qed

lemma leads_first:
  "finishes n st ks \<Longrightarrow> k \<noteq> JSON_TOKEN_WHITESPACE \<Longrightarrow> Q [k] \<Longrightarrow> leads n (k # ks) Q st"
  by (rule leadsI [of _ "[k]" ks]) simp_all

text \<open>
  One induction over the length of the input for the five states a value passes through.  Every
  pushed state needs a free slot, which bounds the nesting.
\<close>

definition accepted_phrases :: "nat \<Rightarrow> json_token_kind list \<Rightarrow> bool" where
  "accepted_phrases n ks \<longleftrightarrow> (\<forall>r. Suc (length r) \<le> n \<longrightarrow>
     (finishes n (JSON_STATE_VALUE # r) ks \<longrightarrow> leads n ks (json_value (Suc n - length r)) (after_value r)) \<and>
     (finishes n (JSON_STATE_ARRAY_START # r) ks \<longrightarrow> leads n ks (array_body (n - length r)) (after_value r)) \<and>
     (finishes n (JSON_STATE_ARRAY_CONTINUE # r) ks \<longrightarrow> leads n ks (array_tail (n - length r)) (after_value r)) \<and>
     (finishes n (JSON_STATE_OBJECT_START # r) ks \<longrightarrow> leads n ks (object_body (n - length r)) (after_value r)) \<and>
     (finishes n (JSON_STATE_OBJECT_CONTINUE # r) ks \<longrightarrow> leads n ks (object_tail (n - length r)) (after_value r)))"

lemma started_value_leads:
  assumes "start_value n st k = Some st'" and "finishes n st' ks" and "k \<noteq> JSON_TOKEN_WHITESPACE"
    and "accepted_phrases n ks" and "length (drop_value st) \<le> n"
  shows "leads n (k # ks) (json_value (Suc n - length (drop_value st))) (after_value (drop_value st))"
proof -
  define q where "q = drop_value st"
  have d: "Suc n - length q = Suc (n - length q)" using assms(5) by (simp add: q_def)
  note assms(1) [unfolded start_value_def q_def [symmetric] push_within_def]
  then consider
      "k = JSON_TOKEN_STRING_DELIMITER" "st' = JSON_STATE_STRING # q"
    | "k = JSON_TOKEN_OBJECT_OPEN" "st' = JSON_STATE_OBJECT_START # q" "length q < n"
    | "k = JSON_TOKEN_ARRAY_OPEN" "st' = JSON_STATE_ARRAY_START # q" "length q < n"
    | "scalar_kind k" "st' = after_value q"
    using assms(3) by (auto split: if_splits)
  then have "leads n (k # ks) (json_value (Suc (n - length q))) (after_value q)"
  proof cases
    case 1
    with assms(2) have "leads n ks chars_end (after_value q)" using string_leads [of n JSON_STATE_STRING q ks] by simp
    then show ?thesis
      by (rule leads_weaken) (use 1 in \<open>auto simp: chars_end_def intro: string\<close>)
  next
    case 2
    with assms(2,4) have "leads n ks (object_body (n - length q)) (after_value q)"
      by (simp add: accepted_phrases_def)
    then show ?thesis by (rule leads_weaken) (use 2 in \<open>auto intro: value_object\<close>)
  next
    case 3
    with assms(2,4) have "leads n ks (array_body (n - length q)) (after_value q)"
      by (simp add: accepted_phrases_def)
    then show ?thesis by (rule leads_weaken) (use 3 in \<open>auto intro: value_array\<close>)
  next
    case 4
    with assms(2,3) show ?thesis by (intro leads_first) (auto intro: scalar)
  qed
  then show ?thesis using d by (simp add: q_def)
qed

lemma key_leads:
  assumes "finishes n (JSON_STATE_OBJECT_KEY # r) ks"
  shows "leads n ks (\<lambda>xs. \<exists>cs. chars_end cs \<and> xs = cs @ [JSON_TOKEN_KV_SEPARATOR]) (JSON_STATE_VALUE # r)"
proof -
  have "leads n ks chars_end (JSON_STATE_OBJECT_KV_SEPARATOR # r)"
    using string_leads [OF assms] by simp
  then show ?thesis
    by (rule leads_trans [where R = "\<lambda>xs. xs = [JSON_TOKEN_KV_SEPARATOR]"]) (auto intro: separator_leads)
qed

definition shorter_accepted :: "nat \<Rightarrow> json_token_kind list \<Rightarrow> bool" where
  "shorter_accepted n ks \<longleftrightarrow> (\<forall>ks'. length ks' < length ks \<longrightarrow> accepted_phrases n ks')"

lemma phrases:
  assumes "shorter_accepted n ks" and "length ks' < length ks" and "Suc (length r) \<le> n"
  shows "finishes n (JSON_STATE_VALUE # r) ks' \<Longrightarrow> leads n ks' (json_value (Suc n - length r)) (after_value r)"
    and "finishes n (JSON_STATE_ARRAY_START # r) ks' \<Longrightarrow> leads n ks' (array_body (n - length r)) (after_value r)"
    and "finishes n (JSON_STATE_ARRAY_CONTINUE # r) ks' \<Longrightarrow> leads n ks' (array_tail (n - length r)) (after_value r)"
    and "finishes n (JSON_STATE_OBJECT_START # r) ks' \<Longrightarrow> leads n ks' (object_body (n - length r)) (after_value r)"
    and "finishes n (JSON_STATE_OBJECT_CONTINUE # r) ks' \<Longrightarrow> leads n ks' (object_tail (n - length r)) (after_value r)"
  using assms by (auto simp: shorter_accepted_def accepted_phrases_def)

lemma value_phrase:
  assumes "shorter_accepted n ks" and "Suc (length r) \<le> n" and "finishes n (JSON_STATE_VALUE # r) ks"
  shows "leads n ks (json_value (Suc n - length r)) (after_value r)"
proof (cases ks)
  case (Cons k ks')
  note ph = phrases [OF assms(1) _ assms(2), of ks']
  show ?thesis
  proof (cases "k = JSON_TOKEN_WHITESPACE")
    case True
    with assms(3) ph Cons show ?thesis by (auto simp: start_value_def intro: leads_space)
  next
    case False
    moreover have "accepted_phrases n ks'" using assms(1) Cons by (simp add: shorter_accepted_def)
    ultimately show ?thesis
      using assms Cons started_value_leads [of n "JSON_STATE_VALUE # r" k _ ks'] by auto
  qed
qed (use assms in simp)

lemma array_start_phrase:
  assumes "shorter_accepted n ks" and "Suc (length r) \<le> n" and "finishes n (JSON_STATE_ARRAY_START # r) ks"
  shows "leads n ks (array_body (n - length r)) (after_value r)"
proof (cases ks)
  case (Cons k ks')
  note ph = phrases [OF assms(1) _ assms(2)]
  show ?thesis
  proof (cases "k = JSON_TOKEN_WHITESPACE \<or> k = JSON_TOKEN_ARRAY_CLOSE")
    case True
    with assms(3) ph [of ks'] Cons show ?thesis
      by (auto simp: start_value_def array_body_def intro: leads_space leads_first)
  next
    case False
    with assms(3) Cons obtain st' where st': "start_value n (JSON_STATE_ARRAY_START # r) k = Some st'"
      "finishes n st' ks'" by auto
    have "accepted_phrases n ks'" using assms(1) Cons by (simp add: shorter_accepted_def)
    with started_value_leads [OF st'] False Cons assms(2)
    have "leads n ks (json_value (n - length r)) (JSON_STATE_ARRAY_CONTINUE # r)" by simp
    then show ?thesis
      by (rule leads_trans [where R = "array_tail (n - length r)"]) (auto intro: ph elements_tail)
  qed
qed (use assms in simp)

lemma array_continue_phrase:
  assumes "shorter_accepted n ks" and "Suc (length r) \<le> n" and "finishes n (JSON_STATE_ARRAY_CONTINUE # r) ks"
  shows "leads n ks (array_tail (n - length r)) (after_value r)"
proof (cases ks)
  case (Cons k ks')
  note ph = phrases [OF assms(1) _ assms(2)]
  show ?thesis
  proof (cases "k = JSON_TOKEN_VALUE_SEPARATOR")
    case False
    with assms(3) Cons ph [of ks'] show ?thesis
      by (auto simp: or_space_def array_tail_def intro: leads_space leads_first split: if_splits)
  next
    case True
    with assms(3) Cons have "finishes n (JSON_STATE_VALUE # JSON_STATE_ARRAY_CONTINUE # r) ks'"
      "Suc (length (JSON_STATE_ARRAY_CONTINUE # r)) \<le> n" by (auto simp: push_within_def split: if_splits)
    with phrases(1) [OF assms(1), of ks' "JSON_STATE_ARRAY_CONTINUE # r"] Cons
    have "leads n ks' (json_value (n - length r)) (JSON_STATE_ARRAY_CONTINUE # r)" by simp
    then have "leads n ks' (\<lambda>xs. array_tail (n - length r) (JSON_TOKEN_VALUE_SEPARATOR # xs)) (after_value r)"
      by (rule leads_trans [where R = "array_tail (n - length r)"]) (auto simp: Cons intro: ph tail_array)
    then show ?thesis unfolding Cons True by (rule leads_weaken) simp_all
  qed
qed (use assms in simp)

text \<open>A key, its value and the members that follow.\<close>

definition keyed_tail :: "nat \<Rightarrow> json_token_kind list \<Rightarrow> bool" where
  "keyed_tail d xs \<longleftrightarrow> (\<exists>c v t. chars_end c \<and> json_value d v \<and> object_tail d t \<and>
     xs = c @ JSON_TOKEN_KV_SEPARATOR # v @ t)"

lemma member_phrase:
  assumes "shorter_accepted n ks" and "Suc (Suc (length r)) \<le> n" and "length ks' < length ks"
    and "finishes n (JSON_STATE_OBJECT_KEY # s # r) ks'"
    and "s = JSON_STATE_OBJECT_START \<or> s = JSON_STATE_OBJECT_CONTINUE"
  shows "leads n ks' (keyed_tail (n - length r)) (after_value r)"
proof -
  define d where "d = n - length r"
  have value_tail: "leads n ks2 (\<lambda>xs. \<exists>v t. json_value d v \<and> object_tail d t \<and> xs = v @ t) (after_value r)"
    if "length ks2 < length ks'" "finishes n (JSON_STATE_VALUE # s # r) ks2" for ks2
  proof -
    have "leads n ks2 (json_value d) (JSON_STATE_OBJECT_CONTINUE # r)"
      using phrases(1) [OF assms(1), of ks2 "s # r"] that assms(2,3,5) by (auto simp: d_def)
    then show ?thesis
    proof (rule leads_trans [where R = "object_tail d"])
      fix ks3 assume "length ks3 < length ks2" "finishes n (JSON_STATE_OBJECT_CONTINUE # r) ks3"
      then show "leads n ks3 (object_tail d) (after_value r)"
        using phrases(5) [OF assms(1), of ks3 r] that(1) assms(2,3) by (simp add: d_def)
    qed blast
  qed
  show ?thesis unfolding d_def [symmetric]
  proof (rule leads_trans [OF key_leads [OF assms(4)]])
    show "\<And>ks2. length ks2 < length ks' \<Longrightarrow> finishes n (JSON_STATE_VALUE # s # r) ks2 \<Longrightarrow>
      leads n ks2 (\<lambda>xs. \<exists>v t. json_value d v \<and> object_tail d t \<and> xs = v @ t) (after_value r)"
      by (rule value_tail)
    fix xs ys
    assume "\<exists>cs. chars_end cs \<and> xs = cs @ [JSON_TOKEN_KV_SEPARATOR]"
      and "\<exists>v t. json_value d v \<and> object_tail d t \<and> ys = v @ t"
    then obtain cs v t where "chars_end cs" "json_value d v" "object_tail d t"
      "xs @ ys = cs @ JSON_TOKEN_KV_SEPARATOR # v @ t" by auto
    then show "keyed_tail d (xs @ ys)" unfolding keyed_tail_def by blast
  qed
qed

lemma object_start_phrase:
  assumes "shorter_accepted n ks" and "Suc (length r) \<le> n" and "finishes n (JSON_STATE_OBJECT_START # r) ks"
  shows "leads n ks (object_body (n - length r)) (after_value r)"
proof (cases ks)
  case (Cons k ks')
  show ?thesis
  proof (cases "k = JSON_TOKEN_STRING_DELIMITER")
    case False
    with assms(3) Cons phrases(4) [OF assms(1) _ assms(2), of ks'] show ?thesis
      by (auto simp: or_space_def object_body_def intro: leads_space leads_first split: if_splits)
  next
    case True
    with assms(3) Cons have "finishes n (JSON_STATE_OBJECT_KEY # JSON_STATE_OBJECT_START # r) ks'"
      "Suc (Suc (length r)) \<le> n" by (auto simp: push_within_def split: if_splits)
    with member_phrase [OF assms(1), of r ks'] Cons
    have "leads n ks' (keyed_tail (n - length r)) (after_value r)" by simp
    then show ?thesis unfolding Cons
      by (rule leads_weaken) (use True in \<open>auto simp: keyed_tail_def intro: members_tail\<close>)
  qed
qed (use assms in simp)

lemma object_continue_phrase:
  assumes "shorter_accepted n ks" and "Suc (length r) \<le> n" and "finishes n (JSON_STATE_OBJECT_CONTINUE # r) ks"
  shows "leads n ks (object_tail (n - length r)) (after_value r)"
proof (cases ks)
  case (Cons k ks')
  show ?thesis
  proof (cases "k = JSON_TOKEN_VALUE_SEPARATOR")
    case False
    with assms(3) Cons phrases(5) [OF assms(1) _ assms(2), of ks'] show ?thesis
      by (auto simp: or_space_def object_tail_def intro: leads_space leads_first split: if_splits)
  next
    case True
    with assms(3) Cons have k: "finishes n (JSON_STATE_OBJECT_KEY_START # JSON_STATE_OBJECT_CONTINUE # r) ks'"
      "Suc (Suc (length r)) \<le> n" by (auto simp: push_within_def split: if_splits)
    from key_start_leads [OF k(1)] have "leads n ks'
        (\<lambda>xs. \<exists>ys. keyed_tail (n - length r) ys \<and> xs = JSON_TOKEN_STRING_DELIMITER # ys) (after_value r)"
      by (rule leads_trans [where R = "keyed_tail (n - length r)"])
         (use member_phrase [OF assms(1) k(2)] Cons in auto)
    then show ?thesis unfolding Cons
      by (rule leads_weaken) (use True in \<open>auto simp: keyed_tail_def intro: tail_object\<close>)
  qed
qed (use assms in simp)

lemma accepted_phrases_all: "accepted_phrases n ks"
proof (induction ks rule: length_induct)
  case (1 ks)
  then have "shorter_accepted n ks" by (simp add: shorter_accepted_def)
  then show ?case unfolding accepted_phrases_def
    by (simp add: value_phrase array_start_phrase array_continue_phrase object_start_phrase
        object_continue_phrase)
qed

lemma accepted_is_value:
  assumes "finishes n [JSON_STATE_VALUE, JSON_STATE_ROOT] ks" and "2 \<le> n"
  shows "json_value n (solid ks)"
proof -
  have "leads n ks (json_value n) [JSON_STATE_ROOT]"
    using accepted_phrases_all [of n ks] assms by (auto simp: accepted_phrases_def dest: spec [of _ "[JSON_STATE_ROOT]"])
  then obtain xs ks' where l: "solid ks = xs @ solid ks'" "json_value n xs" "finishes n [JSON_STATE_ROOT] ks'"
    by (auto simp: leads_def)
  have "finishes n [JSON_STATE_ROOT] zs \<Longrightarrow> solid zs = []" for zs
    by (induction zs) (auto simp: or_space_def split: if_splits)
  with l show ?thesis by simp
qed

text \<open>The tokens of a finished run, white space aside, are a JSON document.\<close>

lemma accepted_is_document:
  assumes "finishes n [JSON_STATE_START, JSON_STATE_ROOT] ks" and "2 \<le> n"
  shows "json_document n (solid ks)"
proof (cases ks)
  case (Cons k ks')
  show ?thesis
  proof (cases "k = JSON_TOKEN_BOM")
    case True
    with assms Cons accepted_is_value [of n ks'] show ?thesis by (auto intro: marked)
  next
    case False
    with assms Cons have "finishes n [JSON_STATE_VALUE, JSON_STATE_ROOT] ks" by auto
    then show ?thesis using accepted_is_value assms(2) by (auto intro: plain)
  qed
qed (use assms in simp)

section \<open>All of JSON is accepted\<close>

lemma chars_run:
  "list_all char_kind cs \<Longrightarrow> s = JSON_STATE_STRING \<or> s = JSON_STATE_OBJECT_KEY \<Longrightarrow>
   jsm_run n (s # r) (cs @ ks) = jsm_run n (s # r) ks"
  by (induction cs) (auto simp: char_kind_def)

text \<open>
  A value is read in two positions: where \<open>VALUE\<close> is on top, and as the first element of an array.
\<close>

lemma grammar_run:
  "json_value d ks \<Longrightarrow> (\<forall>st rest. length (drop_value st) + d \<le> n \<longrightarrow>
     (\<exists>r. st = JSON_STATE_VALUE # r \<or> st = JSON_STATE_ARRAY_START # r) \<longrightarrow>
     jsm_run n st (ks @ rest) = jsm_run n (after_value (drop_value st)) rest)"
  "json_elements d ks \<Longrightarrow> (\<forall>r rest. Suc (length r) + d \<le> n \<longrightarrow>
     jsm_run n (JSON_STATE_ARRAY_START # r) (ks @ JSON_TOKEN_ARRAY_CLOSE # rest) = jsm_run n (after_value r) rest \<and>
     jsm_run n (JSON_STATE_VALUE # JSON_STATE_ARRAY_CONTINUE # r) (ks @ JSON_TOKEN_ARRAY_CLOSE # rest) =
       jsm_run n (after_value r) rest)"
  "json_members d ks \<Longrightarrow> (\<forall>r rest. Suc (length r) + d \<le> n \<longrightarrow>
     jsm_run n (JSON_STATE_OBJECT_START # r) (ks @ JSON_TOKEN_OBJECT_CLOSE # rest) = jsm_run n (after_value r) rest \<and>
     jsm_run n (JSON_STATE_OBJECT_KEY_START # JSON_STATE_OBJECT_CONTINUE # r) (ks @ JSON_TOKEN_OBJECT_CLOSE # rest) =
       jsm_run n (after_value r) rest)"
proof (induction rule: json_value_json_elements_json_members.inducts)
  case (scalar k d)
  then show ?case by (auto simp: start_value_def scalar_kind_def)
next
  case (string cs d)
  then show ?case by (auto simp: start_value_def push_within_def chars_run)
next
  case (empty_array d)
  then show ?case by (auto simp: start_value_def push_within_def)
next
  case (array d xs)
  then show ?case by (auto simp: start_value_def push_within_def)
next
  case (empty_object d)
  then show ?case by (auto simp: start_value_def push_within_def)
next
  case (object d xs)
  then show ?case by (auto simp: start_value_def push_within_def)
next
  case (last_element d xs)
  then show ?case by simp
next
  case (more_elements d xs ys)
  have "0 < d" using more_elements(1) by (cases rule: json_value.cases) auto
  with more_elements show ?case by (simp add: push_within_def)
next
  case (last_member cs d xs)
  have "0 < d" using last_member(2) by (cases rule: json_value.cases) auto
  with last_member show ?case by (simp add: push_within_def chars_run)
next
  case (more_members cs d xs ys)
  have "0 < d" using more_members(2) by (cases rule: json_value.cases) auto
  with more_members show ?case by (simp add: push_within_def chars_run)
qed

lemma document_accepted:
  assumes "json_document d ks" and "Suc d \<le> n"
  shows "finishes n [JSON_STATE_START, JSON_STATE_ROOT] ks"
proof -
  have v: "jsm_run n [JSON_STATE_VALUE, JSON_STATE_ROOT] xs = Some [JSON_STATE_ROOT]" if "json_value d xs" for xs
    using grammar_run(1) [OF that, of n, THEN spec, of "[JSON_STATE_VALUE, JSON_STATE_ROOT]", THEN spec, of "[]"] assms(2) by simp
  from assms(1) show ?thesis
  proof cases
    case plain
    obtain k ks' where ks: "ks = k # ks'" "k \<noteq> JSON_TOKEN_BOM"
      using plain by (cases rule: json_value.cases) (auto simp: scalar_kind_def)
    with v [OF plain] show ?thesis by (simp add: finishes_def)
  next
    case (marked xs)
    with v show ?thesis by (simp add: finishes_def)
  qed
qed

section \<open>White space\<close>

text \<open>Every white space token is outside strings; \<open>s\<close> says whether the list starts inside one.\<close>

primrec spaces_outside :: "bool \<Rightarrow> json_token_kind list \<Rightarrow> bool" where
  "spaces_outside s [] \<longleftrightarrow> True"
| "spaces_outside s (k # ks) \<longleftrightarrow> (k = JSON_TOKEN_WHITESPACE \<longrightarrow> \<not> s) \<and>
     spaces_outside (s \<noteq> (k = JSON_TOKEN_STRING_DELIMITER)) ks"

text \<open>A byte order mark must come first; everything else may be surrounded by white space.\<close>

definition spaced_document :: "nat \<Rightarrow> json_token_kind list \<Rightarrow> bool" where
  "spaced_document d ks \<longleftrightarrow> (let vs = (if ks \<noteq> [] \<and> hd ks = JSON_TOKEN_BOM then tl ks else ks)
     in json_value d (solid vs) \<and> spaces_outside False vs)"

definition reads_string :: "json_state list \<Rightarrow> bool" where
  "reads_string st \<longleftrightarrow> st \<noteq> [] \<and> json_is_string_state (hd st)"

lemma space_stays:
  assumes "jsm_inv n (s # r)" and "s \<noteq> JSON_STATE_START" and "\<not> reads_string (s # r)"
  shows "jsm_next n (s # r) JSON_TOKEN_WHITESPACE = Some (s # r)"
  using assms by (cases s) (auto simp: reads_string_def json_is_string_state_def start_value_def or_space_def)

lemma container_no_string: "containers r \<Longrightarrow> \<not> reads_string (after_value r) \<and> hd (after_value r) \<noteq> JSON_STATE_START"
  by (cases r rule: containers.cases) (auto simp: reads_string_def json_is_string_state_def)

definition toggled :: "json_state list \<Rightarrow> json_token_kind \<Rightarrow> json_state list \<Rightarrow> bool" where
  "toggled st k st' \<longleftrightarrow> reads_string st' = (reads_string st \<noteq> (k = JSON_TOKEN_STRING_DELIMITER)) \<and>
     hd st' \<noteq> JSON_STATE_START"

lemma start_value_toggles:
  assumes "start_value n st k = Some st'" and "containers r"
    and "st = JSON_STATE_VALUE # r \<or> st = JSON_STATE_ARRAY_START # r"
  shows "toggled st k st'"
  using assms container_no_string [of r]
  by (auto simp: start_value_def push_within_def toggled_def reads_string_def json_is_string_state_def
      scalar_kind_def split: if_splits)

lemma delimiter_toggles:
  assumes "jsm_inv n st" and "jsm_next n st k = Some st'"
  shows "toggled st k st'"
proof -
  obtain s r where st: "st = s # r" using assms(1) by (cases st) auto
  show ?thesis
  proof (cases s)
    case JSON_STATE_START
    then show ?thesis using assms start_value_toggles [of n "JSON_STATE_VALUE # r" k st' r]
      by (auto simp: st toggled_def reads_string_def json_is_string_state_def split: if_splits)
  next
    case JSON_STATE_VALUE
    then show ?thesis using assms start_value_toggles [of n st k st' r] by (simp add: st)
  next
    case JSON_STATE_ARRAY_START
    then show ?thesis using assms start_value_toggles [of n st k st' r] container_no_string [of r]
      by (auto simp: st toggled_def reads_string_def json_is_string_state_def split: if_splits)
  qed (use assms container_no_string [of r] in \<open>auto simp: st toggled_def reads_string_def
      json_is_string_state_def or_space_def push_within_def char_kind_def split: if_splits\<close>)
qed

lemma spaces_are_free:
  assumes "jsm_inv n st" and "hd st \<noteq> JSON_STATE_START" and "spaces_outside (reads_string st) ks"
    and "finishes n st (solid ks)"
  shows "finishes n st ks"
  using assms
proof (induction ks arbitrary: st)
  case (Cons k ks)
  obtain s r where st: "st = s # r" using Cons.prems(1) by (cases st) auto
  show ?case
  proof (cases "k = JSON_TOKEN_WHITESPACE")
    case True
    with Cons.prems have "finishes n st ks" by (intro Cons.IH) auto
    then show ?thesis using space_stays [of n s r] Cons.prems True by (auto simp: st)
  next
    case False
    with Cons.prems(4) obtain st' where st': "jsm_next n st k = Some st'" "finishes n st' (solid ks)" by auto
    note t = delimiter_toggles [OF Cons.prems(1) st'(1)]
    have "finishes n st' ks"
      by (rule Cons.IH) (use jsm_next_inv [OF Cons.prems(1) st'(1)] t Cons.prems(3) st'(2) False in \<open>auto simp: toggled_def\<close>)
    then show ?thesis using st'(1) by auto
  qed
qed simp

lemma spaced_document_accepted:
  assumes "spaced_document d ks" and "Suc d \<le> n"
  shows "finishes n [JSON_STATE_START, JSON_STATE_ROOT] ks"
proof -
  let ?v = "[JSON_STATE_VALUE, JSON_STATE_ROOT]"
  have body: "finishes n ?v vs" if "json_value d (solid vs)" "spaces_outside False vs" for vs
  proof (rule spaces_are_free)
    have "0 < d" using that(1) by (cases rule: json_value.cases) auto
    then show "jsm_inv n ?v" using assms(2) by simp
    show "finishes n ?v (solid vs)" 
      using grammar_run(1) [OF that(1), of n, THEN spec, of ?v, THEN spec, of "[]"] assms(2)
      by (simp add: finishes_def)
  qed (use that in \<open>auto simp: reads_string_def json_is_string_state_def\<close>)
  show ?thesis
  proof (cases "ks \<noteq> [] \<and> hd ks = JSON_TOKEN_BOM")
    case True
    then obtain vs where "ks = JSON_TOKEN_BOM # vs" by (cases ks) auto
    with assms(1) body [of vs] show ?thesis by (simp add: spaced_document_def)
  next
    case False
    with assms(1) body [of ks] have v: "finishes n ?v ks" by (simp add: spaced_document_def split: if_splits)
    show ?thesis
    proof (cases ks)
      case Nil
      then show ?thesis using v by simp
    next
      case (Cons k ks')
      with v False show ?thesis by auto
    qed
  qed
qed

section \<open>Runs of the machine itself\<close>

primrec jsm_feed :: "json_state_machine \<Rightarrow> json_token_kind list \<Rightarrow> (bool \<times> json_state_machine) option" where
  "jsm_feed m [] = Some (True, m)"
| "jsm_feed m (k # ks) = do {
     (accepted, m) \<leftarrow> jsm_process_token m k;
     if accepted then jsm_feed m ks else Some (False, m)
   }"

text \<open>A fresh machine is fed the tokens; the answer is whether it took them all and is at the end.\<close>

definition accepts_tokens :: "ctx \<Rightarrow> json_token_kind list \<Rightarrow> bool option" where
  "accepts_tokens c ks = do {
     (m, c) \<leftarrow> jsm_init c;
     (accepted, m) \<leftarrow> jsm_feed m ks;
     s \<leftarrow> jsm_get_current_state m;
     Some (accepted \<and> s = JSON_STATE_ROOT)
   }"

lemma inv_root: "jsm_inv n (JSON_STATE_ROOT # r) \<Longrightarrow> r = []"
  by simp

lemma jsm_feed_runs:
  "jsm_repr n m st \<Longrightarrow> jsm_inv n st \<Longrightarrow>
   \<exists>m' st'. jsm_feed m ks = Some (jsm_run n st ks \<noteq> None, m') \<and> jsm_repr n m' st' \<and> jsm_inv n st' \<and>
     (jsm_run n st ks \<noteq> None \<longrightarrow> jsm_run n st ks = Some st')"
proof (induction ks arbitrary: m st)
  case (Cons k ks)
  from jsm_process_refines [OF Cons.prems, of k] obtain m1 where
    p: "jsm_process_token m k = Some (jsm_next n st k \<noteq> None, m1)"
      "jsm_repr n m1 (case jsm_next n st k of Some st' \<Rightarrow> st' | None \<Rightarrow> rejected st)"
    by (auto simp: outcome_def)
  show ?case
  proof (cases "jsm_next n st k")
    case None
    with p rejected_inv [OF Cons.prems(2)] show ?thesis by auto
  next
    case (Some st1)
    from Cons.IH [of m1 st1] p(2) Some jsm_next_inv [OF Cons.prems(2) Some] p(1) show ?thesis by auto
  qed
qed auto

lemma accepts_tokens_finishes:
  assumes "600 < arena_free c"
  shows "accepts_tokens c ks = Some (finishes 512 [JSON_STATE_START, JSON_STATE_ROOT] ks)"
proof -
  from jsm_init_repr [OF assms] obtain m c' where
    i: "jsm_init c = Some (m, c')" "jsm_repr 512 m [JSON_STATE_START, JSON_STATE_ROOT]" by blast
  from jsm_feed_runs [OF i(2), of ks] obtain m' st' where
    f: "jsm_feed m ks = Some (jsm_run 512 [JSON_STATE_START, JSON_STATE_ROOT] ks \<noteq> None, m')"
      "jsm_repr 512 m' st'" "jsm_inv 512 st'"
      "jsm_run 512 [JSON_STATE_START, JSON_STATE_ROOT] ks \<noteq> None \<longrightarrow>
         jsm_run 512 [JSON_STATE_START, JSON_STATE_ROOT] ks = Some st'" by auto
  obtain s r where st: "st' = s # r" using f(3) by (cases st') auto
  have "s = JSON_STATE_ROOT \<longleftrightarrow> st' = [JSON_STATE_ROOT]" using f(3) inv_root st by auto
  with i(1) f(1,4) jsm_current [OF f(2) [unfolded st]] show ?thesis
    by (auto simp: accepts_tokens_def finishes_def)
qed

end
