(* ===== verification/Fixed_Pool.thy ===== *)
theory Fixed_Pool
  imports Stacks "HOL-Library.Signed_Division"
begin

text \<open>
  \<open>src/data_structures/fixed_pool.c\<close>: items of one type in a zero-initialised block, and a stack of
  the addresses of the unused ones.  A pointer to an item is its byte address.  \<open>fpool_state n p free\<close>
  says the pool has \<open>n\<close> items, all readable, of which those at \<open>free\<close> are unused.
\<close>

record 'a fixed_pool =
  fp_data :: u64
  fp_items :: "'a cells"
  fp_item_size :: int
  fp_free_slots :: "int fixed_stack"

section \<open>Operations\<close>

definition fpool_deinit :: "'a fixed_pool \<Rightarrow> 'a fixed_pool" where
  "fpool_deinit p = \<lparr>fp_data = 0, fp_items = [], fp_item_size = 0,
     fp_free_slots = fstack_deinit (fp_free_slots p)\<rparr>"

definition fpool_offset_to_value :: "'a fixed_pool \<Rightarrow> int \<Rightarrow> int" where
  "fpool_offset_to_value p offset = uint (fp_data p) + offset * fp_item_size p"

text \<open>The loop of \<open>fpool_init\<close> pushes the addresses of the items \<open>k - 1, \<dots>, 0\<close>.\<close>

fun fpool_fill_loop :: "u64 \<Rightarrow> int \<Rightarrow> nat \<Rightarrow> int fixed_stack \<Rightarrow> int fixed_stack option" where
  "fpool_fill_loop data item_size 0 s = Some s"
| "fpool_fill_loop data item_size (Suc k) s = do {
     s \<leftarrow> fstack_push (uint data + int k * item_size) s;
     fpool_fill_loop data item_size k s
   }"

text \<open>\<open>z\<close> is the item whose bytes are all zero.\<close>

definition fpool_init :: "ctx \<Rightarrow> 'a \<Rightarrow> int \<Rightarrow> int \<Rightarrow> ('a fixed_pool \<times> ctx) option" where
  "fpool_init c z item_size item_count = do {
     (data, c) \<leftarrow> context_arena_allocate_zero_init c item_count (word_of_int item_size);
     (s, c) \<leftarrow> fstack_init c 8 item_count;
     s \<leftarrow> fpool_fill_loop data item_size (nat item_count) s;
     Some (\<lparr>fp_data = data, fp_items = zeroed item_count z, fp_item_size = item_size,
            fp_free_slots = s\<rparr>, c)
   }"

definition fpool_has_space :: "'a fixed_pool \<Rightarrow> bool" where
  "fpool_has_space p \<longleftrightarrow> fstack_get_count (fp_free_slots p) > 0"

definition fpool_acquire :: "'a fixed_pool \<Rightarrow> (int \<times> 'a fixed_pool) option" where
  "fpool_acquire p = do {
     check (fpool_has_space p);
     (value, s) \<leftarrow> fstack_pop (fp_free_slots p);
     Some (value, p\<lparr>fp_free_slots := s\<rparr>)
   }"

definition fpool_release :: "'a fixed_pool \<Rightarrow> int \<Rightarrow> 'a fixed_pool option" where
  "fpool_release p value = do {
     check (fstack_get_count (fp_free_slots p) < fstack_get_capacity (fp_free_slots p));
     s \<leftarrow> fstack_push value (fp_free_slots p);
     Some (p\<lparr>fp_free_slots := s\<rparr>)
   }"

definition fpool_get_offset :: "'a fixed_pool \<Rightarrow> int \<Rightarrow> int option" where
  "fpool_get_offset p value = do {
     let offset = (value - uint (fp_data p)) sdiv fp_item_size p;
     check (offset \<ge> 0 \<and> offset < fstack_get_capacity (fp_free_slots p));
     Some offset
   }"

text \<open>Reading and writing the item at an address; an address between two items holds no item.\<close>

definition fpool_index :: "'a fixed_pool \<Rightarrow> int \<Rightarrow> int option" where
  "fpool_index p value = do {
     let distance = value - uint (fp_data p);
     check (fp_item_size p dvd distance);
     Some (distance div fp_item_size p)
   }"

definition fpool_load :: "'a fixed_pool \<Rightarrow> int \<Rightarrow> 'a option" where
  "fpool_load p value = do { i \<leftarrow> fpool_index p value; cell_at (fp_items p) i }"

definition fpool_store :: "'a fixed_pool \<Rightarrow> int \<Rightarrow> 'a \<Rightarrow> 'a fixed_pool option" where
  "fpool_store p value x = do {
     i \<leftarrow> fpool_index p value;
     items \<leftarrow> cell_put (fp_items p) i x;
     Some (p\<lparr>fp_items := items\<rparr>)
   }"

section \<open>The state of a pool\<close>

definition fpool_slots :: "'a fixed_pool \<Rightarrow> nat \<Rightarrow> int set" where
  "fpool_slots p n = (\<lambda>i. fpool_offset_to_value p (int i)) ` {..<n}"

definition fpool_state :: "nat \<Rightarrow> 'a fixed_pool \<Rightarrow> int list \<Rightarrow> bool" where
  "fpool_state n p free \<longleftrightarrow> 0 < fp_item_size p \<and> length (fp_items p) = n \<and>
     fstack_repr n (fp_free_slots p) free \<and> distinct free \<and> set free \<subseteq> fpool_slots p n \<and>
     (\<forall>i<n. fp_items p ! i \<noteq> None)"

lemma fpool_stateD:
  assumes "fpool_state n p free"
  shows "0 < fp_item_size p" "length (fp_items p) = n" "fstack_repr n (fp_free_slots p) free"
    "distinct free" "set free \<subseteq> fpool_slots p n" "\<And>i. i < n \<Longrightarrow> fp_items p ! i \<noteq> None"
  using assms by (simp_all add: fpool_state_def)

lemma fpool_slots_upd [simp]:
  "fpool_slots (p\<lparr>fp_free_slots := s\<rparr>) n = fpool_slots p n"
  "fpool_slots (p\<lparr>fp_items := xs\<rparr>) n = fpool_slots p n"
  by (simp_all add: fpool_slots_def fpool_offset_to_value_def)

lemma fpool_load_upd [simp]: "fpool_load (p\<lparr>fp_free_slots := s\<rparr>) v = fpool_load p v"
  by (simp add: fpool_load_def fpool_index_def)

lemma fpool_space: "fpool_state n p free \<Longrightarrow> fpool_has_space p \<longleftrightarrow> free \<noteq> []"
  by (auto simp: fpool_has_space_def fstack_count dest: fpool_stateD(3))

lemma fpool_acquire_state:
  assumes "fpool_state n p (r # free)"
  shows "\<exists>p'. fpool_acquire p = Some (r, p') \<and> fpool_state n p' free \<and>
     fpool_load p' = fpool_load p \<and> fpool_slots p' n = fpool_slots p n"
proof -
  obtain s where "fstack_pop (fp_free_slots p) = Some (r, s)" "fstack_repr n s free"
    using fstack_pop_repr [OF fpool_stateD(3) [OF assms]] by auto
  then show ?thesis using assms fpool_space [OF assms]
    by (intro exI [of _ "p\<lparr>fp_free_slots := s\<rparr>"]) (auto simp: fpool_acquire_def fpool_state_def)
qed

lemma fpool_release_state:
  assumes "fpool_state n p free" and "r \<in> fpool_slots p n" and "r \<notin> set free"
  shows "\<exists>p'. fpool_release p r = Some p' \<and> fpool_state n p' (r # free) \<and>
     fpool_load p' = fpool_load p \<and> fpool_slots p' n = fpool_slots p n"
proof -
  note a = fpool_stateD [OF assms(1)]
  have fin: "finite (fpool_slots p n)" by (simp add: fpool_slots_def)
  have "length (r # free) = card (set (r # free))" using a(4) assms(3) by (simp add: distinct_card)
  also have "\<dots> \<le> card (fpool_slots p n)" using a(5) assms(2) fin by (intro card_mono) auto
  also have "\<dots> \<le> n" unfolding fpool_slots_def using card_image_le [of "{..<n}"] by fastforce
  finally have room: "length free < n" by simp
  from fstack_push_repr [OF a(3) this, of r] obtain s where
    "fstack_push r (fp_free_slots p) = Some s" "fstack_repr n s (r # free)" by blast
  then show ?thesis using assms room
    by (intro exI [of _ "p\<lparr>fp_free_slots := s\<rparr>"])
      (auto simp: fpool_release_def fpool_state_def fstack_count [OF a(3)] fstack_capacity [OF a(3)])
qed

lemma fpool_index_slot:
  assumes "fpool_state n p free"
  shows "fpool_index p (fpool_offset_to_value p i) = Some i"
  using fpool_stateD(1) [OF assms] by (simp add: fpool_index_def fpool_offset_to_value_def)

lemma fpool_get_offset_slot:
  assumes "fpool_state n p free" and "i < n"
  shows "fpool_get_offset p (fpool_offset_to_value p (int i)) = Some (int i)"
proof -
  have "(int i * fp_item_size p) sdiv fp_item_size p = int i"
    using fpool_stateD(1) [OF assms(1)]
    by (auto simp: signed_divide_int_def sgn_mult abs_mult)
  then show ?thesis using fstack_capacity [OF fpool_stateD(3) [OF assms(1)]] assms(2)
    by (simp add: fpool_get_offset_def fpool_offset_to_value_def)
qed

lemma fpool_load_slot:
  assumes "fpool_state n p free" and "r \<in> fpool_slots p n"
  shows "\<exists>x. fpool_load p r = Some x"
proof -
  obtain i where "i < n" "r = fpool_offset_to_value p (int i)" using assms(2) by (auto simp: fpool_slots_def)
  then show ?thesis using fpool_index_slot [OF assms(1), of "int i"] fpool_stateD(2,6) [OF assms(1)]
    by (auto simp: fpool_load_def cell_at_nat)
qed

lemma fpool_store_slot:
  assumes "fpool_state n p free" and "r \<in> fpool_slots p n"
  shows "\<exists>p'. fpool_store p r x = Some p' \<and> fpool_state n p' free \<and>
     fpool_load p' = (fpool_load p)(r \<mapsto> x) \<and> fpool_slots p' n = fpool_slots p n"
proof -
  obtain i where i: "i < n" "r = fpool_offset_to_value p (int i)" using assms(2) by (auto simp: fpool_slots_def)
  define p' where "p' = p\<lparr>fp_items := (fp_items p)[i := Some x]\<rparr>"
  have "\<forall>j<n. (fp_items p)[i := Some x] ! j \<noteq> None"
    using fpool_stateD(6) [OF assms(1)] i(1) fpool_stateD(2) [OF assms(1)]
    by (simp only: nth_list_update split: if_split) simp
  then have st: "fpool_state n p' free" using assms(1) by (simp add: p'_def fpool_state_def)
  have "fpool_store p r x = Some p'"
    using fpool_index_slot [OF assms(1), of "int i"] fpool_stateD(2) [OF assms(1)] i
    by (simp add: fpool_store_def cell_put_nat p'_def)
  moreover have "fpool_load p' v = ((fpool_load p)(r \<mapsto> x)) v" for v
  proof (cases "fpool_index p v")
    case None
    then have "v \<noteq> r" using fpool_index_slot [OF assms(1), of "int i"] i by auto
    then show ?thesis using None by (simp add: fpool_load_def fpool_index_def p'_def)
  next
    case (Some j)
    then have v: "v = fpool_offset_to_value p j"
      by (auto simp: fpool_index_def fpool_offset_to_value_def Let_def check_def split: if_splits)
    have "fpool_index p' v = Some j" using Some by (simp add: fpool_index_def p'_def)
    moreover have "v = r \<longleftrightarrow> j = int i"
      using v i(2) fpool_stateD(1) [OF assms(1)] by (auto simp: fpool_offset_to_value_def)
    ultimately show ?thesis using Some i(1) fpool_stateD(2) [OF assms(1)]
      by (auto simp: fpool_load_def p'_def cell_at_def at_def in_range_def nth_list_update)
  qed
  ultimately show ?thesis using st by (auto simp: p'_def fun_eq_iff)
qed

section \<open>A new pool\<close>

lemma fpool_fill_loop_repr:
  assumes "fstack_repr n s (map (\<lambda>i. uint data + int i * size') [k..<n])" and "k \<le> n"
  shows "\<exists>s'. fpool_fill_loop data size' k s = Some s' \<and>
     fstack_repr n s' (map (\<lambda>i. uint data + int i * size') [0..<n])"
  using assms
proof (induction k arbitrary: s)
  case (Suc k)
  obtain s1 where s1: "fstack_push (uint data + int k * size') s = Some s1"
    "fstack_repr n s1 ((uint data + int k * size') # map (\<lambda>i. uint data + int i * size') [Suc k..<n])"
    using fstack_push_repr [OF Suc.prems(1)] Suc.prems(2) by auto
  have "[k..<n] = k # [Suc k..<n]" using Suc.prems(2) by (simp add: upt_conv_Cons)
  then have "fstack_repr n s1 (map (\<lambda>i. uint data + int i * size') [k..<n])" using s1(2) by simp
  from Suc.IH [OF this] Suc.prems(2) s1(1) show ?case by simp
qed simp

lemma fpool_init_state:
  assumes "n * (m + 8) < arena_free c" and "0 < m"
  shows "\<exists>p c'. fpool_init c z (int m) (int n) = Some (p, c') \<and>
     fpool_state n p (map (\<lambda>i. fpool_offset_to_value p (int i)) [0..<n]) \<and>
     fp_items p = replicate n (Some z) \<and>
     arena_free c' = arena_free c - n * (m + 8) \<and> ctx_error c' = ctx_error c"
proof -
  have "n * m < arena_free c" using assms(1) by (simp add: algebra_simps)
  from arena_allocate_room [OF this] obtain c1 where
    c1: "context_arena_allocate c (int n) (of_nat m) = Some (arena_offset (ctx_arena c), c1)"
    "arena_free c1 = arena_free c - n * m" "ctx_error c1 = ctx_error c" by blast
  define data where "data = arena_offset (ctx_arena c)"
  have "n * 8 < arena_free c1" using assms(1) c1(2) by (simp add: algebra_simps)
  from fstack_init_repr [OF this] obtain s :: "int fixed_stack" and c2 where
    s: "fstack_init c1 8 (int n) = Some (s, c2)" "fstack_repr n s []"
    "arena_free c2 = arena_free c1 - n * 8" "ctx_error c2 = ctx_error c1" by (auto simp: of_nat_numeral)
  then have "fstack_repr n s (map (\<lambda>i. uint data + int i * int m) [n..<n])" by simp
  from fpool_fill_loop_repr [OF this] obtain s' where
    s': "fpool_fill_loop data (int m) n s = Some s'"
    "fstack_repr n s' (map (\<lambda>i. uint data + int i * int m) [0..<n])" by blast
  define p where "p = \<lparr>fp_data = data, fp_items = zeroed (int n) z, fp_item_size = int m, fp_free_slots = s'\<rparr>"
  have "distinct (map (\<lambda>i. uint data + int i * int m) [0..<n])"
    using assms(2) by (simp add: distinct_map inj_on_def)
  then have "fpool_state n p (map (\<lambda>i. fpool_offset_to_value p (int i)) [0..<n])"
    using s'(2) assms(2) by (auto simp: fpool_state_def p_def fpool_slots_def fpool_offset_to_value_def zeroed_def)
  moreover have "fpool_init c z (int m) (int n) = Some (p, c2)"
    using c1(1) s(1) s'(1)
    by (simp add: fpool_init_def context_arena_allocate_zero_init_def p_def data_def)
  ultimately show ?thesis using c1 s assms(1)
    by (intro exI [of _ p] exI [of _ c2]) (simp add: p_def zeroed_def algebra_simps)
qed

end
