(* ===== verification/Fixed_Array_List.thy ===== *)
theory Fixed_Array_List
  imports Stacks
begin

text \<open>
  \<open>src/data_structures/fixed_array_list.c\<close>: a doubly linked list whose entries live in an array of
  fixed size, the unused ones on a stack.  A pointer to an entry is the address of the array (its
  arena offset) with the index in it, \<open>None\<close> is \<open>NULL\<close>.  New entries go to the head; \<open>prev\<close> leads
  from the head to the tail.  \<open>fal_repr n f es\<close> says \<open>f\<close> holds the entries \<open>es\<close>, pointers with
  values, head first.
\<close>

type_synonym fal_ref = "u64 \<times> int"

record 'v fal_entry =
  fe_prev :: "fal_ref option"
  fe_next :: "fal_ref option"
  fe_value :: "'v option"

record 'v fixed_array_list =
  fal_base :: u64
  fal_entries :: "'v fal_entry cells"
  fal_free_slots :: "fal_ref fixed_stack"
  fal_head :: "fal_ref option"
  fal_tail :: "fal_ref option"

section \<open>Reading and writing entries\<close>

definition fal_load :: "'v fixed_array_list \<Rightarrow> fal_ref \<Rightarrow> 'v fal_entry option" where
  "fal_load f r = (if fst r = fal_base f then cell_at (fal_entries f) (snd r) else None)"

definition fal_store :: "'v fixed_array_list \<Rightarrow> fal_ref \<Rightarrow> 'v fal_entry \<Rightarrow> 'v fixed_array_list option" where
  "fal_store f r e = do {
     check (fst r = fal_base f);
     es \<leftarrow> cell_put (fal_entries f) (snd r) e;
     Some (f\<lparr>fal_entries := es\<rparr>)
   }"

definition fal_set_prev :: "'v fixed_array_list \<Rightarrow> fal_ref \<Rightarrow> fal_ref option \<Rightarrow> 'v fixed_array_list option" where
  "fal_set_prev f r p = do { e \<leftarrow> fal_load f r; fal_store f r (e\<lparr>fe_prev := p\<rparr>) }"

definition fal_set_next :: "'v fixed_array_list \<Rightarrow> fal_ref \<Rightarrow> fal_ref option \<Rightarrow> 'v fixed_array_list option" where
  "fal_set_next f r p = do { e \<leftarrow> fal_load f r; fal_store f r (e\<lparr>fe_next := p\<rparr>) }"

definition fal_set_value :: "'v fixed_array_list \<Rightarrow> fal_ref \<Rightarrow> 'v option \<Rightarrow> 'v fixed_array_list option" where
  "fal_set_value f r v = do { e \<leftarrow> fal_load f r; fal_store f r (e\<lparr>fe_value := v\<rparr>) }"

section \<open>Operations\<close>

text \<open>The loop pushes the addresses of the entries \<open>k - 1, \<dots>, 0\<close>.\<close>

fun fal_fill_loop :: "u64 \<Rightarrow> nat \<Rightarrow> fal_ref fixed_stack \<Rightarrow> fal_ref fixed_stack option" where
  "fal_fill_loop base 0 s = Some s"
| "fal_fill_loop base (Suc k) s = do {
     s \<leftarrow> fstack_push (base, int k) s;
     fal_fill_loop base k s
   }"

definition fal_reset :: "'v fixed_array_list \<Rightarrow> 'v fixed_array_list option" where
  "fal_reset f = do {
     let f = f\<lparr>fal_head := None, fal_tail := None\<rparr>;
     let s = fstack_reset (fal_free_slots f);
     s \<leftarrow> fal_fill_loop (fal_base f) (nat (fstack_get_capacity s)) s;
     Some (f\<lparr>fal_free_slots := s\<rparr>)
   }"

definition fal_init :: "ctx \<Rightarrow> int \<Rightarrow> ('v fixed_array_list \<times> ctx) option" where
  "fal_init c len = do {
     (base, c) \<leftarrow> context_arena_allocate c len 24;
     (s, c) \<leftarrow> fstack_init c 8 len;
     f \<leftarrow> fal_reset \<lparr>fal_base = base, fal_entries = uninitialised len, fal_free_slots = s,
                     fal_head = None, fal_tail = None\<rparr>;
     Some (f, c)
   }"

definition fal_deinit :: "'v fixed_array_list \<Rightarrow> 'v fixed_array_list" where
  "fal_deinit f = \<lparr>fal_base = 0, fal_entries = [], fal_free_slots = fstack_deinit (fal_free_slots f),
                   fal_head = None, fal_tail = None\<rparr>"

definition fal_has_free_space :: "'v fixed_array_list \<Rightarrow> bool" where
  "fal_has_free_space f \<longleftrightarrow> fstack_get_count (fal_free_slots f) > 0"

definition fal_is_empty :: "'v fixed_array_list \<Rightarrow> bool" where
  "fal_is_empty f \<longleftrightarrow> fstack_get_count (fal_free_slots f) = fstack_get_capacity (fal_free_slots f)"

definition fal_push_head ::
  "'v fixed_array_list \<Rightarrow> 'v option \<Rightarrow> (fal_ref \<times> 'v fixed_array_list) option" where
  "fal_push_head f v = do {
     check (fal_has_free_space f);
     (new_entry, s) \<leftarrow> fstack_pop (fal_free_slots f);
     let f = f\<lparr>fal_free_slots := s\<rparr>;
     f \<leftarrow> fal_store f new_entry \<lparr>fe_prev = fal_head f, fe_next = None, fe_value = v\<rparr>;
     f \<leftarrow> (case fal_head f of
             Some h \<Rightarrow> fal_set_next f h (Some new_entry)
           | None \<Rightarrow> Some (f\<lparr>fal_tail := Some new_entry\<rparr>));
     Some (new_entry, f\<lparr>fal_head := Some new_entry\<rparr>)
   }"

definition fal_remove_entry :: "'v fixed_array_list \<Rightarrow> fal_ref \<Rightarrow> 'v fixed_array_list option" where
  "fal_remove_entry f entry = do {
     check (\<not> fal_is_empty f);
     s \<leftarrow> fstack_push entry (fal_free_slots f);
     let f = f\<lparr>fal_free_slots := s\<rparr>;
     e \<leftarrow> fal_load f entry;
     f \<leftarrow> (case fe_prev e of Some p \<Rightarrow> fal_set_next f p (fe_next e) | None \<Rightarrow> Some f);
     e \<leftarrow> fal_load f entry;
     f \<leftarrow> (case fe_next e of Some q \<Rightarrow> fal_set_prev f q (fe_prev e) | None \<Rightarrow> Some f);
     e \<leftarrow> fal_load f entry;
     let f = (if Some entry = fal_head f then f\<lparr>fal_head := fe_prev e\<rparr> else f);
     Some (if Some entry = fal_tail f then f\<lparr>fal_tail := fe_next e\<rparr> else f)
   }"

definition fal_pop_tail :: "'v fixed_array_list \<Rightarrow> ('v option \<times> 'v fixed_array_list) option" where
  "fal_pop_tail f = do {
     check (\<not> fal_is_empty f);
     tail \<leftarrow> fal_tail f;
     f \<leftarrow> fal_remove_entry f tail;
     e \<leftarrow> fal_load f tail;
     Some (fe_value e, f)
   }"

text \<open>Addresses are compared in bytes; an entry takes 24 of them.\<close>

definition fal_address :: "fal_ref \<Rightarrow> int" where
  "fal_address r = uint (fst r) + 24 * snd r"

definition fal_is_own_entry :: "'v fixed_array_list \<Rightarrow> fal_ref \<Rightarrow> bool" where
  "fal_is_own_entry f entry \<longleftrightarrow> fal_address entry \<ge> fal_address (fal_base f, 0) \<and>
     fal_address entry < fal_address (fal_base f, fstack_get_capacity (fal_free_slots f))"

section \<open>Links\<close>

fun first_ref :: "(fal_ref \<times> 'w) list \<Rightarrow> fal_ref option \<Rightarrow> fal_ref option" where
  "first_ref [] d = d"
| "first_ref ((r, v) # es) d = Some r"

fun last_ref :: "(fal_ref \<times> 'w) list \<Rightarrow> fal_ref option \<Rightarrow> fal_ref option" where
  "last_ref [] u = u"
| "last_ref ((r, v) # es) u = last_ref es (Some r)"

text \<open>
  \<open>segment m up es down\<close>: the entries \<open>es\<close> are linked in the store \<open>m\<close>; the one before them is
  \<open>up\<close>, the one after them \<open>down\<close>.
\<close>

fun segment :: "(fal_ref \<Rightarrow> 'v fal_entry option) \<Rightarrow> fal_ref option \<Rightarrow> (fal_ref \<times> 'v option) list \<Rightarrow>
    fal_ref option \<Rightarrow> bool" where
  "segment m up [] down \<longleftrightarrow> True"
| "segment m up ((r, v) # es) down \<longleftrightarrow>
     m r = Some \<lparr>fe_prev = first_ref es down, fe_next = up, fe_value = v\<rparr> \<and> segment m (Some r) es down"

lemma first_ref_append [simp]: "first_ref (xs @ ys) d = first_ref xs (first_ref ys d)"
  by (cases xs) auto

lemma last_ref_append [simp]: "last_ref (xs @ ys) u = last_ref ys (last_ref xs u)"
  by (induction xs arbitrary: u) auto

lemma segment_append [simp]:
  "segment m up (xs @ ys) down \<longleftrightarrow>
     segment m up xs (first_ref ys down) \<and> segment m (last_ref xs up) ys down"
  by (induction m up xs down rule: segment.induct) auto

lemma segment_other: "r \<notin> fst ` set es \<Longrightarrow> segment (m(r := e)) up es down = segment m up es down"
  by (induction m up es down rule: segment.induct) auto

lemma segment_relink_first:
  assumes "segment m up ((r, v) # es) down" and "r \<notin> fst ` set es"
  shows "segment (m(r \<mapsto> the (m r)\<lparr>fe_next := up'\<rparr>)) up' ((r, v) # es) down"
  using assms by (auto simp: segment_other)

lemma segment_relink_last:
  assumes "segment m up (es @ [(r, v)]) down" and "r \<notin> fst ` set es"
  shows "segment (m(r \<mapsto> the (m r)\<lparr>fe_prev := down'\<rparr>)) up (es @ [(r, v)]) down'"
  using assms by (auto simp: segment_other)

lemma segment_cong: "(\<And>r. r \<in> fst ` set es \<Longrightarrow> m r = m' r) \<Longrightarrow> segment m up es down = segment m' up es down"
  by (induction m up es down rule: segment.induct) auto

lemma first_ref_None [simp]: "first_ref es None = None \<longleftrightarrow> es = []"
  by (cases es) auto

lemma last_ref_None [simp]: "last_ref es None = None \<longleftrightarrow> es = []"
  by (cases es rule: rev_cases) auto

section \<open>Representation\<close>

definition fal_slots :: "u64 \<Rightarrow> nat \<Rightarrow> fal_ref set" where
  "fal_slots base n = (\<lambda>i. (base, int i)) ` {..<n}"

definition fal_state ::
  "nat \<Rightarrow> 'v fixed_array_list \<Rightarrow> (fal_ref \<times> 'v option) list \<Rightarrow> fal_ref list \<Rightarrow> bool" where
  "fal_state n f es free \<longleftrightarrow> fstack_repr n (fal_free_slots f) free \<and> length (fal_entries f) = n \<and>
     distinct (map fst es @ free) \<and> set (map fst es @ free) = fal_slots (fal_base f) n \<and>
     segment (fal_load f) None es None \<and> fal_head f = first_ref es None \<and> fal_tail f = last_ref es None"

definition fal_repr :: "nat \<Rightarrow> 'v fixed_array_list \<Rightarrow> (fal_ref \<times> 'v option) list \<Rightarrow> bool" where
  "fal_repr n f es \<longleftrightarrow> (\<exists>free. fal_state n f es free)"

lemma fal_stateD:
  assumes "fal_state n f es free"
  shows "fstack_repr n (fal_free_slots f) free" "length (fal_entries f) = n"
    "distinct (map fst es @ free)" "set (map fst es @ free) = fal_slots (fal_base f) n"
    "segment (fal_load f) None es None" "fal_head f = first_ref es None" "fal_tail f = last_ref es None"
  using assms by (simp_all add: fal_state_def)

lemma fal_state_length:
  assumes "fal_state n f es free"
  shows "length es + length free = n"
proof -
  have "inj_on (\<lambda>i. (fal_base f, int i)) {..<n}" by (rule inj_onI) simp
  then have "card (fal_slots (fal_base f) n) = n" by (simp add: fal_slots_def card_image)
  then have "length (map fst es @ free) = n"
    using distinct_card [OF fal_stateD(3) [OF assms]] fal_stateD(4) [OF assms] by simp
  then show ?thesis by simp
qed

lemma fal_load_upd [simp]:
  "fal_load (f\<lparr>fal_free_slots := s\<rparr>) = fal_load f" "fal_load (f\<lparr>fal_head := h\<rparr>) = fal_load f"
  "fal_load (f\<lparr>fal_tail := h\<rparr>) = fal_load f"
  by (simp_all add: fal_load_def fun_eq_iff)

lemma fal_storeE:
  assumes "r \<in> fal_slots (fal_base f) (length (fal_entries f))"
  obtains es where "fal_store f r e = Some (f\<lparr>fal_entries := es\<rparr>)"
    and "length es = length (fal_entries f)"
    and "fal_load (f\<lparr>fal_entries := es\<rparr>) = (fal_load f)(r \<mapsto> e)"
proof -
  obtain i where i: "r = (fal_base f, int i)" "i < length (fal_entries f)"
    using assms by (auto simp: fal_slots_def)
  have load: "cell_at ((fal_entries f)[i := Some e]) j = (if j = int i then Some e else cell_at (fal_entries f) j)" for j
    using i(2) by (auto simp: cell_at_def at_def in_range_def nth_list_update)
  show thesis
  proof (rule that [of "(fal_entries f)[i := Some e]"])
    show "fal_store f r e = Some (f\<lparr>fal_entries := (fal_entries f)[i := Some e]\<rparr>)"
      using i by (simp add: fal_store_def cell_put_nat)
    show "fal_load (f\<lparr>fal_entries := (fal_entries f)[i := Some e]\<rparr>) = (fal_load f)(r \<mapsto> e)"
      using i by (auto simp: fal_load_def load fun_eq_iff)
  qed simp
qed

lemma fal_state_counts:
  assumes "fal_state n f es free"
  shows "fal_has_free_space f \<longleftrightarrow> free \<noteq> []" and "fal_is_empty f \<longleftrightarrow> es = []"
  using fal_stateD(1) [OF assms] fal_state_length [OF assms]
  by (auto simp: fal_has_free_space_def fal_is_empty_def fstack_count fstack_capacity)

lemma fal_counts:
  assumes "fal_repr n f es"
  shows "fal_has_free_space f \<longleftrightarrow> length es < n" and "fal_is_empty f \<longleftrightarrow> es = []"
  using assms fal_state_counts fal_state_length by (fastforce simp: fal_repr_def)+

lemma fal_repr_refs: "fal_repr n f es \<Longrightarrow> fst ` set es \<subseteq> fal_slots (fal_base f) n"
  unfolding fal_repr_def fal_state_def by auto

lemma fal_repr_distinct: "fal_repr n f es \<Longrightarrow> distinct (map fst es)"
  using fal_stateD(3) by (fastforce simp: fal_repr_def)

lemma fal_repr_length: "fal_repr n f es \<Longrightarrow> length es \<le> n"
  using fal_state_length by (fastforce simp: fal_repr_def)

section \<open>Pushing\<close>

lemma fal_push_head_state:
  assumes "fal_state n f es (r # free)"
  shows "\<exists>f'. fal_push_head f v = Some (r, f') \<and> fal_state n f' ((r, v) # es) free \<and>
     fal_base f' = fal_base f"
proof -
  note a = fal_stateD [OF assms]
  obtain s where s: "fstack_pop (fal_free_slots f) = Some (r, s)" "fstack_repr n s free"
    using fstack_pop_repr [OF a(1)] by auto
  define f1 where "f1 = f\<lparr>fal_free_slots := s\<rparr>"
  define e where "e = \<lparr>fe_prev = fal_head f, fe_next = None, fe_value = v\<rparr>"
  have slots: "set (map fst es @ r # free) = fal_slots (fal_base f1) (length (fal_entries f1))"
    using a(2,4) by (simp add: f1_def)
  then have "r \<in> fal_slots (fal_base f1) (length (fal_entries f1))" by auto
  then obtain c1 where c1: "fal_store f1 r e = Some (f1\<lparr>fal_entries := c1\<rparr>)"
    "length c1 = length (fal_entries f1)" "fal_load (f1\<lparr>fal_entries := c1\<rparr>) = (fal_load f1)(r \<mapsto> e)"
    by (rule fal_storeE)
  define f2 where "f2 = f1\<lparr>fal_entries := c1\<rparr>"
  have new: "r \<notin> fst ` set es" using a(3) by auto
  have seg: "segment (fal_load f2) None es None"
    unfolding f2_def c1(3) segment_other [OF new] using a(5) by (simp add: f1_def)
  have head: "fal_load f2 r = Some e" unfolding f2_def c1(3) by simp
  have step: "fal_push_head f v = do {
      f3 \<leftarrow> (case fal_head f2 of Some h \<Rightarrow> fal_set_next f2 h (Some r) | None \<Rightarrow> Some (f2\<lparr>fal_tail := Some r\<rparr>));
      Some (r, f3\<lparr>fal_head := Some r\<rparr>) }"
    using s(1) c1(1) fal_state_counts(1) [OF assms]
    by (simp add: fal_push_head_def f1_def [symmetric] e_def [symmetric] f2_def [symmetric])
  have fields: "length (fal_entries f2) = n" "fal_base f2 = fal_base f" "fal_free_slots f2 = s"
    "fal_head f2 = first_ref es None" "fal_tail f2 = last_ref es None"
    using a(2,6,7) c1(2) by (simp_all add: f2_def f1_def)
  have part: "distinct (map fst ((r, v) # es) @ free)"
    "set (map fst ((r, v) # es) @ free) = fal_slots (fal_base f) n"
    using a(3,4) by auto
  show ?thesis
  proof (cases es)
    case Nil
    then show ?thesis using step fields s head part a(6)
      by (intro exI [of _ "f2\<lparr>fal_tail := Some r, fal_head := Some r\<rparr>"])
        (auto simp: fal_state_def e_def)
  next
    case (Cons hv es')
    obtain h w where hw: "hv = (h, w)" by fastforce
    have "h \<in> fal_slots (fal_base f2) (length (fal_entries f2))"
      using slots by (auto simp: fields Cons hw f1_def a(2))
    then obtain c2 where c2: "fal_store f2 h (the (fal_load f2 h)\<lparr>fe_next := Some r\<rparr>) = Some (f2\<lparr>fal_entries := c2\<rparr>)"
      "length c2 = length (fal_entries f2)"
      "fal_load (f2\<lparr>fal_entries := c2\<rparr>) = (fal_load f2)(h \<mapsto> the (fal_load f2 h)\<lparr>fe_next := Some r\<rparr>)"
      by (rule fal_storeE)
    define f3 where "f3 = f2\<lparr>fal_entries := c2\<rparr>"
    have hs: "h \<notin> fst ` set es'" "h \<noteq> r" using a(3) new by (auto simp: Cons hw)
    have "segment (fal_load f3) (Some r) es None"
      unfolding f3_def c2(3) Cons hw by (rule segment_relink_first) (use seg hs(1) in \<open>simp_all add: Cons hw\<close>)
    moreover have "fal_load f3 r = Some e" unfolding f3_def c2(3) using head hs(2) by simp
    moreover have "fal_set_next f2 h (Some r) = Some f3"
      using c2(1) seg by (simp add: fal_set_next_def f3_def Cons hw)
    ultimately show ?thesis using step fields s part Cons hw c2(2) a(6)
      by (intro exI [of _ "f3\<lparr>fal_head := Some r\<rparr>"]) (auto simp: fal_state_def e_def f3_def)
  qed
qed

section \<open>Removing\<close>

lemma fal_unlink_prev:
  assumes "segment (fal_load f) None a (Some r)" and "segment (fal_load f) (Some r) b None"
    and "distinct (map fst a @ r # map fst b)"
    and "set (map fst b) \<subseteq> fal_slots (fal_base f) (length (fal_entries f))"
  shows "\<exists>es. (case first_ref b None of Some p \<Rightarrow> fal_set_next f p up | None \<Rightarrow> Some f) =
       Some (f\<lparr>fal_entries := es\<rparr>) \<and> length es = length (fal_entries f) \<and>
     fal_load (f\<lparr>fal_entries := es\<rparr>) r = fal_load f r \<and>
     segment (fal_load (f\<lparr>fal_entries := es\<rparr>)) None a (Some r) \<and>
     segment (fal_load (f\<lparr>fal_entries := es\<rparr>)) up b None"
proof (cases b)
  case Nil
  then show ?thesis using assms by (intro exI [of _ "fal_entries f"]) simp
next
  case (Cons pw b')
  obtain p w where pw: "pw = (p, w)" by fastforce
  have "p \<in> fal_slots (fal_base f) (length (fal_entries f))" using assms(4) by (simp add: Cons pw)
  then obtain c where c: "fal_store f p (the (fal_load f p)\<lparr>fe_next := up\<rparr>) = Some (f\<lparr>fal_entries := c\<rparr>)"
    "length c = length (fal_entries f)"
    "fal_load (f\<lparr>fal_entries := c\<rparr>) = (fal_load f)(p \<mapsto> the (fal_load f p)\<lparr>fe_next := up\<rparr>)"
    by (rule fal_storeE)
  have p: "p \<notin> fst ` set a" "p \<noteq> r" "p \<notin> fst ` set b'" using assms(3) by (auto simp: Cons pw)
  have "segment (fal_load (f\<lparr>fal_entries := c\<rparr>)) up b None"
    unfolding c(3) Cons pw by (rule segment_relink_first) (use assms(2) p(3) in \<open>simp_all add: Cons pw\<close>)
  then show ?thesis using c(1,2) assms(1,2) p(1,2)
    by (intro exI [of _ c]) (simp add: Cons pw fal_set_next_def c(3) segment_other)
qed

lemma fal_unlink_next:
  assumes "segment (fal_load f) None a (Some r)" and "segment (fal_load f) up b None"
    and "distinct (map fst a @ r # map fst b)"
    and "set (map fst a) \<subseteq> fal_slots (fal_base f) (length (fal_entries f))"
  shows "\<exists>es. (case last_ref a None of Some q \<Rightarrow> fal_set_prev f q down | None \<Rightarrow> Some f) =
       Some (f\<lparr>fal_entries := es\<rparr>) \<and> length es = length (fal_entries f) \<and>
     fal_load (f\<lparr>fal_entries := es\<rparr>) r = fal_load f r \<and>
     segment (fal_load (f\<lparr>fal_entries := es\<rparr>)) None a down \<and>
     segment (fal_load (f\<lparr>fal_entries := es\<rparr>)) up b None"
proof (cases a rule: rev_cases)
  case Nil
  then show ?thesis using assms by (intro exI [of _ "fal_entries f"]) simp
next
  case (snoc a' qw)
  obtain q w where qw: "qw = (q, w)" by fastforce
  have "q \<in> fal_slots (fal_base f) (length (fal_entries f))" using assms(4) by (simp add: snoc qw)
  then obtain c where c: "fal_store f q (the (fal_load f q)\<lparr>fe_prev := down\<rparr>) = Some (f\<lparr>fal_entries := c\<rparr>)"
    "length c = length (fal_entries f)"
    "fal_load (f\<lparr>fal_entries := c\<rparr>) = (fal_load f)(q \<mapsto> the (fal_load f q)\<lparr>fe_prev := down\<rparr>)"
    by (rule fal_storeE)
  have q: "q \<notin> fst ` set b" "q \<noteq> r" "q \<notin> fst ` set a'" using assms(3) by (auto simp: snoc qw)
  have "segment (fal_load (f\<lparr>fal_entries := c\<rparr>)) None a down"
    unfolding c(3) snoc qw by (rule segment_relink_last) (use assms(1) q(3) in \<open>simp_all add: snoc qw\<close>)
  then show ?thesis using c(1,2) assms(1,2) q(1,2)
    by (intro exI [of _ c]) (simp add: snoc qw fal_set_prev_def c(3) segment_other)
qed

lemma fal_remove_entry_state:
  assumes "fal_state n f (a @ (r, v) # b) free"
  shows "\<exists>f' e. fal_remove_entry f r = Some f' \<and> fal_state n f' (a @ b) (r # free) \<and>
     fal_base f' = fal_base f \<and> fal_load f' r = Some e \<and> fe_value e = v"
proof -
  note s = fal_stateD [OF assms]
  have "length free < n" using fal_state_length [OF assms] by simp
  then obtain st where st: "fstack_push r (fal_free_slots f) = Some st" "fstack_repr n st (r # free)"
    using fstack_push_repr [OF s(1)] by blast
  define f0 where "f0 = f\<lparr>fal_free_slots := st\<rparr>"
  have segs: "segment (fal_load f0) None a (Some r)" "segment (fal_load f0) (Some r) b None"
    and entry: "fal_load f0 r = Some \<lparr>fe_prev = first_ref b None, fe_next = last_ref a None, fe_value = v\<rparr>"
    using s(5) by (simp_all add: f0_def)
  have dist: "distinct (map fst a @ r # map fst b)" using s(3) by auto
  have inside: "set (map fst b) \<subseteq> fal_slots (fal_base f0) (length (fal_entries f0))"
    "set (map fst a) \<subseteq> fal_slots (fal_base f0) (length (fal_entries f0))"
    using s(2,4) by (auto simp: f0_def)
  from fal_unlink_prev [OF segs dist inside(1), of "last_ref a None"] obtain c1 where
    c1: "(case first_ref b None of Some p \<Rightarrow> fal_set_next f0 p (last_ref a None) | None \<Rightarrow> Some f0) =
       Some (f0\<lparr>fal_entries := c1\<rparr>)" "length c1 = length (fal_entries f0)"
    "fal_load (f0\<lparr>fal_entries := c1\<rparr>) r = fal_load f0 r"
    "segment (fal_load (f0\<lparr>fal_entries := c1\<rparr>)) None a (Some r)"
    "segment (fal_load (f0\<lparr>fal_entries := c1\<rparr>)) (last_ref a None) b None" by blast
  define f1 where "f1 = f0\<lparr>fal_entries := c1\<rparr>"
  have "set (map fst a) \<subseteq> fal_slots (fal_base f1) (length (fal_entries f1))"
    using inside(2) c1(2) by (simp add: f1_def)
  from fal_unlink_next [OF c1(4,5) [folded f1_def] dist this, of "first_ref b None"] obtain c2 where
    c2: "(case last_ref a None of Some q \<Rightarrow> fal_set_prev f1 q (first_ref b None) | None \<Rightarrow> Some f1) =
       Some (f1\<lparr>fal_entries := c2\<rparr>)" "length c2 = length (fal_entries f1)"
    "fal_load (f1\<lparr>fal_entries := c2\<rparr>) r = fal_load f1 r"
    "segment (fal_load (f1\<lparr>fal_entries := c2\<rparr>)) None a (first_ref b None)"
    "segment (fal_load (f1\<lparr>fal_entries := c2\<rparr>)) (last_ref a None) b None" by blast
  define f2 where "f2 = f1\<lparr>fal_entries := c2\<rparr>"
  define f3 where "f3 = (if Some r = fal_head f2 then f2\<lparr>fal_head := first_ref b None\<rparr> else f2)"
  define f4 where "f4 = (if Some r = fal_tail f3 then f3\<lparr>fal_tail := last_ref a None\<rparr> else f3)"
  have e1: "fal_load f1 r = fal_load f0 r" and e2: "fal_load f2 r = fal_load f0 r"
    using c1(3) c2(3) by (simp_all add: f1_def f2_def)
  have run: "fal_remove_entry f r = Some f4"
    using st(1) fal_state_counts(2) [OF assms] c1(1) c2(1) entry e1 e2
    by (simp add: fal_remove_entry_def f0_def [symmetric] f1_def [symmetric] f2_def [symmetric] Let_def del: fal_load_upd cong: option.case_cong)
      (auto simp: f4_def f3_def)
  have load: "fal_load f4 = fal_load f2" by (simp add: f4_def f3_def)
  have same: "fal_base f4 = fal_base f" "fal_free_slots f4 = st" "length (fal_entries f4) = n"
    using c1(2) c2(2) s(2) by (simp_all add: f4_def f3_def f2_def f1_def f0_def)
  have "fal_head f2 = first_ref a (Some r)" "fal_tail f2 = last_ref b (Some r)"
    using s(6,7) by (simp_all add: f2_def f1_def f0_def)
  moreover have "first_ref a (Some r) = Some r \<longleftrightarrow> a = []" using dist by (cases a) auto
  moreover have "last_ref b (Some r) = Some r \<longleftrightarrow> b = []" using dist by (cases b rule: rev_cases) auto
  ultimately have ends: "fal_head f4 = first_ref (a @ b) None" "fal_tail f4 = last_ref (a @ b) None"
    by (cases a; cases b rule: rev_cases; auto simp: f4_def f3_def)+
  have "fal_state n f4 (a @ b) (r # free)"
    unfolding fal_state_def load using same st(2) c2(4,5) s(3,4) ends by (auto simp: f2_def)
  then show ?thesis using run same(1) load e2 entry by auto
qed

lemma fal_pop_tail_state:
  assumes "fal_state n f (a @ [(r, v)]) free"
  shows "\<exists>f'. fal_pop_tail f = Some (v, f') \<and> fal_state n f' a (r # free) \<and> fal_base f' = fal_base f"
proof -
  obtain f' e where "fal_remove_entry f r = Some f'" "fal_state n f' a (r # free)"
    "fal_base f' = fal_base f" "fal_load f' r = Some e" "fe_value e = v"
    using fal_remove_entry_state [of n f a r v "[]" free] assms by auto
  then show ?thesis using fal_stateD(7) [OF assms] fal_state_counts(2) [OF assms]
    by (simp add: fal_pop_tail_def)
qed

lemma fal_set_value_state:
  assumes "fal_state n f (a @ (r, v) # b) free"
  shows "\<exists>f'. fal_set_value f r w = Some f' \<and> fal_state n f' (a @ (r, w) # b) free \<and>
     fal_base f' = fal_base f"
proof -
  note s = fal_stateD [OF assms]
  have "r \<in> fal_slots (fal_base f) (length (fal_entries f))" using s(2,4) by auto
  then obtain c where c: "fal_store f r (the (fal_load f r)\<lparr>fe_value := w\<rparr>) = Some (f\<lparr>fal_entries := c\<rparr>)"
    "length c = length (fal_entries f)"
    "fal_load (f\<lparr>fal_entries := c\<rparr>) = (fal_load f)(r \<mapsto> the (fal_load f r)\<lparr>fe_value := w\<rparr>)"
    by (rule fal_storeE)
  have new: "r \<notin> fst ` set a" "r \<notin> fst ` set b" using s(3) by auto
  have "fal_set_value f r w = Some (f\<lparr>fal_entries := c\<rparr>)"
    using s(5) c(1) by (simp add: fal_set_value_def)
  moreover have "fal_state n (f\<lparr>fal_entries := c\<rparr>) (a @ (r, w) # b) free"
    using s c(2) new by (simp add: fal_state_def c(3) segment_other)
  ultimately show ?thesis by (intro exI [of _ "f\<lparr>fal_entries := c\<rparr>"]) simp
qed

section \<open>Resetting\<close>

lemma fal_fill_loop_repr:
  assumes "fstack_repr n s (map (\<lambda>i. (base, int i)) [k..<n])" and "k \<le> n"
  shows "\<exists>s'. fal_fill_loop base k s = Some s' \<and> fstack_repr n s' (map (\<lambda>i. (base, int i)) [0..<n])"
  using assms
proof (induction k arbitrary: s)
  case (Suc k)
  obtain s1 where s1: "fstack_push (base, int k) s = Some s1"
    "fstack_repr n s1 ((base, int k) # map (\<lambda>i. (base, int i)) [Suc k..<n])"
    using fstack_push_repr [OF Suc.prems(1)] Suc.prems(2) by auto
  have "[k..<n] = k # [Suc k..<n]" using Suc.prems(2) by (simp add: upt_conv_Cons)
  then have "fstack_repr n s1 (map (\<lambda>i. (base, int i)) [k..<n])" using s1(2) by simp
  from Suc.IH [OF this] Suc.prems(2) s1(1) show ?case by simp
qed simp

lemma fal_reset_state:
  assumes "fstack_repr n (fal_free_slots f) free" and "length (fal_entries f) = n"
  shows "\<exists>f'. fal_reset f = Some f' \<and> fal_state n f' [] (map (\<lambda>i. (fal_base f, int i)) [0..<n]) \<and>
     fal_base f' = fal_base f"
proof -
  have r: "fstack_repr n (fstack_reset (fal_free_slots f)) []" using assms(1) by (rule fstack_reset_repr)
  then have "fstack_repr n (fstack_reset (fal_free_slots f)) (map (\<lambda>i. (fal_base f, int i)) [n..<n])" by simp
  from fal_fill_loop_repr [OF this] obtain s where
    s: "fal_fill_loop (fal_base f) n (fstack_reset (fal_free_slots f)) = Some s"
    "fstack_repr n s (map (\<lambda>i. (fal_base f, int i)) [0..<n])" by blast
  have "distinct (map (\<lambda>i. (fal_base f, int i)) [0..<n])" by (simp add: distinct_map inj_on_def)
  then show ?thesis using s assms(2)
    by (auto simp: fal_reset_def fal_state_def fstack_capacity [OF r] fal_slots_def lessThan_atLeast0)
qed

lemma fal_reset_again:
  "fal_repr n f es \<Longrightarrow> \<exists>f'. fal_reset f = Some f' \<and> fal_repr n f' [] \<and> fal_base f' = fal_base f"
  using fal_reset_state fal_stateD(1,2) by (fastforce simp: fal_repr_def)

lemma fal_init_repr:
  assumes "32 * n < arena_free c"
  shows "\<exists>(f :: 'v fixed_array_list) c'. fal_init c (int n) = Some (f, c') \<and> fal_repr n f [] \<and>
     arena_free c' = arena_free c - 32 * n \<and> ctx_error c' = ctx_error c \<and>
     fal_base f = arena_offset (ctx_arena c) \<and>
     unat (arena_offset (ctx_arena c')) = unat (arena_offset (ctx_arena c)) + 32 * n"
proof -
  have "n * 24 < arena_free c" using assms by simp
  from arena_allocate_room [OF this] obtain c1 where
    c1: "context_arena_allocate c (int n) 24 = Some (arena_offset (ctx_arena c), c1)"
    "arena_free c1 = arena_free c - n * 24" "ctx_error c1 = ctx_error c"
    "unat (arena_offset (ctx_arena c1)) = unat (arena_offset (ctx_arena c)) + n * 24"
    by (auto simp: of_nat_numeral)
  have "n * 8 < arena_free c1" using assms c1(2) by simp
  from arena_allocate_room [OF this] obtain c2 where
    c2: "context_arena_allocate c1 (int n) 8 = Some (arena_offset (ctx_arena c1), c2)"
    "arena_free c2 = arena_free c1 - n * 8" "ctx_error c2 = ctx_error c1"
    "unat (arena_offset (ctx_arena c2)) = unat (arena_offset (ctx_arena c1)) + n * 8"
    by (auto simp: of_nat_numeral)
  define s :: "fal_ref fixed_stack" where
    "s = \<lparr>fs_values = uninitialised (int n), fs_index = 0, fs_item_size = 8, fs_item_capacity = int n\<rparr>"
  define f :: "'v fixed_array_list" where "f = \<lparr>fal_base = arena_offset (ctx_arena c),
     fal_entries = uninitialised (int n), fal_free_slots = s, fal_head = None, fal_tail = None\<rparr>"
  have "fstack_repr n (fal_free_slots f) []" "length (fal_entries f) = n"
    by (simp_all add: f_def s_def fstack_repr_def)
  from fal_reset_state [OF this] obtain f' where
    f': "fal_reset f = Some f'" "fal_repr n f' []" "fal_base f' = arena_offset (ctx_arena c)"
    by (auto simp: fal_repr_def f_def)
  have "fal_init c (int n) = Some (f', c2)"
    using c1(1) c2(1) f'(1) by (simp add: fal_init_def fstack_init_def f_def s_def)
  then show ?thesis using f' c1 c2 assms by (intro exI [of _ f'] exI [of _ c2]) simp
qed

section \<open>The contract of the list\<close>

locale entry_list =
  fixes contents :: "'l \<Rightarrow> ('r \<times> 'v option) list \<Rightarrow> 'r list \<Rightarrow> bool"
    and push_head :: "'l \<Rightarrow> 'v option \<Rightarrow> ('r \<times> 'l) option"
    and remove_entry :: "'l \<Rightarrow> 'r \<Rightarrow> 'l option"
    and pop_tail :: "'l \<Rightarrow> ('v option \<times> 'l) option"
  assumes push_front: "contents l es (r # free) \<Longrightarrow>
      \<exists>l'. push_head l v = Some (r, l') \<and> contents l' ((r, v) # es) free"
    and push_full: "contents l es [] \<Longrightarrow> push_head l v = None"
    and remove_inside: "contents l (a @ (r, v) # b) free \<Longrightarrow>
      \<exists>l'. remove_entry l r = Some l' \<and> contents l' (a @ b) (r # free)"
    and pop_last: "contents l (a @ [(r, v)]) free \<Longrightarrow>
      \<exists>l'. pop_tail l = Some (v, l') \<and> contents l' a (r # free)"
    and pop_empty: "contents l [] free \<Longrightarrow> pop_tail l = None"
begin

text \<open>The slot freed by a removal is the next one used: a moved entry keeps its address.\<close>

lemma move_to_front:
  assumes "contents l (a @ (r, v) # b) free"
  shows "\<exists>l1 l2. remove_entry l r = Some l1 \<and> push_head l1 w = Some (r, l2) \<and>
     contents l2 ((r, w) # a @ b) free"
proof -
  obtain l1 where l1: "remove_entry l r = Some l1" "contents l1 (a @ b) (r # free)"
    using remove_inside [OF assms] by blast
  from push_front [OF l1(2), of w] l1(1) show ?thesis by blast
qed

end

interpretation fal: entry_list "\<lambda>f es free. fal_state n f es free \<and> fal_base f = base"
  fal_push_head fal_remove_entry fal_pop_tail for n base
proof unfold_locales
  fix f :: "'v fixed_array_list" and a b :: "(fal_ref \<times> 'v option) list" and r v free
  assume "fal_state n f (a @ (r, v) # b) free \<and> fal_base f = base"
  then show "\<exists>f'. fal_remove_entry f r = Some f' \<and> fal_state n f' (a @ b) (r # free) \<and> fal_base f' = base"
    using fal_remove_entry_state [of n f a r v b free] by blast
next
  fix f :: "'v fixed_array_list" and es r free v
  assume "fal_state n f es (r # free) \<and> fal_base f = base"
  then show "\<exists>f'. fal_push_head f v = Some (r, f') \<and> fal_state n f' ((r, v) # es) free \<and> fal_base f' = base"
    using fal_push_head_state [of n f es r free v] by blast
next
  fix f :: "'v fixed_array_list" and a r v free
  assume "fal_state n f (a @ [(r, v)]) free \<and> fal_base f = base"
  then show "\<exists>f'. fal_pop_tail f = Some (v, f') \<and> fal_state n f' a (r # free) \<and> fal_base f' = base"
    using fal_pop_tail_state [of n f a r v free] by blast
qed (auto simp: fal_push_head_def fal_pop_tail_def fal_state_counts)

end
