(* ===== verification/Lru_Queue.thy ===== *)
theory Lru_Queue
  imports Fixed_Array_List
begin

text \<open>
  \<open>src/data_structures/lru_queue.c\<close>: a least-recently-used queue on the linked list.  A pushed entry
  starts with the value \<open>NULL\<close>; whoever pushed it stores the value through the entry
  (\<open>lru_queue_set_value\<close>).  The contents are the entries, most recent first.
\<close>

record 'v lru_queue =
  lru_list :: "'v fixed_array_list"

section \<open>Operations\<close>

definition lru_queue_deinit :: "'v lru_queue \<Rightarrow> 'v lru_queue" where
  "lru_queue_deinit q = \<lparr>lru_list = fal_deinit (lru_list q)\<rparr>"

definition lru_queue_reset :: "'v lru_queue \<Rightarrow> 'v lru_queue option" where
  "lru_queue_reset q = do { f \<leftarrow> fal_reset (lru_list q); Some \<lparr>lru_list = f\<rparr> }"

definition lru_queue_init :: "ctx \<Rightarrow> int \<Rightarrow> ('v lru_queue \<times> ctx) option" where
  "lru_queue_init c len = do {
     (f, c) \<leftarrow> fal_init c len;
     q \<leftarrow> lru_queue_reset \<lparr>lru_list = f\<rparr>;
     Some (q, c)
   }"

definition lru_queue_is_overflowing :: "'v lru_queue \<Rightarrow> bool" where
  "lru_queue_is_overflowing q \<longleftrightarrow> \<not> fal_has_free_space (lru_list q)"

definition lru_queue_pop :: "'v lru_queue \<Rightarrow> ('v option \<times> 'v lru_queue) option" where
  "lru_queue_pop q = do {
     check (\<not> fal_is_empty (lru_list q));
     (v, f) \<leftarrow> fal_pop_tail (lru_list q);
     Some (v, \<lparr>lru_list = f\<rparr>)
   }"

definition lru_queue_push :: "'v lru_queue \<Rightarrow> (fal_ref \<times> 'v lru_queue) option" where
  "lru_queue_push q = do {
     check (\<not> lru_queue_is_overflowing q);
     (r, f) \<leftarrow> fal_push_head (lru_list q) None;
     Some (r, \<lparr>lru_list = f\<rparr>)
   }"

definition lru_queue_bump :: "'v lru_queue \<Rightarrow> fal_ref \<Rightarrow> (fal_ref \<times> 'v lru_queue) option" where
  "lru_queue_bump q entry = do {
     e \<leftarrow> fal_load (lru_list q) entry;
     f \<leftarrow> fal_remove_entry (lru_list q) entry;
     (r, f) \<leftarrow> fal_push_head f (fe_value e);
     Some (r, \<lparr>lru_list = f\<rparr>)
   }"

text \<open>A store through the entry that \<open>lru_queue_push\<close> returned.\<close>

definition lru_queue_set_value :: "'v lru_queue \<Rightarrow> fal_ref \<Rightarrow> 'v option \<Rightarrow> 'v lru_queue option" where
  "lru_queue_set_value q r v = do { f \<leftarrow> fal_set_value (lru_list q) r v; Some \<lparr>lru_list = f\<rparr> }"

section \<open>The contract of a recency queue\<close>

text \<open>
  The client keeps the handles of the entries, most recent first, and names an entry by its
  position.  \<open>Insert\<close> pushes an entry and stores its value, \<open>Evict\<close> takes the least recent one out.
\<close>

datatype 'v cache_op = Insert 'v | Bump nat | Evict

fun move_front :: "nat \<Rightarrow> 'a list \<Rightarrow> 'a list option" where
  "move_front k xs = (if k < length xs then Some (xs ! k # take k xs @ drop (Suc k) xs) else None)"

fun run_recency :: "nat \<Rightarrow> 'v cache_op list \<Rightarrow> 'v list \<Rightarrow> ('v list \<times> 'v list) option" where
  "run_recency n [] xs = Some ([], xs)"
| "run_recency n (Insert v # ops) xs = (if length xs < n then run_recency n ops (v # xs) else None)"
| "run_recency n (Bump k # ops) xs = do { xs \<leftarrow> move_front k xs; run_recency n ops xs }"
| "run_recency n (Evict # ops) xs = do {
     check (xs \<noteq> []);
     (out, ys) \<leftarrow> run_recency n ops (butlast xs);
     Some (last xs # out, ys)
   }"

fun run_cache :: "('q \<Rightarrow> ('r \<times> 'q) option) \<Rightarrow> ('q \<Rightarrow> 'r \<Rightarrow> 'v option \<Rightarrow> 'q option) \<Rightarrow>
    ('q \<Rightarrow> 'r \<Rightarrow> ('r \<times> 'q) option) \<Rightarrow> ('q \<Rightarrow> ('v option \<times> 'q) option) \<Rightarrow>
    'v cache_op list \<Rightarrow> 'q \<Rightarrow> 'r list \<Rightarrow> ('v list \<times> 'q \<times> 'r list) option" where
  "run_cache push store bump pop [] q hs = Some ([], q, hs)"
| "run_cache push store bump pop (Insert v # ops) q hs = do {
     (r, q) \<leftarrow> push q;
     q \<leftarrow> store q r (Some v);
     run_cache push store bump pop ops q (r # hs)
   }"
| "run_cache push store bump pop (Bump k # ops) q hs = do {
     check (k < length hs);
     (r, q) \<leftarrow> bump q (hs ! k);
     run_cache push store bump pop ops q (r # take k hs @ drop (Suc k) hs)
   }"
| "run_cache push store bump pop (Evict # ops) q hs = do {
     (v, q) \<leftarrow> pop q;
     v \<leftarrow> v;
     (out, q, hs) \<leftarrow> run_cache push store bump pop ops q (butlast hs);
     Some (v # out, q, hs)
   }"

locale recency_queue =
  fixes contents :: "'q \<Rightarrow> ('r \<times> 'v option) list \<Rightarrow> bool"
    and push :: "'q \<Rightarrow> ('r \<times> 'q) option"
    and store :: "'q \<Rightarrow> 'r \<Rightarrow> 'v option \<Rightarrow> 'q option"
    and bump :: "'q \<Rightarrow> 'r \<Rightarrow> ('r \<times> 'q) option"
    and pop :: "'q \<Rightarrow> ('v option \<times> 'q) option"
  assumes push_law: "contents q es \<Longrightarrow> push q = Some (r, q') \<Longrightarrow> contents q' ((r, None) # es)"
    and store_law: "contents q ((r, v) # es) \<Longrightarrow> \<exists>q'. store q r w = Some q' \<and> contents q' ((r, w) # es)"
    and bump_law: "contents q (a @ (r, v) # b) \<Longrightarrow>
      \<exists>r' q'. bump q r = Some (r', q') \<and> contents q' ((r', v) # a @ b)"
    and pop_law: "contents q (a @ [(r, v)]) \<Longrightarrow> \<exists>q'. pop q = Some (v, q') \<and> contents q' a"
    and pop_none: "contents q [] \<Longrightarrow> pop q = None"
begin

lemma bump_at:
  assumes "contents q (zip hs (map Some xs))" and "length hs = length xs" and "k < length xs"
  shows "\<exists>r q'. bump q (hs ! k) = Some (r, q') \<and>
     contents q' (zip (r # take k hs @ drop (Suc k) hs) (map Some (xs ! k # take k xs @ drop (Suc k) xs)))"
proof -
  define es where "es = zip hs (map Some xs)"
  have k: "k < length es" "es ! k = (hs ! k, Some (xs ! k))" using assms(2,3) by (simp_all add: es_def)
  have "contents q (take k es @ (hs ! k, Some (xs ! k)) # drop (Suc k) es)"
    using assms(1) id_take_nth_drop [OF k(1)] k(2) by (simp add: es_def)
  from bump_law [OF this] obtain r q' where "bump q (hs ! k) = Some (r, q')"
    "contents q' ((r, Some (xs ! k)) # take k es @ drop (Suc k) es)" by blast
  moreover have "(r, Some (xs ! k)) # take k es @ drop (Suc k) es =
      zip (r # take k hs @ drop (Suc k) hs) (map Some (xs ! k # take k xs @ drop (Suc k) xs))"
    using assms(2) by (simp add: es_def take_zip drop_zip take_map drop_map)
  ultimately show ?thesis by auto
qed

lemma pop_last:
  assumes "contents q (zip hs (map Some (xs @ [x])))" and "length hs = length (xs @ [x])"
  shows "\<exists>q'. pop q = Some (Some x, q') \<and> contents q' (zip (butlast hs) (map Some xs))"
proof -
  obtain hs1 h where hs: "hs = hs1 @ [h]" "length hs1 = length xs"
    using assms(2) by (cases hs rule: rev_cases) auto
  have "contents q (zip hs1 (map Some xs) @ [(h, Some x)])" using assms(1) hs by simp
  from pop_law [OF this] hs show ?thesis by simp
qed

end

text \<open>One with room for \<open>capacity\<close> items does what the list with that room does, refusals included.\<close>

locale bounded_recency = recency_queue contents push store bump pop
  for contents :: "'q \<Rightarrow> ('r \<times> 'v option) list \<Rightarrow> bool" and push store bump pop +
  fixes capacity :: nat
  assumes push_room: "contents q es \<Longrightarrow> length es < capacity \<Longrightarrow> push q \<noteq> None"
    and push_full: "contents q es \<Longrightarrow> \<not> length es < capacity \<Longrightarrow> push q = None"
begin

lemma insert_front:
  assumes "contents q (zip hs (map Some xs))" and "length hs = length xs" and "length xs < capacity"
  shows "\<exists>r q1 q2. push q = Some (r, q1) \<and> store q1 r (Some v) = Some q2 \<and>
     contents q2 (zip (r # hs) (map Some (v # xs)))"
proof -
  obtain r q1 where p: "push q = Some (r, q1)" using push_room [OF assms(1)] assms(2,3) by auto
  from store_law [OF push_law [OF assms(1) p], of "Some v"] p show ?thesis by auto
qed

lemma run_refines:
  assumes "contents q (zip hs (map Some xs))" and "length hs = length xs"
  shows "case run_recency capacity ops xs of
      None \<Rightarrow> run_cache push store bump pop ops q hs = None
    | Some (out, ys) \<Rightarrow> \<exists>q' hs'. run_cache push store bump pop ops q hs = Some (out, q', hs') \<and>
        contents q' (zip hs' (map Some ys)) \<and> length hs' = length ys"
  using assms
proof (induction ops arbitrary: q hs xs)
  case (Cons op ops)
  show ?case
  proof (cases op)
    case (Insert v)
    show ?thesis
    proof (cases "length xs < capacity")
      case True
      from insert_front [OF Cons.prems True, of v] obtain r q1 q2 where
        p: "push q = Some (r, q1)" "store q1 r (Some v) = Some q2"
        "contents q2 (zip (r # hs) (map Some (v # xs)))" by blast
      from Cons.IH [OF p(3)] Cons.prems(2) p(1,2) Insert True show ?thesis
        by (auto split: option.splits)
    next
      case False
      then show ?thesis using push_full [OF Cons.prems(1)] Cons.prems(2) Insert by simp
    qed
  next
    case (Bump k)
    show ?thesis
    proof (cases "k < length xs")
      case True
      from bump_at [OF Cons.prems True] obtain r q1 where b: "bump q (hs ! k) = Some (r, q1)"
        "contents q1 (zip (r # take k hs @ drop (Suc k) hs) (map Some (xs ! k # take k xs @ drop (Suc k) xs)))"
        by blast
      from Cons.IH [OF b(2)] Cons.prems(2) b(1) Bump True show ?thesis
        by (auto split: option.splits)
    next
      case False
      then show ?thesis using Bump Cons.prems(2) by simp
    qed
  next
    case Evict
    show ?thesis
    proof (cases xs rule: rev_cases)
      case Nil
      then show ?thesis using Cons.prems Evict pop_none [of q] by simp
    next
      case (snoc ys y)
      from pop_last [of q hs ys y] Cons.prems snoc obtain q1 where
        q1: "pop q = Some (Some y, q1)" "contents q1 (zip (butlast hs) (map Some ys))" by auto
      from Cons.IH [OF q1(2)] q1(1) Evict snoc Cons.prems(2) show ?thesis
        by (auto split: option.splits)
    qed
  qed
qed simp

end

section \<open>The queue meets it\<close>

definition lru_repr :: "nat \<Rightarrow> 'v lru_queue \<Rightarrow> (fal_ref \<times> 'v option) list \<Rightarrow> bool" where
  "lru_repr n q es \<longleftrightarrow> fal_repr n (lru_list q) es"

lemma lru_overflowing [repr_simps]:
  "lru_repr n q es \<Longrightarrow> lru_queue_is_overflowing q \<longleftrightarrow> length es = n"
  using fal_counts(1) fal_repr_length by (fastforce simp: lru_repr_def lru_queue_is_overflowing_def)

lemma lru_push_repr:
  assumes "lru_repr n q es" and "length es < n"
  shows "\<exists>r q'. lru_queue_push q = Some (r, q') \<and> lru_repr n q' ((r, None) # es) \<and>
     fal_base (lru_list q') = fal_base (lru_list q)"
proof -
  obtain free where free: "fal_state n (lru_list q) es free" using assms(1) by (auto simp: lru_repr_def fal_repr_def)
  then obtain r free' where "free = r # free'" using fal_state_length [OF free] assms(2) by (cases free) auto
  with fal_push_head_state [of n "lru_list q" es r free' None] free obtain f' where
    "fal_push_head (lru_list q) None = Some (r, f')" "fal_state n f' ((r, None) # es) free'"
    "fal_base f' = fal_base (lru_list q)" by auto
  then show ?thesis using lru_overflowing [OF assms(1)] assms(2)
    by (auto simp: lru_queue_push_def lru_repr_def fal_repr_def)
qed

lemma lru_bump_repr:
  assumes "lru_repr n q (a @ (r, v) # b)"
  shows "\<exists>q'. lru_queue_bump q r = Some (r, q') \<and> lru_repr n q' ((r, v) # a @ b) \<and>
     fal_base (lru_list q') = fal_base (lru_list q)"
proof -
  obtain free where free: "fal_state n (lru_list q) (a @ (r, v) # b) free"
    using assms by (auto simp: lru_repr_def fal_repr_def)
  then have "fal_state n (lru_list q) (a @ (r, v) # b) free \<and> fal_base (lru_list q) = fal_base (lru_list q)" by simp
  from fal.move_to_front [OF this, of v] obtain f1 f2 where
    "fal_remove_entry (lru_list q) r = Some f1" "fal_push_head f1 v = Some (r, f2)"
    "fal_state n f2 ((r, v) # a @ b) free" "fal_base f2 = fal_base (lru_list q)" by blast
  moreover have "\<exists>e. fal_load (lru_list q) r = Some e \<and> fe_value e = v"
    using fal_stateD(5) [OF free] by simp
  ultimately show ?thesis by (auto simp: lru_queue_bump_def lru_repr_def fal_repr_def)
qed

lemma lru_pop_repr:
  assumes "lru_repr n q (a @ [(r, v)])"
  shows "\<exists>q'. lru_queue_pop q = Some (v, q') \<and> lru_repr n q' a \<and>
     fal_base (lru_list q') = fal_base (lru_list q)"
proof -
  obtain free where free: "fal_state n (lru_list q) (a @ [(r, v)]) free"
    using assms by (auto simp: lru_repr_def fal_repr_def)
  from fal_pop_tail_state [OF free] show ?thesis using fal_state_counts(2) [OF free]
    by (auto simp: lru_queue_pop_def lru_repr_def fal_repr_def)
qed

lemma lru_set_value_repr:
  assumes "lru_repr n q (a @ (r, v) # b)"
  shows "\<exists>q'. lru_queue_set_value q r w = Some q' \<and> lru_repr n q' (a @ (r, w) # b) \<and>
     fal_base (lru_list q') = fal_base (lru_list q)"
proof -
  obtain free where free: "fal_state n (lru_list q) (a @ (r, v) # b) free"
    using assms by (auto simp: lru_repr_def fal_repr_def)
  from fal_set_value_state [OF free, of w] show ?thesis
    by (auto simp: lru_queue_set_value_def lru_repr_def fal_repr_def)
qed

lemma lru_reset_repr:
  assumes "lru_repr n q es"
  shows "\<exists>q'. lru_queue_reset q = Some q' \<and> lru_repr n q' [] \<and> fal_base (lru_list q') = fal_base (lru_list q)"
  using fal_reset_again [of n "lru_list q" es] assms by (auto simp: lru_queue_reset_def lru_repr_def)

interpretation lru: bounded_recency "lru_repr n" lru_queue_push lru_queue_set_value lru_queue_bump
  lru_queue_pop n for n
proof unfold_locales
  fix q q' :: "'v lru_queue" and es r
  assume a: "lru_repr n q es" "lru_queue_push q = Some (r, q')"
  then have "\<not> lru_queue_is_overflowing q" by (auto simp: lru_queue_push_def split: if_splits)
  then have "length es < n" using lru_overflowing [OF a(1)] a(1) fal_repr_length by (fastforce simp: lru_repr_def)
  from lru_push_repr [OF a(1) this] a(2) show "lru_repr n q' ((r, None) # es)" by auto
next
  fix q :: "'v lru_queue" and r v w es
  assume "lru_repr n q ((r, v) # es)"
  then show "\<exists>q'. lru_queue_set_value q r w = Some q' \<and> lru_repr n q' ((r, w) # es)"
    using lru_set_value_repr [of n q "[]" r v es w] by auto
next
  fix q :: "'v lru_queue" and a b r v
  assume "lru_repr n q (a @ (r, v) # b)"
  then show "\<exists>r' q'. lru_queue_bump q r = Some (r', q') \<and> lru_repr n q' ((r', v) # a @ b)"
    using lru_bump_repr by blast
next
  fix q :: "'v lru_queue" and a r v
  assume "lru_repr n q (a @ [(r, v)])"
  then show "\<exists>q'. lru_queue_pop q = Some (v, q') \<and> lru_repr n q' a" using lru_pop_repr by blast
next
  fix q :: "'v lru_queue"
  assume "lru_repr n q []"
  then show "lru_queue_pop q = None" using fal_counts(2) by (fastforce simp: lru_repr_def lru_queue_pop_def)
next
  fix q :: "'v lru_queue" and es
  assume "lru_repr n q es" "length es < n"
  then show "lru_queue_push q \<noteq> None" using lru_push_repr by fastforce
next
  fix q :: "'v lru_queue" and es
  assume a: "lru_repr n q es" "\<not> length es < n"
  then have "length es = n" using fal_repr_length by (fastforce simp: lru_repr_def)
  then show "lru_queue_push q = None" using lru_overflowing [OF a(1)] by (simp add: lru_queue_push_def)
qed

end
