(* ===== verification/Lm_Queue.thy ===== *)
theory Lm_Queue
  imports Lru_Queue
begin

text \<open>
  \<open>src/data_structures/lm_queue.c\<close>: values enter a fresh list and move to the mature queue the first
  time they are used again; each part overflows on its own.  \<open>lm_repr m n q fs ms\<close> says the fresh
  part holds \<open>fs\<close> and the mature part \<open>ms\<close>, most recent first, with room for \<open>m\<close> and \<open>n\<close> entries.
\<close>

record 'v lm_queue =
  lm_fresh :: "'v fixed_array_list"
  lm_mature :: "'v lru_queue"

section \<open>Operations\<close>

definition lm_queue_deinit :: "'v lm_queue \<Rightarrow> 'v lm_queue" where
  "lm_queue_deinit q = \<lparr>lm_fresh = fal_deinit (lm_fresh q), lm_mature = lru_queue_deinit (lm_mature q)\<rparr>"

definition lm_queue_reset :: "'v lm_queue \<Rightarrow> 'v lm_queue option" where
  "lm_queue_reset q = do {
     f \<leftarrow> fal_reset (lm_fresh q);
     m \<leftarrow> lru_queue_reset (lm_mature q);
     Some \<lparr>lm_fresh = f, lm_mature = m\<rparr>
   }"

definition lm_queue_init :: "ctx \<Rightarrow> int \<Rightarrow> int \<Rightarrow> ('v lm_queue \<times> ctx) option" where
  "lm_queue_init c fresh_size mature_size = do {
     (f, c) \<leftarrow> fal_init c fresh_size;
     (m, c) \<leftarrow> lru_queue_init c mature_size;
     q \<leftarrow> lm_queue_reset \<lparr>lm_fresh = f, lm_mature = m\<rparr>;
     Some (q, c)
   }"

definition lm_queue_is_overflowing :: "'v lm_queue \<Rightarrow> bool" where
  "lm_queue_is_overflowing q \<longleftrightarrow>
     lru_queue_is_overflowing (lm_mature q) \<or> \<not> fal_has_free_space (lm_fresh q)"

definition lm_queue_push :: "'v lm_queue \<Rightarrow> (fal_ref \<times> 'v lm_queue) option" where
  "lm_queue_push q = do {
     check (\<not> lm_queue_is_overflowing q);
     (r, f) \<leftarrow> fal_push_head (lm_fresh q) None;
     Some (r, q\<lparr>lm_fresh := f\<rparr>)
   }"

definition lm_queue_bump :: "'v lm_queue \<Rightarrow> fal_ref \<Rightarrow> (fal_ref \<times> 'v lm_queue) option" where
  "lm_queue_bump q entry = do {
     check (\<not> lm_queue_is_overflowing q);
     if fal_is_own_entry (lm_fresh q) entry then do {
       e \<leftarrow> fal_load (lm_fresh q) entry;
       f \<leftarrow> fal_remove_entry (lm_fresh q) entry;
       (r, m) \<leftarrow> lru_queue_push (lm_mature q);
       m \<leftarrow> lru_queue_set_value m r (fe_value e);
       Some (r, \<lparr>lm_fresh = f, lm_mature = m\<rparr>)
     } else do {
       (r, m) \<leftarrow> lru_queue_bump (lm_mature q) entry;
       Some (r, q\<lparr>lm_mature := m\<rparr>)
     }
   }"

definition lm_queue_pop :: "'v lm_queue \<Rightarrow> ('v option \<times> 'v lm_queue) option" where
  "lm_queue_pop q = do {
     check (lm_queue_is_overflowing q);
     if lru_queue_is_overflowing (lm_mature q) then do {
       (v, m) \<leftarrow> lru_queue_pop (lm_mature q);
       Some (v, q\<lparr>lm_mature := m\<rparr>)
     } else do {
       (v, f) \<leftarrow> fal_pop_tail (lm_fresh q);
       Some (v, q\<lparr>lm_fresh := f\<rparr>)
     }
   }"

section \<open>Contents\<close>

definition lm_repr :: "nat \<Rightarrow> nat \<Rightarrow> 'v lm_queue \<Rightarrow> (fal_ref \<times> 'v option) list \<Rightarrow>
    (fal_ref \<times> 'v option) list \<Rightarrow> bool" where
  "lm_repr m n q fs ms \<longleftrightarrow> fal_repr m (lm_fresh q) fs \<and> lru_repr n (lm_mature q) ms \<and>
     uint (fal_base (lm_fresh q)) + 24 * int m \<le> uint (fal_base (lru_list (lm_mature q)))"

lemma own_entry_iff:
  assumes "fal_repr n f es"
  shows "fal_is_own_entry f r \<longleftrightarrow> uint (fal_base f) \<le> fal_address r \<and>
    fal_address r < uint (fal_base f) + 24 * int n"
proof -
  obtain free where "fal_state n f es free" using assms by (auto simp: fal_repr_def)
  then have "fstack_get_capacity (fal_free_slots f) = int n"
    by (auto dest: fal_stateD(1) simp: fstack_capacity)
  then show ?thesis by (simp add: fal_is_own_entry_def fal_address_def)
qed

lemma fal_address_slot:
  "r \<in> fal_slots base n \<Longrightarrow> uint base \<le> fal_address r \<and> fal_address r < uint base + 24 * int n"
  by (auto simp: fal_slots_def fal_address_def)

lemma lm_own_entry:
  assumes "lm_repr m n q fs ms"
  shows "r \<in> fst ` set fs \<Longrightarrow> fal_is_own_entry (lm_fresh q) r"
    and "r \<in> fst ` set ms \<Longrightarrow> \<not> fal_is_own_entry (lm_fresh q) r"
proof -
  have f: "fal_repr m (lm_fresh q) fs" and mt: "fal_repr n (lru_list (lm_mature q)) ms"
    using assms by (simp_all add: lm_repr_def lru_repr_def)
  show "r \<in> fst ` set fs \<Longrightarrow> fal_is_own_entry (lm_fresh q) r"
    using fal_repr_refs [OF f] fal_address_slot unfolding own_entry_iff [OF f] by blast
  assume "r \<in> fst ` set ms"
  then have "r \<in> fal_slots (fal_base (lru_list (lm_mature q))) n" using fal_repr_refs [OF mt] by blast
  from fal_address_slot [OF this] assms show "\<not> fal_is_own_entry (lm_fresh q) r"
    unfolding own_entry_iff [OF f] by (simp add: lm_repr_def)
qed

lemma lm_lengths: "lm_repr m n q fs ms \<Longrightarrow> length fs \<le> m \<and> length ms \<le> n"
  by (auto simp: lm_repr_def lru_repr_def dest: fal_repr_length)

lemma lm_overflowing [repr_simps]:
  assumes "lm_repr m n q fs ms"
  shows "lm_queue_is_overflowing q \<longleftrightarrow> length fs = m \<or> length ms = n"
  using assms lm_lengths [OF assms] fal_counts(1) lru_overflowing
  unfolding lm_repr_def lm_queue_is_overflowing_def by (metis le_neq_implies_less less_irrefl)

lemma lm_push_repr:
  assumes "lm_repr m n q fs ms" and "length fs < m" and "length ms < n"
  shows "\<exists>r q'. lm_queue_push q = Some (r, q') \<and> lm_repr m n q' ((r, None) # fs) ms"
proof -
  obtain free where free: "fal_state m (lm_fresh q) fs free"
    using assms(1) by (auto simp: lm_repr_def fal_repr_def)
  then obtain r free' where "free = r # free'" using fal_state_length [OF free] assms(2) by (cases free) auto
  with fal_push_head_state [of m "lm_fresh q" fs r free' None] free obtain f' where
    "fal_push_head (lm_fresh q) None = Some (r, f')" "fal_state m f' ((r, None) # fs) free'"
    "fal_base f' = fal_base (lm_fresh q)" by auto
  then show ?thesis using lm_overflowing [OF assms(1)] assms
    by (auto simp: lm_queue_push_def lm_repr_def fal_repr_def)
qed

text \<open>A fresh value becomes the most recent mature one, a mature one moves to the front.\<close>

lemma lm_bump_fresh:
  assumes "lm_repr m n q (a @ (r, v) # b) ms" and "length (a @ (r, v) # b) < m" and "length ms < n"
  shows "\<exists>r' q'. lm_queue_bump q r = Some (r', q') \<and> lm_repr m n q' (a @ b) ((r', v) # ms)"
proof -
  obtain free where free: "fal_state m (lm_fresh q) (a @ (r, v) # b) free"
    using assms(1) by (auto simp: lm_repr_def fal_repr_def)
  obtain f' where f': "fal_remove_entry (lm_fresh q) r = Some f'" "fal_state m f' (a @ b) (r # free)"
    "fal_base f' = fal_base (lm_fresh q)" using fal_remove_entry_state [OF free] by blast
  obtain e where e: "fal_load (lm_fresh q) r = Some e" "fe_value e = v"
    using fal_stateD(5) [OF free] by auto
  have "lru_repr n (lm_mature q) ms" using assms(1) by (simp add: lm_repr_def)
  from lru_push_repr [OF this assms(3)] obtain r' m1 where
    m1: "lru_queue_push (lm_mature q) = Some (r', m1)" "lru_repr n m1 ([] @ (r', None) # ms)"
    "fal_base (lru_list m1) = fal_base (lru_list (lm_mature q))" by auto
  from lru_set_value_repr [OF m1(2), of v] obtain m2 where
    m2: "lru_queue_set_value m1 r' v = Some m2" "lru_repr n m2 ((r', v) # ms)"
    "fal_base (lru_list m2) = fal_base (lru_list (lm_mature q))" using m1(3) by auto
  have "fal_is_own_entry (lm_fresh q) r" using lm_own_entry(1) [OF assms(1), of r] by simp
  then have "lm_queue_bump q r = Some (r', \<lparr>lm_fresh = f', lm_mature = m2\<rparr>)"
    using lm_overflowing [OF assms(1)] assms(2,3) e f'(1) m1(1) m2(1)
    by (simp add: lm_queue_bump_def)
  then show ?thesis using f' m2 assms(1)
    by (auto simp: lm_repr_def fal_repr_def)
qed

lemma lm_bump_mature:
  assumes "lm_repr m n q fs (a @ (r, v) # b)" and "length fs < m" and "length (a @ (r, v) # b) < n"
  shows "\<exists>q'. lm_queue_bump q r = Some (r, q') \<and> lm_repr m n q' fs ((r, v) # a @ b)"
proof -
  have "lru_repr n (lm_mature q) (a @ (r, v) # b)" using assms(1) by (simp add: lm_repr_def)
  from lru_bump_repr [OF this] obtain m' where
    m': "lru_queue_bump (lm_mature q) r = Some (r, m')" "lru_repr n m' ((r, v) # a @ b)"
    "fal_base (lru_list m') = fal_base (lru_list (lm_mature q))" by blast
  have "\<not> fal_is_own_entry (lm_fresh q) r" using lm_own_entry(2) [OF assms(1), of r] by simp
  then have "lm_queue_bump q r = Some (r, q\<lparr>lm_mature := m'\<rparr>)"
    using lm_overflowing [OF assms(1)] assms(2,3) m'(1) by (simp add: lm_queue_bump_def)
  then show ?thesis using m' assms(1) by (auto simp: lm_repr_def)
qed

lemma lm_pop_mature:
  assumes "lm_repr m n q fs (a @ [(r, v)])" and "length (a @ [(r, v)]) = n"
  shows "\<exists>q'. lm_queue_pop q = Some (v, q') \<and> lm_repr m n q' fs a"
proof -
  have mt: "lru_repr n (lm_mature q) (a @ [(r, v)])" using assms(1) by (simp add: lm_repr_def)
  from lru_pop_repr [OF mt] obtain m' where "lru_queue_pop (lm_mature q) = Some (v, m')"
    "lru_repr n m' a" "fal_base (lru_list m') = fal_base (lru_list (lm_mature q))" by blast
  then show ?thesis using lru_overflowing [OF mt] lm_overflowing [OF assms(1)] assms
    by (auto simp: lm_queue_pop_def lm_repr_def)
qed

lemma lm_pop_fresh:
  assumes "lm_repr m n q (a @ [(r, v)]) ms" and "length (a @ [(r, v)]) = m" and "length ms < n"
  shows "\<exists>q'. lm_queue_pop q = Some (v, q') \<and> lm_repr m n q' a ms"
proof -
  obtain free where free: "fal_state m (lm_fresh q) (a @ [(r, v)]) free"
    using assms(1) by (auto simp: lm_repr_def fal_repr_def)
  from fal_pop_tail_state [OF free] obtain f' where "fal_pop_tail (lm_fresh q) = Some (v, f')"
    "fal_state m f' a (r # free)" "fal_base f' = fal_base (lm_fresh q)" by blast
  moreover have "lru_repr n (lm_mature q) ms" using assms(1) by (simp add: lm_repr_def)
  then have "\<not> lru_queue_is_overflowing (lm_mature q)" using lru_overflowing assms(3) by blast
  ultimately show ?thesis using lm_overflowing [OF assms(1)] assms
    by (auto simp: lm_queue_pop_def lm_repr_def fal_repr_def)
qed

lemma lm_reset_repr:
  assumes "lm_repr m n q fs ms"
  shows "\<exists>q'. lm_queue_reset q = Some q' \<and> lm_repr m n q' [] []"
  using fal_reset_again [of m "lm_fresh q" fs] lru_reset_repr [of n "lm_mature q" ms] assms
  by (auto simp: lm_queue_reset_def lm_repr_def)

lemma lm_init_repr:
  assumes "32 * (m + n) < arena_free c"
  shows "\<exists>(q :: 'v lm_queue) c'. lm_queue_init c (int m) (int n) = Some (q, c') \<and> lm_repr m n q [] [] \<and>
     arena_free c' = arena_free c - 32 * (m + n) \<and> ctx_error c' = ctx_error c"
proof -
  have "32 * m < arena_free c" using assms(1) by simp
  from fal_init_repr [OF this] obtain f :: "'v fixed_array_list" and c1 where
    f: "fal_init c (int m) = Some (f, c1)" "fal_repr m f []" "arena_free c1 = arena_free c - 32 * m"
    "ctx_error c1 = ctx_error c" "fal_base f = arena_offset (ctx_arena c)"
    "unat (arena_offset (ctx_arena c1)) = unat (arena_offset (ctx_arena c)) + 32 * m" by blast
  have "32 * n < arena_free c1" using assms(1) f(3) by simp
  from fal_init_repr [OF this] obtain g :: "'v fixed_array_list" and c2 where
    g: "fal_init c1 (int n) = Some (g, c2)" "fal_repr n g []" "arena_free c2 = arena_free c1 - 32 * n"
    "ctx_error c2 = ctx_error c1" "fal_base g = arena_offset (ctx_arena c1)" by blast
  have "lru_repr n \<lparr>lru_list = g\<rparr> []" using g(2) by (simp add: lru_repr_def)
  from lru_reset_repr [OF this] obtain mt where mt: "lru_queue_reset \<lparr>lru_list = g\<rparr> = Some mt"
    "lru_repr n mt []" "fal_base (lru_list mt) = arena_offset (ctx_arena c1)" using g(5) by auto
  have "uint (arena_offset (ctx_arena c)) + 24 * int m \<le> uint (arena_offset (ctx_arena c1))"
    unfolding uint_nat f(6) by simp
  then have "lm_repr m n \<lparr>lm_fresh = f, lm_mature = mt\<rparr> [] []"
    using f(2,5) mt by (simp add: lm_repr_def)
  from lm_reset_repr [OF this] obtain q where
    "lm_queue_reset \<lparr>lm_fresh = f, lm_mature = mt\<rparr> = Some q" "lm_repr m n q [] []" by blast
  then show ?thesis using f g mt(1) assms(1)
    by (intro exI [of _ q] exI [of _ c2]) (simp add: lm_queue_init_def lru_queue_init_def)
qed

end
