(* ===== verification/Json_Shapes.thy ===== *)
theory Json_Shapes
  imports Json_Base Hash_Chain Fixed_Pool Lm_Queue
begin

text \<open>
  \<open>src/json/json_shapes_repository.c\<close>: the repository of object shapes.  A shape is the text of an
  object's keys; while the object is read its shape is on a stack, a completed shape is found again
  through its hash.  A pointer to a shape is its address in the pool.  The tokens live with the
  caller: \<open>ts\<close> holds the \<open>shape_reference\<close> of each, and a pointer to that field is the token's
  position in \<open>ts\<close>.
\<close>

definition JSON_SHAPE_SUM_KEY_LENGTH :: int where "JSON_SHAPE_SUM_KEY_LENGTH = 1024"
definition JSON_SHAPES_FRESH_QUEUE_SIZE :: int where "JSON_SHAPES_FRESH_QUEUE_SIZE = 256"
definition JSON_SHAPES_MATURE_QUEUE_SIZE :: int where "JSON_SHAPES_MATURE_QUEUE_SIZE = 256"
definition JSON_SHAPES_TOTAL_POOL_SIZE :: int where
  "JSON_SHAPES_TOTAL_POOL_SIZE = int JSON_MAX_STATE_STACK_LENGTH + JSON_SHAPES_FRESH_QUEUE_SIZE +
     JSON_SHAPES_MATURE_QUEUE_SIZE"
definition JSR_HYPOTHESIS_DEPTH :: nat where "JSR_HYPOTHESIS_DEPTH = 10"

record json_token_shape_reference =
  ref_shape :: "int option"
  ref_shape_id :: u64

record json_object_shape =
  sh_keys :: "byte list"
  sh_source :: "int option"
  sh_id :: "32 word"
  sh_keys_hash :: u16
  sh_keys_length :: int
  sh_cache_entry :: "fal_ref option"

record json_shapes_repository =
  jsr_shapes :: "json_object_shape fixed_pool"
  jsr_key_hashes :: hash_chain
  jsr_cache_controller :: "int lm_queue"
  jsr_in_progress :: "int option fixed_stack"
  jsr_id_counter :: u64

section \<open>Operations\<close>

definition jsr_deinit :: "json_shapes_repository \<Rightarrow> json_shapes_repository" where
  "jsr_deinit repo = \<lparr>jsr_shapes = fpool_deinit (jsr_shapes repo),
     jsr_key_hashes = hash_chain_deinit (jsr_key_hashes repo),
     jsr_cache_controller = lm_queue_deinit (jsr_cache_controller repo),
     jsr_in_progress = fstack_deinit (jsr_in_progress repo), jsr_id_counter = 0\<rparr>"

definition zero_shape :: json_object_shape where
  "zero_shape = \<lparr>sh_keys = replicate (nat JSON_SHAPE_SUM_KEY_LENGTH) 0, sh_source = None, sh_id = 0,
     sh_keys_hash = 0, sh_keys_length = 0, sh_cache_entry = None\<rparr>"

text \<open>A shape takes 1048 bytes.\<close>

definition jsr_init :: "ctx \<Rightarrow> (json_shapes_repository \<times> ctx) option" where
  "jsr_init c = do {
     (pool, c) \<leftarrow> fpool_init c zero_shape 1048 JSON_SHAPES_TOTAL_POOL_SIZE;
     (chain, c) \<leftarrow> hash_chain_init c JSON_SHAPES_TOTAL_POOL_SIZE;
     (cache, c) \<leftarrow> lm_queue_init c JSON_SHAPES_FRESH_QUEUE_SIZE JSON_SHAPES_MATURE_QUEUE_SIZE;
     (stack, c) \<leftarrow> fstack_init c 8 (int JSON_MAX_STATE_STACK_LENGTH);
     Some (\<lparr>jsr_shapes = pool, jsr_key_hashes = chain, jsr_cache_controller = cache,
            jsr_in_progress = stack, jsr_id_counter = 0\<rparr>, c)
   }"

text \<open>Reading, writing through \<open>shape\<close>, and through the pointer to a token's reference.\<close>

definition jsr_load :: "json_shapes_repository \<Rightarrow> int \<Rightarrow> json_object_shape option" where
  "jsr_load repo p = fpool_load (jsr_shapes repo) p"

definition jsr_store ::
  "json_shapes_repository \<Rightarrow> int \<Rightarrow> json_object_shape \<Rightarrow> json_shapes_repository option" where
  "jsr_store repo p x = do {
     pool \<leftarrow> fpool_store (jsr_shapes repo) p x;
     Some (repo\<lparr>jsr_shapes := pool\<rparr>)
   }"

definition set_source_reference :: "json_token_shape_reference list \<Rightarrow> json_object_shape \<Rightarrow> int option \<Rightarrow>
    json_token_shape_reference list option" where
  "set_source_reference ts x target =
     (case sh_source x of
        None \<Rightarrow> Some ts
      | Some t \<Rightarrow> do { r \<leftarrow> at ts t; put ts t (r\<lparr>ref_shape := target\<rparr>) })"

text \<open>
  \<open>repo->id_counter = \<dots> : repo->id_counter++\<close> writes the counter twice without an order between the
  writes: C leaves the result undefined.  \<open>bumped\<close> is the value it ends with, given the old one.
\<close>

definition jsr_setup_shape :: "(u64 \<Rightarrow> u64) \<Rightarrow> json_shapes_repository \<Rightarrow> int \<Rightarrow>
    json_token_shape_reference list \<Rightarrow> int \<Rightarrow>
    (json_shapes_repository \<times> json_token_shape_reference list) option" where
  "jsr_setup_shape bumped repo shape ts source_token = do {
     x \<leftarrow> jsr_load repo shape;
     let x = x\<lparr>sh_keys_hash := 0, sh_cache_entry := None, sh_id := ucast (jsr_id_counter repo)\<rparr>;
     r \<leftarrow> at ts source_token;
     ts \<leftarrow> put ts source_token (r\<lparr>ref_shape_id := ucast (sh_id x)\<rparr>);
     let repo = repo\<lparr>jsr_id_counter :=
       (if jsr_id_counter repo = - 1 then 0 else bumped (jsr_id_counter repo))\<rparr>;
     repo \<leftarrow> jsr_store repo shape (x\<lparr>sh_source := Some source_token\<rparr>);
     Some (repo, ts)
   }"

definition jsr_update_hash :: "u16 \<Rightarrow> u16 \<Rightarrow> int \<Rightarrow> u16" where
  "jsr_update_hash base_hash b index =
     (if index AND 0x3 = 0 then base_hash XOR b
      else if index AND 0x3 = 1 then base_hash XOR push_bit 8 b
      else if index AND 0x3 = 2 then base_hash XOR push_bit 4 b
      else (base_hash XOR push_bit 12 (b AND 0x0f)) XOR drop_bit 4 b)"

definition jsr_get_current_shape :: "json_shapes_repository \<Rightarrow> int option option" where
  "jsr_get_current_shape repo = fstack_peek (jsr_in_progress repo)"

text \<open>The comparison of \<open>k\<close> bytes from position \<open>i\<close> on.\<close>

fun same_keys_loop :: "nat \<Rightarrow> int \<Rightarrow> byte list \<Rightarrow> byte list \<Rightarrow> bool option" where
  "same_keys_loop 0 i xs ys = Some True"
| "same_keys_loop (Suc k) i xs ys = do {
     x \<leftarrow> at xs i;
     y \<leftarrow> at ys i;
     if x \<noteq> y then Some False else same_keys_loop k (i + 1) xs ys
   }"

fun jsr_match_loop :: "nat \<Rightarrow> json_shapes_repository \<Rightarrow> json_object_shape \<Rightarrow> int \<Rightarrow> int option option" where
  "jsr_match_loop 0 repo new_shape pos = Some None"
| "jsr_match_loop (Suc k) repo new_shape pos = do {
     let match_shape = fpool_offset_to_value (jsr_shapes repo) pos;
     pos \<leftarrow> hash_chain_get_previous_position_by_position (jsr_key_hashes repo) pos;
     m \<leftarrow> jsr_load repo match_shape;
     if sh_cache_entry m = None then jsr_match_loop k repo new_shape pos
     else if sh_keys_length m \<noteq> sh_keys_length new_shape \<or> sh_keys_hash m \<noteq> sh_keys_hash new_shape
     then jsr_match_loop k repo new_shape pos
     else do {
       is_good \<leftarrow> same_keys_loop (nat (sh_keys_length m)) 0 (sh_keys m) (sh_keys new_shape);
       if is_good then Some (Some match_shape) else jsr_match_loop k repo new_shape pos
     }
   }"

definition jsr_find_matching_shape :: "json_shapes_repository \<Rightarrow> json_object_shape \<Rightarrow> int option option" where
  "jsr_find_matching_shape repo new_shape = do {
     pos \<leftarrow> hash_chain_get_first_position_by_hash (jsr_key_hashes repo) (sh_keys_hash new_shape);
     jsr_match_loop JSR_HYPOTHESIS_DEPTH repo new_shape pos
   }"

definition jsr_push_key_byte :: "json_shapes_repository \<Rightarrow> json_token_shape_reference list \<Rightarrow> byte \<Rightarrow>
    (json_shapes_repository \<times> json_token_shape_reference list) option" where
  "jsr_push_key_byte repo ts b = do {
     current \<leftarrow> jsr_get_current_shape repo;
     case current of
       None \<Rightarrow> Some (repo, ts)
     | Some shape \<Rightarrow> do {
         x \<leftarrow> jsr_load repo shape;
         if sh_keys_length x \<ge> JSON_SHAPE_SUM_KEY_LENGTH then do {
           ts \<leftarrow> set_source_reference ts x None;
           repo \<leftarrow> jsr_store repo shape (x\<lparr>sh_source := None\<rparr>);
           stack \<leftarrow> fstack_update_top (jsr_in_progress repo) None;
           pool \<leftarrow> fpool_release (jsr_shapes repo) shape;
           Some (repo\<lparr>jsr_in_progress := stack, jsr_shapes := pool\<rparr>, ts)
         } else do {
           let x = x\<lparr>sh_keys_hash := jsr_update_hash (sh_keys_hash x) (ucast b) (sh_keys_length x)\<rparr>;
           keys \<leftarrow> put (sh_keys x) (sh_keys_length x) b;
           repo \<leftarrow> jsr_store repo shape (x\<lparr>sh_keys := keys, sh_keys_length := sh_keys_length x + 1\<rparr>);
           Some (repo, ts)
         }
       }
   }"

text \<open>Following the \<open>NULL\<close> that \<open>lm_queue_pop\<close> may return aborts.\<close>

definition jsr_drain_cache_overflow ::
  "json_shapes_repository \<Rightarrow> json_token_shape_reference list \<Rightarrow>
    (json_shapes_repository \<times> json_token_shape_reference list) option" where
  "jsr_drain_cache_overflow repo ts =
     (if lm_queue_is_overflowing (jsr_cache_controller repo) then do {
        (value, cache) \<leftarrow> lm_queue_pop (jsr_cache_controller repo);
        let repo = repo\<lparr>jsr_cache_controller := cache\<rparr>;
        removed_shape \<leftarrow> value;
        x \<leftarrow> jsr_load repo removed_shape;
        ts \<leftarrow> set_source_reference ts x None;
        repo \<leftarrow> jsr_store repo removed_shape (x\<lparr>sh_cache_entry := None, sh_source := None\<rparr>);
        pool \<leftarrow> fpool_release (jsr_shapes repo) removed_shape;
        Some (repo\<lparr>jsr_shapes := pool\<rparr>, ts)
      } else Some (repo, ts))"

definition jsr_complete_current_shape ::
  "json_shapes_repository \<Rightarrow> json_token_shape_reference list \<Rightarrow>
    (json_shapes_repository \<times> json_token_shape_reference list) option" where
  "jsr_complete_current_shape repo ts = do {
     (top, stack) \<leftarrow> fstack_pop (jsr_in_progress repo);
     let repo = repo\<lparr>jsr_in_progress := stack\<rparr>;
     case top of
       None \<Rightarrow> Some (repo, ts)
     | Some shape \<Rightarrow> do {
         x \<leftarrow> jsr_load repo shape;
         older_shape \<leftarrow> jsr_find_matching_shape repo x;
         case older_shape of
           Some older \<Rightarrow> do {
             y \<leftarrow> jsr_load repo older;
             entry \<leftarrow> sh_cache_entry y;
             (entry, cache) \<leftarrow> lm_queue_bump (jsr_cache_controller repo) entry;
             repo \<leftarrow> jsr_store (repo\<lparr>jsr_cache_controller := cache\<rparr>) older (y\<lparr>sh_cache_entry := Some entry\<rparr>);
             (repo, ts) \<leftarrow> jsr_drain_cache_overflow repo ts;
             x \<leftarrow> jsr_load repo shape;
             ts \<leftarrow> set_source_reference ts x (Some older);
             Some (repo, ts)
           }
         | None \<Rightarrow> do {
             ts \<leftarrow> set_source_reference ts x None;
             offset \<leftarrow> fpool_get_offset (jsr_shapes repo) shape;
             chain \<leftarrow> hash_chain_push (jsr_key_hashes repo) (sh_keys_hash x) offset;
             (entry, cache) \<leftarrow> lm_queue_push (jsr_cache_controller repo);
             repo \<leftarrow> jsr_store (repo\<lparr>jsr_key_hashes := chain, jsr_cache_controller := cache\<rparr>) shape
               (x\<lparr>sh_source := None, sh_cache_entry := Some entry\<rparr>);
             jsr_drain_cache_overflow repo ts
           }
       }
   }"

definition jsr_process_token :: "(u64 \<Rightarrow> u64) \<Rightarrow> json_shapes_repository \<Rightarrow>
    json_token_shape_reference list \<Rightarrow> int \<Rightarrow> json_token_kind \<Rightarrow> json_state \<Rightarrow>
    (json_shapes_repository \<times> json_token_shape_reference list) option" where
  "jsr_process_token bumped repo ts token kind state =
     (if state = JSON_STATE_OBJECT_KEY \<and> kind = JSON_TOKEN_STRING_DELIMITER then
        jsr_push_key_byte repo ts 1
      else if kind = JSON_TOKEN_OBJECT_OPEN then do {
        (shape, pool) \<leftarrow> fpool_acquire (jsr_shapes repo);
        stack \<leftarrow> fstack_push (Some shape) (jsr_in_progress repo);
        jsr_setup_shape bumped (repo\<lparr>jsr_shapes := pool, jsr_in_progress := stack\<rparr>) shape ts token
      }
      else if kind = JSON_TOKEN_OBJECT_CLOSE then jsr_complete_current_shape repo ts
      else Some (repo, ts))"

section \<open>The shape table\<close>

definition shape_ok :: "nat \<Rightarrow> json_object_shape \<Rightarrow> bool" where
  "shape_ok n x \<longleftrightarrow> length (sh_keys x) = 1024 \<and> 0 \<le> sh_keys_length x \<and> sh_keys_length x \<le> 1024 \<and>
     (\<forall>t. sh_source x = Some t \<longrightarrow> 0 \<le> t \<and> t < int n)"

text \<open>
  \<open>table_ok n m busy refs\<close>: every shape of the table \<open>m\<close> is well formed, at most one stands at each
  entry of the cache, which is one of \<open>refs\<close>, and none of these is among the \<open>busy\<close> slots.
\<close>

definition table_ok ::
  "nat \<Rightarrow> (int \<Rightarrow> json_object_shape option) \<Rightarrow> int set \<Rightarrow> fal_ref set \<Rightarrow> bool" where
  "table_ok n m busy refs \<longleftrightarrow>
     (\<forall>p x. m p = Some x \<longrightarrow> shape_ok n x \<and>
        (\<forall>r. sh_cache_entry x = Some r \<longrightarrow> r \<in> refs \<and> p \<notin> busy)) \<and>
     (\<forall>p q x y r. m p = Some x \<longrightarrow> m q = Some y \<longrightarrow> sh_cache_entry x = Some r \<longrightarrow>
        sh_cache_entry y = Some r \<longrightarrow> p = q)"

lemma table_okD:
  assumes "table_ok n m busy refs" and "m p = Some x"
  shows "shape_ok n x" and "\<And>r. sh_cache_entry x = Some r \<Longrightarrow> r \<in> refs \<and> p \<notin> busy"
  using assms by (auto simp: table_ok_def)

lemma table_ok_inj:
  "table_ok n m busy refs \<Longrightarrow> m p = Some x \<Longrightarrow> m q = Some y \<Longrightarrow> sh_cache_entry x = Some r \<Longrightarrow>
     sh_cache_entry y = Some r \<Longrightarrow> p = q"
  unfolding table_ok_def by blast

lemma table_ok_mono: "table_ok n m busy refs \<Longrightarrow> busy' \<subseteq> busy \<Longrightarrow> table_ok n m busy' refs"
  unfolding table_ok_def by blast

lemma table_ok_plain:
  assumes "table_ok n m busy refs" and "shape_ok n x" and "sh_cache_entry x = None"
  shows "table_ok n (m(p \<mapsto> x)) (insert p busy) refs"
  using assms unfolding table_ok_def by (auto split: if_splits)

text \<open>The shape at \<open>p\<close> takes the entry \<open>r'\<close>, which no other shape has, in place of the one it had.\<close>

lemma table_ok_entry:
  assumes "table_ok n m busy refs" and "shape_ok n x" and "sh_cache_entry x = Some r'"
    and "r' \<in> refs'" and "p \<notin> busy"
    and "\<And>q y r. q \<noteq> p \<Longrightarrow> m q = Some y \<Longrightarrow> sh_cache_entry y = Some r \<Longrightarrow> r \<in> refs' \<and> r \<noteq> r'"
  shows "table_ok n (m(p \<mapsto> x)) busy refs'"
  unfolding table_ok_def
proof (intro conjI allI impI)
  fix q y
  assume "(m(p \<mapsto> x)) q = Some y"
  then show "shape_ok n y" using assms(1,2) by (auto simp: table_ok_def split: if_splits)
next
  fix q y r
  assume y: "(m(p \<mapsto> x)) q = Some y" and r: "sh_cache_entry y = Some r"
  show "r \<in> refs'" using y r assms(3,4) assms(6) [of q y r] by (cases "q = p") auto
  show "q \<notin> busy" using y r assms(5) table_okD(2) [OF assms(1), of q y r] by (cases "q = p") auto
next
  fix q q' y y' r
  assume a: "(m(p \<mapsto> x)) q = Some y" "(m(p \<mapsto> x)) q' = Some y'"
    "sh_cache_entry y = Some r" "sh_cache_entry y' = Some r"
  show "q = q'"
  proof (cases "q = p"; cases "q' = p")
    assume "q \<noteq> p" "q' \<noteq> p"
    then show ?thesis using a table_ok_inj [OF assms(1)] by auto
  next
    assume "q = p" "q' \<noteq> p"
    then show ?thesis using a assms(3) assms(6) [of q' y' r] by auto
  next
    assume "q \<noteq> p" "q' = p"
    then show ?thesis using a assms(3) assms(6) [of q y r] by auto
  qed simp
qed

section \<open>The invariant\<close>

definition live :: "int option list \<Rightarrow> int list" where
  "live ps = List.map_filter (\<lambda>p. p) ps"

lemma live_simps [simp]: "live [] = []" "live (None # ps) = live ps" "live (Some p # ps) = p # live ps"
  by (simp_all add: live_def map_filter_simps)

definition cache_refs :: "(fal_ref \<times> int option) list \<Rightarrow> fal_ref set" where
  "cache_refs es = fst ` set es"

text \<open>
  \<open>jsr_state repo n free ps fs ms\<close>: with \<open>n\<close> tokens about, the pool's unused slots are \<open>free\<close>, the
  objects being read have the shapes \<open>ps\<close>, innermost first (\<open>None\<close> where the shape was given up),
  the cache holds the entries \<open>fs\<close> and \<open>ms\<close>.
\<close>

definition jsr_state :: "json_shapes_repository \<Rightarrow> nat \<Rightarrow> int list \<Rightarrow> int option list \<Rightarrow>
    (fal_ref \<times> int option) list \<Rightarrow> (fal_ref \<times> int option) list \<Rightarrow> bool" where
  "jsr_state repo n free ps fs ms \<longleftrightarrow> fpool_state 1024 (jsr_shapes repo) free \<and>
     fstack_repr JSON_MAX_STATE_STACK_LENGTH (jsr_in_progress repo) ps \<and>
     chain_ok (jsr_key_hashes repo) 1024 \<and> lm_repr 256 256 (jsr_cache_controller repo) fs ms \<and>
     (\<forall>e\<in>set (fs @ ms). snd e = None) \<and> distinct (live ps @ free) \<and>
     set (live ps) \<subseteq> fpool_slots (jsr_shapes repo) 1024 \<and>
     table_ok n (jsr_load repo) (set (live ps @ free)) (cache_refs (fs @ ms))"

lemma jsr_stateD:
  assumes "jsr_state repo n free ps fs ms"
  shows "fpool_state 1024 (jsr_shapes repo) free"
    "fstack_repr JSON_MAX_STATE_STACK_LENGTH (jsr_in_progress repo) ps"
    "chain_ok (jsr_key_hashes repo) 1024" "lm_repr 256 256 (jsr_cache_controller repo) fs ms"
    "\<And>e. e \<in> set (fs @ ms) \<Longrightarrow> snd e = None" "distinct (live ps @ free)"
    "set (live ps) \<subseteq> fpool_slots (jsr_shapes repo) 1024"
    "table_ok n (jsr_load repo) (set (live ps @ free)) (cache_refs (fs @ ms))"
  using assms by (auto simp: jsr_state_def)

lemma jsr_load_upd [simp]:
  "jsr_load (repo\<lparr>jsr_key_hashes := h\<rparr>) = jsr_load repo"
  "jsr_load (repo\<lparr>jsr_cache_controller := c\<rparr>) = jsr_load repo"
  "jsr_load (repo\<lparr>jsr_in_progress := i\<rparr>) = jsr_load repo"
  "jsr_load (repo\<lparr>jsr_id_counter := k\<rparr>) = jsr_load repo"
  "jsr_load (repo\<lparr>jsr_shapes := p\<rparr>) = fpool_load p"
  by (simp_all add: jsr_load_def fun_eq_iff)

lemma jsr_load_slot:
  assumes "jsr_state repo n free ps fs ms" and "p \<in> fpool_slots (jsr_shapes repo) 1024"
  obtains x where "jsr_load repo p = Some x"
  using fpool_load_slot [OF jsr_stateD(1) [OF assms(1)] assms(2)] by (auto simp: jsr_load_def)

lemma jsr_storeE:
  assumes "fpool_state 1024 (jsr_shapes repo) free" and "p \<in> fpool_slots (jsr_shapes repo) 1024"
  obtains pool where "jsr_store repo p x = Some (repo\<lparr>jsr_shapes := pool\<rparr>)"
    and "fpool_state 1024 pool free" and "fpool_load pool = (jsr_load repo)(p \<mapsto> x)"
    and "fpool_slots pool 1024 = fpool_slots (jsr_shapes repo) 1024"
  using fpool_store_slot [OF assms, of x] that
  by (auto simp: jsr_store_def jsr_load_def [abs_def])

lemma set_source_reference_ok:
  assumes "shape_ok (length ts) x"
  shows "\<exists>ts'. set_source_reference ts x v = Some ts' \<and> length ts' = length ts \<and>
     (\<forall>t. sh_source x = Some t \<longrightarrow> ref_shape (ts' ! nat t) = v)"
proof (cases "sh_source x")
  case (Some t)
  then obtain k where "t = int k" "k < length ts" using assms
    by (auto simp: shape_ok_def intro: that [of "nat t"])
  then show ?thesis using Some by (simp add: set_source_reference_def)
qed (simp add: set_source_reference_def)

end
