(* ===== verification/Json_Shape_Invariant.thy ===== *)
theory Json_Shape_Invariant
  imports Json_Shapes
begin

text \<open>
  What the operations of the shapes repository do to its invariant \<open>jsr_state\<close>: each returns while
  the cache and the pool have room, and the first overflow of the cache follows a \<open>NULL\<close>.
\<close>

section \<open>Key bytes\<close>

definition keys_text :: "json_object_shape \<Rightarrow> byte list" where
  "keys_text x = take (nat (sh_keys_length x)) (sh_keys x)"

lemma live_no_entry:
  assumes "jsr_state repo n free ps fs ms" and "p \<in> set (live ps @ free)" and "jsr_load repo p = Some x"
  shows "sh_cache_entry x = None"
  using table_okD(2) [OF jsr_stateD(8) [OF assms(1)] assms(3)] assms(2)
  by (cases "sh_cache_entry x") auto

lemma jsr_top:
  assumes "jsr_state repo n free (Some p # ps) fs ms"
  obtains x where "jsr_get_current_shape repo = Some (Some p)" and "p \<in> fpool_slots (jsr_shapes repo) 1024"
    and "jsr_load repo p = Some x" and "shape_ok n x" and "sh_cache_entry x = None" and "p \<notin> set free"
proof -
  note st = jsr_stateD [OF assms]
  have "p \<in> fpool_slots (jsr_shapes repo) 1024" using st(7) by simp
  moreover from assms this obtain x where x: "jsr_load repo p = Some x" by (rule jsr_load_slot)
  moreover have "sh_cache_entry x = None" using live_no_entry [OF assms _ x] by simp
  moreover have "jsr_get_current_shape repo = Some (Some p)"
    using fstack_peek_repr [OF st(2)] by (simp add: jsr_get_current_shape_def)
  ultimately show thesis using that table_okD(1) [OF st(8) x] st(6) by auto
qed

text \<open>A key too long: the shape goes back to the pool, as it is.\<close>

lemma jsr_push_key_byte_full:
  assumes "jsr_state repo (length ts) free (Some p # ps) fs ms"
    and "jsr_load repo p = Some x" and "sh_keys_length x \<ge> 1024"
  shows "\<exists>repo' ts'. jsr_push_key_byte repo ts b = Some (repo', ts') \<and> length ts' = length ts \<and>
     jsr_state repo' (length ts) (p # free) (None # ps) fs ms \<and>
     jsr_load repo' p = Some (x\<lparr>sh_source := None\<rparr>) \<and>
     (\<forall>t. sh_source x = Some t \<longrightarrow> ref_shape (ts' ! nat t) = None)"
proof -
  note st = jsr_stateD [OF assms(1)]
  have top: "jsr_get_current_shape repo = Some (Some p)" "p \<in> fpool_slots (jsr_shapes repo) 1024"
    "shape_ok (length ts) x" "sh_cache_entry x = None" "p \<notin> set free"
    using jsr_top [OF assms(1)] assms(2) by auto
  obtain ts' where ts': "set_source_reference ts x None = Some ts'" "length ts' = length ts"
    "\<forall>t. sh_source x = Some t \<longrightarrow> ref_shape (ts' ! nat t) = None"
    using set_source_reference_ok [OF top(3), of None] by blast
  obtain pool where pool: "jsr_store repo p (x\<lparr>sh_source := None\<rparr>) = Some (repo\<lparr>jsr_shapes := pool\<rparr>)"
    "fpool_state 1024 pool free" "fpool_load pool = (jsr_load repo)(p \<mapsto> x\<lparr>sh_source := None\<rparr>)"
    "fpool_slots pool 1024 = fpool_slots (jsr_shapes repo) 1024" using st(1) top(2) by (rule jsr_storeE)
  obtain stack where stack: "fstack_update_top (jsr_in_progress repo) None = Some stack"
    "fstack_repr JSON_MAX_STATE_STACK_LENGTH stack (None # ps)"
    using fstack_update_top_repr [OF st(2)] by blast
  from fpool_release_state [OF pool(2)] top(2,5) pool(4) obtain pool' where
    pool': "fpool_release pool p = Some pool'" "fpool_state 1024 pool' (p # free)"
    "fpool_load pool' = fpool_load pool" "fpool_slots pool' 1024 = fpool_slots pool 1024" by blast
  define repo' where "repo' = repo\<lparr>jsr_shapes := pool', jsr_in_progress := stack\<rparr>"
  have run: "jsr_push_key_byte repo ts b = Some (repo', ts')"
    using top assms(2,3) ts'(1) pool(1) stack(1) pool'(1)
    by (simp add: jsr_push_key_byte_def JSON_SHAPE_SUM_KEY_LENGTH_def repo'_def)
  have busy: "insert p (set (live (Some p # ps) @ free)) = set (live (Some p # ps) @ free)" by auto
  have "table_ok (length ts) ((jsr_load repo)(p \<mapsto> x\<lparr>sh_source := None\<rparr>))
      (set (live (Some p # ps) @ free)) (cache_refs (fs @ ms))"
    using table_ok_plain [OF st(8), of "x\<lparr>sh_source := None\<rparr>" p] top(3,4) busy by (simp add: shape_ok_def)
  then have "jsr_state repo' (length ts) (p # free) (None # ps) fs ms"
    using st pool' pool(3,4) stack(2) by (auto simp: jsr_state_def repo'_def)
  then show ?thesis using run ts'(2,3) pool(3) pool'(3) by (auto simp: repo'_def)
qed

lemma jsr_push_key_byte_room:
  assumes "jsr_state repo (length ts) free (Some p # ps) fs ms"
    and "jsr_load repo p = Some x" and "sh_keys_length x < 1024"
  shows "\<exists>repo' x'. jsr_push_key_byte repo ts b = Some (repo', ts) \<and>
     jsr_state repo' (length ts) free (Some p # ps) fs ms \<and>
     jsr_load repo' p = Some x' \<and> keys_text x' = keys_text x @ [b] \<and>
     sh_keys_hash x' = jsr_update_hash (sh_keys_hash x) (ucast b) (sh_keys_length x) \<and>
     sh_keys_length x' = sh_keys_length x + 1 \<and> sh_source x' = sh_source x \<and>
     (\<forall>q. q \<noteq> p \<longrightarrow> jsr_load repo' q = jsr_load repo q)"
proof -
  note st = jsr_stateD [OF assms(1)]
  have top: "jsr_get_current_shape repo = Some (Some p)" "p \<in> fpool_slots (jsr_shapes repo) 1024"
    "shape_ok (length ts) x" "sh_cache_entry x = None"
    using jsr_top [OF assms(1)] assms(2) by auto
  define x' where "x' = x\<lparr>sh_keys_hash := jsr_update_hash (sh_keys_hash x) (ucast b) (sh_keys_length x),
    sh_keys := (sh_keys x)[nat (sh_keys_length x) := b], sh_keys_length := sh_keys_length x + 1\<rparr>"
  have k: "nat (sh_keys_length x) < length (sh_keys x)" "nat (sh_keys_length x + 1) = Suc (nat (sh_keys_length x))"
    using top(3) assms(3) by (auto simp: shape_ok_def)
  have put: "put (sh_keys x) (sh_keys_length x) b = Some ((sh_keys x)[nat (sh_keys_length x) := b])"
    using top(3) assms(3) by (simp add: put_def in_range_def shape_ok_def)
  obtain pool where pool: "jsr_store repo p x' = Some (repo\<lparr>jsr_shapes := pool\<rparr>)"
    "fpool_state 1024 pool free" "fpool_load pool = (jsr_load repo)(p \<mapsto> x')"
    "fpool_slots pool 1024 = fpool_slots (jsr_shapes repo) 1024" using st(1) top(2) by (rule jsr_storeE)
  have run: "jsr_push_key_byte repo ts b = Some (repo\<lparr>jsr_shapes := pool\<rparr>, ts)"
    using top(1) assms(2,3) put pool(1)
    by (simp add: jsr_push_key_byte_def JSON_SHAPE_SUM_KEY_LENGTH_def x'_def)
  have busy: "insert p (set (live (Some p # ps) @ free)) = set (live (Some p # ps) @ free)" by auto
  have "table_ok (length ts) ((jsr_load repo)(p \<mapsto> x')) (set (live (Some p # ps) @ free)) (cache_refs (fs @ ms))"
    using table_ok_plain [OF st(8), of x' p] top(3,4) busy assms(3) by (simp add: shape_ok_def x'_def)
  then have "jsr_state (repo\<lparr>jsr_shapes := pool\<rparr>) (length ts) free (Some p # ps) fs ms"
    using st pool by (simp add: jsr_state_def)
  moreover have "keys_text x' = keys_text x @ [b]"
    unfolding keys_text_def x'_def using k by (simp add: take_Suc_conv_app_nth)
  ultimately show ?thesis using run pool(3) by (auto simp: x'_def)
qed

lemma jsr_push_key_byte_state:
  assumes "jsr_state repo (length ts) free (sp # ps) fs ms"
  shows "\<exists>repo' ts' free' sp'. jsr_push_key_byte repo ts b = Some (repo', ts') \<and> length ts' = length ts \<and>
     jsr_state repo' (length ts) free' (sp' # ps) fs ms \<and> length free \<le> length free'"
proof (cases sp)
  case None
  have "jsr_get_current_shape repo = Some sp"
    using fstack_peek_repr [OF jsr_stateD(2) [OF assms]] by (simp add: jsr_get_current_shape_def)
  then show ?thesis using assms None by (auto simp: jsr_push_key_byte_def)
next
  case (Some p)
  obtain x where "jsr_load repo p = Some x" using jsr_top assms Some by blast
  then consider "sh_keys_length x \<ge> 1024" "jsr_load repo p = Some x"
    | "sh_keys_length x < 1024" "jsr_load repo p = Some x" by linarith
  then show ?thesis
  proof cases
    case 1
    from jsr_push_key_byte_full [OF assms [unfolded Some] 1(2,1), of b] show ?thesis by force
  next
    case 2
    from jsr_push_key_byte_room [OF assms [unfolded Some] 2(2,1), of b] Some show ?thesis by blast
  qed
qed

section \<open>Opening an object\<close>

lemma jsr_open_state:
  assumes "jsr_state repo (length ts) (p # free) ps fs ms" and "length ps < JSON_MAX_STATE_STACK_LENGTH"
    and "t < length ts" and "state \<noteq> JSON_STATE_OBJECT_KEY \<or> kind \<noteq> JSON_TOKEN_STRING_DELIMITER"
    and "kind = JSON_TOKEN_OBJECT_OPEN"
  shows "\<exists>repo' ts'. jsr_process_token bumped repo ts (int t) kind state = Some (repo', ts') \<and>
     length ts' = length ts \<and> jsr_state repo' (length ts) free (Some p # ps) fs ms \<and>
     (\<exists>x x'. jsr_load repo p = Some x \<and> jsr_load repo' p = Some x' \<and> sh_source x' = Some (int t) \<and>
        sh_keys_length x' = sh_keys_length x \<and> sh_keys x' = sh_keys x \<and> sh_keys_hash x' = 0) \<and>
     (\<forall>q. q \<noteq> p \<longrightarrow> jsr_load repo' q = jsr_load repo q)"
proof -
  note st = jsr_stateD [OF assms(1)]
  obtain pool where pool: "fpool_acquire (jsr_shapes repo) = Some (p, pool)" "fpool_state 1024 pool free"
    "fpool_load pool = fpool_load (jsr_shapes repo)" "fpool_slots pool 1024 = fpool_slots (jsr_shapes repo) 1024"
    using fpool_acquire_state [OF st(1)] by blast
  obtain stack where stack: "fstack_push (Some p) (jsr_in_progress repo) = Some stack"
    "fstack_repr JSON_MAX_STATE_STACK_LENGTH stack (Some p # ps)"
    using fstack_push_repr [OF st(2) assms(2)] by blast
  have slot: "p \<in> fpool_slots (jsr_shapes repo) 1024" using fpool_stateD(5) [OF st(1)] by simp
  obtain x where x: "jsr_load repo p = Some x" using assms(1) slot by (rule jsr_load_slot)
  have ok: "shape_ok (length ts) x" using table_okD(1) [OF st(8) x] .
  define x' where "x' = x\<lparr>sh_keys_hash := 0, sh_cache_entry := None, sh_id := ucast (jsr_id_counter repo),
    sh_source := Some (int t)\<rparr>"
  define ts' where "ts' = ts[t := (ts ! t)\<lparr>ref_shape_id := ucast (ucast (jsr_id_counter repo) :: 32 word)\<rparr>]"
  define counter where "counter = (if jsr_id_counter repo = - 1 then 0 else bumped (jsr_id_counter repo))"
  define repo1 where "repo1 = repo\<lparr>jsr_shapes := pool, jsr_in_progress := stack,
    jsr_id_counter := counter\<rparr>"
  have "fpool_state 1024 (jsr_shapes repo1) free" using pool(2) by (simp add: repo1_def)
  moreover have "p \<in> fpool_slots (jsr_shapes repo1) 1024" using slot pool(4) by (simp add: repo1_def)
  ultimately obtain pool' where pool': "jsr_store repo1 p x' = Some (repo1\<lparr>jsr_shapes := pool'\<rparr>)"
    "fpool_state 1024 pool' free" "fpool_load pool' = (jsr_load repo1)(p \<mapsto> x')"
    "fpool_slots pool' 1024 = fpool_slots (jsr_shapes repo1) 1024" by (rule jsr_storeE)
  have load: "jsr_load repo1 = jsr_load repo"
    using pool(3) by (simp add: repo1_def jsr_load_def [abs_def])
  have run: "jsr_process_token bumped repo ts (int t) kind state = Some (repo1\<lparr>jsr_shapes := pool'\<rparr>, ts')"
    using assms(3-5) pool(1,3) stack(1) x pool'(1)
    by (simp add: jsr_process_token_def jsr_setup_shape_def jsr_load_def x'_def [symmetric]
        ts'_def [symmetric])
      (auto simp: repo1_def counter_def split: if_splits)
  have "table_ok (length ts) ((jsr_load repo)(p \<mapsto> x')) (insert p (set (live ps @ p # free))) (cache_refs (fs @ ms))"
    using table_ok_plain [OF st(8), of x' p] ok assms(3) by (simp add: shape_ok_def x'_def)
  moreover have "insert p (set (live ps @ p # free)) = set (live (Some p # ps) @ free)" by auto
  ultimately have "jsr_state (repo1\<lparr>jsr_shapes := pool'\<rparr>) (length ts) free (Some p # ps) fs ms"
    using st pool'(2-4) pool(4) stack(2) slot load by (auto simp: jsr_state_def repo1_def)
  moreover have "jsr_load (repo1\<lparr>jsr_shapes := pool'\<rparr>) = (jsr_load repo)(p \<mapsto> x')" using pool'(3) load by simp
  ultimately show ?thesis using run x
    by (intro exI [of _ "repo1\<lparr>jsr_shapes := pool'\<rparr>"] exI [of _ ts']) (simp add: ts'_def x'_def)
qed

section \<open>Searching\<close>

lemma same_keys_loop_correct:
  assumes "i + k \<le> length xs" and "i + k \<le> length ys"
  shows "same_keys_loop k (int i) xs ys = Some (take k (drop i xs) = take k (drop i ys))"
  using assms
proof (induction k arbitrary: i)
  case (Suc k)
  have d: "drop i xs = xs ! i # drop (Suc i) xs" "drop i ys = ys ! i # drop (Suc i) ys"
    using Suc.prems by (simp_all add: Cons_nth_drop_Suc)
  have "int (Suc i) = int i + 1" by simp
  with Suc.IH [of "Suc i"] Suc.prems show ?case by (simp add: d add.commute)
qed simp

lemma jsr_match_loop_state:
  assumes "jsr_state repo n free ps fs ms" and "shape_ok n x" and "pos < 1024"
  shows "\<exists>res. jsr_match_loop k repo x (int pos) = Some res \<and>
     (\<forall>q. res = Some q \<longrightarrow> (\<exists>y. q \<in> fpool_slots (jsr_shapes repo) 1024 \<and> jsr_load repo q = Some y \<and>
        sh_cache_entry y \<noteq> None \<and> keys_text y = keys_text x))"
  using assms(3)
proof (induction k arbitrary: pos)
  case (Suc k)
  obtain prev where prev: "prev < 1024"
    "hash_chain_get_previous_position_by_position (jsr_key_hashes repo) (int pos) = Some (int prev)"
    using hash_chain_previous_ok [OF jsr_stateD(3) [OF assms(1)] Suc.prems] by blast
  define q where "q = fpool_offset_to_value (jsr_shapes repo) (int pos)"
  have q: "q \<in> fpool_slots (jsr_shapes repo) 1024" using Suc.prems by (auto simp: q_def fpool_slots_def)
  obtain y where y: "jsr_load repo q = Some y" using assms(1) q by (rule jsr_load_slot)
  have ok: "shape_ok n y" using table_okD(1) [OF jsr_stateD(8) [OF assms(1)] y] .
  note IH = Suc.IH [OF prev(1)]
  show ?case
  proof (cases "sh_cache_entry y = None \<or> sh_keys_length y \<noteq> sh_keys_length x \<or> sh_keys_hash y \<noteq> sh_keys_hash x")
    case True
    then have "jsr_match_loop (Suc k) repo x (int pos) = jsr_match_loop k repo x (int prev)"
      using prev(2) y by (auto simp: q_def [symmetric])
    then show ?thesis using IH by simp
  next
    case False
    have "same_keys_loop (nat (sh_keys_length y)) (int 0) (sh_keys y) (sh_keys x) =
        Some (keys_text y = keys_text x)"
      using same_keys_loop_correct [of 0 "nat (sh_keys_length y)" "sh_keys y" "sh_keys x"] ok assms(2) False
      by (auto simp: keys_text_def shape_ok_def nat_le_iff)
    then have "jsr_match_loop (Suc k) repo x (int pos) =
        (if keys_text y = keys_text x then Some (Some q) else jsr_match_loop k repo x (int prev))"
      using prev(2) y False by (auto simp: q_def [symmetric])
    then show ?thesis using IH y q False by simp
  qed
qed simp

lemma jsr_find_state:
  assumes "jsr_state repo n free ps fs ms" and "shape_ok n x"
  obtains res where "jsr_find_matching_shape repo x = Some res"
    and "\<And>q. res = Some q \<Longrightarrow> \<exists>y r. q \<in> fpool_slots (jsr_shapes repo) 1024 \<and>
      jsr_load repo q = Some y \<and> sh_cache_entry y = Some r \<and> keys_text y = keys_text x"
proof -
  obtain pos where "pos < 1024"
    "hash_chain_get_first_position_by_hash (jsr_key_hashes repo) (sh_keys_hash x) = Some (int pos)"
    using hash_chain_first_ok [OF jsr_stateD(3) [OF assms(1)]] by blast
  with jsr_match_loop_state [OF assms, of pos JSR_HYPOTHESIS_DEPTH] that show thesis
    by (fastforce simp: jsr_find_matching_shape_def)
qed

section \<open>The cache\<close>

lemma lm_refs_distinct:
  assumes "lm_repr m n q fs ms"
  shows "distinct (map fst (fs @ ms))"
proof -
  have "fst ` set fs \<inter> fst ` set ms = {}" using lm_own_entry [OF assms] by blast
  then show ?thesis using assms by (auto simp: lm_repr_def lru_repr_def dest: fal_repr_distinct)
qed

lemma drain_idle:
  assumes "lm_repr 256 256 (jsr_cache_controller repo) fs ms" and "length fs < 256" and "length ms < 256"
  shows "jsr_drain_cache_overflow repo ts = Some (repo, ts)"
  using lm_overflowing [OF assms(1)] assms(2,3) by (simp add: jsr_drain_cache_overflow_def)

text \<open>Every value in the cache is \<open>NULL\<close>: the first overflow aborts.\<close>

lemma drain_aborts:
  assumes "lm_repr 256 256 (jsr_cache_controller repo) fs ms" and "\<forall>e\<in>set (fs @ ms). snd e = None"
    and "length fs = 256 \<and> length ms < 256 \<or> length ms = 256"
  shows "jsr_drain_cache_overflow repo ts = None"
proof -
  have over: "lm_queue_is_overflowing (jsr_cache_controller repo)"
    using lm_overflowing [OF assms(1)] assms(3) by auto
  have "\<exists>q'. lm_queue_pop (jsr_cache_controller repo) = Some (None, q')"
  proof (cases "length ms = 256")
    case True
    then obtain a r v where ms: "ms = a @ [(r, v)]" by (cases ms rule: rev_cases) auto
    with assms(2) have "v = None" by auto
    with lm_pop_mature [of 256 256 "jsr_cache_controller repo" fs a r v] assms(1) True ms
    show ?thesis by auto
  next
    case False
    then obtain a r v where fs: "fs = a @ [(r, v)]" using assms(3) by (cases fs rule: rev_cases) auto
    with assms(2) have "v = None" by auto
    with lm_pop_fresh [of 256 256 "jsr_cache_controller repo" a r v ms] assms(1,3) False fs
    show ?thesis by auto
  qed
  then show ?thesis using over by (auto simp: jsr_drain_cache_overflow_def)
qed

text \<open>Bumping an entry of the cache gives an entry no other shape has.\<close>

lemma jsr_bump:
  assumes "lm_repr 256 256 q fs ms" and "\<forall>e\<in>set (fs @ ms). snd e = None"
    and "r \<in> cache_refs (fs @ ms)" and "length fs < 256" and "length ms < 256"
  shows "\<exists>r' q' fs' ms'. lm_queue_bump q r = Some (r', q') \<and> lm_repr 256 256 q' fs' ms' \<and>
     (\<forall>e\<in>set (fs' @ ms'). snd e = None) \<and> length fs' \<le> length fs \<and> length ms' \<le> Suc (length ms) \<and>
     cache_refs (fs' @ ms') = insert r' (cache_refs (fs @ ms) - {r}) \<and> (r' = r \<or> r' \<notin> cache_refs (fs @ ms))"
proof (cases "r \<in> fst ` set fs")
  case True
  then obtain a v b where fs: "fs = a @ (r, v) # b" by (auto dest: split_list)
  have d: "distinct (map fst (fs @ ms))" using assms(1) by (rule lm_refs_distinct)
  obtain r' q' where b: "lm_queue_bump q r = Some (r', q')" "lm_repr 256 256 q' (a @ b) ((r', v) # ms)"
    using lm_bump_fresh [of 256 256 q a r v b ms] assms(1,4,5) unfolding fs by auto
  have d': "distinct (map fst ((a @ b) @ (r', v) # ms))" using b(2) by (rule lm_refs_distinct)
  have old: "cache_refs (fs @ ms) = insert r (cache_refs ((a @ b) @ ms))"
    and new: "cache_refs ((a @ b) @ (r', v) # ms) = insert r' (cache_refs ((a @ b) @ ms))"
    by (auto simp: cache_refs_def fs)
  have "r \<notin> cache_refs ((a @ b) @ ms)" using d by (auto simp: cache_refs_def fs)
  then have refs: "cache_refs ((a @ b) @ (r', v) # ms) = insert r' (cache_refs (fs @ ms) - {r})"
    unfolding old new by blast
  have "r' \<notin> cache_refs ((a @ b) @ ms)" using d' by (auto simp: cache_refs_def)
  then have "r' = r \<or> r' \<notin> cache_refs (fs @ ms)" unfolding old by blast
  moreover have "\<forall>e\<in>set ((a @ b) @ (r', v) # ms). snd e = None" using assms(2) by (simp add: fs)
  ultimately show ?thesis using b refs
    by (intro exI [of _ r'] exI [of _ q'] exI [of _ "a @ b"] exI [of _ "(r', v) # ms"]) (simp add: fs)
next
  case False
  then obtain a v b where ms: "ms = a @ (r, v) # b"
    using assms(3) by (auto simp: cache_refs_def dest: split_list)
  obtain q' where b: "lm_queue_bump q r = Some (r, q')" "lm_repr 256 256 q' fs ((r, v) # a @ b)"
    using lm_bump_mature [of 256 256 q fs a r v b] assms(1,4,5) unfolding ms by auto
  then show ?thesis using assms(2) ms
    by (intro exI [of _ r] exI [of _ q'] exI [of _ fs] exI [of _ "(r, v) # a @ b"])
      (auto simp: cache_refs_def)
qed

section \<open>Completing a shape\<close>

lemma jsr_pop_state:
  assumes "jsr_state repo n free (sp # ps) fs ms"
  obtains stack where "fstack_pop (jsr_in_progress repo) = Some (sp, stack)"
    and "jsr_state (repo\<lparr>jsr_in_progress := stack\<rparr>) n free ps fs ms"
proof -
  note st = jsr_stateD [OF assms]
  obtain stack where stack: "fstack_pop (jsr_in_progress repo) = Some (sp, stack)"
    "fstack_repr JSON_MAX_STATE_STACK_LENGTH stack ps" using fstack_pop_repr [OF st(2)] by blast
  have sub: "set (live ps @ free) \<subseteq> set (live (sp # ps) @ free)" by (cases sp) auto
  have d: "distinct (live ps @ free)" using st(6) by (cases sp) auto
  have in_pool: "set (live ps) \<subseteq> fpool_slots (jsr_shapes repo) 1024" using st(7) by (cases sp) auto
  have "jsr_state (repo\<lparr>jsr_in_progress := stack\<rparr>) n free ps fs ms"
    using st(1,3-5) stack(2) d in_pool table_ok_mono [OF st(8) sub] by (simp add: jsr_state_def)
  with stack(1) show thesis by (rule that)
qed

lemma jsr_complete_found:
  assumes "jsr_state repo n free ps fs ms" and "jsr_load repo q = Some y" and "sh_cache_entry y = Some r"
    and "q \<in> fpool_slots (jsr_shapes repo) 1024" and "length fs < 255" and "length ms < 255"
  shows "\<exists>r' cache repo' fs' ms'. lm_queue_bump (jsr_cache_controller repo) r = Some (r', cache) \<and>
     jsr_store (repo\<lparr>jsr_cache_controller := cache\<rparr>) q (y\<lparr>sh_cache_entry := Some r'\<rparr>) = Some repo' \<and>
     jsr_drain_cache_overflow repo' ts = Some (repo', ts) \<and>
     jsr_load repo' = (jsr_load repo)(q \<mapsto> y\<lparr>sh_cache_entry := Some r'\<rparr>) \<and>
     jsr_state repo' n free ps fs' ms' \<and> length fs' \<le> length fs \<and> length ms' \<le> Suc (length ms)"
proof -
  note st = jsr_stateD [OF assms(1)]
  have r: "r \<in> cache_refs (fs @ ms)" "q \<notin> set (live ps @ free)"
    using table_okD(2) [OF st(8) assms(2,3)] by auto
  have ok: "shape_ok n y" using table_okD(1) [OF st(8) assms(2)] .
  have "\<forall>e\<in>set (fs @ ms). snd e = None" using st(5) by blast
  from jsr_bump [OF st(4) this r(1)] assms(5,6) obtain r' cache fs' ms' where
    b: "lm_queue_bump (jsr_cache_controller repo) r = Some (r', cache)" "lm_repr 256 256 cache fs' ms'"
    "\<forall>e\<in>set (fs' @ ms'). snd e = None" "length fs' \<le> length fs" "length ms' \<le> Suc (length ms)"
    "cache_refs (fs' @ ms') = insert r' (cache_refs (fs @ ms) - {r})"
    "r' = r \<or> r' \<notin> cache_refs (fs @ ms)" by auto
  define repo1 where "repo1 = repo\<lparr>jsr_cache_controller := cache\<rparr>"
  have "fpool_state 1024 (jsr_shapes repo1) free" using st(1) by (simp add: repo1_def)
  moreover have "q \<in> fpool_slots (jsr_shapes repo1) 1024" using assms(4) by (simp add: repo1_def)
  ultimately obtain pool where pool:
    "jsr_store repo1 q (y\<lparr>sh_cache_entry := Some r'\<rparr>) = Some (repo1\<lparr>jsr_shapes := pool\<rparr>)"
    "fpool_state 1024 pool free" "fpool_load pool = (jsr_load repo1)(q \<mapsto> y\<lparr>sh_cache_entry := Some r'\<rparr>)"
    "fpool_slots pool 1024 = fpool_slots (jsr_shapes repo1) 1024" by (rule jsr_storeE)
  have "table_ok n ((jsr_load repo)(q \<mapsto> y\<lparr>sh_cache_entry := Some r'\<rparr>)) (set (live ps @ free)) (cache_refs (fs' @ ms'))"
  proof (rule table_ok_entry [OF st(8)])
    show "shape_ok n (y\<lparr>sh_cache_entry := Some r'\<rparr>)" using ok by (simp add: shape_ok_def)
    show "r' \<in> cache_refs (fs' @ ms')" using b(6) by simp
    show "q \<notin> set (live ps @ free)" by (rule r(2))
    fix q' y' r''
    assume q': "q' \<noteq> q" "jsr_load repo q' = Some y'" "sh_cache_entry y' = Some r''"
    then have "r'' \<noteq> r" "r'' \<in> cache_refs (fs @ ms)"
      using table_ok_inj [OF st(8) q'(2) assms(2) q'(3)] assms(3) table_okD(2) [OF st(8) q'(2,3)] by auto
    then show "r'' \<in> cache_refs (fs' @ ms') \<and> r'' \<noteq> r'" using b(6,7) by auto
  qed simp
  then have state: "jsr_state (repo1\<lparr>jsr_shapes := pool\<rparr>) n free ps fs' ms'"
    using st b(2,3) pool(2-4) by (simp add: jsr_state_def repo1_def)
  have "jsr_drain_cache_overflow (repo1\<lparr>jsr_shapes := pool\<rparr>) ts = Some (repo1\<lparr>jsr_shapes := pool\<rparr>, ts)"
    by (rule drain_idle [OF jsr_stateD(4) [OF state]]) (use b(4,5) assms(5,6) in simp_all)
  then show ?thesis using b(1,4,5) pool state
    by (intro exI [of _ r'] exI [of _ cache] exI [of _ "repo1\<lparr>jsr_shapes := pool\<rparr>"] exI [of _ fs'] exI [of _ ms'])
      (simp add: repo1_def)
qed

lemma jsr_insert_new:
  assumes "jsr_state repo n free ps fs ms" and "jsr_load repo p = Some x"
    and "p \<in> fpool_slots (jsr_shapes repo) 1024" and "p \<notin> set (live ps @ free)"
    and "length fs < 256" and "length ms < 256"
  shows "\<exists>offset chain r cache repo'. fpool_get_offset (jsr_shapes repo) p = Some offset \<and>
     hash_chain_push (jsr_key_hashes repo) (sh_keys_hash x) offset = Some chain \<and>
     lm_queue_push (jsr_cache_controller repo) = Some (r, cache) \<and>
     jsr_store (repo\<lparr>jsr_key_hashes := chain, jsr_cache_controller := cache\<rparr>) p
       (x\<lparr>sh_source := None, sh_cache_entry := Some r\<rparr>) = Some repo' \<and>
     jsr_state repo' n free ps ((r, None) # fs) ms \<and>
     jsr_load repo' = (jsr_load repo)(p \<mapsto> x\<lparr>sh_source := None, sh_cache_entry := Some r\<rparr>)"
proof -
  note st = jsr_stateD [OF assms(1)]
  have ok: "shape_ok n x" using table_okD(1) [OF st(8) assms(2)] .
  obtain i where i: "i < 1024" "p = fpool_offset_to_value (jsr_shapes repo) (int i)"
    using assms(3) by (auto simp: fpool_slots_def)
  obtain chain where chain: "hash_chain_push (jsr_key_hashes repo) (sh_keys_hash x) (int i) = Some chain"
    "chain_ok chain 1024" using hash_chain_push_ok [OF st(3) i(1)] by blast
  obtain r cache where c: "lm_queue_push (jsr_cache_controller repo) = Some (r, cache)"
    "lm_repr 256 256 cache ((r, None) # fs) ms" using lm_push_repr [OF st(4) assms(5,6)] by blast
  have new: "r \<notin> cache_refs (fs @ ms)" using lm_refs_distinct [OF c(2)] by (auto simp: cache_refs_def)
  define repo1 where "repo1 = repo\<lparr>jsr_key_hashes := chain, jsr_cache_controller := cache\<rparr>"
  define x' where "x' = x\<lparr>sh_source := None, sh_cache_entry := Some r\<rparr>"
  have "fpool_state 1024 (jsr_shapes repo1) free" using st(1) by (simp add: repo1_def)
  moreover have "p \<in> fpool_slots (jsr_shapes repo1) 1024" using assms(3) by (simp add: repo1_def)
  ultimately obtain pool where pool: "jsr_store repo1 p x' = Some (repo1\<lparr>jsr_shapes := pool\<rparr>)"
    "fpool_state 1024 pool free" "fpool_load pool = (jsr_load repo1)(p \<mapsto> x')"
    "fpool_slots pool 1024 = fpool_slots (jsr_shapes repo1) 1024" by (rule jsr_storeE)
  have "table_ok n ((jsr_load repo)(p \<mapsto> x')) (set (live ps @ free)) (cache_refs (((r, None) # fs) @ ms))"
  proof (rule table_ok_entry [OF st(8), where r' = r])
    fix q y r'
    assume "q \<noteq> p" "jsr_load repo q = Some y" "sh_cache_entry y = Some r'"
    then have "r' \<in> cache_refs (fs @ ms)" using table_okD(2) [OF st(8)] by blast
    then show "r' \<in> cache_refs (((r, None) # fs) @ ms) \<and> r' \<noteq> r" using new by (auto simp: cache_refs_def)
  qed (use ok assms(4) in \<open>simp_all add: shape_ok_def x'_def cache_refs_def\<close>)
  then have "jsr_state (repo1\<lparr>jsr_shapes := pool\<rparr>) n free ps ((r, None) # fs) ms"
    using st c(2) chain(2) pool(2-4) by (simp add: jsr_state_def repo1_def)
  then show ?thesis
    using fpool_get_offset_slot [OF st(1) i(1)] i(2) chain(1) c(1) pool(1)
    by (intro exI [of _ "int i"] exI [of _ chain] exI [of _ r] exI [of _ cache]
        exI [of _ "repo1\<lparr>jsr_shapes := pool\<rparr>"])
      (use pool(3) in \<open>simp add: repo1_def x'_def\<close>)
qed

lemma jsr_match_loop_cong:
  assumes "jsr_shapes repo' = jsr_shapes repo" and "jsr_key_hashes repo' = jsr_key_hashes repo"
  shows "jsr_match_loop k repo' x = jsr_match_loop k repo x"
proof (induction k)
  case 0
  show ?case by (simp add: fun_eq_iff)
next
  case (Suc k)
  show ?case by (rule ext) (simp add: assms jsr_load_def Suc cong: if_cong)
qed

lemma jsr_find_cong:
  "jsr_find_matching_shape (repo\<lparr>jsr_in_progress := s\<rparr>) x = jsr_find_matching_shape repo x"
  using jsr_match_loop_cong [of "repo\<lparr>jsr_in_progress := s\<rparr>" repo]
  by (simp add: jsr_find_matching_shape_def)

text \<open>The state after a shape is completed, and what its token refers to.\<close>

lemma jsr_complete_shape:
  assumes "jsr_state repo (length ts) free (Some p # ps) fs ms" and "length fs < 255" and "length ms < 255"
    and "jsr_load repo p = Some x"
  shows "\<exists>repo' ts' fs' ms' res. jsr_complete_current_shape repo ts = Some (repo', ts') \<and>
     length ts' = length ts \<and> jsr_state repo' (length ts) free ps fs' ms' \<and>
     length fs' \<le> Suc (length fs) \<and> length ms' \<le> Suc (length ms) \<and>
     jsr_find_matching_shape repo x = Some res \<and>
     (\<forall>t. sh_source x = Some t \<longrightarrow> ref_shape (ts' ! nat t) = res) \<and>
     (\<forall>q. res = Some q \<longrightarrow> (\<exists>y. jsr_load repo' q = Some y \<and> sh_cache_entry y \<noteq> None \<and>
        keys_text y = keys_text x)) \<and>
     (res = None \<longrightarrow> length fs' = Suc (length fs) \<and> ms' = ms \<and> (\<forall>q. q \<noteq> p \<longrightarrow> jsr_load repo' q = jsr_load repo q) \<and>
        (\<exists>y. jsr_load repo' p = Some y \<and> keys_text y = keys_text x))"
proof -
  obtain stack where pop: "fstack_pop (jsr_in_progress repo) = Some (Some p, stack)"
    and st1: "jsr_state (repo\<lparr>jsr_in_progress := stack\<rparr>) (length ts) free ps fs ms"
    using assms(1) by (rule jsr_pop_state)
  define repo1 where "repo1 = repo\<lparr>jsr_in_progress := stack\<rparr>"
  have state: "jsr_state repo1 (length ts) free ps fs ms" using st1 by (simp add: repo1_def)
  have load1: "jsr_load repo1 = jsr_load repo"
    and same1: "jsr_cache_controller repo1 = jsr_cache_controller repo"
      "jsr_key_hashes repo1 = jsr_key_hashes repo" "jsr_shapes repo1 = jsr_shapes repo"
    by (simp_all add: repo1_def)
  have ok: "shape_ok (length ts) x" and none: "sh_cache_entry x = None"
    and slot: "p \<in> fpool_slots (jsr_shapes repo1) 1024"
    using jsr_top [OF assms(1)] assms(4) by (auto simp: repo1_def)
  obtain res where res: "jsr_find_matching_shape repo1 x = Some res"
    and sound: "\<And>q. res = Some q \<Longrightarrow> \<exists>y r. q \<in> fpool_slots (jsr_shapes repo1) 1024 \<and>
      jsr_load repo1 q = Some y \<and> sh_cache_entry y = Some r \<and> keys_text y = keys_text x"
    using state ok by (rule jsr_find_state) blast
  have find: "jsr_find_matching_shape repo x = Some res" using res by (simp add: repo1_def jsr_find_cong)
  show ?thesis
  proof (cases res)
    case (Some q)
    obtain y r where y: "q \<in> fpool_slots (jsr_shapes repo1) 1024" "jsr_load repo1 q = Some y"
      "sh_cache_entry y = Some r" "keys_text y = keys_text x" using sound [OF Some] by blast
    from jsr_complete_found [OF state y(2,3,1) assms(2,3), of ts] obtain r' cache repo' fs' ms' where
      f: "lm_queue_bump (jsr_cache_controller repo1) r = Some (r', cache)"
      "jsr_store (repo1\<lparr>jsr_cache_controller := cache\<rparr>) q (y\<lparr>sh_cache_entry := Some r'\<rparr>) = Some repo'"
      "jsr_drain_cache_overflow repo' ts = Some (repo', ts)"
      "jsr_load repo' = (jsr_load repo1)(q \<mapsto> y\<lparr>sh_cache_entry := Some r'\<rparr>)"
      "jsr_state repo' (length ts) free ps fs' ms'" "length fs' \<le> length fs" "length ms' \<le> Suc (length ms)"
      by blast
    have "q \<noteq> p" using y(2,3) none assms(4) load1 by auto
    then have again: "jsr_load repo' p = Some x" using f(4) assms(4) load1 by simp
    obtain ts' where ts': "set_source_reference ts x (Some q) = Some ts'" "length ts' = length ts"
      "\<forall>t. sh_source x = Some t \<longrightarrow> ref_shape (ts' ! nat t) = Some q"
      using set_source_reference_ok [OF ok, of "Some q"] by blast
    have "jsr_complete_current_shape repo ts = Some (repo', ts')"
      using pop assms(4) res y(2,3) f(1-3) again ts'(1) Some
      by (simp add: jsr_complete_current_shape_def repo1_def [symmetric] load1 same1)
    moreover have "jsr_load repo' q = Some (y\<lparr>sh_cache_entry := Some r'\<rparr>)" using f(4) by simp
    ultimately show ?thesis using f(5-7) ts'(2,3) find Some y(4)
      by (intro exI [of _ repo'] exI [of _ ts'] exI [of _ fs'] exI [of _ ms'] exI [of _ res])
        (simp add: keys_text_def)
  next
    case None
    have "p \<notin> set (live ps @ free)" using jsr_stateD(6) [OF assms(1)] by simp
    moreover have "length fs < 256" "length ms < 256" using assms(2,3) by simp_all
    ultimately obtain offset chain r cache repo' where
      f: "fpool_get_offset (jsr_shapes repo1) p = Some offset"
      "hash_chain_push (jsr_key_hashes repo1) (sh_keys_hash x) offset = Some chain"
      "lm_queue_push (jsr_cache_controller repo1) = Some (r, cache)"
      "jsr_store (repo1\<lparr>jsr_key_hashes := chain, jsr_cache_controller := cache\<rparr>) p
         (x\<lparr>sh_source := None, sh_cache_entry := Some r\<rparr>) = Some repo'"
      "jsr_state repo' (length ts) free ps ((r, None) # fs) ms"
      "jsr_load repo' = (jsr_load repo)(p \<mapsto> x\<lparr>sh_source := None, sh_cache_entry := Some r\<rparr>)"
      using jsr_insert_new [OF state _ slot, of x] assms(4) load1 by auto
    obtain ts' where ts': "set_source_reference ts x None = Some ts'" "length ts' = length ts"
      "\<forall>t. sh_source x = Some t \<longrightarrow> ref_shape (ts' ! nat t) = None"
      using set_source_reference_ok [OF ok, of None] by blast
    have "jsr_drain_cache_overflow repo' ts' = Some (repo', ts')"
      by (rule drain_idle [OF jsr_stateD(4) [OF f(5)]]) (use assms(2,3) in simp_all)
    then have "jsr_complete_current_shape repo ts = Some (repo', ts')"
      using pop assms(4) res f(1-4) ts'(1) None
      by (simp add: jsr_complete_current_shape_def repo1_def [symmetric] load1 same1)
    then show ?thesis using f(5,6) ts'(2,3) find None
      by (intro exI [of _ repo'] exI [of _ ts'] exI [of _ "(r, None) # fs"] exI [of _ ms] exI [of _ res])
        (simp add: keys_text_def)
  qed
qed

lemma jsr_complete_state:
  assumes "jsr_state repo (length ts) free (sp # ps) fs ms" and "length fs < 255" and "length ms < 255"
  shows "\<exists>repo' ts' fs' ms'. jsr_complete_current_shape repo ts = Some (repo', ts') \<and>
     length ts' = length ts \<and> jsr_state repo' (length ts) free ps fs' ms' \<and>
     length fs' \<le> Suc (length fs) \<and> length ms' \<le> Suc (length ms)"
proof (cases sp)
  case None
  obtain stack where "fstack_pop (jsr_in_progress repo) = Some (sp, stack)"
    "jsr_state (repo\<lparr>jsr_in_progress := stack\<rparr>) (length ts) free ps fs ms"
    using assms(1) by (rule jsr_pop_state)
  then show ?thesis using None
    by (intro exI [of _ "repo\<lparr>jsr_in_progress := stack\<rparr>"] exI [of _ ts] exI [of _ fs] exI [of _ ms])
      (simp add: jsr_complete_current_shape_def)
next
  case (Some p)
  obtain x where "jsr_load repo p = Some x" using jsr_top assms(1) Some by blast
  from jsr_complete_shape [OF assms(1) [unfolded Some] assms(2,3) this] show ?thesis by blast
qed

lemma jsr_complete_aborts:
  assumes "jsr_state repo (length ts) free (Some p # ps) fs ms" and "length fs = 255" and "length ms < 256"
    and "jsr_load repo p = Some x" and "jsr_find_matching_shape repo x = Some None"
  shows "jsr_complete_current_shape repo ts = None"
proof -
  obtain stack where pop: "fstack_pop (jsr_in_progress repo) = Some (Some p, stack)"
    and st1: "jsr_state (repo\<lparr>jsr_in_progress := stack\<rparr>) (length ts) free ps fs ms"
    using assms(1) by (rule jsr_pop_state)
  define repo1 where "repo1 = repo\<lparr>jsr_in_progress := stack\<rparr>"
  have state: "jsr_state repo1 (length ts) free ps fs ms" using st1 by (simp add: repo1_def)
  have load1: "jsr_load repo1 = jsr_load repo"
    and same1: "jsr_cache_controller repo1 = jsr_cache_controller repo"
      "jsr_key_hashes repo1 = jsr_key_hashes repo" "jsr_shapes repo1 = jsr_shapes repo"
    by (simp_all add: repo1_def)
  have ok: "shape_ok (length ts) x" and slot: "p \<in> fpool_slots (jsr_shapes repo1) 1024"
    using jsr_top [OF assms(1)] assms(4) by (auto simp: repo1_def)
  have "p \<notin> set (live ps @ free)" using jsr_stateD(6) [OF assms(1)] by simp
  moreover have "length fs < 256" using assms(2) by simp
  ultimately obtain offset chain r cache repo' where
    f: "fpool_get_offset (jsr_shapes repo1) p = Some offset"
    "hash_chain_push (jsr_key_hashes repo1) (sh_keys_hash x) offset = Some chain"
    "lm_queue_push (jsr_cache_controller repo1) = Some (r, cache)"
    "jsr_store (repo1\<lparr>jsr_key_hashes := chain, jsr_cache_controller := cache\<rparr>) p
       (x\<lparr>sh_source := None, sh_cache_entry := Some r\<rparr>) = Some repo'"
    "jsr_state repo' (length ts) free ps ((r, None) # fs) ms"
    using jsr_insert_new [OF state _ slot, of x] assms(3,4) load1 by auto
  obtain ts' where ts': "set_source_reference ts x None = Some ts'"
    using set_source_reference_ok [OF ok, of None] by blast
  have "jsr_drain_cache_overflow repo' ts' = None"
    by (rule drain_aborts [OF jsr_stateD(4) [OF f(5)]])
      (use jsr_stateD(5) [OF f(5)] assms(2,3) in auto)
  moreover have "jsr_find_matching_shape repo1 x = Some None"
    using assms(5) by (simp add: repo1_def jsr_find_cong)
  ultimately show ?thesis using pop assms(4) f(1-4) ts'
    by (simp add: jsr_complete_current_shape_def repo1_def [symmetric] load1 same1)
qed

end
