(* ===== verification/Json_Shape_Runs.thy ===== *)
theory Json_Shape_Runs
  imports Json_Shape_Invariant
begin

text \<open>
  Runs of the shapes repository from its initialisation: documents of at most 254 objects never abort;
  256 objects with different keys do; a key too long spoils the slot its shape was in.
\<close>

section \<open>A new repository\<close>

lemma jsr_init_state:
  assumes "1634304 < arena_free c"
  shows "\<exists>repo c' free. jsr_init c = Some (repo, c') \<and> jsr_state repo n free [] [] [] \<and> length free = 1024 \<and>
     (\<forall>p x. jsr_load repo p = Some x \<longrightarrow> x = zero_shape)"
proof -
  have sizes: "JSON_SHAPES_TOTAL_POOL_SIZE = int 1024" "JSON_SHAPES_FRESH_QUEUE_SIZE = int 256"
    "JSON_SHAPES_MATURE_QUEUE_SIZE = int 256" "JSON_MAX_STATE_STACK_LENGTH = 512"
    by (simp_all add: JSON_SHAPES_TOTAL_POOL_SIZE_def JSON_SHAPES_FRESH_QUEUE_SIZE_def
        JSON_SHAPES_MATURE_QUEUE_SIZE_def JSON_MAX_STATE_STACK_LENGTH_def)
  have "1024 * (1048 + 8) < arena_free c" using assms by simp
  from fpool_init_state [OF this, of zero_shape] obtain pool c1 where
    a: "fpool_init c zero_shape (int 1048) (int 1024) = Some (pool, c1)"
    "fpool_state 1024 pool (map (\<lambda>i. fpool_offset_to_value pool (int i)) [0..<1024])"
    "fp_items pool = replicate 1024 (Some zero_shape)" "arena_free c1 = arena_free c - 1024 * (1048 + 8)"
    by auto
  have "8 * (65536 + 1024) < arena_free c1" using assms a(4) by simp
  from hash_chain_init_ok [OF this] obtain chain c2 where
    b: "hash_chain_init c1 (int 1024) = Some (chain, c2)" "chain_ok chain 1024"
    "arena_free c2 = arena_free c1 - 8 * (65536 + 1024)" by auto
  have "32 * (256 + 256) < arena_free c2" using assms a(4) b(3) by simp
  from lm_init_repr [OF this] obtain cache :: "int lm_queue" and c3 where
    d: "lm_queue_init c2 (int 256) (int 256) = Some (cache, c3)" "lm_repr 256 256 cache [] []"
    "arena_free c3 = arena_free c2 - 32 * (256 + 256)" by blast
  have "512 * 8 < arena_free c3" using assms a(4) b(3) d(3) by simp
  from fstack_init_repr [OF this] obtain stack :: "int option fixed_stack" and c4 where
    e: "fstack_init c3 8 (int 512) = Some (stack, c4)" "fstack_repr 512 stack []" by auto
  define repo where "repo = \<lparr>jsr_shapes = pool, jsr_key_hashes = chain, jsr_cache_controller = cache,
    jsr_in_progress = stack, jsr_id_counter = 0\<rparr>"
  have "jsr_init c = Some (repo, c4)"
    using a(1) b(1) d(1) e(1) unfolding jsr_init_def sizes by (simp add: repo_def)
  moreover have zero: "x = zero_shape" if "jsr_load repo p = Some x" for p x
    using that by (auto simp: jsr_load_def repo_def fpool_load_def a(3) cell_at_def at_def in_range_def
        bind_eq_Some_conv split: if_splits)
  have "table_ok n (jsr_load repo) busy {}" for busy
    unfolding table_ok_def
    by (auto dest!: zero simp: shape_ok_def zero_shape_def JSON_SHAPE_SUM_KEY_LENGTH_def)
  then have "jsr_state repo n (map (\<lambda>i. fpool_offset_to_value pool (int i)) [0..<1024]) [] [] []"
    using a(2) b(2) d(2) e(2) fpool_stateD(4) [OF a(2)]
    by (simp add: jsr_state_def repo_def sizes(4) cache_refs_def)
  ultimately show ?thesis using zero by fastforce
qed

section \<open>Runs\<close>

datatype shape_event = Key_Byte byte | Shape_Token nat json_token_kind json_state

fun jsr_run :: "(u64 \<Rightarrow> u64) \<Rightarrow> shape_event list \<Rightarrow> json_shapes_repository \<Rightarrow>
    json_token_shape_reference list \<Rightarrow> (json_shapes_repository \<times> json_token_shape_reference list) option" where
  "jsr_run bumped [] repo ts = Some (repo, ts)"
| "jsr_run bumped (Key_Byte b # es) repo ts = do {
     (repo, ts) \<leftarrow> jsr_push_key_byte repo ts b;
     jsr_run bumped es repo ts
   }"
| "jsr_run bumped (Shape_Token t kind state # es) repo ts = do {
     (repo, ts) \<leftarrow> jsr_process_token bumped repo ts (int t) kind state;
     jsr_run bumped es repo ts
   }"

text \<open>
  Events in the order a well-formed document gives them, \<open>depth\<close> objects being open, of \<open>n\<close> tokens;
  and the number of objects they open.
\<close>

definition key_quote :: "json_token_kind \<Rightarrow> json_state \<Rightarrow> bool" where
  "key_quote kind state \<longleftrightarrow> state = JSON_STATE_OBJECT_KEY \<and> kind = JSON_TOKEN_STRING_DELIMITER"

fun events_ok :: "nat \<Rightarrow> nat \<Rightarrow> shape_event list \<Rightarrow> bool" where
  "events_ok n depth [] \<longleftrightarrow> True"
| "events_ok n depth (Key_Byte b # es) \<longleftrightarrow> 0 < depth \<and> events_ok n depth es"
| "events_ok n depth (Shape_Token t kind state # es) \<longleftrightarrow> t < n \<and>
     (if key_quote kind state then 0 < depth \<and> events_ok n depth es
      else if kind = JSON_TOKEN_OBJECT_OPEN then events_ok n (Suc depth) es
      else if kind = JSON_TOKEN_OBJECT_CLOSE then 0 < depth \<and> events_ok n (depth - 1) es
      else events_ok n depth es)"

fun objects_opened :: "shape_event list \<Rightarrow> nat" where
  "objects_opened [] = 0"
| "objects_opened (Key_Byte b # es) = objects_opened es"
| "objects_opened (Shape_Token t kind state # es) =
     (if kind = JSON_TOKEN_OBJECT_OPEN then Suc (objects_opened es) else objects_opened es)"

lemma jsr_run_state:
  assumes "jsr_state repo (length ts) free ps fs ms" and "events_ok (length ts) (length ps) es"
    and "length fs + length ps + objects_opened es \<le> 254" and "length ms + length ps + objects_opened es \<le> 254"
    and "objects_opened es \<le> length free"
  shows "\<exists>repo' ts'. jsr_run bumped es repo ts = Some (repo', ts') \<and>
     (\<exists>free ps fs ms. jsr_state repo' (length ts) free ps fs ms)"
  using assms
proof (induction es arbitrary: repo ts free ps fs ms)
  case Nil
  then show ?case by auto
next
  case (Cons e es)
  have key: "\<exists>repo' ts'. (do { (repo, ts) \<leftarrow> jsr_push_key_byte repo ts b; jsr_run bumped es repo ts }) =
        Some (repo', ts') \<and> (\<exists>free ps fs ms. jsr_state repo' (length ts) free ps fs ms)"
    if a: "0 < length ps" "events_ok (length ts) (length ps) es" "objects_opened (e # es) = objects_opened es" for b
  proof -
    obtain sp ps1 where ps: "ps = sp # ps1" using a(1) by (cases ps) auto
    from jsr_push_key_byte_state [OF Cons.prems(1) [unfolded ps], of b] obtain repo1 ts1 free1 sp1 where
      r: "jsr_push_key_byte repo ts b = Some (repo1, ts1)" "length ts1 = length ts"
      "jsr_state repo1 (length ts1) free1 (sp1 # ps1) fs ms" "length free \<le> length free1" by auto
    show ?thesis using Cons.IH [OF r(3)] a Cons.prems r ps by auto
  qed
  show ?case
  proof (cases e)
    case (Key_Byte b)
    then show ?thesis using key [of b] Cons.prems(2) by simp
  next
    case (Shape_Token t kind state)
    consider (quote) "key_quote kind state" | (opens) "\<not> key_quote kind state" "kind = JSON_TOKEN_OBJECT_OPEN"
      | (closes) "\<not> key_quote kind state" "kind = JSON_TOKEN_OBJECT_CLOSE"
      | (other) "\<not> key_quote kind state" "kind \<noteq> JSON_TOKEN_OBJECT_OPEN" "kind \<noteq> JSON_TOKEN_OBJECT_CLOSE"
      by blast
    then show ?thesis
    proof cases
      case quote
      then show ?thesis using key [of 1] Cons.prems(2) Shape_Token by (simp add: jsr_process_token_def key_quote_def)
    next
      case opens
      obtain p free1 where free: "free = p # free1"
        using Cons.prems(5) Shape_Token opens by (cases free) auto
      have "length ps < JSON_MAX_STATE_STACK_LENGTH"
        using Cons.prems(3) by (simp add: JSON_MAX_STATE_STACK_LENGTH_def)
      from jsr_open_state [OF Cons.prems(1) [unfolded free] this, of t state kind bumped]
      obtain repo1 ts1 where r: "jsr_process_token bumped repo ts (int t) kind state = Some (repo1, ts1)"
        "length ts1 = length ts" "jsr_state repo1 (length ts1) free1 (Some p # ps) fs ms"
        using Cons.prems(2) opens Shape_Token by (auto simp: key_quote_def)
      show ?thesis using Cons.IH [OF r(3)] Cons.prems r opens Shape_Token free by auto
    next
      case closes
      have "0 < length ps" using Cons.prems(2) Shape_Token closes by simp
      then obtain sp ps1 where ps: "ps = sp # ps1" by (cases ps) auto
      have "length fs < 255" "length ms < 255" using Cons.prems(3,4) ps by simp_all
      from jsr_complete_state [OF Cons.prems(1) [unfolded ps] this] obtain repo1 ts1 fs1 ms1 where
        r: "jsr_complete_current_shape repo ts = Some (repo1, ts1)" "length ts1 = length ts"
        "jsr_state repo1 (length ts1) free ps1 fs1 ms1" "length fs1 \<le> Suc (length fs)"
        "length ms1 \<le> Suc (length ms)" by auto
      have "jsr_process_token bumped repo ts (int t) kind state = Some (repo1, ts1)"
        using r(1) closes by (simp add: jsr_process_token_def key_quote_def)
      then show ?thesis using Cons.IH [OF r(3)] Cons.prems r closes Shape_Token ps by auto
    next
      case other
      then have "jsr_process_token bumped repo ts (int t) kind state = Some (repo, ts)"
        by (auto simp: jsr_process_token_def key_quote_def)
      then show ?thesis using Cons.IH [OF Cons.prems(1)] Cons.prems other Shape_Token by auto
    qed
  qed
qed

section \<open>One object after another\<close>

definition object_events :: "nat \<Rightarrow> byte list \<Rightarrow> shape_event list" where
  "object_events t k = Shape_Token t JSON_TOKEN_OBJECT_OPEN JSON_STATE_START # map Key_Byte k @
     [Shape_Token t JSON_TOKEN_OBJECT_CLOSE JSON_STATE_START]"

lemma jsr_run_append:
  "jsr_run bumped (es @ es') repo ts = do { (repo, ts) \<leftarrow> jsr_run bumped es repo ts; jsr_run bumped es' repo ts }"
proof (induction es arbitrary: repo ts)
  case (Cons e es)
  show ?case by (cases e) (simp_all add: Cons split_def)
qed simp

lemma jsr_push_bytes:
  assumes "jsr_state repo (length ts) free (Some p # ps) fs ms" and "jsr_load repo p = Some x"
    and "sh_keys_length x + int (length k) \<le> 1024"
  shows "\<exists>repo' x'. jsr_run bumped (map Key_Byte k) repo ts = Some (repo', ts) \<and>
     jsr_state repo' (length ts) free (Some p # ps) fs ms \<and> jsr_load repo' p = Some x' \<and>
     keys_text x' = keys_text x @ k \<and> sh_keys_length x' = sh_keys_length x + int (length k) \<and>
     (\<forall>q. q \<noteq> p \<longrightarrow> jsr_load repo' q = jsr_load repo q)"
  using assms
proof (induction k arbitrary: repo x)
  case (Cons b k)
  have "sh_keys_length x < 1024" using Cons.prems(3) by simp
  from jsr_push_key_byte_room [OF Cons.prems(1,2) this, of b] obtain repo1 x1 where
    r: "jsr_push_key_byte repo ts b = Some (repo1, ts)" "jsr_state repo1 (length ts) free (Some p # ps) fs ms"
    "jsr_load repo1 p = Some x1" "keys_text x1 = keys_text x @ [b]" "sh_keys_length x1 = sh_keys_length x + 1"
    "\<forall>q. q \<noteq> p \<longrightarrow> jsr_load repo1 q = jsr_load repo q" by blast
  have "sh_keys_length x1 + int (length k) \<le> 1024" using Cons.prems(3) r(5) by simp
  from Cons.IH [OF r(2,3) this] r show ?case by fastforce
qed simp

text \<open>
  \<open>known repo free seen\<close>: the unused shapes were never written to, the completed ones have keys
  from \<open>seen\<close>.
\<close>

definition known :: "json_shapes_repository \<Rightarrow> int list \<Rightarrow> byte list set \<Rightarrow> bool" where
  "known repo free seen \<longleftrightarrow> (\<forall>p x. jsr_load repo p = Some x \<longrightarrow>
     (p \<in> set free \<longrightarrow> sh_keys_length x = 0) \<and> (sh_cache_entry x \<noteq> None \<longrightarrow> keys_text x \<in> seen))"

lemma known_fresh:
  assumes "\<forall>p x. jsr_load repo p = Some x \<longrightarrow> x = zero_shape"
  shows "known repo free {}"
  unfolding known_def
proof (intro allI impI)
  fix p x
  assume "jsr_load repo p = Some x"
  then have "x = zero_shape" using assms by blast
  then show "(p \<in> set free \<longrightarrow> sh_keys_length x = 0) \<and> (sh_cache_entry x \<noteq> None \<longrightarrow> keys_text x \<in> {})"
    by (simp add: zero_shape_def)
qed

lemma jsr_object_keys:
  assumes "jsr_state repo (length ts) (p # free) [] fs ms" and "known repo (p # free) seen" and "k \<notin> seen"
    and "length k \<le> 1024" and "t < length ts"
  shows "\<exists>repo' ts' x. jsr_run bumped (Shape_Token t JSON_TOKEN_OBJECT_OPEN JSON_STATE_START # map Key_Byte k) repo ts =
       Some (repo', ts') \<and> length ts' = length ts \<and> jsr_state repo' (length ts) free [Some p] fs ms \<and>
     jsr_load repo' p = Some x \<and> keys_text x = k \<and> jsr_find_matching_shape repo' x = Some None \<and>
     (\<forall>q. q \<noteq> p \<longrightarrow> jsr_load repo' q = jsr_load repo q)"
proof -
  have "length ([] :: int option list) < JSON_MAX_STATE_STACK_LENGTH" by (simp add: JSON_MAX_STATE_STACK_LENGTH_def)
  from jsr_open_state [OF assms(1) this assms(5), of JSON_STATE_START JSON_TOKEN_OBJECT_OPEN bumped]
  obtain repo1 ts1 x0 x1 where
    o: "jsr_process_token bumped repo ts (int t) JSON_TOKEN_OBJECT_OPEN JSON_STATE_START = Some (repo1, ts1)"
    "length ts1 = length ts" "jsr_state repo1 (length ts1) free [Some p] fs ms" "jsr_load repo p = Some x0"
    "jsr_load repo1 p = Some x1" "sh_keys_length x1 = sh_keys_length x0"
    "\<forall>q. q \<noteq> p \<longrightarrow> jsr_load repo1 q = jsr_load repo q" by auto
  have zero: "sh_keys_length x1 = 0" using assms(2) o(4,6) by (simp add: known_def)
  then have "sh_keys_length x1 + int (length k) \<le> 1024" using assms(4) by simp
  from jsr_push_bytes [OF o(3,5) this, of bumped] obtain repo2 x2 where
    b: "jsr_run bumped (map Key_Byte k) repo1 ts1 = Some (repo2, ts1)"
    "jsr_state repo2 (length ts1) free [Some p] fs ms" "jsr_load repo2 p = Some x2"
    "keys_text x2 = keys_text x1 @ k" "\<forall>q. q \<noteq> p \<longrightarrow> jsr_load repo2 q = jsr_load repo1 q" by blast
  have x2: "shape_ok (length ts1) x2" "sh_cache_entry x2 = None" using jsr_top [OF b(2)] b(3) by auto
  obtain res where res: "jsr_find_matching_shape repo2 x2 = Some res"
    "\<And>q. res = Some q \<Longrightarrow> \<exists>y r. q \<in> fpool_slots (jsr_shapes repo2) 1024 \<and> jsr_load repo2 q = Some y \<and>
      sh_cache_entry y = Some r \<and> keys_text y = keys_text x2" using b(2) x2(1) by (rule jsr_find_state) blast
  have named: "keys_text x2 = k" using b(4) zero by (simp add: keys_text_def)
  have "res = None"
  proof (cases res)
    case (Some q)
    then obtain y r where y: "jsr_load repo2 q = Some y" "sh_cache_entry y = Some r" "keys_text y = k"
      using res(2) named by blast
    then have "q \<noteq> p" using x2(2) b(3) by auto
    then have "jsr_load repo q = Some y" using y(1) b(5) o(7) by simp
    then have "k \<in> seen" using assms(2) y(2,3) by (auto simp: known_def)
    then show ?thesis using assms(3) by simp
  qed
  then show ?thesis using o(1,2,7) b res(1) named by auto
qed

lemma jsr_new_object:
  assumes "jsr_state repo (length ts) (p # free) [] fs []" and "known repo (p # free) seen" and "k \<notin> seen"
    and "length k \<le> 1024" and "t < length ts" and "length fs < 255"
  shows "\<exists>repo' ts' fs'. jsr_run bumped (object_events t k) repo ts = Some (repo', ts') \<and>
     length ts' = length ts \<and> jsr_state repo' (length ts) free [] fs' [] \<and> length fs' = Suc (length fs) \<and>
     known repo' free (insert k seen)"
proof -
  from jsr_object_keys [OF assms(1-5), of bumped] obtain repo1 ts1 x where
    a: "jsr_run bumped (Shape_Token t JSON_TOKEN_OBJECT_OPEN JSON_STATE_START # map Key_Byte k) repo ts =
       Some (repo1, ts1)" "length ts1 = length ts" "jsr_state repo1 (length ts1) free [Some p] fs []"
    "jsr_load repo1 p = Some x" "keys_text x = k" "jsr_find_matching_shape repo1 x = Some None"
    "\<forall>q. q \<noteq> p \<longrightarrow> jsr_load repo1 q = jsr_load repo q" by auto
  have "length ([] :: (fal_ref \<times> int option) list) < 255" by simp
  from jsr_complete_shape [OF a(3) assms(6) this a(4)] a(6) obtain repo2 ts2 fs' y where
    b: "jsr_complete_current_shape repo1 ts1 = Some (repo2, ts2)" "length ts2 = length ts1"
    "jsr_state repo2 (length ts1) free [] fs' []" "length fs' = Suc (length fs)"
    "\<forall>q. q \<noteq> p \<longrightarrow> jsr_load repo2 q = jsr_load repo1 q" "jsr_load repo2 p = Some y" "keys_text y = k"
    using a(5) by auto
  have run: "jsr_run bumped (object_events t k) repo ts = Some (repo2, ts2)"
    using a(1) b(1) unfolding object_events_def append_Cons [symmetric] jsr_run_append
    by (simp add: jsr_process_token_def)
  have p: "p \<notin> set free" using jsr_stateD(6) [OF assms(1)] by simp
  have same: "jsr_load repo2 q = jsr_load repo q" if "q \<noteq> p" for q using that a(7) b(5) by simp
  have "known repo2 free (insert k seen)"
    unfolding known_def
  proof (intro allI impI conjI)
    fix q z
    assume z: "jsr_load repo2 q = Some z"
    show "sh_keys_length z = 0" if "q \<in> set free"
    proof -
      have "q \<noteq> p" using that p by auto
      then show ?thesis using z same [of q] assms(2) that by (auto simp: known_def)
    qed
    show "keys_text z \<in> insert k seen" if "sh_cache_entry z \<noteq> None"
    proof (cases "q = p")
      case True
      then show ?thesis using z b(6,7) by simp
    next
      case False
      then show ?thesis using z same [of q] assms(2) that by (auto simp: known_def)
    qed
  qed
  with run a(2) b show ?thesis by auto
qed

lemma jsr_last_object:
  assumes "jsr_state repo (length ts) (p # free) [] fs []" and "known repo (p # free) seen" and "k \<notin> seen"
    and "length k \<le> 1024" and "t < length ts" and "length fs = 255"
  shows "jsr_run bumped (object_events t k) repo ts = None"
proof -
  from jsr_object_keys [OF assms(1-5), of bumped] obtain repo1 ts1 x where
    a: "jsr_run bumped (Shape_Token t JSON_TOKEN_OBJECT_OPEN JSON_STATE_START # map Key_Byte k) repo ts =
       Some (repo1, ts1)" "length ts1 = length ts" "jsr_state repo1 (length ts1) free [Some p] fs []"
    "jsr_load repo1 p = Some x" "jsr_find_matching_shape repo1 x = Some None" by auto
  have "length ([] :: (fal_ref \<times> int option) list) < 256" by simp
  from jsr_complete_aborts [OF a(3) assms(6) this a(4,5)] a(1) show ?thesis
    unfolding object_events_def append_Cons [symmetric] jsr_run_append by (simp add: jsr_process_token_def)
qed

lemma jsr_many_objects:
  assumes "jsr_state repo (length ts) free [] fs []" and "known repo free seen" and "distinct ks"
    and "set ks \<inter> seen = {}" and "\<forall>k\<in>set ks. length k \<le> 1024" and "t < length ts"
    and "length fs + length ks \<le> 255" and "length ks \<le> length free"
  shows "\<exists>repo' ts' fs'. jsr_run bumped (concat (map (object_events t) ks)) repo ts = Some (repo', ts') \<and>
     length ts' = length ts \<and> jsr_state repo' (length ts) (drop (length ks) free) [] fs' [] \<and>
     length fs' = length fs + length ks \<and> known repo' (drop (length ks) free) (set ks \<union> seen)"
  using assms
proof (induction ks arbitrary: repo ts free fs seen)
  case (Cons k ks)
  obtain p free1 where free: "free = p # free1" using Cons.prems(8) by (cases free) auto
  have "k \<notin> seen" "length k \<le> 1024" "length fs < 255" using Cons.prems(4,5,7) by auto
  from jsr_new_object [OF Cons.prems(1,2) [unfolded free] this(1,2) Cons.prems(6) this(3), of bumped]
  obtain repo1 ts1 fs1 where
    a: "jsr_run bumped (object_events t k) repo ts = Some (repo1, ts1)" "length ts1 = length ts"
    "jsr_state repo1 (length ts1) free1 [] fs1 []" "length fs1 = Suc (length fs)"
    "known repo1 free1 (insert k seen)" by auto
  have "set ks \<inter> insert k seen = {}" using Cons.prems(3,4) by auto
  from Cons.IH [OF a(3,5) _ this] Cons.prems a free show ?case by (auto simp: jsr_run_append)
qed auto

lemma jsr_overflow:
  assumes "jsr_state repo (length ts) free [] [] []" and "known repo free {}" and "distinct ks"
    and "\<forall>k\<in>set ks. length k \<le> 1024" and "t < length ts" and "length ks = 256" and "256 \<le> length free"
  shows "jsr_run bumped (concat (map (object_events t) ks)) repo ts = None"
proof -
  obtain ks1 k where ks: "ks = ks1 @ [k]" "length ks1 = 255" using assms(6) by (cases ks rule: rev_cases) auto
  from jsr_many_objects [OF assms(1,2), of ks1 t bumped] assms(3-7) ks obtain repo1 ts1 fs1 where
    a: "jsr_run bumped (concat (map (object_events t) ks1)) repo ts = Some (repo1, ts1)"
    "length ts1 = length ts" "jsr_state repo1 (length ts1) (drop 255 free) [] fs1 []" "length fs1 = 255"
    "known repo1 (drop 255 free) (set ks1)" by auto
  obtain p free1 where d: "drop 255 free = p # free1" using assms(7) by (cases "drop 255 free") auto
  have "k \<notin> set ks1" "length k \<le> 1024" "t < length ts1" using assms(3-5) ks a(2) by auto
  from jsr_last_object [OF a(3,5) [unfolded d] this a(4), of bumped] a(1) show ?thesis
    by (simp add: ks jsr_run_append)
qed

section \<open>A key too long\<close>

lemma jsr_long_key:
  assumes "jsr_state repo (length ts) (p # free) [] fs ms" and "jsr_load repo p = Some x"
    and "sh_keys_length x = 0" and "length k = 1024" and "t < length ts"
  shows "\<exists>repo' ts'. jsr_run bumped (object_events t (k @ [b]) @
         [Shape_Token t JSON_TOKEN_OBJECT_OPEN JSON_STATE_START, Key_Byte b']) repo ts = Some (repo', ts') \<and>
     jsr_get_current_shape repo' = Some None"
proof -
  have room: "length ([] :: int option list) < JSON_MAX_STATE_STACK_LENGTH" by (simp add: JSON_MAX_STATE_STACK_LENGTH_def)
  have opens: "\<exists>repo' ts' x'. jsr_process_token bumped repo ts (int t) JSON_TOKEN_OBJECT_OPEN JSON_STATE_START =
      Some (repo', ts') \<and> length ts' = length ts \<and> jsr_state repo' (length ts) free [Some p] fs ms \<and>
      jsr_load repo' p = Some x' \<and> sh_keys_length x' = sh_keys_length x"
    if "jsr_state repo (length ts) (p # free) [] fs ms" "jsr_load repo p = Some x" "t < length ts" for repo ts x
    using jsr_open_state [OF that(1) room that(3), of JSON_STATE_START JSON_TOKEN_OBJECT_OPEN bumped] that(2) by auto
  from opens [OF assms(1,2,5)] obtain r1 t1 x1 where
    a: "jsr_process_token bumped repo ts (int t) JSON_TOKEN_OBJECT_OPEN JSON_STATE_START = Some (r1, t1)"
    "length t1 = length ts" "jsr_state r1 (length t1) free [Some p] fs ms" "jsr_load r1 p = Some x1"
    "sh_keys_length x1 = 0" using assms(3) by auto
  have "sh_keys_length x1 + int (length k) \<le> 1024" using a(5) assms(4) by simp
  from jsr_push_bytes [OF a(3,4) this, of bumped] obtain r2 x2 where
    c: "jsr_run bumped (map Key_Byte k) r1 t1 = Some (r2, t1)" "jsr_state r2 (length t1) free [Some p] fs ms"
    "jsr_load r2 p = Some x2" "1024 \<le> sh_keys_length x2" using a(5) assms(4) by auto
  from jsr_push_key_byte_full [OF c(2-4), of b] obtain r3 t3 where
    d: "jsr_push_key_byte r2 t1 b = Some (r3, t3)" "length t3 = length t1"
    "jsr_state r3 (length t3) (p # free) [None] fs ms" "jsr_load r3 p = Some (x2\<lparr>sh_source := None\<rparr>)" by auto
  obtain stack where e: "fstack_pop (jsr_in_progress r3) = Some (None, stack)"
    "jsr_state (r3\<lparr>jsr_in_progress := stack\<rparr>) (length t3) (p # free) [] fs ms" using d(3) by (rule jsr_pop_state)
  define r4 where "r4 = r3\<lparr>jsr_in_progress := stack\<rparr>"
  have r4: "jsr_complete_current_shape r3 t3 = Some (r4, t3)"
    using e(1) by (simp add: jsr_complete_current_shape_def r4_def)
  have "jsr_load r4 p = Some (x2\<lparr>sh_source := None\<rparr>)" using d(4) by (simp add: r4_def)
  from opens [OF e(2) [folded r4_def] this] a(2) d(2) assms(5) obtain r5 t5 x5 where
    f: "jsr_process_token bumped r4 t3 (int t) JSON_TOKEN_OBJECT_OPEN JSON_STATE_START = Some (r5, t5)"
    "length t5 = length t3" "jsr_state r5 (length t5) free [Some p] fs ms" "jsr_load r5 p = Some x5"
    "1024 \<le> sh_keys_length x5" using c(4) by auto
  from jsr_push_key_byte_full [OF f(3-5), of b'] obtain r6 t6 where
    g: "jsr_push_key_byte r5 t5 b' = Some (r6, t6)" "jsr_state r6 (length t5) (p # free) [None] fs ms" by blast
  have "jsr_get_current_shape r6 = Some None"
    using fstack_peek_repr [OF jsr_stateD(2) [OF g(2)]] by (simp add: jsr_get_current_shape_def)
  moreover have "jsr_run bumped (object_events t (k @ [b]) @
      [Shape_Token t JSON_TOKEN_OBJECT_OPEN JSON_STATE_START, Key_Byte b']) repo ts = Some (r6, t6)"
    using a(1) c(1) d(1) r4 f(1) g(1)
    by (simp add: object_events_def jsr_run_append) (simp add: jsr_process_token_def)
  ultimately show ?thesis by blast
qed

end
