(* ===== verification/Ans.thy ===== *)
theory Ans
  imports Symbol_Search Writer Reader
begin

text \<open>
  \<open>src/asymmetrical_numeric_system/ans_encoder.c\<close>: a block of symbols becomes a number, kept between
  the table's total and twice that by shedding its low bits into the writer.  The symbols go in last
  to first, so a decoder that reads the bits in reverse finds them first to last.
\<close>

section \<open>Operations\<close>

definition ANS_BLOCK_SIZE :: int where "ANS_BLOCK_SIZE = 16"

record ans_encoder =
  ans_writer :: writer

definition ans_encoder_init :: "writer \<Rightarrow> ans_encoder" where
  "ans_encoder_init w = \<lparr>ans_writer = w\<rparr>"

definition ans_calc_next_state :: "int \<Rightarrow> u64 \<Rightarrow> ftable \<Rightarrow> u64 option" where
  "ans_calc_next_state s state t = do {
     freq \<leftarrow> ftable_get_frequency t s;
     low \<leftarrow> ftable_get_low t s;
     let tot = ftable_get_total t;
     check (freq > 0);
     Some (state div freq * tot + state mod freq + low)
   }"

definition ans_calc_prev_state :: "int \<Rightarrow> u64 \<Rightarrow> ftable \<Rightarrow> u64 option" where
  "ans_calc_prev_state s state t = do {
     freq \<leftarrow> ftable_get_frequency t s;
     low \<leftarrow> ftable_get_low t s;
     let tot = ftable_get_total t;
     check (tot > 0);
     Some (freq * (state div tot) + (state mod tot - low))
   }"

text \<open>The search tries \<open>k\<close> states from \<open>state\<close> on; failing to find one fails the assertion.\<close>

fun ans_initial_state_loop :: "nat \<Rightarrow> ftable \<Rightarrow> int \<Rightarrow> u64 \<Rightarrow> u64 option" where
  "ans_initial_state_loop 0 t last_symbol state = None"
| "ans_initial_state_loop (Suc k) t last_symbol state = do {
     n \<leftarrow> ans_calc_next_state last_symbol state t;
     if n \<ge> ftable_get_total t then Some state else ans_initial_state_loop k t last_symbol (state + 1)
   }"

definition ans_find_block_initial_state :: "ftable \<Rightarrow> int \<Rightarrow> u64 option" where
  "ans_find_block_initial_state t last_symbol =
     ans_initial_state_loop (unat (ftable_get_total t)) t last_symbol 0"

partial_function (option) ans_shed_loop :: "ftable \<Rightarrow> int \<Rightarrow> u64 \<Rightarrow> u64 \<Rightarrow> u64 \<Rightarrow> writer \<Rightarrow> ctx \<Rightarrow>
    (u64 \<times> writer \<times> ctx) option" where
  "ans_shed_loop t s tot normalized_state predicted w c =
     (if drop_bit 1 predicted \<ge> tot then do {
        (w, c) \<leftarrow> writer_write_bit w c (ucast (normalized_state AND 1));
        let normalized_state = drop_bit 1 normalized_state;
        predicted \<leftarrow> ans_calc_next_state s normalized_state t;
        ans_shed_loop t s tot normalized_state predicted w c
      } else Some (predicted, w, c))"

text \<open>The symbols \<open>k - 1, \<dots>, 0\<close> of the block.\<close>

fun ans_block_loop :: "nat \<Rightarrow> int list \<Rightarrow> u64 \<Rightarrow> bool \<Rightarrow> u64 \<Rightarrow> ftable \<Rightarrow> writer \<Rightarrow> ctx \<Rightarrow>
    (u64 \<times> ftable \<times> writer \<times> ctx) option" where
  "ans_block_loop 0 block_symbols tot incrementing state t w c = Some (state, t, w, c)"
| "ans_block_loop (Suc k) block_symbols tot incrementing state t w c = do {
     s \<leftarrow> at block_symbols (int k);
     predicted \<leftarrow> ans_calc_next_state s state t;
     (state, w, c) \<leftarrow> ans_shed_loop t s tot state predicted w c;
     t \<leftarrow> (if incrementing then ftable_increment t s else Some t);
     ans_block_loop k block_symbols tot incrementing state t w c
   }"

definition ans_encoder_write_block :: "ans_encoder \<Rightarrow> ctx \<Rightarrow> int list \<Rightarrow> int \<Rightarrow> ftable \<Rightarrow> bool \<Rightarrow>
    (u64 \<times> ans_encoder \<times> ftable \<times> ctx) option" where
  "ans_encoder_write_block e c block_symbols block_length t incrementing = do {
     check (block_length > 0);
     let tot = ftable_get_total t;
     (state, t, w, c) \<leftarrow>
       ans_block_loop (nat block_length) block_symbols tot incrementing tot t (ans_writer e) c;
     Some (state, \<lparr>ans_writer = w\<rparr>, t, c)
   }"

record ans_decoder =
  ans_reader :: reader
  ans_state :: u64

definition ans_decoder_init :: "reader \<Rightarrow> ans_decoder" where
  "ans_decoder_init r = \<lparr>ans_reader = r, ans_state = 0\<rparr>"

definition ans_find_symbol_by_offset :: "ftable \<Rightarrow> u64 \<Rightarrow> int option" where
  "ans_find_symbol_by_offset t offset = do {
     s \<leftarrow> symbol_search_loop (ftable_get_low t) offset 0 (ftable_get_symbol_limit t);
     freq \<leftarrow> ftable_get_frequency t s;
     check (freq > 0);
     low \<leftarrow> ftable_get_low t s;
     check (low \<le> offset \<and> offset < low + freq);
     Some s
   }"

partial_function (option) ans_refill_loop ::
  "u64 \<Rightarrow> u64 \<Rightarrow> reader \<Rightarrow> ctx \<Rightarrow> (u64 \<times> reader \<times> ctx) option" where
  "ans_refill_loop tot state r c =
     (if state < tot then do {
        (b, r, c) \<leftarrow> reader_read_bit r c;
        ans_refill_loop tot (push_bit 1 state OR ucast b) r c
      } else Some (state, r, c))"

text \<open>A division by a zero total aborts.\<close>

definition ans_decoder_read :: "ans_decoder \<Rightarrow> ctx \<Rightarrow> ftable \<Rightarrow> (int \<times> ans_decoder \<times> ctx) option" where
  "ans_decoder_read d c t = do {
     let tot = ftable_get_total t;
     check (tot \<noteq> 0);
     let offset = ans_state d mod tot;
     s \<leftarrow> ans_find_symbol_by_offset t offset;
     state \<leftarrow> ans_calc_prev_state s (ans_state d) t;
     (state, r, c) \<leftarrow> ans_refill_loop tot state (ans_reader d) c;
     Some (s, \<lparr>ans_reader = r, ans_state = state\<rparr>, c)
   }"

section \<open>The arithmetic of states\<close>

definition next_state :: "nat \<Rightarrow> nat \<Rightarrow> nat \<Rightarrow> nat \<Rightarrow> nat" where
  "next_state f l T x = x div f * T + x mod f + l"

definition prev_state :: "nat \<Rightarrow> nat \<Rightarrow> nat \<Rightarrow> nat \<Rightarrow> nat" where
  "prev_state f l T y = f * (y div T) + (y mod T - l)"

lemma next_state_parts:
  assumes "0 < f" and "l + f \<le> T"
  shows "next_state f l T x div T = x div f" and "next_state f l T x mod T = x mod f + l"
proof -
  have "x mod f + l < T" using mod_less_divisor [OF assms(1), of x] assms(2) by linarith
  then show "next_state f l T x div T = x div f" "next_state f l T x mod T = x mod f + l"
    by (simp_all add: next_state_def add.assoc)
qed

lemma prev_next_state: "0 < f \<Longrightarrow> l + f \<le> T \<Longrightarrow> prev_state f l T (next_state f l T x) = x"
  by (simp add: prev_state_def next_state_parts)

lemma next_state_large:
  assumes "0 < f" and "l + f \<le> T"
  shows "T \<le> next_state f l T x div 2 \<longleftrightarrow> 2 * f \<le> x" and "f \<le> x \<Longrightarrow> T \<le> next_state f l T x"
proof -
  have T: "0 < T" using assms by simp
  have "T \<le> next_state f l T x div 2 \<longleftrightarrow> 2 * T \<le> next_state f l T x" by linarith
  also have "\<dots> \<longleftrightarrow> 2 \<le> next_state f l T x div T" using T by (simp add: less_eq_div_iff_mult_less_eq)
  also have "\<dots> \<longleftrightarrow> 2 * f \<le> x" using assms(1) by (simp add: next_state_parts [OF assms] less_eq_div_iff_mult_less_eq)
  finally show "T \<le> next_state f l T x div 2 \<longleftrightarrow> 2 * f \<le> x" .
  assume "f \<le> x"
  then have "1 \<le> next_state f l T x div T"
    using assms(1) by (simp add: next_state_parts [OF assms] less_eq_div_iff_mult_less_eq)
  then show "T \<le> next_state f l T x" using T by (simp add: less_eq_div_iff_mult_less_eq)
qed

lemma prev_state_bounds:
  assumes "0 < f" and "l + f \<le> T" and "l \<le> y mod T" and "y mod T < l + f"
  shows "prev_state f l T y \<le> y" and "T \<le> y \<Longrightarrow> f \<le> prev_state f l T y"
proof -
  have "f * (y div T) \<le> T * (y div T)" using assms(2) by simp
  moreover have "T * (y div T) + y mod T = y" by simp
  ultimately show "prev_state f l T y \<le> y" unfolding prev_state_def by linarith
  assume "T \<le> y"
  then have "0 < y div T" using assms(1,2) by (simp add: div_greater_zero_iff)
  then have "f * 1 \<le> f * (y div T)" by (intro mult_le_mono2) simp
  then show "f \<le> prev_state f l T y" unfolding prev_state_def by linarith
qed

text \<open>The bits that leave the state before a symbol of frequency \<open>f\<close> goes in, low bits first.\<close>

function shed :: "nat \<Rightarrow> nat \<Rightarrow> bool list \<times> nat" where
  "shed f x = (if 0 < f \<and> 2 * f \<le> x then (let (bs, y) = shed f (x div 2) in (odd x # bs, y)) else ([], x))"
  by pat_completeness auto
termination
  by (relation "measure snd") auto

declare shed.simps [simp del]

lemma shed_bounds: "0 < f \<Longrightarrow> f \<le> x \<Longrightarrow> shed f x = (bs, y) \<Longrightarrow> f \<le> y \<and> y < 2 * f"
proof (induction f x arbitrary: bs y rule: shed.induct)
  case (1 f x)
  show ?case
  proof (cases "2 * f \<le> x")
    case True
    obtain bs1 where "shed f (x div 2) = (bs1, y)"
      using 1(4) True 1(2) by (subst (asm) shed.simps) (auto simp: Let_def split: prod.splits)
    from 1(1) [OF _ 1(2) _ this] True 1(2) show ?thesis by auto
  next
    case False
    then have "shed f x = ([], x)" by (subst shed.simps) simp
    then show ?thesis using 1 False by simp
  qed
qed

text \<open>The bits and the final state of a whole block.\<close>

fun ans_code :: "nat list \<Rightarrow> nat list \<Rightarrow> bool list \<times> nat" where
  "ans_code fs [] = ([], sum_list fs)"
| "ans_code fs (s # ss) =
     (let (bits, x) = ans_code fs ss;
          (bs, y) = shed (fs ! s) x
      in (bits @ bs, next_state (fs ! s) (cum fs s) (sum_list fs) y))"

definition ans_symbol :: "nat list \<Rightarrow> nat \<Rightarrow> bool" where
  "ans_symbol fs s \<longleftrightarrow> s < length fs \<and> 0 < fs ! s"

lemma ans_symbol_interval:
  assumes "ans_symbol fs s"
  shows "cum fs s + fs ! s \<le> sum_list fs" and "0 < fs ! s" and "s < length fs"
  using assms cum_le_sum [of fs "Suc s"] by (simp_all add: ans_symbol_def cum_Suc)

lemma ans_step_range:
  assumes "ans_symbol fs s" and "sum_list fs \<le> x" and "x < 2 * sum_list fs" and "shed (fs ! s) x = (bs, y)"
  shows "y < 2 * fs ! s"
    and "sum_list fs \<le> next_state (fs ! s) (cum fs s) (sum_list fs) y"
    and "next_state (fs ! s) (cum fs s) (sum_list fs) y < 2 * sum_list fs"
proof -
  note i = ans_symbol_interval [OF assms(1)]
  have y: "fs ! s \<le> y \<and> y < 2 * fs ! s"
    by (rule shed_bounds [OF i(2) _ assms(4)]) (use i assms(2) in linarith)
  then show "y < 2 * fs ! s" by simp
  show "sum_list fs \<le> next_state (fs ! s) (cum fs s) (sum_list fs) y"
    using next_state_large(2) [OF i(2,1)] y by blast
  have "\<not> sum_list fs \<le> next_state (fs ! s) (cum fs s) (sum_list fs) y div 2"
    using next_state_large(1) [OF i(2,1)] y by simp
  then show "next_state (fs ! s) (cum fs s) (sum_list fs) y < 2 * sum_list fs" by linarith
qed

lemma ans_code_range:
  assumes "\<forall>s\<in>set ss. ans_symbol fs s" and "0 < sum_list fs" and "ans_code fs ss = (bits, x)"
  shows "sum_list fs \<le> x" and "x < 2 * sum_list fs"
proof -
  have "sum_list fs \<le> x \<and> x < 2 * sum_list fs" using assms
  proof (induction ss arbitrary: bits x)
    case (Cons s ss)
    obtain bits1 x1 where c: "ans_code fs ss = (bits1, x1)" by fastforce
    obtain bs y where s: "shed (fs ! s) x1 = (bs, y)" by fastforce
    have "sum_list fs \<le> x1 \<and> x1 < 2 * sum_list fs" using Cons c by simp
    then show ?case using ans_step_range [of fs s x1 bs y] Cons.prems c s by auto
  qed simp
  then show "sum_list fs \<le> x" "x < 2 * sum_list fs" by simp_all
qed

section \<open>The code computes them\<close>

lemma u64_divmod:
  assumes "a < 2 ^ 64" and "b < 2 ^ 64"
  shows "(of_nat a :: u64) div of_nat b = of_nat (a div b)" and "(of_nat a :: u64) mod of_nat b = of_nat (a mod b)"
  using assms by (simp_all add: word_arith_nat_div word_arith_nat_mod unat_of_nat_small)

lemma u64_le: "a < 2 ^ 64 \<Longrightarrow> b < 2 ^ 64 \<Longrightarrow> (of_nat a :: u64) \<le> of_nat b \<longleftrightarrow> a \<le> b"
  and u64_less: "a < 2 ^ 64 \<Longrightarrow> b < 2 ^ 64 \<Longrightarrow> (of_nat a :: u64) < of_nat b \<longleftrightarrow> a < b"
  by (simp_all add: word_le_nat_alt word_less_nat_alt unat_of_nat_small)

text \<open>A table the encoder can use: its total is within the limit the increments keep.\<close>

definition ans_table :: "ftable \<Rightarrow> nat list \<Rightarrow> bool" where
  "ans_table t fs \<longleftrightarrow> ftable_repr t fs \<and> 0 < sum_list fs \<and> sum_list fs \<le> 2 ^ 30 + 2"

lemma ans_tableD:
  assumes "ans_table t fs"
  shows "ftable_repr t fs" "0 < sum_list fs" "sum_list fs \<le> 1073741826"
    "ftable_get_total t = of_nat (sum_list fs)"
  using assms by (simp_all add: ans_table_def ftable_get_total_def ftable_repr_def)

lemma ans_table_symbol:
  assumes "ans_table t fs" and "ans_symbol fs s"
  shows "ftable_get_frequency t (int s) = Some (of_nat (fs ! s))"
    and "ftable_get_low t (int s) = Some (of_nat (cum fs s))"
    and "fs ! s < 2 ^ 64" and "cum fs s < 2 ^ 64" and "fs ! s \<le> 1073741826" and "cum fs s \<le> 1073741826"
proof -
  note r = ans_tableD [OF assms(1)] and i = ans_symbol_interval [OF assms(2)]
  show "ftable_get_frequency t (int s) = Some (of_nat (fs ! s))" using ftable_freq [OF r(1), of "int s"] i by simp
  show "ftable_get_low t (int s) = Some (of_nat (cum fs s))" using ftable_low [OF r(1), of "int s"] i by simp
  show "fs ! s < 2 ^ 64" "cum fs s < 2 ^ 64" "fs ! s \<le> 1073741826" "cum fs s \<le> 1073741826"
    using r(3) i(1) by simp_all
qed

lemma next_state_bound:
  assumes "x < 2 * T" and "T \<le> 1073741826" and "l + f \<le> T" and "0 < f"
  shows "next_state f l T x < 2 ^ 63"
proof -
  have "x div f \<le> 2147483652" using assms(1,2) div_le_dividend [of x f] by linarith
  then have "x div f * T \<le> 2147483652 * 1073741826" using assms(2) by (rule mult_le_mono)
  moreover have "x mod f + l < T" using mod_less_divisor [OF assms(4), of x] assms(3) by linarith
  ultimately show ?thesis using assms(2) by (simp add: next_state_def)
qed

lemma ans_calc_next_correct:
  assumes "ans_table t fs" and "ans_symbol fs s" and "x < 2 * sum_list fs"
  shows "ans_calc_next_state (int s) (of_nat x) t =
     Some (of_nat (next_state (fs ! s) (cum fs s) (sum_list fs) x))"
    and "next_state (fs ! s) (cum fs s) (sum_list fs) x < 2 ^ 63"
proof -
  note r = ans_tableD [OF assms(1)] and s = ans_table_symbol [OF assms(1,2)]
    and i = ans_symbol_interval [OF assms(2)]
  have x: "x < 2 ^ 64" using assms(3) r(3) by simp
  have "(of_nat (fs ! s) :: u64) > 0" using u64_less [of 0 "fs ! s"] s(3) i(2) by simp
  then show "ans_calc_next_state (int s) (of_nat x) t =
     Some (of_nat (next_state (fs ! s) (cum fs s) (sum_list fs) x))"
    by (simp add: ans_calc_next_state_def s(1,2) r(4) u64_divmod [OF x s(3)] next_state_def)
  show "next_state (fs ! s) (cum fs s) (sum_list fs) x < 2 ^ 63"
    using assms(3) r(3) i(1,2) by (intro next_state_bound) simp_all
qed

lemma ans_calc_prev_correct:
  assumes "ans_table t fs" and "ans_symbol fs s" and "y < 2 ^ 64" and "cum fs s \<le> y mod sum_list fs"
  shows "ans_calc_prev_state (int s) (of_nat y) t =
     Some (of_nat (prev_state (fs ! s) (cum fs s) (sum_list fs) y))"
proof -
  note r = ans_tableD [OF assms(1)] and s = ans_table_symbol [OF assms(1,2)]
  have T: "sum_list fs < 2 ^ 64" using r(3) by simp
  have "(of_nat (sum_list fs) :: u64) > 0" using u64_less [of 0 "sum_list fs"] T r(2) by simp
  then show ?thesis using assms(4)
    by (simp add: ans_calc_prev_state_def s(1,2) r(4) u64_divmod [OF assms(3) T] prev_state_def of_nat_diff)
qed

section \<open>Encoding\<close>

lemma ans_shed_loop_correct:
  assumes "ans_table t fs" and "ans_symbol fs s" and "x < 2 * sum_list fs"
    and "shed (fs ! s) x = (bs, y)" and "bw.offered M w c bits"
  shows "\<exists>w' c'. ans_shed_loop t (int s) (of_nat (sum_list fs)) (of_nat x)
       (of_nat (next_state (fs ! s) (cum fs s) (sum_list fs) x)) w c =
     Some (of_nat (next_state (fs ! s) (cum fs s) (sum_list fs) y), w', c') \<and>
     bw.offered M w' c' (bits @ bs)"
  using assms(3-5)
proof (induction x arbitrary: bs w c bits rule: less_induct)
  case (less x)
  note i = ans_symbol_interval [OF assms(2)] and r = ans_tableD [OF assms(1)]
  define N where "N = next_state (fs ! s) (cum fs s) (sum_list fs) x"
  have N: "N < 2 ^ 63" using ans_calc_next_correct(2) [OF assms(1,2) less.prems(1)] by (simp add: N_def)
  have x: "x < 2 ^ 64" using less.prems(1) r(3) by simp
  have half: "drop_bit 1 (of_nat n :: u64) = of_nat (n div 2)" if "n < 2 ^ 64" for n
    using u64_divmod(1) [OF that, of 2] by (simp add: drop_bit_eq_div)
  have "of_nat (sum_list fs) \<le> drop_bit 1 (of_nat N :: u64) \<longleftrightarrow> sum_list fs \<le> N div 2"
    using half [of N] N u64_le [of "sum_list fs" "N div 2"] r(3) by simp
  also have "\<dots> \<longleftrightarrow> 2 * fs ! s \<le> x" unfolding N_def by (rule next_state_large(1) [OF i(2,1)])
  finally have cond: "of_nat (sum_list fs) \<le> drop_bit 1 (of_nat N :: u64) \<longleftrightarrow> 2 * fs ! s \<le> x" .
  show ?case
  proof (cases "2 * fs ! s \<le> x")
    case False
    then have "shed (fs ! s) x = ([], x)" by (subst shed.simps) simp
    then show ?thesis using cond False less.prems unfolding N_def [symmetric]
      by (subst ans_shed_loop.simps) (auto simp: N_def)
  next
    case True
    obtain bs1 where bs1: "shed (fs ! s) (x div 2) = (bs1, y)" "bs = odd x # bs1"
      using less.prems(2) True i(2) by (subst (asm) shed.simps) (auto simp: Let_def split: prod.splits)
    have "(ucast (of_nat x AND 1 :: u64) :: byte) = of_bool (odd x)"
    proof -
      have "(of_nat x AND 1 :: u64) = of_bool (odd x)"
        using u64_divmod(2) [OF x, of 2] by (simp add: and_one_eq odd_iff_mod_2_eq_one)
      then show ?thesis by simp
    qed
    moreover from bw.offered_put [OF less.prems(3), of "odd x"] obtain w1 c1 where
      w1: "writer_write_bit w c (of_bool (odd x)) = Some (w1, c1)" "bw.offered M w1 c1 (bits @ [odd x])" by blast
    moreover have "x div 2 < x" "x div 2 < 2 * sum_list fs" using True i(2) less.prems(1) by auto
    moreover note less.IH [OF this bs1(1) w1(2)] ans_calc_next_correct(1) [OF assms(1,2) this(2)]
    ultimately show ?thesis using cond True bs1(2) half [OF x] unfolding N_def [symmetric]
      by (subst ans_shed_loop.simps) simp
  qed
qed

lemma ans_block_loop_correct:
  assumes "ans_table t fs" and "\<forall>s\<in>set ss. ans_symbol fs s" and "k \<le> length ss"
    and "ans_code fs (drop k ss) = (bits, x)" and "bw.offered M w c bits"
  shows "\<exists>w' c'. ans_block_loop k (map int ss) (of_nat (sum_list fs)) False (of_nat x) t w c =
     Some (of_nat (snd (ans_code fs ss)), t, w', c') \<and> bw.offered M w' c' (fst (ans_code fs ss))"
  using assms(3-5)
proof (induction k arbitrary: bits x w c)
  case 0
  then show ?case by simp
next
  case (Suc k)
  have d: "drop k ss = ss ! k # drop (Suc k) ss" using Suc.prems(1) by (simp add: Cons_nth_drop_Suc)
  have sym: "ans_symbol fs (ss ! k)" using assms(2) Suc.prems(1) by simp
  have "\<forall>s\<in>set (drop (Suc k) ss). ans_symbol fs s" using assms(2) by (auto dest: in_set_dropD)
  note range = ans_code_range [OF this ans_tableD(2) [OF assms(1)] Suc.prems(2)]
  obtain bs y where s: "shed (fs ! (ss ! k)) x = (bs, y)" by fastforce
  define z where "z = next_state (fs ! (ss ! k)) (cum fs (ss ! k)) (sum_list fs) y"
  from ans_shed_loop_correct [OF assms(1) sym range(2) s Suc.prems(3)] obtain w1 c1 where
    w1: "ans_shed_loop t (int (ss ! k)) (of_nat (sum_list fs)) (of_nat x)
       (of_nat (next_state (fs ! (ss ! k)) (cum fs (ss ! k)) (sum_list fs) x)) w c =
       Some (of_nat z, w1, c1)" "bw.offered M w1 c1 (bits @ bs)" by (auto simp: z_def)
  have "ans_code fs (drop k ss) = (bits @ bs, z)" using Suc.prems(2) s by (simp add: d z_def)
  from Suc.IH [OF _ this w1(2)] Suc.prems(1) obtain w' c' where
    "ans_block_loop k (map int ss) (of_nat (sum_list fs)) False (of_nat z) t w1 c1 =
       Some (of_nat (snd (ans_code fs ss)), t, w', c')" "bw.offered M w' c' (fst (ans_code fs ss))" by auto
  then show ?case using Suc.prems(1) w1(1) ans_calc_next_correct(1) [OF assms(1) sym range(2)] by simp
qed

lemma ans_write_block_correct:
  assumes "ans_table t fs" and "\<forall>s\<in>set ss. ans_symbol fs s" and "ss \<noteq> []" and "bw.offered M (ans_writer e) c []"
  shows "\<exists>e' c'. ans_encoder_write_block e c (map int ss) (int (length ss)) t False =
       Some (of_nat (snd (ans_code fs ss)), e', t, c') \<and>
     bw.offered M (ans_writer e') c' (fst (ans_code fs ss))"
proof -
  have "ans_code fs (drop (length ss) ss) = ([], sum_list fs)" by simp
  from ans_block_loop_correct [OF assms(1,2) order_refl this assms(4)] assms(3) show ?thesis
    by (auto simp: ans_encoder_write_block_def ans_tableD(4) [OF assms(1)])
qed

text \<open>
  The smallest state a symbol may be coded from is its frequency.  It lies below the total unless the
  symbol is the only one: then the search fails.
\<close>

lemma next_state_small:
  assumes "0 < f" and "l + f \<le> T"
  shows "T \<le> next_state f l T x \<longleftrightarrow> f \<le> x"
proof (cases "f \<le> x")
  case True
  then show ?thesis using next_state_large(2) [OF assms] by simp
next
  case False
  then show ?thesis using assms by (simp add: next_state_def)
qed

lemma ans_initial_state_loop_correct:
  assumes "ans_table t fs" and "ans_symbol fs s" and "x \<le> fs ! s" and "x + k = sum_list fs"
  shows "ans_initial_state_loop k t (int s) (of_nat x) =
     (if fs ! s < sum_list fs then Some (of_nat (fs ! s)) else None)"
  using assms(3,4)
proof (induction k arbitrary: x)
  case 0
  then show ?case using ans_symbol_interval(1) [OF assms(2)] by simp
next
  case (Suc k)
  note i = ans_symbol_interval [OF assms(2)] and r = ans_tableD [OF assms(1)]
  define N where "N = next_state (fs ! s) (cum fs s) (sum_list fs) x"
  have n: "ans_calc_next_state (int s) (of_nat x) t = Some (of_nat N)" and "N < 2 ^ 63"
    using ans_calc_next_correct [OF assms(1,2), of x] Suc.prems(2) by (simp_all add: N_def)
  then have cmp: "ftable_get_total t \<le> of_nat N \<longleftrightarrow> fs ! s \<le> x"
    using u64_le [of "sum_list fs" N] r(3,4) next_state_small [OF i(2,1)] by (simp add: N_def)
  show ?case
  proof (cases "fs ! s \<le> x")
    case True
    then show ?thesis using n cmp Suc.prems by simp
  next
    case False
    have "Suc x \<le> fs ! s" "Suc x + k = sum_list fs" using False Suc.prems by simp_all
    from Suc.IH [OF this] show ?thesis using n cmp False by (simp add: add.commute)
  qed
qed

lemma ans_find_block_initial_state_correct:
  assumes "ans_table t fs" and "ans_symbol fs s"
  shows "ans_find_block_initial_state t (int s) =
     (if fs ! s < sum_list fs then Some (of_nat (fs ! s)) else None)"
  using ans_initial_state_loop_correct [OF assms, of 0 "sum_list fs"] ans_tableD(3,4) [OF assms(1)]
  by (simp add: ans_find_block_initial_state_def unat_of_nat_small)

section \<open>Decoding\<close>

lemma ans_find_symbol_correct:
  assumes "ans_table t fs" and "v < sum_list fs"
  obtains s where "ans_find_symbol_by_offset t (of_nat v) = Some (int s)" and "ans_symbol fs s"
    and "cum fs s \<le> v" and "v < cum fs s + fs ! s"
proof -
  note r = ans_tableD [OF assms(1)]
  have v: "v < 2 ^ 64" using assms(2) r(3) by simp
  have "unat (of_nat v :: u64) < sum_list fs" using v assms(2) by (simp add: unat_of_nat_small)
  from freq.search_finds [OF r(1) this] obtain s where
    s: "s < length fs" "symbol_search_loop (ftable_get_low t) (of_nat v) 0 (ftable_get_symbol_limit t) = Some (int s)"
    "cum fs s \<le> v" "v < cum fs (Suc s)" using v by (auto simp: unat_of_nat_small)
  have iv: "v < cum fs s + fs ! s" using s(1,4) by (simp add: cum_Suc)
  then have sym: "ans_symbol fs s" using s(1,3) by (simp add: ans_symbol_def)
  note m = ans_table_symbol [OF assms(1) sym]
  have "cum fs s + fs ! s < 2 ^ 64" using m(5,6) by simp
  then have "(of_nat v :: u64) < of_nat (cum fs s + fs ! s)" using u64_less v iv by blast
  moreover have "(of_nat (cum fs s) :: u64) \<le> of_nat v" using u64_le m(4) v s(3) by blast
  moreover have "(0 :: u64) < of_nat (fs ! s)" using u64_less [of 0 "fs ! s"] m(3) sym by (simp add: ans_symbol_def)
  ultimately have "ans_find_symbol_by_offset t (of_nat v) = Some (int s)"
    using s(2) m(1,2) by (simp add: ans_find_symbol_by_offset_def)
  then show thesis using sym s(3) iv by (rule that)
qed

lemma push_bit_in: "push_bit 1 (of_nat n :: u64) OR ucast (of_bool b :: byte) = of_nat (2 * n + of_bool b)"
  by (cases b) (simp_all add: push_bit_eq_mult or_one_eq mult.commute)

lemma ans_refill_step:
  assumes "n < T" and "T < 2 ^ 63" and "reader_bits r (b # bits)"
  shows "\<exists>r'. ans_refill_loop (of_nat T) (of_nat n) r c = ans_refill_loop (of_nat T) (of_nat (2 * n + of_bool b)) r' c \<and>
     reader_bits r' bits"
proof -
  have "(of_nat n :: u64) < of_nat T" using u64_less [of n T] assms(1,2) by simp
  moreover obtain r' where "reader_read_bit r c = Some (of_bool b, r', c)" "reader_bits r' bits"
    using reader_read_bit_correct [OF assms(3)] by blast
  ultimately have "ans_refill_loop (of_nat T) (of_nat n) r c =
      ans_refill_loop (of_nat T) (push_bit 1 (of_nat n) OR ucast (of_bool b :: byte)) r' c"
    by (subst ans_refill_loop.simps) simp
  then show ?thesis unfolding push_bit_in using \<open>reader_bits r' bits\<close> by blast
qed

lemma ans_refill_stop: "T \<le> n \<Longrightarrow> n < 2 ^ 64 \<Longrightarrow>
    ans_refill_loop (of_nat T) (of_nat n) r c = Some (of_nat n, r, c)"
  by (subst ans_refill_loop.simps) (simp add: u64_less)

lemma double_half: "2 * (n div 2) + of_bool (odd n) = (n :: nat)"
  by (cases "even n") simp_all

lemma ans_refill_shed:
  assumes "shed f x = (bs, y)" and "x < T" and "T < 2 ^ 63" and "reader_bits r (rev bs @ rest)"
  shows "\<exists>r'. ans_refill_loop (of_nat T) (of_nat y) r c = ans_refill_loop (of_nat T) (of_nat x) r' c \<and>
     reader_bits r' rest"
  using assms
proof (induction f x arbitrary: bs rest r rule: shed.induct)
  case (1 f x)
  show ?case
  proof (cases "0 < f \<and> 2 * f \<le> x")
    case False
    then have "shed f x = ([], x)" by (subst shed.simps) auto
    then show ?thesis using 1 by auto
  next
    case True
    obtain bs1 where bs1: "shed f (x div 2) = (bs1, y)" "bs = odd x # bs1"
      using 1(2) True by (subst (asm) shed.simps) (auto simp: Let_def split: prod.splits)
    have "reader_bits r (rev bs1 @ (odd x # rest))" using 1(5) bs1(2) by simp
    moreover have "x div 2 < T" using 1(3) by linarith
    ultimately obtain r1 where
      r1: "ans_refill_loop (of_nat T) (of_nat y) r c = ans_refill_loop (of_nat T) (of_nat (x div 2)) r1 c"
      "reader_bits r1 (odd x # rest)" using 1(1) [OF True bs1(1) _ 1(4)] by blast
    from ans_refill_step [OF \<open>x div 2 < T\<close> 1(4) r1(2), of c] r1(1) show ?thesis
      unfolding double_half by auto
  qed
qed

lemma ans_refill_correct:
  assumes "shed f x = (bs, y)" and "T \<le> x" and "x < 2 * T" and "T < 2 ^ 62" and "reader_bits r (rev bs @ rest)"
  shows "\<exists>r'. ans_refill_loop (of_nat T) (of_nat y) r c = Some (of_nat x, r', c) \<and> reader_bits r' rest"
proof (cases "0 < f \<and> 2 * f \<le> x")
  case False
  then have "shed f x = ([], x)" by (subst shed.simps) auto
  then show ?thesis using assms ans_refill_stop [of T x r c] by auto
next
  case True
  obtain bs1 where bs1: "shed f (x div 2) = (bs1, y)" "bs = odd x # bs1"
    using assms(1) True by (subst (asm) shed.simps) (auto simp: Let_def split: prod.splits)
  have h: "x div 2 < T" "T < 2 ^ 63" using assms(3,4) by simp_all
  have "reader_bits r (rev bs1 @ (odd x # rest))" using assms(5) bs1(2) by simp
  from ans_refill_shed [OF bs1(1) h this, of c] obtain r1 where
    r1: "ans_refill_loop (of_nat T) (of_nat y) r c = ans_refill_loop (of_nat T) (of_nat (x div 2)) r1 c"
    "reader_bits r1 (odd x # rest)" by blast
  from ans_refill_step [OF h r1(2), of c] obtain r2 where
    "ans_refill_loop (of_nat T) (of_nat (x div 2)) r1 c = ans_refill_loop (of_nat T) (of_nat x) r2 c"
    "reader_bits r2 rest" unfolding double_half by blast
  then show ?thesis using r1(1) ans_refill_stop [of T x r2 c] assms(2-4) by auto
qed

lemma ans_decoder_read_correct:
  assumes "ans_table t fs" and "\<forall>s\<in>set (s # ss). ans_symbol fs s" and "ans_code fs ss = (bits, x)"
    and "ans_code fs (s # ss) = (all_bits, z)" and "reader_bits (ans_reader d) (rev all_bits @ rest)"
    and "ans_state d = of_nat z"
  shows "\<exists>r'. ans_decoder_read d c t = Some (int s, \<lparr>ans_reader = r', ans_state = of_nat x\<rparr>, c) \<and>
     reader_bits r' (rev bits @ rest)"
proof -
  note r = ans_tableD [OF assms(1)]
  have sym: "ans_symbol fs s" and syms: "\<forall>s\<in>set ss. ans_symbol fs s" using assms(2) by simp_all
  note i = ans_symbol_interval [OF sym]
  obtain bs y where sh: "shed (fs ! s) x = (bs, y)" by fastforce
  have z: "z = next_state (fs ! s) (cum fs s) (sum_list fs) y" and all: "all_bits = bits @ bs"
    using assms(3,4) sh by simp_all
  note range = ans_code_range [OF syms r(2) assms(3)]
  have zr: "sum_list fs \<le> z" "z < 2 * sum_list fs"
    using ans_code_range [OF assms(2) r(2) assms(4)] by simp_all
  have z64: "z < 2 ^ 64" and T64: "sum_list fs < 2 ^ 64" using zr(2) r(3) by simp_all
  have md: "z mod sum_list fs = y mod fs ! s + cum fs s" unfolding z by (rule next_state_parts(2) [OF i(2,1)])
  have prev: "prev_state (fs ! s) (cum fs s) (sum_list fs) z = y" unfolding z by (rule prev_next_state [OF i(2,1)])
  have off: "ans_state d mod ftable_get_total t = of_nat (z mod sum_list fs)"
    unfolding r(4) assms(6) by (rule u64_divmod(2) [OF z64 T64])
  have "z mod sum_list fs < sum_list fs" using r(2) by simp
  then obtain s' where s': "ans_find_symbol_by_offset t (of_nat (z mod sum_list fs)) = Some (int s')"
    "ans_symbol fs s'" "cum fs s' \<le> z mod sum_list fs" "z mod sum_list fs < cum fs s' + fs ! s'"
    by (rule ans_find_symbol_correct [OF assms(1)])
  have "z mod sum_list fs < cum fs s + fs ! s" using md mod_less_divisor [OF i(2), of y] by linarith
  then have "s' = s" using cum_interval_unique [of fs s' "z mod sum_list fs" s] s' md i(3)
      ans_symbol_interval(3) [OF s'(2)] by (simp add: cum_Suc)
  moreover have "ans_calc_prev_state (int s) (of_nat z) t = Some (of_nat y)"
    using ans_calc_prev_correct [OF assms(1) sym z64] md prev by simp
  moreover have "reader_bits (ans_reader d) (rev bs @ (rev bits @ rest))" using assms(5) all by simp
  with ans_refill_correct [OF sh range, of "ans_reader d" "rev bits @ rest" c] r(3) obtain r' where
    "ans_refill_loop (of_nat (sum_list fs)) (of_nat y) (ans_reader d) c = Some (of_nat x, r', c)"
    "reader_bits r' (rev bits @ rest)" by auto
  moreover have "ftable_get_total t \<noteq> 0" using u64_less [of 0 "sum_list fs"] T64 r(2,4) by simp
  ultimately show ?thesis using s'(1) off assms(6) r(4) by (simp add: ans_decoder_read_def Let_def)
qed

fun ans_read_all :: "nat \<Rightarrow> ans_decoder \<Rightarrow> ctx \<Rightarrow> ftable \<Rightarrow> (int list \<times> ans_decoder \<times> ctx) option" where
  "ans_read_all 0 d c t = Some ([], d, c)"
| "ans_read_all (Suc k) d c t = do {
     (s, d, c) \<leftarrow> ans_decoder_read d c t;
     (ss, d, c) \<leftarrow> ans_read_all k d c t;
     Some (s # ss, d, c)
   }"

lemma ans_read_all_correct:
  assumes "ans_table t fs" and "\<forall>s\<in>set ss. ans_symbol fs s" and "ans_code fs ss = (bits, x)"
    and "reader_bits (ans_reader d) (rev bits @ rest)" and "ans_state d = of_nat x"
  shows "\<exists>r'. ans_read_all (length ss) d c t =
       Some (map int ss, \<lparr>ans_reader = r', ans_state = of_nat (sum_list fs)\<rparr>, c) \<and> reader_bits r' rest"
  using assms(2-5)
proof (induction ss arbitrary: bits x d)
  case Nil
  then show ?case by (auto intro!: exI [of _ "ans_reader d"])
next
  case (Cons s ss)
  obtain bits1 x1 where c1: "ans_code fs ss = (bits1, x1)" by fastforce
  from ans_decoder_read_correct [OF assms(1) Cons.prems(1) c1 Cons.prems(2-4), of c] obtain r1 where
    r1: "ans_decoder_read d c t = Some (int s, \<lparr>ans_reader = r1, ans_state = of_nat x1\<rparr>, c)"
    "reader_bits r1 (rev bits1 @ rest)" by blast
  from Cons.IH [OF _ c1, of "\<lparr>ans_reader = r1, ans_state = of_nat x1\<rparr>"] Cons.prems(1) r1 show ?case by auto
qed

lemma ans_block_round_trip:
  assumes "ans_table t fs" and "\<forall>s\<in>set ss. ans_symbol fs s" and "ss \<noteq> []" and "bw.offered M w c []"
  shows "\<exists>state e' c' bits. ans_encoder_write_block (ans_encoder_init w) c (map int ss) (int (length ss)) t False =
       Some (state, e', t, c') \<and> bw.offered M (ans_writer e') c' bits \<and>
     (\<forall>r rest c''. reader_bits r (rev bits @ rest) \<longrightarrow>
        (\<exists>r'. ans_read_all (length ss) (ans_decoder_init r\<lparr>ans_state := state\<rparr>) c'' t =
           Some (map int ss, \<lparr>ans_reader = r', ans_state = ftable_get_total t\<rparr>, c'') \<and> reader_bits r' rest))"
proof -
  have "bw.offered M (ans_writer (ans_encoder_init w)) c []" using assms(4) by (simp add: ans_encoder_init_def)
  from ans_write_block_correct [OF assms(1-3) this] obtain e' c' where
    e': "ans_encoder_write_block (ans_encoder_init w) c (map int ss) (int (length ss)) t False =
      Some (of_nat (snd (ans_code fs ss)), e', t, c')" "bw.offered M (ans_writer e') c' (fst (ans_code fs ss))" by blast
  have "\<exists>r'. ans_read_all (length ss) (ans_decoder_init r\<lparr>ans_state := of_nat (snd (ans_code fs ss))\<rparr>) c'' t =
      Some (map int ss, \<lparr>ans_reader = r', ans_state = ftable_get_total t\<rparr>, c'') \<and> reader_bits r' rest"
    if "reader_bits r (rev (fst (ans_code fs ss)) @ rest)" for r rest c''
    using ans_read_all_correct [OF assms(1,2) surjective_pairing,
        of "ans_decoder_init r\<lparr>ans_state := of_nat (snd (ans_code fs ss))\<rparr>"] that
    by (simp add: ans_decoder_init_def ans_tableD(4) [OF assms(1)])
  with e' show ?thesis by blast
qed

section \<open>Any input\<close>

text \<open>A decoder at a state of at least the total returns on any input, and leaves such a state.\<close>

lemma ans_refill_any:
  assumes "0 < n" and "n < 2 ^ 64" and "T < 2 ^ 63" and "reader_bits r bits"
  shows "\<exists>m r' c' bits'. ans_refill_loop (of_nat T) (of_nat n) r c = Some (of_nat m, r', c') \<and>
     T \<le> m \<and> m < 2 ^ 64 \<and> reader_bits r' bits'"
  using assms(1,2,4)
proof (induction "T - n" arbitrary: n r bits c rule: less_induct)
  case less
  show ?case
  proof (cases "T \<le> n")
    case True
    then show ?thesis using ans_refill_stop [of T n r c] less.prems by auto
  next
    case False
    then have lt: "n < T" by simp
    have "\<exists>b r1 c1 bits1. reader_read_bit r c = Some (of_bool b, r1, c1) \<and> reader_bits r1 bits1"
    proof (cases bits)
      case Nil
      then show ?thesis using reader_read_bit_empty [of r c] less.prems(3)
        by (intro exI [of _ False] exI [of _ r] exI [of _ "reader_set_underflow_error c"] exI [of _ "[]"]) simp
    next
      case (Cons b bits1)
      then show ?thesis using reader_read_bit_correct [of r b bits1 c] less.prems(3) by blast
    qed
    then obtain b r1 c1 bits1 where b: "reader_read_bit r c = Some (of_bool b, r1, c1)" "reader_bits r1 bits1"
      by blast
    have "(of_nat n :: u64) < of_nat T" using u64_less [of n T] lt assms(3) less.prems(2) by simp
    then have "ans_refill_loop (of_nat T) (of_nat n) r c =
        ans_refill_loop (of_nat T) (push_bit 1 (of_nat n) OR ucast (of_bool b :: byte)) r1 c1"
      using b(1) by (subst ans_refill_loop.simps) simp
    note step = this [unfolded push_bit_in]
    have m: "T - (2 * n + of_bool b) < T - n" "0 < 2 * n + of_bool b" "2 * n + of_bool b < 2 ^ 64"
      using less.prems(1) lt assms(3) by (cases b; simp)+
    show ?thesis unfolding step by (rule less.hyps [OF m b(2)])
  qed
qed

lemma ans_decoder_read_any:
  assumes "ans_table t fs" and "reader_bits (ans_reader d) bits" and "ftable_get_total t \<le> ans_state d"
  shows "\<exists>s d' c' bits'. ans_decoder_read d c t = Some (int s, d', c') \<and> ans_symbol fs s \<and>
     reader_bits (ans_reader d') bits' \<and> ftable_get_total t \<le> ans_state d'"
proof -
  note r = ans_tableD [OF assms(1)]
  define z where "z = unat (ans_state d)"
  have state: "ans_state d = of_nat z" and z64: "z < 2 ^ 64"
    using u64_bound [of "ans_state d"] by (simp_all add: z_def)
  have T64: "sum_list fs < 2 ^ 64" and T63: "sum_list fs < 2 ^ 63" using r(3) by simp_all
  have Tz: "sum_list fs \<le> z" using assms(3) u64_le [OF T64 z64] by (simp add: r(4) state)
  have "z mod sum_list fs < sum_list fs" using r(2) by simp
  then obtain s where s: "ans_find_symbol_by_offset t (of_nat (z mod sum_list fs)) = Some (int s)"
    "ans_symbol fs s" "cum fs s \<le> z mod sum_list fs" "z mod sum_list fs < cum fs s + fs ! s"
    by (rule ans_find_symbol_correct [OF assms(1)])
  note i = ans_symbol_interval [OF s(2)]
  define y where "y = prev_state (fs ! s) (cum fs s) (sum_list fs) z"
  have y: "y \<le> z" "fs ! s \<le> y" using prev_state_bounds [OF i(2,1) s(3,4)] Tz by (simp_all add: y_def)
  have prev: "ans_calc_prev_state (int s) (of_nat z) t = Some (of_nat y)"
    unfolding y_def by (rule ans_calc_prev_correct [OF assms(1) s(2) z64 s(3)])
  have "0 < y" "y < 2 ^ 64" using y i(2) z64 by linarith+
  from ans_refill_any [OF this T63 assms(2), of c] obtain m r' c' bits' where
    m: "ans_refill_loop (of_nat (sum_list fs)) (of_nat y) (ans_reader d) c = Some (of_nat m, r', c')"
    "sum_list fs \<le> m" "m < 2 ^ 64" "reader_bits r' bits'" by blast
  have "ftable_get_total t \<noteq> 0" using u64_less [of 0 "sum_list fs"] T64 r(2,4) by simp
  moreover have "ans_state d mod ftable_get_total t = of_nat (z mod sum_list fs)"
    unfolding r(4) state by (rule u64_divmod(2) [OF z64 T64])
  ultimately have "ans_decoder_read d c t = Some (int s, \<lparr>ans_reader = r', ans_state = of_nat m\<rparr>, c')"
    using s(1) prev m(1) state r(4) by (simp add: ans_decoder_read_def Let_def)
  moreover have "ftable_get_total t \<le> of_nat m" unfolding r(4) using u64_le [OF T64 m(3)] m(2) by simp
  ultimately show ?thesis using s(2) m(4) by auto
qed

lemma ans_read_all_any:
  assumes "ans_table t fs" and "reader_bits (ans_reader d) bits" and "ftable_get_total t \<le> ans_state d"
  shows "\<exists>ss d' c'. ans_read_all k d c t = Some (map int ss, d', c') \<and> length ss = k \<and>
     (\<forall>s\<in>set ss. ans_symbol fs s)"
  using assms(2,3)
proof (induction k arbitrary: d bits c)
  case 0
  then show ?case by (auto intro!: exI [of _ "[]"])
next
  case (Suc k)
  from ans_decoder_read_any [OF assms(1) Suc.prems, of c] obtain s d1 c1 bits1 where
    d1: "ans_decoder_read d c t = Some (int s, d1, c1)" "ans_symbol fs s"
    "reader_bits (ans_reader d1) bits1" "ftable_get_total t \<le> ans_state d1" by blast
  from Suc.IH [OF d1(3,4), of c1] obtain ss d2 c2 where
    "ans_read_all k d1 c1 t = Some (map int ss, d2, c2)" "length ss = k" "\<forall>s\<in>set ss. ans_symbol fs s" by blast
  then show ?case using d1(1,2) by (intro exI [of _ "s # ss"]) simp
qed

end
