(* ===== verification/Fixed_Queue.thy ===== *)
theory Fixed_Queue
  imports Fifo Context
begin

text \<open>
  \<open>src/data_structures/fixed_queue.c\<close>: a ring of \<open>2 ^ k\<close> cells that never grows.  One cell stays
  unused, so that equal indices mean an empty queue; pushing into a queue of \<open>2 ^ k - 1\<close> items fails
  the assertion.  The slot a push returns is filled with the argument \<open>x\<close>; \<open>fqueue_repr k q xs\<close>
  says the queue holds \<open>xs\<close>, oldest first.
\<close>

record 'a fixed_queue =
  fq_value_size :: u64
  fq_values :: "'a cells"
  fq_length_mask :: int
  fq_head :: int
  fq_tail :: int

section \<open>Operations\<close>

definition fqueue_deinit :: "'a fixed_queue \<Rightarrow> 'a fixed_queue" where
  "fqueue_deinit q = \<lparr>fq_value_size = 0, fq_values = [], fq_length_mask = 0, fq_head = 0, fq_tail = 0\<rparr>"

definition fqueue_reset :: "'a fixed_queue \<Rightarrow> 'a fixed_queue" where
  "fqueue_reset q = q\<lparr>fq_head := 0, fq_tail := 0\<rparr>"

definition fqueue_init :: "ctx \<Rightarrow> u64 \<Rightarrow> nat \<Rightarrow> ('a fixed_queue \<times> ctx) option" where
  "fqueue_init c value_size length_shift = do {
     let len = push_bit length_shift 1;
     (_, c) \<leftarrow> context_arena_allocate c len value_size;
     Some (\<lparr>fq_value_size = value_size, fq_values = uninitialised len, fq_length_mask = len - 1,
            fq_head = 0, fq_tail = 0\<rparr>, c)
   }"

definition fqueue_push :: "'a \<Rightarrow> 'a fixed_queue \<Rightarrow> 'a fixed_queue option" where
  "fqueue_push x q = do {
     let slot = fq_tail q;
     let q = q\<lparr>fq_tail := (fq_tail q + 1) AND fq_length_mask q\<rparr>;
     check (fq_tail q \<noteq> fq_head q);
     vs \<leftarrow> cell_put (fq_values q) slot x;
     Some (q\<lparr>fq_values := vs\<rparr>)
   }"

definition fqueue_pop :: "'a fixed_queue \<Rightarrow> ('a \<times> 'a fixed_queue) option" where
  "fqueue_pop q = do {
     check (fq_tail q \<noteq> fq_head q);
     x \<leftarrow> cell_at (fq_values q) (fq_head q);
     Some (x, q\<lparr>fq_head := (fq_head q + 1) AND fq_length_mask q\<rparr>)
   }"

definition fqueue_peek :: "'a fixed_queue \<Rightarrow> 'a option" where
  "fqueue_peek q = do {
     check (fq_tail q \<noteq> fq_head q);
     cell_at (fq_values q) (fq_head q)
   }"

definition fqueue_peek_tail :: "'a fixed_queue \<Rightarrow> 'a option" where
  "fqueue_peek_tail q = do {
     check (fq_tail q \<noteq> fq_head q);
     let last_meaningful_value_index = (fq_tail q + fq_length_mask q) AND fq_length_mask q;
     cell_at (fq_values q) last_meaningful_value_index
   }"

definition fqueue_get_capacity :: "'a fixed_queue \<Rightarrow> int" where
  "fqueue_get_capacity q = fq_length_mask q"

definition fqueue_get_count :: "'a fixed_queue \<Rightarrow> int" where
  "fqueue_get_count q = (fq_tail q + fq_length_mask q + 1 - fq_head q) AND fq_length_mask q"

section \<open>Contents\<close>

definition fqueue_repr :: "nat \<Rightarrow> 'a fixed_queue \<Rightarrow> 'a list \<Rightarrow> bool" where
  "fqueue_repr k q xs \<longleftrightarrow> (\<exists>h. fq_length_mask q = 2 ^ k - 1 \<and> fq_head q = int h \<and>
     fq_tail q = int ((h + length xs) mod 2 ^ k) \<and> ring_items (fq_values q) (2 ^ k) h xs)"

lemma fqueue_reprE:
  assumes "fqueue_repr k q xs"
  obtains h where "fq_length_mask q = 2 ^ k - 1" and "fq_head q = int h" and "h < 2 ^ k"
    and "fq_tail q = int ((h + length xs) mod 2 ^ k)" and "length xs < 2 ^ k"
    and "ring_items (fq_values q) (2 ^ k) h xs" and "length (fq_values q) = 2 ^ k"
  using assms by (auto simp: fqueue_repr_def ring_items_def)

lemma fqueue_mask: "int m AND (2 ^ k - 1) = int (m mod 2 ^ k)"
  by (simp add: and_mask_mod zmod_int)

lemma fqueue_next: "(int m + 1) AND (2 ^ k - 1) = int (Suc m mod 2 ^ k)"
  using fqueue_mask [of "Suc m" k] by (simp add: add.commute)

lemma fqueue_nonempty:
  assumes "fqueue_repr k q xs"
  shows "fq_tail q \<noteq> fq_head q \<longleftrightarrow> xs \<noteq> []"
proof -
  obtain h where h: "fq_head q = int h" "h < 2 ^ k" "fq_tail q = int ((h + length xs) mod 2 ^ k)"
    "length xs < 2 ^ k" using assms by (rule fqueue_reprE)
  have "fq_tail q = fq_head q \<longleftrightarrow> (h + length xs) mod 2 ^ k = (h + 0) mod 2 ^ k" using h by simp
  also have "\<dots> \<longleftrightarrow> length xs = 0"
    using ring_mod_inj [of h "length xs" "2 ^ k" 0] h by auto
  finally show ?thesis by auto
qed

lemma fqueue_count:
  assumes "fqueue_repr k q xs"
  shows "fqueue_get_count q = int (length xs)"
proof -
  obtain h where h: "fq_length_mask q = 2 ^ k - 1" "fq_head q = int h" "h < 2 ^ k"
    "fq_tail q = int ((h + length xs) mod 2 ^ k)" "length xs < 2 ^ k" using assms by (rule fqueue_reprE)
  have "fqueue_get_count q = (int ((h + length xs) mod 2 ^ k) + (2 ^ k - int h)) mod 2 ^ k"
    by (simp add: fqueue_get_count_def h and_mask_mod add_diff_eq)
  also have "\<dots> = (int (h + length xs) + (2 ^ k - int h)) mod 2 ^ k"
    unfolding zmod_int of_nat_power of_nat_numeral by (rule mod_add_left_eq)
  also have "int (h + length xs) + (2 ^ k - int h) = int (length xs) + 2 ^ k" by simp
  also have "(int (length xs) + 2 ^ k) mod 2 ^ k = int (length xs mod 2 ^ k)" by (simp add: zmod_int)
  finally show ?thesis using h(5) by simp
qed

lemma fqueue_push_repr:
  assumes "fqueue_repr k q xs" and "Suc (length xs) < 2 ^ k"
  shows "\<exists>q'. fqueue_push x q = Some q' \<and> fqueue_repr k q' (xs @ [x])"
proof -
  obtain h where h: "fq_length_mask q = 2 ^ k - 1" "fq_head q = int h" "h < 2 ^ k"
    "fq_tail q = int ((h + length xs) mod 2 ^ k)" "length xs < 2 ^ k"
    "ring_items (fq_values q) (2 ^ k) h xs" "length (fq_values q) = 2 ^ k"
    using assms(1) by (rule fqueue_reprE)
  have next_tail: "(fq_tail q + 1) AND fq_length_mask q = int ((h + Suc (length xs)) mod 2 ^ k)"
    using fqueue_next [of "(h + length xs) mod 2 ^ k" k] by (simp add: h mod_Suc_eq)
  have "(h + Suc (length xs)) mod 2 ^ k \<noteq> (h + 0) mod 2 ^ k"
    using ring_mod_inj [of h "Suc (length xs)" "2 ^ k" 0] assms(2) by auto
  then have "(h + Suc (length xs)) mod 2 ^ k \<noteq> h" using h(3) by simp
  then have "fqueue_push x q = Some (q\<lparr>fq_tail := int ((h + Suc (length xs)) mod 2 ^ k),
      fq_values := (fq_values q)[(h + length xs) mod 2 ^ k := Some x]\<rparr>)"
    unfolding fqueue_push_def Let_def next_tail by (simp add: h cell_put_nat del: of_nat_mod)
  moreover have "ring_items ((fq_values q)[(h + length xs) mod 2 ^ k := Some x]) (2 ^ k) h (xs @ [x])"
    using h(6) assms(2) by (rule ring_items_push)
  ultimately show ?thesis using h by (simp add: fqueue_repr_def exI [of _ h])
qed

lemma fqueue_push_full:
  assumes "fqueue_repr k q xs" and "Suc (length xs) = 2 ^ k"
  shows "fqueue_push x q = None"
proof -
  obtain h where h: "fq_length_mask q = 2 ^ k - 1" "fq_head q = int h" "h < 2 ^ k"
    "fq_tail q = int ((h + length xs) mod 2 ^ k)" using assms(1) by (rule fqueue_reprE)
  have "(fq_tail q + 1) AND fq_length_mask q = int ((h + Suc (length xs)) mod 2 ^ k)"
    using fqueue_next [of "(h + length xs) mod 2 ^ k" k] by (simp add: h mod_Suc_eq)
  then show ?thesis using h assms(2) by (simp add: fqueue_push_def Let_def)
qed

lemma fqueue_pop_repr:
  assumes "fqueue_repr k q (x # xs)"
  shows "\<exists>q'. fqueue_pop q = Some (x, q') \<and> fqueue_repr k q' xs"
    and "fqueue_peek q = Some x"
proof -
  obtain h where h: "fq_length_mask q = 2 ^ k - 1" "fq_head q = int h" "h < 2 ^ k"
    "fq_tail q = int ((h + length (x # xs)) mod 2 ^ k)"
    "ring_items (fq_values q) (2 ^ k) h (x # xs)" "length (fq_values q) = 2 ^ k"
    using assms by (rule fqueue_reprE)
  note item = ring_items_pop [OF h(5)]
  have ne: "fq_tail q \<noteq> fq_head q" using fqueue_nonempty [OF assms] by simp
  have pop: "fqueue_pop q = Some (x, q\<lparr>fq_head := int (Suc h mod 2 ^ k)\<rparr>)"
    using ne item(1) h by (simp add: fqueue_pop_def cell_at_nat fqueue_next del: of_nat_mod)
  have tail: "(Suc h mod 2 ^ k + length xs) mod 2 ^ k = (h + length (x # xs)) mod 2 ^ k"
    by (simp add: mod_add_left_eq)
  have "fqueue_repr k (q\<lparr>fq_head := int (Suc h mod 2 ^ k)\<rparr>) xs"
    unfolding fqueue_repr_def using h(1) item(2) h(4) tail
    by (intro exI [of _ "Suc h mod 2 ^ k"]) simp
  with pop show "\<exists>q'. fqueue_pop q = Some (x, q') \<and> fqueue_repr k q' xs" by blast
  show "fqueue_peek q = Some x" using ne item(1) h by (simp add: fqueue_peek_def cell_at_nat)
qed

lemma fqueue_peek_tail_repr:
  assumes "fqueue_repr k q (xs @ [x])"
  shows "fqueue_peek_tail q = Some x"
proof -
  obtain h where h: "fq_length_mask q = 2 ^ k - 1" "fq_head q = int h" "h < 2 ^ k"
    "fq_tail q = int ((h + length (xs @ [x])) mod 2 ^ k)"
    "ring_items (fq_values q) (2 ^ k) h (xs @ [x])" "length (fq_values q) = 2 ^ k"
    using assms by (rule fqueue_reprE)
  have "(fq_tail q + fq_length_mask q) AND fq_length_mask q = int ((h + length xs) mod 2 ^ k)"
  proof -
    have "(fq_tail q + fq_length_mask q) AND fq_length_mask q =
        (int (h + Suc (length xs)) mod 2 ^ k + (2 ^ k - 1)) mod 2 ^ k"
      by (simp add: h and_mask_mod zmod_int)
    also have "\<dots> = (int (h + Suc (length xs)) + (2 ^ k - 1)) mod 2 ^ k" by (rule mod_add_left_eq)
    also have "int (h + Suc (length xs)) + (2 ^ k - 1) = int (h + length xs) + 2 ^ k" by simp
    finally show ?thesis by (simp add: zmod_int)
  qed
  moreover have "fq_values q ! ((h + length xs) mod 2 ^ k) = Some x"
    using ring_items_nth [OF h(5), of "length xs"] by simp
  ultimately show ?thesis using fqueue_nonempty [OF assms] h(6)
    by (simp add: fqueue_peek_tail_def cell_at_nat del: of_nat_mod)
qed

lemma fqueue_empty:
  assumes "fqueue_repr k q []"
  shows "fqueue_pop q = None" and "fqueue_peek q = None" and "fqueue_peek_tail q = None"
  using fqueue_nonempty [OF assms] by (simp_all add: fqueue_pop_def fqueue_peek_def fqueue_peek_tail_def)

lemma fqueue_capacity: "fqueue_repr k q xs \<Longrightarrow> fqueue_get_capacity q = 2 ^ k - 1"
  by (auto simp: fqueue_repr_def fqueue_get_capacity_def)

lemma fqueue_reset_repr: "fqueue_repr k q xs \<Longrightarrow> fqueue_repr k (fqueue_reset q) []"
  by (auto simp: fqueue_repr_def fqueue_reset_def ring_items_def)

lemma fqueue_init_repr:
  assumes "2 ^ k * m < arena_free c"
  shows "\<exists>q c'. fqueue_init c (of_nat m) k = Some (q, c') \<and> fqueue_repr k q [] \<and>
     arena_free c' = arena_free c - 2 ^ k * m \<and> ctx_error c' = ctx_error c"
proof -
  have len: "push_bit k (1 :: int) = int (2 ^ k)" by (simp add: push_bit_eq_mult)
  show ?thesis
    using arena_allocate_room [OF assms] unfolding fqueue_init_def Let_def len
    by (auto simp: fqueue_repr_def ring_items_def uninitialised_def nat_power_eq)
qed

interpretation fq: bounded_fifo "fqueue_repr k" fqueue_get_count fqueue_pop fqueue_peek fqueue_peek_tail
  fqueue_push "2 ^ k - 1" for k
proof unfold_locales
  fix q q' :: "'a fixed_queue" and xs x
  assume a: "fqueue_repr k q xs" "fqueue_push x q = Some q'"
  have "length xs < 2 ^ k" using a(1) by (rule fqueue_reprE)
  moreover have "Suc (length xs) \<noteq> 2 ^ k" using fqueue_push_full [OF a(1), of x] a(2) by auto
  ultimately have "Suc (length xs) < 2 ^ k" by linarith
  from fqueue_push_repr [OF a(1) this, of x] a(2) show "fqueue_repr k q' (xs @ [x])" by simp
next
  fix q :: "'a fixed_queue" and xs x
  assume a: "fqueue_repr k q xs" "length xs < 2 ^ k - 1"
  then have "Suc (length xs) < 2 ^ k" by simp
  from fqueue_push_repr [OF a(1) this, of x] show "fqueue_push x q \<noteq> None" by auto
next
  fix q :: "'a fixed_queue" and xs x
  assume a: "fqueue_repr k q xs" "\<not> length xs < 2 ^ k - 1"
  moreover have "length xs < 2 ^ k" using a(1) by (rule fqueue_reprE)
  ultimately show "fqueue_push x q = None" using fqueue_push_full [OF a(1), of x] by simp
qed (auto simp: fqueue_count fqueue_pop_repr fqueue_empty fqueue_peek_tail_repr)

end
