(* ===== verification/Spec2Isabelle.thy ===== *)
theory Spec2Isabelle
  imports Json_Sessions Json_Grammar Json_Shape_Runs Ans Fixed_Queue
begin

text \<open>
  A verification development for scomp, a C library that compresses streams with an adaptive
  arithmetic coder (\<open>src/src\<close> of the repository; every source file is included into one
  translation unit).

  Conventions.  Each theory models one or a few source files; a definition carries the name of the
  C function it models, without a leading underscore.  A function that takes a pointer to a
  structure takes the structure and returns it changed, together with the context when the
  structure keeps a pointer to it.  An \<open>assert\<close>, an access outside an array, a read of a cell
  never written and a loop that does not end are \<open>None\<close>; every other result is \<open>Some\<close>.  Loops are
  recursive functions: over a counter where the C loop counts, \<open>partial_function (option)\<close> where
  it ends on a condition, and then the theorems prove that it does end.  \<open>uint64\<close> is \<open>64 word\<close>
  and wraps, \<open>int64\<close> is \<open>int\<close>.  The allocator of the client is a parameter \<open>M\<close> of the context.

  Theories, in import order, with the source files they model:
    Prelude (assertions, arrays, narrowing); Math_Bits (math.c); Context (arena.c, context.c);
    Fifo (the queue contract), Fixed_Queue (fixed_queue.c); Fenwick_Tree (fenwick_tree.c); Acod_Constants, Frequency_Table (constants.c,
    frequency_table.c); Symbol_Search (the binary search of decoder.c, as a client of the table's
    interface); Acod_State (arithmetic_coding_base.c);
    Growing_Queue (queue.c); Buffers (buffer.c); Writer, Reader (writer.c, reader.c);
    Acod_Spec (a reference coder on natural numbers and bit lists); Encoder, Decoder (encoder.c,
    decoder.c); Codec (what every user of the coder shares, as a contract); Uint_Codec
    (uint_freq_tables.c, uint_writer.c, uint_reader.c); Ring_Buffer, Hash_Chain,
    Byte_Stream_Matcher (files of the same names); String_Base, String_Compressor,
    String_Decompressor (string_compression/); Sessions (whole runs from a fresh context);
    Stacks (fixed_stack.c, stack.c); Json_Base, Json_State_Machine (json/json_base.c,
    json_state_machine.c); Json_Grammar (the language that machine accepts); Utf8 (utf8.c);
    Json_Text (the text of a token), Json_Detokenizer, Json_Tokenizer (files of the same names),
    Json_Lexing (what the tokenizer does); Json_Compression_Base (json_compression_base.c),
    Json_Codec (how a token's kind and payload travel), Json_Stream (what a compressed JSON text
    is, apart from the programs), Json_Compressor, Json_Decompressor (files of the same names),
    Json_Sessions (their whole runs); Fixed_Array_List, Lru_Queue, Lm_Queue, Fixed_Pool
    (files of the same names), Json_Shapes (json_shapes_repository.c), Json_Shape_Invariant,
    Json_Shape_Runs (what the repository keeps, over one token and over many); Ans
    (asymmetrical_numeric_system/ans_encoder.c).

  How the parts meet.  \<open>fifo_queue\<close> is what the writer and the reader need of a queue,
  \<open>symbol_table\<close> what the search needs of a frequency table, \<open>bit_sink\<close> and \<open>bit_source\<close> what the
  coder needs of writer and reader, \<open>symbol_codec\<close> what a stream of values needs of its codec;
  each is interpreted on the model of the code in the theory that provides it.  \<open>unbounded_fifo\<close>
  and \<open>bounded_fifo\<close> make the queue contract exact, without and with a capacity, \<open>bounded_lifo\<close>
  is the same for a stack, \<open>entry_list\<close> and \<open>bounded_recency\<close> are what a cache needs of
  a linked list and of a recency queue.

  The reference coder.  A \<open>script\<close> is a list of symbols, each with the frequency list in force
  when it is coded.  \<open>whole\<close> maps a script to the bits an exact arithmetic coder emits;
  \<open>encoder_holds\<close> relates the running encoder to the script coded so far, \<open>decoder_ready\<close> the
  running decoder to the script still to come.  Both are preserved by every operation.

  The JSON stream.  \<open>coded x script bytes y\<close> says that a script leads from one place of a stream
  (tables, history, parser stack) to another and stands for some text; \<open>compressing\<close> and
  \<open>decompressing\<close> relate the two programs to a place, and each of their steps keeps the relation.
  \<open>tokenizes\<close> is one answer of \<open>json_tokenizer_parse_next\<close>, \<open>lexes\<close> a run of answers, and \<open>consumed\<close>
  says which bytes of an input such a run takes before it meets the end or a token it refuses.
  The round trip is about a text in one buffer, because restoring a snapshot across buffers is
  broken (reader.c), and about texts in which no fraction of \<open>2 ^ 16\<close> or more stands after a point
  (\<open>short_fractions\<close>), because such a number aborts the compressor; the tokenizer's own theorem
  has the first restriction too.

  UTF-8.  \<open>utf8_rfc3629\<close> is the RFC's grammar, \<open>utf8_unchecked\<close> what the code lets through beyond it.
  The reference encoder \<open>utf8_encode\<close> is defined on every number below \<open>110000\<close> (hexadecimal);
  the grammar is its image on the scalar values, surrogates left out.

  Linked lists and pools.  A list entry is named by its array's address and its index, a pool item
  by its byte address; \<open>segment\<close> says that the links between two places run through given entries.
  A pointer from a shape back into a token is an index into a list of token references, which the
  repository's operations take and return.  \<open>jsr_state\<close> is the repository's invariant: which slots
  are free, which shapes are in progress, which are cached, and that all their pointers lead to
  shapes or tokens.

  The number coder.  \<open>ans_code\<close> gives the bits and the state of a block on natural numbers;
  \<open>ans_table t fs\<close> says the table \<open>t\<close> holds the frequencies \<open>fs\<close>.

  Bounds.  The coder is proved for frequency totals up to \<open>2 ^ 29\<close> (\<open>codable\<close>), scripts below
  \<open>2 ^ 56\<close> symbols, texts below \<open>2 ^ 28\<close> bytes, JSON texts
  below \<open>2 ^ 27\<close>.  \<open>ACOD_MAX_TOTAL\<close> itself is \<open>2 ^ 30 + 2\<close>; between the
  two the assertion on the narrowed interval can fail for a symbol of frequency one.  The shapes
  repository is proved safe for up to 254 objects; with 256 different ones it aborts, because its
  cache overflows.  It needs 1634304 bytes of the arena.  Shifts that set a queue's size
  are taken below 31, where C's \<open>1 << shift\<close> does not overflow.

  Not modelled: commons.c (integer types and compiler macros; the types are those of the Prelude),
  \<open>context_free\<close> and \<open>buffer_free\<close> (freeing memory changes no state a later operation reads), and
  the MSVC variant of \<open>most_significant_bit_index\<close>, which computes the same value.  Modelled without
  a round trip: \<open>ans_encoder_write_block\<close> with \<open>is_incrementing_ftable\<close>, which the source itself lists
  as unfinished.  The value \<open>id_counter\<close> gets from two unordered writes is the parameter \<open>bumped\<close>.
\<close>

section \<open>Whole runs\<close>

text \<open>
  C1: a text compressed by the string compressor in one context and decompressed in another comes
  back byte for byte, and neither side ends with an error.
\<close>

theorem string_round_trip:
  assumes "well_behaved M" and "well_behaved M'" and "length txt < 2 ^ 28"
  shows "\<exists>r c r' c'. compress_text M txt = Some (r, c) \<and> \<not> is_error r \<and> \<not> context_is_errored c \<and>
     decompress_text M' (result_buffer r) = Some (r', c') \<and> \<not> is_error r' \<and>
     \<not> context_is_errored c' \<and> buf_data (result_buffer r') = txt \<and>
     buf_length (result_buffer r') = int (length txt)"
proof -
  from compress_run [OF assms(1,3)] obtain r c its where
    z: "compress_text M txt = Some (r, c)"
      "sealed M r c (it.list_script string_fresh (its @ [End_Of_String]))" "expand zeroes its = txt"
      "End_Of_String \<notin> set its" "it.accepts_list string_fresh (its @ [End_Of_String])" by blast
  from decompress_run [OF assms(2) z(2,4,5)] z(3) assms(3) obtain r' c' where
    "decompress_text M' (result_buffer r) = Some (r', c')" "ctx_ok M' c'" "\<not> is_error r'"
    "buf_data (result_buffer r') = txt" "buf_length (result_buffer r') = int (length txt)" by auto
  with z(1) sealed_no_error [OF z(2)] ctx_ok_no_error well_behavedD assms(1,2) show ?thesis by blast
qed

lemma string_round_trip_witness:
  "\<exists>r c r' c'. compress_text lavish [97, 98, 97] = Some (r, c) \<and> \<not> is_error r \<and>
     decompress_text lavish (result_buffer r) = Some (r', c') \<and> buf_data (result_buffer r') = [97, 98, 97]"
  using string_round_trip [of lavish lavish "[97, 98, 97]"] by auto

text \<open>
  C2 (round trip): take a JSON text that arrives in one buffer, is shorter than \<open>2 ^ 27 - 2\<close> bytes and
  has no decimal point followed by a number of \<open>2 ^ 16\<close> or more (\<open>short_fractions\<close>: such a fraction
  runs outside a table, see below).  It is compressed without an abort or an error; what comes back,
  byte for byte, are the bytes of the tokens the tokenizer answered, one after the other, before it
  had no more input or refused the next token.  Unfinished strings and documents cut short are included.
\<close>

theorem json_round_trip:
  assumes "well_behaved M" and "well_behaved M'" and "readable b" and "length (buffer_bytes b) < 2 ^ 27 - 2"
    and "short_fractions (buffer_bytes b)"
  shows "\<exists>r c taken rest r' c'. compress_json M b = Some (r, c) \<and> \<not> is_error r \<and> \<not> context_is_errored c \<and>
     consumed (buffer_bytes b) taken rest \<and>
     decompress_json M' (result_buffer r) = Some (r', c') \<and> \<not> is_error r' \<and> \<not> context_is_errored c' \<and>
     buf_data (result_buffer r') = taken \<and> buf_length (result_buffer r') = int (length taken)"
proof -
  from compress_json_run [OF assms(1,3-5)] obtain r c script taken rest where
    r: "compress_json M b = Some (r, c)" "sealed M r c script" "finished json_start script taken"
      "consumed (buffer_bytes b) taken rest" by blast
  have "length taken \<le> length (buffer_bytes b)" using r(4) by (auto simp: consumed_def)
  then have "length taken < 2 ^ 59" using assms(4) by simp
  from decompress_json_run [OF assms(2) r(2,3) this] r(1,4) sealed_no_error [OF r(2)]
    ctx_ok_no_error [of M'] well_behavedD [OF assms(1)] well_behavedD [OF assms(2)]
  show ?thesis by blast
qed

lemma json_round_trip_witness:
  "\<exists>b r c r' c'. buffer_bytes b = chrs ''[1.5]'' \<and> compress_json lavish b = Some (r, c) \<and> \<not> is_error r \<and>
     decompress_json lavish (result_buffer r) = Some (r', c') \<and> \<not> context_is_errored c'"
proof -
  define b where "b = \<lparr>buf_data = chrs ''[1.5]'', buf_length = 5, allocated_length = 5\<rparr>"
  have b: "readable b" "buffer_bytes b = chrs ''[1.5]''"
    by (simp_all add: b_def readable_def buffer_bytes_def chrs_def)
  have "short_fractions (buffer_bytes b)"
    by (simp add: b(2) chrs_def chr_def is_digit_def decimal_value_def word_le_nat_alt)
  with json_round_trip [OF _ _ b(1), of lavish lavish] b(2) show ?thesis by (auto simp: chrs_def)
qed

text \<open>
  C3: symbols coded by the adaptive arithmetic encoder are decoded from the bytes it leaves,
  through writer, buffer and reader, for every table size and every input the coder has room for.
\<close>

theorem symbols_round_trip:
  assumes "well_behaved M" and "well_behaved M'" and "n < 32767" and "length syms \<le> 2 ^ 28"
    and "\<forall>s\<in>set syms. 0 \<le> s \<and> s < int n"
  shows "\<exists>r c c'. encode_symbols M n syms = Some (r, c) \<and> \<not> is_error r \<and> \<not> context_is_errored c \<and>
     decode_symbols M' n (length syms) (result_buffer r) = Some (syms, c') \<and> \<not> context_is_errored c'"
  using assms by (rule symbols_run)

lemma symbols_round_trip_witness:
  "\<exists>r c c'. encode_symbols lavish 3 [2, 0, 2, 1] = Some (r, c) \<and>
     decode_symbols lavish 3 (length [2, 0, 2, 1 :: int]) (result_buffer r) = Some ([2, 0, 2, 1], c')"
  using symbols_round_trip [of lavish lavish 3 "[2, 0, 2, 1]"] by auto

text \<open>
  C4: unsigned integers coded in groups of four bits come back, for every value whose number of
  groups has a symbol in the length table.
\<close>

theorem uints_round_trip:
  assumes "well_behaved M" and "well_behaved M'" and "length vs \<le> 2 ^ 28"
    and "\<forall>v\<in>set vs. group_count v < uint_symbols max_value"
  shows "\<exists>r c c'. encode_uints M max_value vs = Some (r, c) \<and> \<not> is_error r \<and> \<not> context_is_errored c \<and>
     decode_uints M' max_value (length vs) (result_buffer r) = Some (vs, c') \<and> \<not> context_is_errored c'"
  using assms by (rule uints_run)

lemma uints_round_trip_witness:
  "\<exists>r c c'. encode_uints lavish 65536 [0, 7, 40000] = Some (r, c) \<and>
     decode_uints lavish 65536 (length [0, 7, 40000 :: u64]) (result_buffer r) = Some ([0, 7, 40000], c')"
proof -
  have "group_count v < uint_symbols 65536" if "unat v < 65536" for v
    using group_count_le [of v 4] that uint_symbols_values by simp
  then show ?thesis using uints_round_trip [of lavish lavish "[0, 7, 40000]" 65536] by auto
qed

text \<open>
  C5: bits written one by one into a fresh writer, whatever their number, are read back from the
  buffer it hands out.
\<close>

theorem bits_round_trip:
  assumes "well_behaved M" and "well_behaved M'" and "bits \<noteq> []" and "length bits < 2 ^ 62"
  shows "\<exists>r c c'. write_bits M bits = Some (r, c) \<and> \<not> is_error r \<and> \<not> context_is_errored c \<and>
     read_bits M' (length bits) (result_buffer r) = Some (map of_bool bits, c') \<and> \<not> context_is_errored c'"
  using assms by (rule bits_run)

lemma bits_round_trip_witness:
  "\<exists>r c c'. write_bits lavish [True, False, True] = Some (r, c) \<and>
     read_bits lavish (length [True, False, True]) (result_buffer r) = Some ([1, 0, 1], c')"
  using bits_round_trip [of lavish lavish "[True, False, True]"] by auto

section \<open>Arithmetic coding\<close>

text \<open>
  C6 (refinement): one \<open>acod_encoder_write\<close> extends the encoded script by its symbol.  The
  state \<open>encoder_holds\<close> fixes the bits that any continuation will produce, so the pending
  underflow bits and the interval are exactly those of the reference coder \<open>whole\<close>.
\<close>

theorem encoder_write_refines:
  assumes "encoder_holds M e c script" and "ftable_repr t fs" and "codable (fs, s)"
    and "length script < 2 ^ 58"
  shows "\<exists>e' c'. acod_encoder_write e c t (int s) = Some (e', c') \<and>
     encoder_holds M e' c' (script @ [(fs, s)])"
  using assms by (rule encoder_write_correct)

lemma encoder_write_refines_witness:
  "\<exists>t e c e' c'. acod_encoder_write e c t 1 = Some (e', c') \<and> encoder_holds lavish e' c' [([1, 1], 1)]"
proof -
  from fresh_encoder fresh_table obtain e c t where "encoder_holds lavish e c []" "ftable_repr t [1, 1]"
    by blast
  from encoder_write_refines [OF this, of 1] show ?thesis by (simp add: codable_def) blast
qed

text \<open>
  C7 (refinement): closing the encoder leaves in the writer exactly the reference encoding of the
  script, unless an allocation failed on the way.
\<close>

theorem encoder_close_refines:
  assumes "encoder_holds M e c script" and "length script < 2 ^ 58"
  shows "\<exists>w c'. acod_encoder_deinit e c = Some (w, c') \<and> writer_safe w \<and> ctx_ok M c' \<and>
     (\<not> context_is_errored c' \<longrightarrow> writer_bits w (whole script))"
  using encoder_deinit_correct [OF assms] by (auto simp: bw.offered_def)

lemma encoder_close_refines_witness:
  "\<exists>e c w c'. acod_encoder_deinit e c = Some (w, c') \<and> writer_bits w (whole [])"
proof -
  from fresh_encoder obtain e c where "encoder_holds lavish e c []" by blast
  from encoder_close_refines [OF this] show ?thesis using ctx_ok_no_error [of lavish] by auto
qed

text \<open>
  C8 (refinement): a decoder that stands before a symbol of a script returns it, consumes exactly
  its share of the bits and stands before the rest.
\<close>

theorem decoder_read_refines:
  assumes "decoder_ready d ((fs, s) # script)" and "ftable_repr t fs"
  shows "\<exists>d'. acod_decoder_read d c t = Some (int s, d', c) \<and> decoder_ready d' script"
  using assms by (rule decoder_read_correct)

lemma decoder_read_refines_witness:
  "\<exists>d c t d'. acod_decoder_read d c t = Some (1, d', c) \<and> decoder_ready d' []"
proof -
  from fresh_encoder fresh_table obtain e c t where
    e: "encoder_holds lavish e c []" and t: "ftable_repr t [1, 1]" by blast
  have cod: "codable ([1, 1], 1)" by (simp add: codable_def)
  from encoder_write_correct [OF e t cod] obtain e1 c1 where
    e1: "encoder_holds lavish e1 c1 [([1, 1], 1)]" by auto
  from seal_seals [OF e1] cod obtain r c2 where "sealed lavish r c2 [([1, 1], 1)]" by auto
  with open_sealed fresh_context obtain d where "decoder_ready d [([1, 1], 1)]"
    by (metis lavish_never_refuses)
  from decoder_read_refines [OF this t] show ?thesis by fastforce
qed

text \<open>
  C9 (bounds): after \<open>n\<close> symbols coded under one adaptive table with room for them, and while no
  allocation is refused, the encoder has written, and still owes
  as underflow bits, at most \<open>64 n\<close> bits, so its counters cannot overflow; the closed stream is at
  most \<open>8 n + 1\<close> bytes long.
\<close>

theorem encoding_length_bound:
  assumes "ftable_repr t fs" and "roomy fs (length syms)" and "\<forall>s\<in>set syms. 0 \<le> s \<and> s < int (length fs)"
    and "writer_repr w [] []" and "ctx_ok M c" and "never_refuses M"
  shows "\<exists>t' e c' bits r c''. sym.encode_list t (acod_encoder_init w) c syms = Some (t', e, c') \<and>
     writer_bits (enc_writer e) bits \<and> length bits + unat (underflows e) \<le> 64 * length syms \<and>
     seal e c' = Some (r, c'') \<and> \<not> is_error r \<and> buf_length (result_buffer r) \<le> 8 * int (length syms) + 1"
  using assms by (rule encoded_length)

lemma encoding_length_bound_witness:
  "\<exists>t w c t' e c' bits. sym.encode_list t (acod_encoder_init w) c [1, 0, 1] = Some (t', e, c') \<and>
     writer_bits (enc_writer e) bits \<and> length bits + unat (underflows e) \<le> 192"
proof -
  from fresh_table obtain t where t: "ftable_repr t [1, 1]" by blast
  from fresh_writer obtain w c where w: "writer_repr w [] []" "ctx_ok lavish c" by blast
  have "roomy [1, 1] (length [1, 0, 1 :: int])" by (simp add: roomy_def)
  from encoding_length_bound [OF t this _ w lavish_never_refuses] obtain t' e c' bits where
    "sym.encode_list t (acod_encoder_init w) c [1, 0, 1] = Some (t', e, c')"
    "writer_bits (enc_writer e) bits" "length bits + unat (underflows e) \<le> 192"
    by (auto simp del: sym.encode_list.simps)
  then show ?thesis by blast
qed

text \<open>
  C10: the binary search of the decoder returns the one symbol whose cumulative interval contains
  the wanted value.
\<close>

theorem symbol_search_unique:
  assumes "ftable_repr t fs" and "unat v < sum_list fs"
  shows "\<exists>!s. s < length fs \<and> cum fs s \<le> unat v \<and> unat v < cum fs (Suc s) \<and>
     symbol_search_loop (ftable_get_low t) v 0 (ftable_get_symbol_limit t) = Some (int s)"
proof -
  from freq.search_finds [OF assms] obtain s where "s < length fs"
    "symbol_search_loop (ftable_get_low t) v 0 (ftable_get_symbol_limit t) = Some (int s)"
    "cum fs s \<le> unat v" "unat v < cum fs (Suc s)" by blast
  then show ?thesis by (intro ex1I [of _ s]) auto
qed

lemma symbol_search_unique_witness:
  "\<exists>t s. symbol_search_loop (ftable_get_low t) 1 0 (ftable_get_symbol_limit t) = Some (int s)"
proof -
  from fresh_table obtain t where "ftable_repr t [1, 1]" by blast
  from symbol_search_unique [OF this, of 1] show ?thesis by auto
qed

section \<open>Frequencies\<close>

text \<open>
  C11 (bounds): counting a symbol never fails, keeps positive frequencies positive, and keeps the
  total below the limit the coder's arithmetic needs; below the limit it adds one to one entry.
\<close>

theorem ftable_increment_bounded:
  assumes "ftable_repr t fs" and "0 \<le> s" and "s < int (length fs)"
  shows "\<exists>t' gs. ftable_increment t s = Some t' \<and> ftable_repr t' gs \<and> length gs = length fs \<and>
     unat (total t') \<le> 2 ^ 30 + 2 \<and> ((\<forall>f\<in>set fs. 0 < f) \<longrightarrow> (\<forall>f\<in>set gs. 0 < f)) \<and>
     (unat (total t) < 2 ^ 30 + 2 \<longrightarrow> gs = fs[nat s := fs ! nat s + 1])"
proof -
  from ftable_increment_correct [OF assms] obtain t' where
    t': "ftable_increment t s = Some t'" "ftable_repr t' (bump fs (nat s))" by blast
  have n: "nat s < length fs" "length fs < 2 ^ 30 + 2"
    using assms by (auto simp: ftable_repr_def)
  have "unat (total t') \<le> 2 ^ 30 + 2"
    using ftable_unat_total [OF t'(2)] sum_list_bump [OF n(1)] halve_until_below [OF n(2)] by simp
  moreover have "length (bump fs (nat s)) = length fs" by (simp add: bump_def Let_def)
  ultimately show ?thesis
    using t' bump_positive [of fs "nat s"] bump_small [of fs "nat s"] ftable_unat_total [OF assms(1)] by auto
qed

lemma ftable_increment_bounded_witness:
  "\<exists>t t'. ftable_increment t 1 = Some t' \<and> ftable_repr t' [1, 2]"
proof -
  from fresh_table obtain t where t: "ftable_repr t [1, 1]" by blast
  from ftable_increment_bounded [OF t, of 1] ftable_unat_total [OF t] show ?thesis
    by (auto simp: numeral_2_eq_2)
qed

text \<open>
  C12 (equivalence): the Fenwick tree answers range sums, single frequencies and prefix sums of
  the plain list of frequencies it stands for, and an addition is an addition to one entry.
\<close>

theorem fenwick_is_list:
  assumes "ftree_repr t fs" and "0 \<le> a" and "a \<le> b" and "b < int (length fs)"
  shows "ftree_sum t b = Some (\<Sum>k<Suc (nat b). fs ! k) \<and>
     ftree_range_sum t a b = Some ((\<Sum>k<Suc (nat b). fs ! k) - (\<Sum>k<nat a. fs ! k)) \<and>
     ftree_get t a = Some (fs ! nat a) \<and>
     (\<exists>t'. ftree_add t a d = Some t' \<and> ftree_repr t' (fs[nat a := fs ! nat a + d]))"
proof -
  have "nat (b + 1) = Suc (nat b)" using assms by simp
  then show ?thesis using assms ftree_sum_correct [of t fs b] ftree_range_sum_correct [of t fs a b]
      ftree_get_correct [of t fs a] ftree_add_correct [of t fs a d]
    by (auto simp: prefix_sum_def atLeast0LessThan lessThan_Suc)
qed

lemma fenwick_is_list_witness:
  "ftree_sum \<lparr>ftree_size = 3, ftree_data = [Some 0, Some 5, Some 12]\<rparr> 1 = Some 12"
proof -
  have e: "node_sum [5, 7] j = [0, 5, 12] ! j" if "0 < j" "j \<le> 2" for j
  proof -
    have "j = 1 \<or> j = 2" using that by auto
    then show ?thesis by (auto simp: node_sum_def lb_def eval_nat_numeral)
  qed
  have "ftree_repr \<lparr>ftree_size = 3, ftree_data = [Some 0, Some 5, Some 12]\<rparr> [5, 7]"
    unfolding ftree_repr_def using e by (auto intro!: exI [of _ "[0, 5, 12]"])
  from fenwick_is_list [OF this, of 0 1] show ?thesis by (simp add: eval_nat_numeral)
qed

section \<open>Asymmetric numeral systems\<close>

text \<open>
  C13 (round trip): a block of symbols of positive frequency, coded over a fixed table, is read back
  from its bits in reverse order, whatever follows them; the decoder ends at the state the encoder
  started from.
\<close>

theorem ans_round_trip:
  assumes "ans_table t fs" and "\<forall>s\<in>set ss. ans_symbol fs s" and "ss \<noteq> []"
    and "writer_repr w [] []" and "ctx_ok M c" and "never_refuses M"
  shows "\<exists>state e' c' bits. ans_encoder_write_block (ans_encoder_init w) c (map int ss) (int (length ss)) t False =
       Some (state, e', t, c') \<and> writer_bits (ans_writer e') bits \<and> \<not> context_is_errored c' \<and>
     (\<forall>r rest c''. reader_bits r (rev bits @ rest) \<longrightarrow>
        (\<exists>r'. ans_read_all (length ss) (ans_decoder_init r\<lparr>ans_state := state\<rparr>) c'' t =
           Some (map int ss, \<lparr>ans_reader = r', ans_state = ftable_get_total t\<rparr>, c'') \<and> reader_bits r' rest))"
proof -
  from ans_block_round_trip [OF assms(1-3) writer_repr_offered [OF assms(4,5)]] obtain state e' c' bits where
    r: "ans_encoder_write_block (ans_encoder_init w) c (map int ss) (int (length ss)) t False = Some (state, e', t, c')"
    "bw.offered M (ans_writer e') c' bits"
    "\<forall>r rest c''. reader_bits r (rev bits @ rest) \<longrightarrow>
        (\<exists>r'. ans_read_all (length ss) (ans_decoder_init r\<lparr>ans_state := state\<rparr>) c'' t =
           Some (map int ss, \<lparr>ans_reader = r', ans_state = ftable_get_total t\<rparr>, c'') \<and> reader_bits r' rest)" by blast
  have "\<not> context_is_errored c'" using r(2) ctx_ok_no_error assms(6) by (auto simp: bw.offered_def)
  then show ?thesis using r by (auto simp: bw.offered_def)
qed

lemma ans_round_trip_witness:
  "\<exists>t w c state e' c'. ans_encoder_write_block (ans_encoder_init w) c [1, 0] 2 t False = Some (state, e', t, c') \<and>
     \<not> context_is_errored c'"
proof -
  from fresh_table obtain t where "ftable_repr t [1, 1]" by blast
  then have t: "ans_table t [1, 1]" by (simp add: ans_table_def)
  from fresh_writer obtain w c where w: "writer_repr w [] []" "ctx_ok lavish c" by blast
  have "\<forall>s\<in>set [1, 0]. ans_symbol [1, 1] s" by (simp add: ans_symbol_def)
  from ans_round_trip [OF t this _ w] well_behavedD [OF lavish_well_behaved] obtain state e' c' where
    "ans_encoder_write_block (ans_encoder_init w) c [1, 0] 2 t False = Some (state, e', t, c')"
    "\<not> context_is_errored c'" by auto
  then show ?thesis by blast
qed

text \<open>
  C14 (termination): from a state of at least the total the decoder returns on any input, the end of
  the data and beyond included, with symbols of the table; each read leaves such a state.
\<close>

theorem ans_decoder_returns:
  assumes "ans_table t fs" and "reader_bits (ans_reader d) bits" and "ftable_get_total t \<le> ans_state d"
  shows "(\<exists>ss d' c'. ans_read_all k d c t = Some (map int ss, d', c') \<and> length ss = k \<and>
       (\<forall>s\<in>set ss. s < length fs \<and> 0 < fs ! s)) \<and>
     (\<exists>s d' c'. ans_decoder_read d c t = Some (s, d', c') \<and> ftable_get_total t \<le> ans_state d')"
  using ans_read_all_any [OF assms, of k c] ans_decoder_read_any [OF assms, of c]
  unfolding ans_symbol_def by blast

lemma ans_decoder_returns_witness:
  "\<exists>t r ss d' c'. reader_bits r (byte_bits 0) \<and>
     ans_read_all 100 \<lparr>ans_reader = r, ans_state = 3\<rparr> context_zero t = Some (ss, d', c') \<and> length ss = 100"
proof -
  from fresh_table obtain t where "ftable_repr t [1, 1]" by blast
  then have t: "ans_table t [1, 1]" by (simp add: ans_table_def)
  from fresh_reader [of "[0]"] obtain r where "at_last r [0]" by auto
  then have r: "reader_bits r (byte_bits 0)" using reader_bytes_bits [OF at_last_bytes] by fastforce
  have "ftable_get_total t = 2" using ans_tableD(4) [OF t] by simp
  then have "ftable_get_total t \<le> ans_state \<lparr>ans_reader = r, ans_state = 3\<rparr>" by (simp add: word_le_nat_alt)
  with ans_decoder_returns [OF t, of "\<lparr>ans_reader = r, ans_state = 3\<rparr>" "byte_bits 0" 100 context_zero] r
  obtain ss d' c' where "ans_read_all 100 \<lparr>ans_reader = r, ans_state = 3\<rparr> context_zero t = Some (map int ss, d', c')"
    "length ss = 100" by auto
  with r show ?thesis
    by (intro exI [of _ t] exI [of _ r] exI [of _ "map int ss"] exI [of _ d'] exI [of _ c']) simp
qed

section \<open>Strings\<close>

text \<open>
  C15: the match finder returns a true match: the bytes at the reported distance in the history
  are the first bytes waiting in the input buffer, and the match does not reach past either.
\<close>

theorem bsm_match_sound:
  assumes "bsm_repr m hist" and "ring_hist source 12 S" and "4 \<le> n" and "n < 4096"
  shows "\<exists>off len. bsm_find_match m source (int ((length S - n) mod 2 ^ 12)) =
       Some \<lparr>match_offset = int off, match_length = int len\<rparr> \<and> len \<le> off \<and> off < 65536 \<and> len \<le> n \<and>
     take len (back_bytes hist off) = take len (back_bytes S n)"
proof -
  have "length (back_bytes S n) = n"
    using assms(2,4) by (auto simp: ring_hist_def length_back_bytes)
  with bsm_find_match_correct [OF assms] show ?thesis by (auto simp: good_match_def)
qed

lemma bsm_match_sound_witness:
  "\<exists>m source x. bsm_find_match m source 4092 = Some x"
proof -
  from fresh_context obtain c where c: "arena_free c = 33554432" by blast
  from bsm_init_correct [of c] c obtain m where m: "bsm_repr m zeroes" by (auto simp: zeroes_def)
  from ring_buffer_init_correct [of 12 c] c obtain rb where rb: "ring_hist rb 12 (replicate 4096 0)" by auto
  from bsm_match_sound [OF m rb, of 4] show ?thesis by auto
qed

text \<open>
  C16 (refinement): whatever matches the compressor chooses, the stream it seals stands for a
  list of items that expands to the text, one end mark last.
\<close>

theorem compressor_refines_items:
  assumes "well_behaved M" and "length txt < 2 ^ 28"
  shows "\<exists>r c its. compress_text M txt = Some (r, c) \<and> \<not> is_error r \<and>
     stands_for_script (buf_data (result_buffer r))
       (it.list_script string_fresh (its @ [End_Of_String])) \<and>
     expand (replicate 65536 0) its = txt \<and> End_Of_String \<notin> set its \<and> length its \<le> length txt"
  using compress_run [OF assms] by (auto simp: sealed_def zeroes_def)

lemma compressor_refines_items_witness:
  "\<exists>r c its. compress_text lavish [1, 2] = Some (r, c) \<and> expand (replicate 65536 0) its = [1, 2]"
  using compressor_refines_items [of lavish "[1, 2]"] by auto

text \<open>C17 (bounds): compressed output is at most 280 bytes per input byte, plus 281.\<close>

theorem compressed_size_bound:
  assumes "well_behaved M" and "length txt < 2 ^ 28"
  shows "\<exists>r c. compress_text M txt = Some (r, c) \<and>
     buf_length (result_buffer r) \<le> 280 * int (length txt) + 281"
proof -
  from compress_run [OF assms] obtain r c its where z: "compress_text M txt = Some (r, c)"
    "sealed M r c (it.list_script string_fresh (its @ [End_Of_String]))" "length its \<le> length txt" by blast
  define sc where "sc = it.list_script string_fresh (its @ [End_Of_String])"
  from z(2) obtain pad where b: "bytes_bits (buf_data (result_buffer r)) = whole sc @ replicate pad False"
    "pad < 8" "\<forall>p\<in>set sc. codable p" "buf_length (result_buffer r) = int (length (buf_data (result_buffer r)))"
    by (auto simp: sealed_def stands_for_script_def sc_def)
  have "length sc \<le> 35 * (length its + 1)"
    using string_script_length [of string_fresh "its @ [End_Of_String]"] by (simp add: sc_def)
  with whole_length [OF b(3)] z(3) have "length (whole sc) \<le> 2240 * (length txt + 1) + 2" by simp
  moreover have "8 * length (buf_data (result_buffer r)) = length (whole sc) + pad"
    using arg_cong [OF b(1), of length] by simp
  ultimately have "length (buf_data (result_buffer r)) \<le> 280 * length txt + 281" using b(2) by simp
  then show ?thesis using z(1) b(4) by auto
qed

lemma compressed_size_bound_witness:
  "\<exists>r c. compress_text lavish [] = Some (r, c) \<and> buf_length (result_buffer r) \<le> 281"
  using compressed_size_bound [of lavish "[]"] by simp

text \<open>
  C18: an integer with more groups than the length table has symbols cannot be written: the
  encoder runs outside the table.  With \<open>uint_freq_tables_init\<close> this is so for \<open>max_value\<close>
  itself whenever its highest bit has an index divisible by four.
\<close>

theorem uint_max_value_refused:
  assumes "most_significant_bit_index max_value = int (4 * k)" and "uint_freq_tables_init c max_value = Some (t, c')"
    and "900 < arena_free c"
  shows "uint_writer_write t e c'' max_value = None"
proof -
  from uint_freq_tables_init_correct [OF assms(3), of max_value] assms(2)
  have "uint_repr t (uint_fresh max_value)" by auto
  then show ?thesis by (rule uint_write_too_long) (simp add: uint_symbols_short [OF assms(1)])
qed

lemma uint_max_value_refused_witness: "\<exists>t. \<forall>e c. uint_writer_write t e c 16 = None"
proof -
  have "most_significant_bit_index 16 = int (4 * 1)" using msb_index_power [of 16 4] by simp
  moreover obtain c where "900 < arena_free c" using fresh_room by fastforce
  moreover from uint_freq_tables_init_correct [OF this, of 16] obtain t c' where
    "uint_freq_tables_init c 16 = Some (t, c')" by blast
  ultimately show ?thesis using uint_max_value_refused by blast
qed

section \<open>Data structures\<close>

text \<open>
  C19 (refinement): while the allocator grants what it is asked for, any run of pushes and pops on
  the growing queue does exactly what a list does, through every growth and wrap-around, and aborts
  only where the list is empty.  Whatever the allocator does, a run that returns is one of the list,
  and a push never aborts: it adds the item, or it is refused, which happens only when the ring is
  full and the allocator refuses a larger one, changes nothing and leaves an error.
\<close>

theorem queue_refines_list:
  assumes "queue_repr (q :: 'a queue) xs" and "ctx_ok M c"
  shows "(never_refuses M \<longrightarrow> (case run_list ops xs of
        None \<Rightarrow> run_queue queue_push_step queue_pop_step ops (q, c) = None
      | Some (out, ys) \<Rightarrow> \<exists>q' c'. run_queue queue_push_step queue_pop_step ops (q, c) = Some (out, q', c') \<and>
          queue_repr q' ys \<and> \<not> context_is_errored c')) \<and>
    (\<forall>out q' c'. run_queue queue_push_step queue_pop_step ops (q, c) = Some (out, q', c') \<longrightarrow>
        (\<exists>ys. run_list ops xs = Some (out, ys) \<and> queue_repr q' ys)) \<and>
    (\<exists>ok q' c'. queue_push x q c = Some (ok, q', c') \<and>
      (if ok then queue_repr q' (xs @ [x]) \<and> ctx_error c' = ctx_error c
       else q' = q \<and> context_is_errored c' \<and> int (length xs) = queue_length q - 1 \<and>
         fst (context_allocate c (word_of_int (queue_length q * 2)) (q_value_size q)) = None))"
proof (intro conjI impI allI)
  assume nr: "never_refuses M"
  have "queue_holds M (q, c) xs" using assms nr by (simp add: queue_holds_def)
  from gq.run_agrees [OF this, of ops] show "case run_list ops xs of
        None \<Rightarrow> run_queue queue_push_step queue_pop_step ops (q, c) = None
      | Some (out, ys) \<Rightarrow> \<exists>q' c'. run_queue queue_push_step queue_pop_step ops (q, c) = Some (out, q', c') \<and>
          queue_repr q' ys \<and> \<not> context_is_errored c'"
    using ctx_ok_no_error nr by (fastforce simp: queue_holds_def split: option.splits)
next
  fix out q' c'
  assume "run_queue queue_push_step queue_pop_step ops (q, c) = Some (out, q', c')"
  with gq_any.run_refines [of "(q, c)" xs ops out "(q', c')"] assms(1)
  show "\<exists>ys. run_list ops xs = Some (out, ys) \<and> queue_repr q' ys" by simp
next
  show "\<exists>ok q' c'. queue_push x q c = Some (ok, q', c') \<and>
      (if ok then queue_repr q' (xs @ [x]) \<and> ctx_error c' = ctx_error c
       else q' = q \<and> context_is_errored c' \<and> int (length xs) = queue_length q - 1 \<and>
         fst (context_allocate c (word_of_int (queue_length q * 2)) (q_value_size q)) = None)"
    using assms(1) by (rule queue_push_outcome)
qed

text \<open>Two cells to begin with: the run grows the ring and wraps around in it.\<close>

lemma queue_refines_list_witness:
  "\<exists>(q :: nat queue) c q' c'. queue_length q = 2 \<and>
     run_queue queue_push_step queue_pop_step
       [Push 7, Push 8, Push 9, Pop, Pop, Push 10, Push 11, Pop, Pop] (q, c) = Some ([7, 8, 9, 10], q', c') \<and>
     queue_repr q' [11] \<and> \<not> context_is_errored c'"
proof -
  from fresh_context obtain c where ok: "ctx_ok lavish c" by blast
  obtain okq q c0 where i: "queue_init c 8 1 = (okq, q :: nat queue, c0)" by (metis prod_cases3)
  from queue_init_cases [OF i ok] have c0: "ctx_ok lavish c0" by simp
  with queue_init_cases [OF i ok] ctx_ok_no_error [OF c0] have q: "queue_repr q []" okq by (auto split: if_splits)
  have two: "queue_length q = 2"
    using i q(2) by (auto simp: queue_init_def Let_def split: option.splits prod.splits)
  from queue_refines_list [OF q(1) c0, where
      ops = "[Push 7, Push 8, Push 9, Pop, Pop, Push 10, Push 11, Pop, Pop]" and x = 0]
  have "\<exists>q' c'. run_queue queue_push_step queue_pop_step
       [Push 7, Push 8, Push 9, Pop, Pop, Push 10, Push 11, Pop, Pop] (q, c0) = Some ([7, 8, 9, 10], q', c') \<and>
     queue_repr q' [11] \<and> \<not> context_is_errored c'" by simp
  with two show ?thesis by blast
qed

text \<open>
  C20: a ring buffer of \<open>2 ^ k\<close> bytes always returns the last \<open>2 ^ k\<close> bytes pushed, at any index
  congruent to their position.
\<close>

theorem ring_buffer_window:
  assumes "ring_hist rb k hist" and "0 < d" and "d \<le> 2 ^ k"
  shows "\<exists>rb'. ring_buffer_push rb b = Some rb' \<and> ring_hist rb' k (hist @ [b]) \<and>
     ring_buffer_get rb' (int (length (hist @ [b]) - d)) = Some ((hist @ [b]) ! (length (hist @ [b]) - d))"
proof -
  from ring_hist_push [OF assms(1), of b] obtain rb' where
    r: "ring_buffer_push rb b = Some rb'" "ring_hist rb' k (hist @ [b])" by blast
  have "d \<le> length hist" using assms(1,3) by (simp add: ring_hist_def)
  with ring_hist_get [OF r(2), of "length (hist @ [b]) - d" "int (length (hist @ [b]) - d)"] assms(2,3) r
  show ?thesis by auto
qed

lemma ring_buffer_window_witness:
  "\<exists>rb rb'. ring_buffer_push rb 9 = Some rb' \<and> ring_buffer_get rb' 4 = Some 9"
proof -
  obtain c where "2 ^ 2 < arena_free c" using fresh_room by fastforce
  from ring_buffer_init_correct [OF this] obtain rb where "ring_hist rb 2 (replicate (2 ^ 2) 0)" by blast
  from ring_buffer_window [OF this, of 1 9] show ?thesis by (auto simp: nth_append)
qed

text \<open>
  C21: a reader returns to a snapshot taken in the buffer it is still in, with every bit that was
  available then available again.
\<close>

theorem reader_snapshot_restores:
  assumes "reader_at r ex cur fut i" and "\<not> is_at_initial_buffer r"
    and "reader_at r' ex cur fut j" and "\<not> is_at_initial_buffer r'"
  shows "\<exists>r''. reader_restore_snapshot r' (reader_take_snapshot r) = Some r'' \<and> reader_at r'' ex cur fut i \<and>
     reader_get_bits_available r'' = reader_get_bits_available r"
proof -
  from reader_restore_same_buffer [OF assms] obtain r'' where
    "reader_restore_snapshot r' (reader_take_snapshot r) = Some r''" "reader_at r'' ex cur fut i" by blast
  with assms(1) show ?thesis by (auto simp: reader_at_def reader_get_bits_available_def)
qed

lemma reader_snapshot_restores_witness:
  "\<exists>r r' r''. reader_restore_snapshot r' (reader_take_snapshot r) = Some r'' \<and> r \<noteq> r' \<and>
     reader_get_bits_available r'' = 8"
proof -
  define b where "b = buffer_make [42] 1 1"
  define q where "q = \<lparr>q_value_size = 24, q_values = [Some b, None], queue_length = 2,
    q_length_mask = 1, q_head = 0, q_tail = 1\<rparr>"
  define r where "r = (\<lambda>i. \<lparr>r_buffers = q, current_buffer = b, exhausted_buffers_count = 0,
    bit_pointer = i, unconsumed_buffer_bytes_count = 1, is_at_initial_buffer = False\<rparr>)"
  have "queue_repr q [b]" unfolding queue_repr_def
    by (rule exI [of _ 1]) (auto simp: q_def ring_items_def intro!: exI [of _ 0])
  then have at: "reader_at (r (int i)) [] b [] i" if "i \<le> 8" for i
    using that by (simp add: reader_at_def r_def readable_def buffer_bytes_def b_def buffer_make_def)
  from reader_snapshot_restores [OF at [of 0] _ at [of 5]]
  have "\<exists>r''. reader_restore_snapshot (r 5) (reader_take_snapshot (r 0)) = Some r'' \<and>
     reader_get_bits_available r'' = 8" by (auto simp: r_def reader_get_bits_available_def)
  moreover have "r 0 \<noteq> r 5" by (simp add: r_def)
  ultimately show ?thesis by blast
qed

text \<open>C22 (error): reading a bit from an exhausted reader answers zero and sets an error.\<close>

theorem reader_underflow_is_error:
  assumes "reader_bits r []"
  shows "\<exists>c'. reader_read_bit r c = Some (0, r, c') \<and> context_is_errored c' \<and>
     (context_is_errored c \<longrightarrow> c' = c)"
  using reader_read_bit_empty [OF assms, of c]
  by (simp add: reader_set_underflow_error_def set_error_first_wins)

lemma reader_underflow_is_error_witness:
  "\<exists>r c c'. reader_read_bit r c = Some (0, r, c') \<and> context_is_errored c'"
proof -
  from fresh_context obtain c where c: "ctx_ok lavish c" by blast
  from reader_init_correct [OF c] ctx_ok_no_error obtain r where "reader_bytes r []"
    by (metis lavish_never_refuses)
  from reader_underflow_is_error [OF reader_bytes_bits [OF this, simplified]] show ?thesis by blast
qed

text \<open>
  C23 (refinement): any run of pushes and pops on the fixed queue does exactly what a list with room
  for \<open>2 ^ k - 1\<close> items does: the same items come out, a push into a full queue and a pop from an
  empty one abort, and the queue counts what is left.
\<close>

theorem fixed_queue_refines_list:
  assumes "fqueue_repr k q xs"
  shows "case run_bounded_list (2 ^ k - 1) ops xs of
      None \<Rightarrow> run_queue fqueue_push fqueue_pop ops q = None
    | Some (out, ys) \<Rightarrow> \<exists>q'. run_queue fqueue_push fqueue_pop ops q = Some (out, q') \<and>
        fqueue_repr k q' ys \<and> fqueue_get_count q' = int (length ys)"
  using fq.run_bounded [OF assms, of ops] fqueue_count by (fastforce split: option.splits)

lemma fixed_queue_refines_list_witness:
  "\<exists>(q :: nat fixed_queue) q'. run_queue fqueue_push fqueue_pop [Push 4, Push 5, Pop, Push 6, Pop] q =
     Some ([4, 5], q') \<and> fqueue_get_count q' = 1"
proof -
  define q :: "nat fixed_queue" where
    "q = \<lparr>fq_value_size = 8, fq_values = uninitialised 4, fq_length_mask = 3, fq_head = 0, fq_tail = 0\<rparr>"
  have r: "fqueue_repr 2 q []" by (simp add: fqueue_repr_def ring_items_def q_def)
  from fixed_queue_refines_list [OF r, of "[Push 4, Push 5, Pop, Push 6, Pop]"] show ?thesis by auto
qed

text \<open>
  C24 (refinement): any run of insertions, uses and evictions on the least-recently-used queue does
  exactly what a list with room for \<open>n\<close> items and the most recently used one in front does: the
  same items are evicted, an insertion beyond the room aborts, the handles its client keeps stay
  those of the list, and the queue reports that it is full exactly when the list is.
\<close>

theorem lru_refines_recency_list:
  assumes "lru_repr n q (zip hs (map Some xs))" and "length hs = length xs"
  shows "case run_recency n ops xs of
      None \<Rightarrow> run_cache lru_queue_push lru_queue_set_value lru_queue_bump lru_queue_pop ops q hs = None
    | Some (out, ys) \<Rightarrow> \<exists>q' hs'.
        run_cache lru_queue_push lru_queue_set_value lru_queue_bump lru_queue_pop ops q hs = Some (out, q', hs') \<and>
        lru_repr n q' (zip hs' (map Some ys)) \<and> length hs' = length ys \<and>
        (lru_queue_is_overflowing q' \<longleftrightarrow> length ys = n)"
proof (cases "run_recency n ops xs")
  case None
  then show ?thesis using lru.run_refines [OF assms, of ops] by simp
next
  case (Some result)
  then obtain out ys q' hs' where "result = (out, ys)"
    "run_cache lru_queue_push lru_queue_set_value lru_queue_bump lru_queue_pop ops q hs = Some (out, q', hs')"
    "lru_repr n q' (zip hs' (map Some ys))" "length hs' = length ys"
    using lru.run_refines [OF assms, of ops] by (cases result) auto
  then show ?thesis using Some lru_overflowing by fastforce
qed

lemma lru_refines_recency_list_witness:
  "\<exists>(q :: nat lru_queue) q' hs'. run_cache lru_queue_push lru_queue_set_value lru_queue_bump lru_queue_pop
     [Insert 4, Insert 5, Bump 1, Evict] q [] = Some ([5], q', hs') \<and> length hs' = 1"
proof -
  define q :: "nat lru_queue" where "q = \<lparr>lru_list = \<lparr>fal_base = 0, fal_entries = [None, None],
    fal_free_slots = \<lparr>fs_values = [Some (0, 1), Some (0, 0)], fs_index = 2, fs_item_size = 8, fs_item_capacity = 2\<rparr>,
    fal_head = None, fal_tail = None\<rparr>\<rparr>"
  have "fal_state 2 (lru_list q) [] [(0, 0), (0, 1)]"
    by (auto simp: q_def fal_state_def fstack_repr_def fal_slots_def less_2_cases_iff lessThan_def image_iff
        less_Suc_eq_0_disj numeral_2_eq_2)
  then have r: "lru_repr 2 q (zip [] (map Some []))" by (auto simp: lru_repr_def fal_repr_def)
  from lru_refines_recency_list [OF r, of "[Insert 4, Insert 5, Bump 1, Evict]"] show ?thesis by auto
qed

section \<open>Context\<close>

text \<open>
  C25 (safety): two allocations whose sizes do not wrap are adjacent, disjoint and inside the arena.
\<close>

theorem arena_pieces_disjoint:
  assumes "arena_allocate a n m = Some (p, a')" and "arena_allocate a' n' m' = Some (p', a'')"
    and "0 \<le> n" and "0 \<le> n'" and "unat (arena_offset a) + nat n * unat m + nat n' * unat m' < 2 ^ 64"
  shows "unat p + nat n * unat m = unat p' \<and> unat p' + nat n' * unat m' < unat (arena_length a) \<and>
     unat (arena_offset a'') = unat p' + nat n' * unat m'"
proof -
  have step: "unat q = unat (arena_offset b) \<and> unat (arena_offset b') = unat (arena_offset b) + nat k * unat s \<and>
      unat (arena_offset b') < unat (arena_length b) \<and> arena_length b' = arena_length b"
    if a: "arena_allocate b k s = Some (q, b')" and k: "0 \<le> k"
      and small: "unat (arena_offset b) + nat k * unat s < 2 ^ 64" for b k s q b'
  proof -
    have "word_of_int k * s = (of_nat (nat k * unat s) :: u64)" using k by simp
    then have "arena_offset b + word_of_int k * s = of_nat (unat (arena_offset b) + nat k * unat s)" by simp
    then have "unat (arena_offset b + word_of_int k * s) = unat (arena_offset b) + nat k * unat s"
      using small unat_of_nat_small by metis
    then show ?thesis using a by (auto simp: arena_allocate_def Let_def word_less_nat_alt split: if_splits)
  qed
  from step [OF assms(1,3)] assms(5) have one: "unat p = unat (arena_offset a)"
    "unat (arena_offset a') = unat (arena_offset a) + nat n * unat m" "arena_length a' = arena_length a" by simp_all
  with step [OF assms(2,4)] assms(5) show ?thesis by simp
qed

lemma arena_pieces_disjoint_witness:
  "\<exists>a a' a''. arena_allocate a 3 8 = Some (0, a') \<and> arena_allocate a' 5 1 = Some (24, a'') \<and>
     unat (0 :: u64) + nat 3 * unat (8 :: u64) = unat (24 :: u64)"
proof -
  have a: "arena_allocate \<lparr>arena_present = True, arena_offset = 0, arena_length = 100\<rparr> 3 8 =
      Some (0, \<lparr>arena_present = True, arena_offset = 24, arena_length = 100\<rparr>)"
    "arena_allocate \<lparr>arena_present = True, arena_offset = 24, arena_length = 100\<rparr> 5 1 =
      Some (24, \<lparr>arena_present = True, arena_offset = 29, arena_length = 100\<rparr>)"
    by (simp_all add: arena_allocate_def)
  have "unat (0 :: u64) + nat 3 * unat (8 :: u64) = unat (24 :: u64)"
    by (rule conjunct1 [OF arena_pieces_disjoint [OF a]]) simp_all
  with a show ?thesis by blast
qed

text \<open>
  C26 (error): the size check of the arena is done on the wrapped product, so a request for
  \<open>2 ^ 64\<close> bytes is granted with no bytes behind it.
\<close>

theorem arena_size_check_wraps:
  assumes "arena_offset a < arena_length a"
  shows "arena_allocate a (2 ^ 61) 8 = Some (arena_offset a, a)"
proof -
  have "word_of_int (2 ^ 61) * 8 = (0 :: u64)" by (transfer, simp add: take_bit_eq_mod)
  then show ?thesis using assms unfolding arena_allocate_def Let_def by (simp only: add_0_right) simp
qed

lemma arena_size_check_wraps_witness:
  "arena_allocate \<lparr>arena_present = True, arena_offset = 0, arena_length = 1\<rparr> (2 ^ 61) 8 =
     Some (0, \<lparr>arena_present = True, arena_offset = 0, arena_length = 1\<rparr>)"
  using arena_size_check_wraps [of "\<lparr>arena_present = True, arena_offset = 0, arena_length = 1\<rparr>"] by simp

section \<open>Stacks\<close>

text \<open>
  C27 (refinement): any run of pushes, pops and peeks on the fixed stack does exactly what a list
  with room for \<open>n\<close> items does: the same items come out, a push onto a full stack and a pop or a
  peek on an empty one abort, and nothing else does; the stack counts what is left.
\<close>

theorem fixed_stack_refines_list:
  assumes "fstack_repr n s xs"
  shows "case run_bounded_lifo n ops xs of
      None \<Rightarrow> run_stack fstack_push fstack_pop fstack_peek ops s = None
    | Some (out, ys) \<Rightarrow> \<exists>s'. run_stack fstack_push fstack_pop fstack_peek ops s = Some (out, s') \<and>
        fstack_repr n s' ys \<and> fstack_get_count s' = int (length ys)"
  using fs.run_bounded [OF assms, of ops] fstack_count by (fastforce split: option.splits)

lemma fixed_stack_refines_list_witness:
  "\<exists>(s :: nat fixed_stack) s'.
     run_stack fstack_push fstack_pop fstack_peek [Push_Op 4, Push_Op 5, Pop_Op, Peek_Op] s = Some ([5, 4], s') \<and>
     fstack_repr 2 s' [4] \<and>
     run_stack fstack_push fstack_pop fstack_peek [Push_Op 4, Push_Op 5, Push_Op 6] s = None"
proof -
  define s :: "nat fixed_stack" where
    "s = \<lparr>fs_values = uninitialised 2, fs_index = 0, fs_item_size = 8, fs_item_capacity = 2\<rparr>"
  have r: "fstack_repr 2 s []" by (simp add: fstack_repr_def s_def)
  from fixed_stack_refines_list [OF r, of "[Push_Op 4, Push_Op 5, Pop_Op, Peek_Op]"]
    fixed_stack_refines_list [OF r, of "[Push_Op 4, Push_Op 5, Push_Op 6]"]
  show ?thesis by auto
qed

section \<open>JSON\<close>

text \<open>
  C28 (refinement, safety): on a well-formed stack the JSON state machine does what its list
  version does, so none of its assertions fails: a refused token leaves the stack alone, except
  that \<open>START\<close> has become \<open>VALUE\<close>, and the stack stays well formed.
\<close>

theorem state_machine_refines:
  assumes "jsm_repr n m st" and "jsm_inv n st"
  shows "\<exists>m'. jsm_process_token m k = Some (jsm_next n st k \<noteq> None, m') \<and>
     (case jsm_next n st k of
        Some st' \<Rightarrow> jsm_repr n m' st' \<and> jsm_inv n st'
      | None \<Rightarrow> jsm_repr n m' (rejected st) \<and> jsm_inv n (rejected st))"
  using jsm_process_refines [OF assms, of k] jsm_next_inv [OF assms(2), of k] rejected_inv [OF assms(2)]
  by (auto simp: outcome_def split: option.splits)

lemma state_machine_refines_witness:
  "\<exists>m m'. jsm_process_token m JSON_TOKEN_ARRAY_OPEN = Some (True, m') \<and>
     jsm_repr 512 m' [JSON_STATE_ARRAY_START, JSON_STATE_ROOT]"
proof -
  from fresh_room [of 600] obtain c where "600 < arena_free c" by auto
  from jsm_init_repr [OF this] obtain m where
    "jsm_repr 512 m [JSON_STATE_START, JSON_STATE_ROOT]" by blast
  from state_machine_refines [OF this, of JSON_TOKEN_ARRAY_OPEN] show ?thesis
    by (auto simp: start_value_def push_within_def)
qed

text \<open>
  C29 (functional): whatever tokens a fresh machine takes to the end form, white space aside, a
  JSON document nested at most as deep as the stack; and it always answers.
\<close>

theorem accepted_tokens_are_json:
  assumes "600 < arena_free c"
  shows "accepts_tokens c ks \<noteq> None \<and> (accepts_tokens c ks = Some True \<longrightarrow> json_document 512 (solid ks))"
  using accepts_tokens_finishes [OF assms] accepted_is_document [of 512 ks] by simp

lemma accepted_tokens_are_json_witness:
  "\<exists>c. accepts_tokens c [JSON_TOKEN_ARRAY_OPEN, JSON_TOKEN_WHITESPACE, JSON_TOKEN_ARRAY_CLOSE] = Some True \<and>
     json_document 512 [JSON_TOKEN_ARRAY_OPEN, JSON_TOKEN_ARRAY_CLOSE]"
proof -
  from fresh_room [of 600] obtain c where c: "600 < arena_free c" by auto
  let ?ks = "[JSON_TOKEN_ARRAY_OPEN, JSON_TOKEN_WHITESPACE, JSON_TOKEN_ARRAY_CLOSE]"
  have "accepts_tokens c ?ks = Some True"
    by (simp add: accepts_tokens_finishes [OF c] start_value_def push_within_def)
  with accepted_tokens_are_json [OF c, of ?ks] show ?thesis by auto
qed

text \<open>
  C30 (functional): a fresh machine takes to the end every JSON document nested at most 511 deep, with
  any white space before, between and after its tokens, outside strings and not before a byte order mark.
\<close>

theorem json_tokens_are_accepted:
  assumes "spaced_document d ks" and "d < 512" and "600 < arena_free c"
  shows "accepts_tokens c ks = Some True"
  using spaced_document_accepted [OF assms(1), of 512] assms by (simp add: accepts_tokens_finishes)

lemma json_tokens_are_accepted_witness:
  "\<exists>c. accepts_tokens c [JSON_TOKEN_BOM, JSON_TOKEN_WHITESPACE, JSON_TOKEN_ARRAY_OPEN, JSON_TOKEN_WHITESPACE,
     JSON_TOKEN_STRING_DELIMITER, JSON_TOKEN_STRING_DELIMITER, JSON_TOKEN_WHITESPACE, JSON_TOKEN_ARRAY_CLOSE,
     JSON_TOKEN_WHITESPACE] = Some True"
proof -
  from fresh_room [of 600] obtain c where c: "600 < arena_free c" by auto
  have "json_value 2 ([JSON_TOKEN_ARRAY_OPEN] @ [JSON_TOKEN_STRING_DELIMITER, JSON_TOKEN_STRING_DELIMITER] @
      [JSON_TOKEN_ARRAY_CLOSE])"
    using array [OF last_element [OF string [of "[]" 0]]] by (simp add: numeral_2_eq_2)
  then have "spaced_document 2 [JSON_TOKEN_BOM, JSON_TOKEN_WHITESPACE, JSON_TOKEN_ARRAY_OPEN,
      JSON_TOKEN_WHITESPACE, JSON_TOKEN_STRING_DELIMITER, JSON_TOKEN_STRING_DELIMITER, JSON_TOKEN_WHITESPACE,
      JSON_TOKEN_ARRAY_CLOSE, JSON_TOKEN_WHITESPACE]" by (simp add: spaced_document_def)
  from json_tokens_are_accepted [OF this _ c] show ?thesis by auto
qed

section \<open>JSON text\<close>

text \<open>
  C31 (equivalence): the checks of \<open>utf8.c\<close> never abort on a sequence and accept exactly what the
  grammar of RFC 3629 accepts and, beyond it, the forms it excludes by their second byte
  (\<open>utf8_unchecked\<close>): overlong ones, surrogates, numbers above \<open>10FFFF\<close>.  A sequence of the grammar
  encodes one scalar value, and the bits the functions take out of it are that value's.
\<close>

theorem utf8_accepts_exactly:
  assumes "bs \<noteq> []"
  shows "utf8_are_continuation_bytes_valid bs (int (length bs)) \<noteq> None \<and>
    (utf8_get_sequence_length_by_first_byte (hd bs) = int (length bs) \<and>
       utf8_are_continuation_bytes_valid bs (int (length bs)) = Some True \<longleftrightarrow>
     utf8_rfc3629 bs \<or> utf8_unchecked bs) \<and>
    (utf8_unchecked bs \<longrightarrow> \<not> utf8_rfc3629 bs) \<and>
    (utf8_rfc3629 bs \<longleftrightarrow> (\<exists>cp. utf8_scalar cp \<and> bs = utf8_encode cp)) \<and>
    (utf8_rfc3629 bs \<longrightarrow> utf8_scalar (utf8_decode bs) \<and> bs = utf8_encode (utf8_decode bs))"
proof -
  obtain b r where bs: "bs = b # r" using assms by (cases bs) auto
  have "utf8_decode bs = cp" if "utf8_scalar cp" and cp: "bs = utf8_encode cp" for cp
  proof -
    have "cp < 0x110000" using that(1) by (auto simp: utf8_scalar_def)
    then show ?thesis unfolding cp by (rule utf8_encode_correct [THEN conjunct2])
  qed
  then have decode: "utf8_rfc3629 bs \<longrightarrow> utf8_scalar (utf8_decode bs) \<and> bs = utf8_encode (utf8_decode bs)"
    unfolding grammar_is_image by metis
  have "utf8_are_continuation_bytes_valid bs (int (length bs)) \<noteq> None"
    unfolding bs continuation_bytes_checked by simp
  with decode well_formed_iff [OF assms, unfolded utf8_well_formed_def] unchecked_not_rfc [of bs]
    grammar_is_image [of bs] show ?thesis by blast
qed

text \<open>The Euro sign, a surrogate that is let through, a lone continuation byte that is not.\<close>

lemma utf8_accepts_exactly_witness:
  "utf8_are_continuation_bytes_valid [0xE2, 0x82, 0xAC] 3 = Some True \<and>
   utf8_decode [0xE2, 0x82, 0xAC] = 0x20AC \<and>
   utf8_are_continuation_bytes_valid [0xED, 0xA0, 0x80] 3 = Some True \<and> \<not> utf8_rfc3629 [0xED, 0xA0, 0x80] \<and>
   utf8_get_sequence_length_by_first_byte 0x80 \<noteq> 1"
proof (intro conjI)
  have euro: "utf8_rfc3629 [0xE2, 0x82, 0xAC]" and surrogate: "utf8_unchecked [0xED, 0xA0, 0x80]"
    and lone: "\<not> utf8_rfc3629 [0x80]" "\<not> utf8_unchecked [0x80]" by (simp_all add: utf8_tail_def)
  have "utf8_are_continuation_bytes_valid [0xE2, 0x82, 0xAC] (int (length [0xE2, 0x82, 0xAC :: byte])) = Some True"
    using utf8_accepts_exactly [of "[0xE2, 0x82, 0xAC]"] euro by blast
  then show "utf8_are_continuation_bytes_valid [0xE2, 0x82, 0xAC] 3 = Some True" by simp
  show "utf8_decode [0xE2, 0x82, 0xAC] = 0x20AC" by code_simp
  have "utf8_are_continuation_bytes_valid [0xED, 0xA0, 0x80] (int (length [0xED, 0xA0, 0x80 :: byte])) = Some True \<and>
      \<not> utf8_rfc3629 [0xED, 0xA0, 0x80]"
    using utf8_accepts_exactly [of "[0xED, 0xA0, 0x80]"] surrogate by blast
  then show "utf8_are_continuation_bytes_valid [0xED, 0xA0, 0x80] 3 = Some True" "\<not> utf8_rfc3629 [0xED, 0xA0, 0x80]"
    by simp_all
  have "\<not> (utf8_get_sequence_length_by_first_byte (hd [0x80]) = int (length [0x80 :: byte]) \<and>
      utf8_are_continuation_bytes_valid [0x80] (int (length [0x80 :: byte])) = Some True)"
    using utf8_accepts_exactly [of "[0x80]"] lone by blast
  then show "utf8_get_sequence_length_by_first_byte 0x80 \<noteq> 1"
    by (simp add: utf8_are_continuation_bytes_valid_def)
qed

text \<open>
  C32 (functional): the detokenizer never aborts on a token with the payload of its kind; it
  writes the text of the token, nothing else, and answers the number of bytes.
\<close>

theorem detokenizer_writes_text:
  assumes "bytes_offered M w c bytes" and "token_shaped tok"
  shows "\<exists>w' c'. json_detokenizer_write w c tok = Some (int (length (token_bytes tok)), w', c') \<and>
     bytes_offered M w' c' (bytes @ token_bytes tok)"
  using json_detokenizer_writes [OF assms] by (simp add: wrote_def)

lemma detokenizer_writes_text_witness:
  "\<exists>w c w' c'. json_detokenizer_write w c (simple_token JSON_TOKEN_TRUE) = Some (4, w', c') \<and>
     bytes_offered lavish w' c' (chrs ''true'')"
proof -
  from fresh_offered obtain w c where o: "bytes_offered lavish w c []" by blast
  have "token_shaped (simple_token JSON_TOKEN_TRUE)" by (simp add: token_shaped_def simple_token_def)
  from detokenizer_writes_text [OF o this] show ?thesis
    by (auto simp: token_bytes_def simple_token_def chrs_def)
qed

text \<open>
  C33 (safety, error): reading a token never aborts and sets no error, as long as all the bytes the
  reader has left lie in its last buffer (\<open>at_last\<close>; restoring a snapshot across buffers is
  broken).  Either the answer is the invalid token and no byte is consumed, or the bytes consumed
  are exactly the text of the token and the state machine has taken its kind.
\<close>

theorem tokenizer_is_lossless:
  assumes "jsm_repr n (tok_jsm t) st" and "jsm_inv n st" and "at_last (tok_reader t) (b # bs)"
  shows "\<exists>tok t'. json_tokenizer_parse_next t c = Some (tok, t', c) \<and>
     (if token_kind tok = JSON_TOKEN_INVALID
      then at_last (tok_reader t') (b # bs) \<and> (\<exists>st'\<in>{st, rejected st}. jsm_repr n (tok_jsm t') st')
      else token_ok tok \<and> (\<exists>st' rest. jsm_next n st (token_kind tok) = Some st' \<and>
        jsm_repr n (tok_jsm t') st' \<and> at_last (tok_reader t') rest \<and> b # bs = token_bytes tok @ rest))"
  using parse_next_cases [OF assms, of c] token_ok_valid by (cases, fastforce, fastforce)

lemma tokenizer_is_lossless_witness:
  "\<exists>t tok t' c. json_tokenizer_parse_next t c = Some (tok, t', c) \<and> tok_reader t \<noteq> reader_zero"
proof -
  from fresh_reader [of "chrs ''[1]''"] obtain r where r: "at_last r (chrs ''[1]'')" by (auto simp: chrs_def)
  from fresh_room [of 600] obtain c where "600 < arena_free c" by auto
  from json_tokenizer_init_correct [OF this, of r] obtain t :: json_tokenizer where
    t: "tok_reader t = r" "jsm_repr 512 (tok_jsm t) [JSON_STATE_START, JSON_STATE_ROOT]" by blast
  have "reader_get_bytes_available reader_zero = Some 0"
    by (simp add: reader_get_bytes_available_def reader_zero_def)
  then have "r \<noteq> reader_zero" using reader_bytes_available [OF at_last_bytes [OF r]] by (auto simp: chrs_def)
  with tokenizer_is_lossless [OF t(2), of "chr CHR ''[''" "chrs ''1]''" c] t r show ?thesis
    by (auto simp: chrs_def)
qed

section \<open>JSON compression\<close>

text \<open>
  C34 (refinement): the stream a decompressor can follow is any path of \<open>coded\<close> steps from its
  place: it takes the steps one by one, writes their text and arrives at the end of the path.
\<close>

theorem decompressor_follows_stream:
  assumes "coded x script out y" and "decompressing M x \<sigma> (script @ rest) bytes"
  shows "\<exists>r. jd_step\<^sup>*\<^sup>* \<sigma> r \<and> decompressing M y r rest (bytes @ out)"
  using assms by (rule coded_steps)

lemma decompressor_follows_stream_witness:
  "\<exists>y \<sigma> r. jd_step\<^sup>*\<^sup>* \<sigma> r \<and> decompressing lavish json_start \<sigma>
       (map (\<lambda>n. (replicate 18 1, n)) [kind_code JSON_TOKEN_ARRAY_OPEN, kind_code JSON_TOKEN_ARRAY_CLOSE]) [] \<and>
     decompressing lavish y r [] (chrs ''[]'') \<and> \<sigma> \<noteq> r"
proof -
  let ?script = "map (\<lambda>n. (replicate 18 1, n)) [kind_code JSON_TOKEN_ARRAY_OPEN, kind_code JSON_TOKEN_ARRAY_CLOSE]"
  have "\<forall>n\<in>set [kind_code JSON_TOKEN_ARRAY_OPEN, kind_code JSON_TOKEN_ARRAY_CLOSE]. n < 18" by auto
  from fresh_kinds_decoder [OF this] obtain d where "decoder_ready d ?script" by auto
  from fresh_decompressing [OF this] obtain z s c where
    z: "decompressing lavish json_start (z, s, d, c) (?script @ []) []" by auto
  from empty_array_coded obtain y where y: "coded json_start ?script (chrs ''[]'') y"
    "p_stack y = [JSON_STATE_ROOT]" by blast
  from decompressor_follows_stream [OF y(1) z] obtain r where
    r: "jd_step\<^sup>*\<^sup>* (z, s, d, c) r" "decompressing lavish y r [] (chrs ''[]'')"
    by (auto simp del: decompressing.simps split_paired_Ex)
  have "(z, s, d, c) \<noteq> r"
  proof
    assume "(z, s, d, c) = r"
    then have "jsm_repr 512 (jd_jsm z) (p_stack json_start)" "jsm_repr 512 (jd_jsm z) (p_stack y)"
      using z r(2) by auto
    then show False using y(2) by (simp add: jsm_repr_def fstack_repr_def json_start_def)
  qed
  with r z show ?thesis by (metis append_Nil2)
qed

text \<open>
  C35 (error): a token kind the parser does not allow at this place stops the decompressor with an
  error in the context and nothing more written.
\<close>

theorem decompressor_refuses_illegal_token:
  assumes "decompressing M y (z, s, d, c) ((p_kinds y, kind_code k) # rest) bytes" and "\<not> in_string y"
    and "length (p_kinds y) = 18" and "jsm_next 512 (p_stack y) k = None"
  shows "\<exists>z' d' c'. json_decompressor_process_next_token z s d c = Some (False, z', s, d', c') \<and>
     context_is_errored c' \<and> bytes_offered M (sd_writer s) c bytes"
  using assms by (rule decompressor_refuses_kind)

lemma decompressor_refuses_illegal_token_witness:
  "\<exists>z s d c z' d' c'. json_decompressor_process_next_token z s d c = Some (False, z', s, d', c') \<and>
     context_is_errored c'"
proof -
  from fresh_kind_decoder [of "kind_code JSON_TOKEN_ARRAY_CLOSE"] obtain d where
    d: "decoder_ready d [(p_kinds json_start, kind_code JSON_TOKEN_ARRAY_CLOSE)]" by auto
  from fresh_decompressing [OF d] obtain z s c where
    z: "decompressing lavish json_start (z, s, d, c) [(p_kinds json_start, kind_code JSON_TOKEN_ARRAY_CLOSE)] []" by blast
  have "jsm_next 512 (p_stack json_start) JSON_TOKEN_ARRAY_CLOSE = None"
    by (simp add: json_start_def start_value_def scalar_kind_def)
  from decompressor_refuses_illegal_token [OF z json_start_outside(2) _ this] have
    "\<exists>z' d' c'. json_decompressor_process_next_token z s d c = Some (False, z', s, d', c') \<and>
      context_is_errored c'" by (auto simp: json_start_kinds)
  then show ?thesis by blast
qed

text \<open>
  C36 (error): a number whose fraction does not fit 16 bits, though its field has 64, is written
  outside the table of lengths: the compressor aborts.
\<close>

theorem long_fraction_aborts:
  assumes "json_repr b m" and "json_roomy m k" and "has_frac (number_flags n)"
    and "2 ^ 16 \<le> unat (fraction_part n)"
  shows "write_number b e c n = None"
  using assms by (rule write_long_fraction)

lemma long_fraction_aborts_witness:
  "\<exists>b. \<forall>e c. write_number b e c (zero_number\<lparr>fraction_part := 65536, number_flags := 4\<rparr>) = None"
proof -
  from fresh_context obtain c0 where "arena_free c0 = 33554432" by blast
  with json_compression_base_init_correct [of c0] obtain b where "json_repr b json_fresh"
    by (auto simp: base_at_def)
  from long_fraction_aborts [OF this json_roomy_fresh [of 0],
      of "zero_number\<lparr>fraction_part := 65536, number_flags := 4\<rparr>"]
  have "write_number b e c (zero_number\<lparr>fraction_part := 65536, number_flags := 4\<rparr>) = None" for e c
    by (simp add: has_flags zero_number_def bit_iff_odd_drop_bit)
  then show ?thesis by blast
qed

section \<open>JSON shapes\<close>

text \<open>
  C37 (safety): a repository just initialised takes any sequence of events in the order of a document,
  of at most 254 objects, without an abort, and stays well formed: slots in use and free are
  disjoint, each completed shape has an entry of the cache to itself, every pointer to a token is
  within the document.
\<close>

theorem shapes_repository_runs:
  assumes "1634304 < arena_free c" and "events_ok (length ts) 0 es" and "objects_opened es \<le> 254"
  shows "\<exists>repo c' repo' ts'. jsr_init c = Some (repo, c') \<and> jsr_run bumped es repo ts = Some (repo', ts') \<and>
     (\<exists>free ps fs ms. jsr_state repo' (length ts) free ps fs ms)"
proof -
  from jsr_init_state [OF assms(1), of "length ts"] obtain repo c' free where
    i: "jsr_init c = Some (repo, c')" "jsr_state repo (length ts) free [] [] []" "length free = 1024" by blast
  from jsr_run_state [OF i(2), of es bumped] assms(2,3) i(3) i(1) show ?thesis by auto
qed

lemma shapes_repository_runs_witness:
  "\<exists>c repo c' r. jsr_init c = Some (repo, c') \<and>
     jsr_run (\<lambda>x. x + 1) (object_events 0 [65] @ object_events 1 [65]) repo
       (replicate 2 \<lparr>ref_shape = None, ref_shape_id = 0\<rparr>) = Some r"
proof -
  obtain c where c: "1634304 < arena_free c" using fresh_room [of 1634304] by auto
  have "events_ok 2 0 (object_events 0 [65] @ object_events 1 [65])"
    "objects_opened (object_events 0 [65] @ object_events 1 [65]) \<le> 254"
    by (simp_all add: object_events_def key_quote_def)
  with shapes_repository_runs [OF c, of "replicate 2 \<lparr>ref_shape = None, ref_shape_id = 0\<rparr>"
      "object_events 0 [65] @ object_events 1 [65]" "\<lambda>x. x + 1"] show ?thesis by auto
qed

text \<open>
  C38 (functional): when an object is closed its token refers to a shape only if the repository has a
  completed shape with exactly its keys; the first object with its keys refers to none.
\<close>

theorem shape_reference_sound:
  assumes "jsr_state repo (length ts) free (Some p # ps) fs ms" and "length fs < 255" and "length ms < 255"
    and "jsr_load repo p = Some x" and "sh_source x = Some (int t)"
  shows "\<exists>repo' ts'. jsr_process_token bumped repo ts token JSON_TOKEN_OBJECT_CLOSE state = Some (repo', ts') \<and>
     jsr_find_matching_shape repo x = Some (ref_shape (ts' ! t)) \<and>
     (\<forall>q. ref_shape (ts' ! t) = Some q \<longrightarrow>
        (\<exists>y. jsr_load repo' q = Some y \<and> sh_cache_entry y \<noteq> None \<and> keys_text y = keys_text x))"
  using jsr_complete_shape [OF assms(1-4)] assms(5) by (fastforce simp: jsr_process_token_def)

lemma shape_reference_sound_witness:
  "\<exists>repo ts p x repo' ts'. jsr_load repo p = Some x \<and>
     jsr_process_token (\<lambda>x. x) repo ts 0 JSON_TOKEN_OBJECT_CLOSE JSON_STATE_START = Some (repo', ts') \<and>
     jsr_find_matching_shape repo x = Some (ref_shape (ts' ! 0))"
proof -
  define ts where "ts = [\<lparr>ref_shape = None, ref_shape_id = 0\<rparr>]"
  obtain c where "1634304 < arena_free c" using fresh_room [of 1634304] by auto
  from jsr_init_state [OF this, of "length ts"] obtain repo free where
    i: "jsr_state repo (length ts) free [] [] []" "length free = 1024" by blast
  then obtain p free' where "free = p # free'" by (cases free) auto
  with i(1) have st: "jsr_state repo (length ts) (p # free') [] [] []" by simp
  have room: "length ([] :: int option list) < JSON_MAX_STATE_STACK_LENGTH" "0 < length ts"
    by (simp_all add: JSON_MAX_STATE_STACK_LENGTH_def ts_def)
  from jsr_open_state [OF st room _ refl, of JSON_STATE_START "\<lambda>x. x"]
  have "\<exists>repo' (ts' :: json_token_shape_reference list) x. jsr_state repo' (length ts') free' [Some p] [] [] \<and>
      jsr_load repo' p = Some x \<and> sh_source x = Some (int 0)"
    by (metis json_state.distinct)
  then obtain repo1 ts1 x where o: "jsr_state repo1 (length (ts1 :: json_token_shape_reference list)) free' [Some p] [] []"
    "jsr_load repo1 p = Some x" "sh_source x = Some (int 0)" by blast
  from shape_reference_sound [OF o(1) _ _ o(2,3)] o(2) show ?thesis by fastforce
qed

text \<open>
  C39 (error): 256 objects with different keys, one after another, abort: no entry of the cache is ever
  given a value, so the first one pushed out is followed as a null pointer.
\<close>

theorem shape_cache_overflow_aborts:
  assumes "1634304 < arena_free c" and "distinct ks" and "length ks = 256" and "\<forall>k\<in>set ks. length k \<le> 1024"
    and "t < length ts"
  shows "\<exists>repo c'. jsr_init c = Some (repo, c') \<and>
     jsr_run bumped (concat (map (object_events t) ks)) repo ts = None"
proof -
  from jsr_init_state [OF assms(1), of "length ts"] obtain repo c' free where
    i: "jsr_init c = Some (repo, c')" "jsr_state repo (length ts) free [] [] []" "length free = 1024"
    "\<forall>p x. jsr_load repo p = Some x \<longrightarrow> x = zero_shape" by blast
  have "known repo free {}" using i(4) by (rule known_fresh)
  from jsr_overflow [OF i(2) this assms(2,4,5,3)] i(1,3) show ?thesis by auto
qed

lemma shape_cache_overflow_aborts_witness:
  "\<exists>c repo c'. jsr_init c = Some (repo, c') \<and>
     jsr_run (\<lambda>x. x) (concat (map (object_events 0) (map (\<lambda>i. [of_nat i]) [0..<256]))) repo
       [\<lparr>ref_shape = None, ref_shape_id = 0\<rparr>] = None"
proof -
  obtain c where c: "1634304 < arena_free c" using fresh_room [of 1634304] by auto
  have "inj_on (\<lambda>i. [of_nat i :: byte]) {0..<256}"
    by (rule inj_onI) (simp add: word_of_nat_eq_iff take_bit_nat_eq_self)
  then have "distinct (map (\<lambda>i. [of_nat i :: byte]) [0..<256])" by (simp add: distinct_map)
  from shape_cache_overflow_aborts [OF c this, of 0 "[\<lparr>ref_shape = None, ref_shape_id = 0\<rparr>]" "\<lambda>x. x"]
  show ?thesis by auto
qed

text \<open>
  C40 (error): a shape given up because its keys take more than 1024 bytes keeps its length when its
  slot is taken again, which is at once: the next object's shape is given up at its first key byte.
\<close>

theorem long_key_spoils_slot:
  assumes "1634304 < arena_free c" and "length k = 1024" and "t < length ts"
  shows "\<exists>repo c' repo' ts'. jsr_init c = Some (repo, c') \<and>
     jsr_run bumped (object_events t (k @ [b]) @
       [Shape_Token t JSON_TOKEN_OBJECT_OPEN JSON_STATE_START, Key_Byte b']) repo ts = Some (repo', ts') \<and>
     jsr_get_current_shape repo' = Some None"
proof -
  from jsr_init_state [OF assms(1), of "length ts"] obtain repo c' free where
    i: "jsr_init c = Some (repo, c')" "jsr_state repo (length ts) free [] [] []" "length free = 1024"
    "\<forall>p x. jsr_load repo p = Some x \<longrightarrow> x = zero_shape" by blast
  then obtain p free' where free: "free = p # free'" by (cases free) auto
  have "p \<in> fpool_slots (jsr_shapes repo) 1024" using fpool_stateD(5) [OF jsr_stateD(1) [OF i(2)]] free by simp
  with i(2) obtain x where x: "jsr_load repo p = Some x" by (rule jsr_load_slot)
  then have "x = zero_shape" using i(4) by blast
  then have "sh_keys_length x = 0" by (simp add: zero_shape_def)
  from jsr_long_key [OF i(2) [unfolded free] x this assms(2,3)] i(1) show ?thesis by blast
qed

lemma long_key_spoils_slot_witness:
  "\<exists>c repo c' repo' ts'. jsr_init c = Some (repo, c') \<and>
     jsr_run (\<lambda>x. x) (object_events 0 (replicate 1024 65 @ [65]) @
       [Shape_Token 0 JSON_TOKEN_OBJECT_OPEN JSON_STATE_START, Key_Byte 66]) repo
       [\<lparr>ref_shape = None, ref_shape_id = 0\<rparr>] = Some (repo', ts') \<and>
     jsr_get_current_shape repo' = Some None"
proof -
  obtain c where c: "1634304 < arena_free c" using fresh_room [of 1634304] by auto
  have "length (replicate 1024 (65 :: byte)) = 1024" by simp
  from long_key_spoils_slot [OF c this, of 0 "[\<lparr>ref_shape = None, ref_shape_id = 0\<rparr>]" "\<lambda>x. x" 65 66]
  show ?thesis by auto
qed

end
